(* ===== verification/Yuki_Prelude.thy ===== *)
theory Yuki_Prelude
  imports Complex_Main "HOL-Library.AList" "HOL-Library.Char_ord" "HOL-Library.List_Lexorder"
begin

text \<open>
  Shared vocabulary of the development: the type of clock values, the helpers for tables
  that are modelled as lists of rows (a SQL table in row order) and for Python dictionaries
  that keep their insertion order (association lists updated in place), and the theorem
  collections the component proofs use.

  A SQL \<open>UPDATE\<close> is \<open>update_where\<close>, a primary-key lookup is \<open>find\<close>, and
  \<open>INSERT ... ON CONFLICT DO NOTHING\<close> is \<open>insert_ignore\<close>. A transaction that raises
  returns \<open>Inl\<close> of the error and no new store, which is its rollback.
\<close>

type_synonym clock = rat

named_theorems table_simps \<open>rewriting of row tables\<close>
named_theorems frame_simps \<open>fields that an operation leaves alone\<close>

section \<open>Python strings\<close>

text \<open>
  A character is its code point (of the first 256). \<open>py_space\<close> is \<open>str.isspace\<close> on them and
  \<open>blank s\<close> is \<open>not s.strip()\<close>. \<open>show_int\<close> is \<open>str(n)\<close>.
\<close>

definition py_space :: "char \<Rightarrow> bool" where
  "py_space c \<longleftrightarrow> (let n = (of_char c :: nat) in
     9 \<le> n \<and> n \<le> 13 \<or> 28 \<le> n \<and> n \<le> 32 \<or> n = 133 \<or> n = 160)"

definition blank :: "string \<Rightarrow> bool" where
  "blank s = list_all py_space s"

definition digit_char :: "nat \<Rightarrow> char" where
  "digit_char n = char_of (48 + n)"

fun show_nat :: "nat \<Rightarrow> string" where
  "show_nat n = (if n < 10 then [digit_char n] else show_nat (n div 10) @ [digit_char (n mod 10)])"

definition show_int :: "int \<Rightarrow> string" where
  "show_int n = (if n < 0 then CHR ''-'' # show_nat (nat (- n)) else show_nat (nat n))"

declare show_nat.simps [simp del]

section \<open>Tables as lists of rows\<close>

definition update_where :: "('r \<Rightarrow> bool) \<Rightarrow> ('r \<Rightarrow> 'r) \<Rightarrow> 'r list \<Rightarrow> 'r list" where
  "update_where p f rows = map (\<lambda>r. if p r then f r else r) rows"

definition insert_ignore :: "('r \<Rightarrow> 'k) \<Rightarrow> 'r \<Rightarrow> 'r list \<Rightarrow> 'r list" where
  "insert_ignore key r rows = (if key r \<in> set (map key rows) then rows else rows @ [r])"

definition lookup_by :: "('r \<Rightarrow> 'k) \<Rightarrow> 'k \<Rightarrow> 'r list \<Rightarrow> 'r option" where
  "lookup_by key k rows = List.find (\<lambda>r. key r = k) rows"

definition unique_key :: "('r \<Rightarrow> 'k) \<Rightarrow> 'r list \<Rightarrow> bool" where
  "unique_key key rows = distinct (map key rows)"

lemma update_where_Nil [simp, table_simps]: "update_where p f [] = []"
  by (simp add: update_where_def)

lemma update_where_Cons [simp, table_simps]:
  "update_where p f (r # rows) = (if p r then f r else r) # update_where p f rows"
  by (simp add: update_where_def)

lemma length_update_where [simp]: "length (update_where p f rows) = length rows"
  by (simp add: update_where_def)

lemma set_update_where:
  "set (update_where p f rows) = (\<lambda>r. if p r then f r else r) ` set rows"
  by (simp add: update_where_def)

lemma map_update_where_same:
  assumes "\<And>r. g (f r) = g r"
  shows "map g (update_where p f rows) = map g rows"
  using assms by (induction rows) simp_all

lemma map_update_where_on:
  assumes "\<And>r. r \<in> set rows \<Longrightarrow> p r \<Longrightarrow> g (f r) = g r"
  shows "map g (update_where p f rows) = map g rows"
  using assms by (induction rows) simp_all

lemma unique_key_update_on:
  assumes "\<And>r. r \<in> set rows \<Longrightarrow> p r \<Longrightarrow> key (f r) = key r"
  shows "unique_key key (update_where p f rows) = unique_key key rows"
  using map_update_where_on [of rows p key f] assms by (simp add: unique_key_def)

lemma unique_key_filter: "unique_key key rows \<Longrightarrow> unique_key key (filter p rows)"
  by (simp add: unique_key_def distinct_map_filter)

lemma unique_key_append:
  "unique_key key rows \<Longrightarrow> key r \<notin> key ` set rows \<Longrightarrow> unique_key key (rows @ [r])"
  by (simp add: unique_key_def)

lemma unique_key_update_where:
  assumes "\<And>r. key (f r) = key r"
  shows "unique_key key (update_where p f rows) = unique_key key rows"
  using map_update_where_same [of key f p rows] assms by (simp add: unique_key_def)

lemma update_where_all:
  assumes "r \<in> set (update_where p f rows)" "\<And>r. p r \<Longrightarrow> Q (f r)" "\<And>r. \<not> p r \<Longrightarrow> Q r"
  shows "Q r"
  using assms by (auto simp: set_update_where)

lemma lookup_by_Some_set: "lookup_by key k rows = Some r \<Longrightarrow> r \<in> set rows \<and> key r = k"
  by (auto simp: lookup_by_def find_Some_iff)

lemma lookup_by_None_iff: "lookup_by key k rows = None \<longleftrightarrow> k \<notin> key ` set rows"
  by (auto simp: lookup_by_def find_None_iff)

lemma lookup_by_update_where:
  assumes "\<And>r. key (f r) = key r"
  shows "lookup_by key k (update_where p f rows) =
    map_option (\<lambda>r. if p r then f r else r) (lookup_by key k rows)"
  using assms by (induction rows) (simp_all add: lookup_by_def)

lemma lookup_by_unique:
  "unique_key key rows \<Longrightarrow> r \<in> set rows \<Longrightarrow> lookup_by key (key r) rows = Some r"
  by (induction rows) (auto simp: lookup_by_def unique_key_def)

lemma unique_keyD:
  "unique_key key rows \<Longrightarrow> r \<in> set rows \<Longrightarrow> s \<in> set rows \<Longrightarrow> key r = key s \<Longrightarrow> r = s"
  by (metis lookup_by_unique option.inject)

lemma set_insert_ignore: "set rows \<subseteq> set (insert_ignore key r rows)"
  by (auto simp: insert_ignore_def)

lemma unique_key_insert_ignore:
  "unique_key key rows \<Longrightarrow> unique_key key (insert_ignore key r rows)"
  by (auto simp: insert_ignore_def unique_key_def)

lemma lookup_by_append:
  "lookup_by key k (rows @ rows') =
    (case lookup_by key k rows of None \<Rightarrow> lookup_by key k rows' | Some x \<Rightarrow> Some x)"
  by (induction rows) (simp_all add: lookup_by_def)

lemma lookup_by_single [simp]: "lookup_by key k [r] = (if key r = k then Some r else None)"
  by (simp add: lookup_by_def)

lemma lookup_insert_ignore_old:
  "lookup_by key k rows = Some x \<Longrightarrow> lookup_by key k (insert_ignore key r rows) = Some x"
  by (simp add: insert_ignore_def lookup_by_append)

end
