(* ===== verification/Json.thy ===== *)
theory Json
  imports Yuki_Prelude
begin

text \<open>
  JSON values as the program stores them in its text columns. An object is an association
  list in insertion order, as a Python \<open>dict\<close> is. Columns are modelled by the value
  their text denotes; \<open>encode_json\<close> (sorted keys) is the canonical form that the code
  compares. A string that is itself the JSON text of a value (a payload nested in a text field)
  is \<open>JText\<close> of that value, so \<open>JStr\<close> is a string that is not JSON text. The SQLite functions the queries use are \<open>json_get\<close>, \<open>json_set\<close> and
  \<open>json_remove\<close> on one key of an object, and \<open>json_path\<close> for a dotted path.
\<close>

datatype json =
    JNull
  | JBool bool
  | JInt int
  | JFloat rat
  | JStr string
  | JText json
  | JArr "json list"
  | JObj "(string \<times> json) list"

fun json_get :: "string \<Rightarrow> json \<Rightarrow> json option" where
  "json_get k (JObj kvs) = map_of kvs k"
| "json_get k _ = None"

fun json_set :: "string \<Rightarrow> json \<Rightarrow> json \<Rightarrow> json" where
  "json_set k v (JObj kvs) = JObj (AList.update k v kvs)"
| "json_set k v j = j"

fun json_remove :: "string \<Rightarrow> json \<Rightarrow> json" where
  "json_remove k (JObj kvs) = JObj (AList.delete k kvs)"
| "json_remove k j = j"

fun json_path :: "string list \<Rightarrow> json \<Rightarrow> json option" where
  "json_path [] j = Some j"
| "json_path (k # ks) j = (case json_get k j of None \<Rightarrow> None | Some v \<Rightarrow> json_path ks v)"

text \<open>SQLite's \<open>json_extract\<close> gives NULL both for a missing path and for JSON null.\<close>

definition json_extract :: "string list \<Rightarrow> json \<Rightarrow> json option" where
  "json_extract p j = (case json_path p j of Some JNull \<Rightarrow> None | r \<Rightarrow> r)"

fun is_text :: "json option \<Rightarrow> bool" where
  "is_text (Some (JStr _)) = True"
| "is_text (Some (JText _)) = True"
| "is_text _ = False"

fun is_object :: "json option \<Rightarrow> bool" where
  "is_object (Some (JObj _)) = True"
| "is_object _ = False"

text \<open>Python truth of a value, and of an optional one (a missing key reads as \<open>None\<close>).\<close>

fun truthy :: "json \<Rightarrow> bool" where
  "truthy JNull = False"
| "truthy (JBool b) = b"
| "truthy (JInt n) = (n \<noteq> 0)"
| "truthy (JFloat x) = (x \<noteq> 0)"
| "truthy (JStr s) = (s \<noteq> [])"
| "truthy (JText _) = True"
| "truthy (JArr xs) = (xs \<noteq> [])"
| "truthy (JObj kvs) = (kvs \<noteq> [])"

definition truthy_opt :: "json option \<Rightarrow> bool" where
  "truthy_opt v = (case v of None \<Rightarrow> False | Some j \<Rightarrow> truthy j)"

definition truthy_str :: "string option \<Rightarrow> bool" where
  "truthy_str v = (case v of None \<Rightarrow> False | Some s \<Rightarrow> s \<noteq> [])"

text \<open>
  Equality with an integer, in Python (where \<open>True == 1 == 1.0\<close>) and in SQL over an extracted
  value (where JSON true is 1). \<open>json_type\<close> is SQLite's, with ''missing'' for NULL.
\<close>

fun num_eq :: "json option \<Rightarrow> int \<Rightarrow> bool" where
  "num_eq (Some (JInt m)) n = (m = n)"
| "num_eq (Some (JFloat x)) n = (x = of_int n)"
| "num_eq (Some (JBool b)) n = ((if b then 1 else 0) = n)"
| "num_eq _ n = False"

fun json_type :: "json option \<Rightarrow> string" where
  "json_type None = ''missing''"
| "json_type (Some JNull) = ''null''"
| "json_type (Some (JBool b)) = (if b then ''true'' else ''false'')"
| "json_type (Some (JInt n)) = ''integer''"
| "json_type (Some (JFloat x)) = ''real''"
| "json_type (Some (JStr s)) = ''text''"
| "json_type (Some (JText j)) = ''text''"
| "json_type (Some (JArr xs)) = ''array''"
| "json_type (Some (JObj kvs)) = ''object''"

text \<open>\<open>json.dumps(value, sort_keys=True)\<close>: the value with the keys of every object sorted.\<close>

fun encode_json :: "json \<Rightarrow> json" where
  "encode_json (JArr xs) = JArr (map encode_json xs)"
| "encode_json (JObj kvs) =
     JObj (sort_key fst (map (\<lambda>kv. (fst kv, encode_json (snd kv))) kvs))"
| "encode_json j = j"

lemma json_get_set_same [simp]: "is_object (Some j) \<Longrightarrow> json_get k (json_set k v j) = Some v"
  by (cases j) (simp_all add: update_conv)

lemma json_get_set_other [simp]: "k \<noteq> k' \<Longrightarrow> json_get k (json_set k' v j) = json_get k j"
  by (cases j) (simp_all add: update_conv)

lemma json_get_remove_same [simp]: "json_get k (json_remove k j) = None"
  by (cases j) (simp_all add: delete_conv)

lemma json_get_remove_other [simp]: "k \<noteq> k' \<Longrightarrow> json_get k (json_remove k' j) = json_get k j"
  by (cases j) (simp_all add: delete_conv)

lemma is_object_set [simp]: "is_object (Some (json_set k v j)) = is_object (Some j)"
  by (cases j) simp_all

lemma is_object_remove [simp]: "is_object (Some (json_remove k j)) = is_object (Some j)"
  by (cases j) simp_all

lemma map_insort_key_fst:
  assumes "\<And>kv. fst (g kv) = fst kv"
  shows "map g (insort_key fst kv kvs) = insort_key fst (g kv) (map g kvs)"
  by (induction kvs) (simp_all add: assms)

lemma map_sort_key_fst:
  assumes "\<And>kv. fst (g kv) = fst kv"
  shows "map g (sort_key fst kvs) = sort_key fst (map g kvs)"
  by (induction kvs) (simp_all add: map_insort_key_fst [of g] assms)

lemma encode_json_idem [simp]: "encode_json (encode_json j) = encode_json j"
proof (induction j rule: encode_json.induct)
  case (2 kvs)
  let ?g = "\<lambda>kv. (fst kv, encode_json (snd kv))"
  have "map ?g (map ?g kvs) = map ?g kvs"
    using "2.IH" by simp
  then have "sort_key fst (map ?g (sort_key fst (map ?g kvs))) = sort_key fst (sort_key fst (map ?g kvs))"
    by (simp only: map_sort_key_fst [of ?g] fst_conv)
  then show ?case
    by (simp add: sort_key_id_if_sorted)
qed simp_all

lemma map_of_filter:
  "map_of xs k = (case filter (\<lambda>x. fst x = k) xs of [] \<Rightarrow> None | x # _ \<Rightarrow> Some (snd x))"
  by (induction xs) auto

lemma map_of_sort_key: "map_of (sort_key fst xs) k = map_of xs k"
  by (simp add: map_of_filter sort_key_stable)

lemma json_get_encode [simp]: "json_get k (encode_json j) = map_option encode_json (json_get k j)"
proof (cases j)
  case (JObj kvs)
  have "map_of (map (\<lambda>kv. (fst kv, encode_json (snd kv))) kvs) k = map_option encode_json (map_of kvs k)"
    by (induction kvs) auto
  then show ?thesis by (simp add: JObj map_of_sort_key)
qed simp_all

lemma is_object_encode [simp]: "is_object (Some (encode_json j)) = is_object (Some j)"
  by (cases j) simp_all

lemma json_get_object: "json_get k j = Some v \<Longrightarrow> is_object (Some j)"
  by (cases j) simp_all

end
