(* ===== verification/Work_Schema.thy ===== *)
theory Work_Schema
  imports Json
begin

text \<open>
  The durable tables of the Work runtime (\<open>runtime/work_schema_v1.py\<close>,
  \<open>subagent_schema.py\<close>, \<open>work_recovery_schema.py\<close>, \<open>work_wait_schema.py\<close>,
  \<open>work_budget_schema.py\<close>) and the columns of other components' tables that the Work
  operations read or write. A table is the list of its rows in insertion order, a nullable
  column is an \<open>option\<close>, a \<open>CHECK (state IN ...)\<close> column is a datatype, a JSON
  column is a \<open>json\<close> value, and the store \<open>db\<close> is the record of all tables.
  \<open>wf_db\<close> collects the key constraints that SQLite enforces.
\<close>

section \<open>Work rows\<close>

datatype work_state =
    Queued | Running | Waiting_external | Waiting_user | Suspended
  | Completed | Failed | Cancelled

definition work_state_name :: "work_state \<Rightarrow> string" where
  "work_state_name st = (case st of
     Queued \<Rightarrow> ''queued'' | Running \<Rightarrow> ''running''
   | Waiting_external \<Rightarrow> ''waiting_external'' | Waiting_user \<Rightarrow> ''waiting_user''
   | Suspended \<Rightarrow> ''suspended'' | Completed \<Rightarrow> ''completed''
   | Failed \<Rightarrow> ''failed'' | Cancelled \<Rightarrow> ''cancelled'')"

definition work_states :: "work_state list" where
  "work_states = [Queued, Running, Waiting_external, Waiting_user, Suspended,
     Completed, Failed, Cancelled]"

definition parse_work_state :: "string \<Rightarrow> work_state option" where
  "parse_work_state s = List.find (\<lambda>st. work_state_name st = s) work_states"

definition terminal :: "work_state \<Rightarrow> bool" where
  "terminal st = (st \<in> {Completed, Failed, Cancelled})"

record work_row =
  w_id :: string
  w_parent :: "string option"
  w_conversation :: string
  w_generation :: int
  w_source_key :: string
  w_source :: json
  w_goal :: string
  w_revision :: int
  w_state :: work_state
  w_reason :: "string option"
  w_models :: int
  w_tools :: int
  w_active_seconds :: rat
  w_sent :: int
  w_checkpoint :: json
  w_created :: clock
  w_updated :: clock

record scope_row =
  sc_conversation :: string
  sc_generation :: int
  sc_cancel_epoch :: int
  sc_fence :: int
  sc_owner :: "string option"
  sc_lease_until :: clock

datatype input_state = Pending | Staged | Consumed | Withdrawn

record input_row =
  in_id :: int
  in_conversation :: string
  in_generation :: int
  in_source_key :: string
  in_event_id :: "int option"
  in_work_id :: "string option"
  in_kind :: string
  in_state :: input_state
  in_attempt :: "string option"
  in_ready :: bool
  in_prepare_owner :: "string option"
  in_payload :: json
  in_created :: clock

datatype effect_state = Prepared | Accepted | Effect_failed | Unknown

record effect_row =
  ef_key :: string
  ef_work_id :: string
  ef_kind :: string
  ef_state :: effect_state
  ef_receipt :: json
  ef_created :: clock
  ef_updated :: clock

record journal_row =
  jn_work_id :: string
  jn_chain_id :: string
  jn_contract :: string
  jn_source_revision :: int
  jn_phase :: string
  jn_payload :: json
  jn_archived :: "json option"
  jn_updated :: clock

section \<open>Worker, recovery, wait and budget rows\<close>

record child_row =
  ch_work_id :: string
  ch_source_key :: string
  ch_brief :: json
  ch_result :: json
  ch_owner :: "string option"
  ch_fence :: int
  ch_lease_until :: clock
  ch_cancel_epoch :: int
  ch_notified_revision :: int
  ch_archived_at :: "clock option"

record recovery_row =
  rc_work_id :: string
  rc_activation_id :: string
  rc_exit_reason :: string
  rc_stage :: string
  rc_failure :: json
  rc_attempts :: int
  rc_not_before :: clock
  rc_updated :: clock

record delivery_row =
  dl_id :: string
  dl_work_id :: string
  dl_kind :: string
  dl_count :: int
  dl_state :: string
  dl_payload :: json
  dl_receipt :: json
  dl_created :: clock
  dl_updated :: clock

datatype wait_status = Active | Delivered | Wait_cancelled | Expired | Invalidated

record wait_row =
  wa_id :: string
  wa_work_id :: string
  wa_conversation :: string
  wa_generation :: int
  wa_principal_kind :: string
  wa_principal_id :: string
  wa_call_key :: string
  wa_request :: json
  wa_mode :: string
  wa_conditions :: json
  wa_status :: wait_status
  wa_deadline :: "clock option"
  wa_created :: clock
  wa_updated :: clock
  wa_delivered :: "clock option"

record budget_row =
  bg_root :: string
  bg_models :: int
  bg_tools :: int
  bg_model_limit :: "int option"
  bg_tool_limit :: "int option"

section \<open>Columns of other components that the Work operations use\<close>

record conversation_row =
  cv_id :: string
  cv_generation :: int

record sandbox_run_row =
  sr_request_id :: string
  sr_run_id :: "string option"
  sr_status :: string
  sr_source :: json
  sr_progress :: json
  sr_completion :: "json option"
  sr_conversation :: string

record continuation_row =
  ct_request_id :: string
  ct_state :: string
  ct_reason :: "string option"
  ct_updated :: clock

record automation_row =
  au_id :: int
  au_creator_kind :: string

record automation_run_row =
  ar_id :: int
  ar_automation_id :: int
  ar_status :: string

record initiative_run_row =
  ir_id :: string
  ir_state :: string
  ir_conversation :: string
  ir_generation :: int
  ir_presence_id :: string
  ir_space_id :: string

section \<open>The store\<close>

record db =
  conversations :: "conversation_row list"
  scopes :: "scope_row list"
  works :: "work_row list"
  inputs :: "input_row list"
  effects :: "effect_row list"
  journals :: "journal_row list"
  children :: "child_row list"
  recoveries :: "recovery_row list"
  deliveries :: "delivery_row list"
  waits :: "wait_row list"
  budgets :: "budget_row list"
  media_blobs :: "(string \<times> string) list"
  media_refs :: "(string \<times> string) list"
  sandbox_runs :: "sandbox_run_row list"
  continuations :: "continuation_row list"
  automations :: "automation_row list"
  automation_runs :: "automation_run_row list"
  initiative_runs :: "initiative_run_row list"

definition empty_db :: db where
  "empty_db = \<lparr>conversations = [], scopes = [], works = [], inputs = [], effects = [],
     journals = [], children = [], recoveries = [], deliveries = [], waits = [], budgets = [],
     media_blobs = [], media_refs = [], sandbox_runs = [], continuations = [], automations = [],
     automation_runs = [], initiative_runs = []\<rparr>"

text \<open>
  The primary-key and UNIQUE constraints of the tables. SQLite rejects a statement that
  would break one; the operations keep them by construction.
\<close>

definition wf_db :: "db \<Rightarrow> bool" where
  "wf_db d \<longleftrightarrow>
     unique_key cv_id (conversations d) \<and> unique_key sc_conversation (scopes d) \<and>
     unique_key w_id (works d) \<and> unique_key w_source_key (works d) \<and>
     unique_key in_id (inputs d) \<and> unique_key in_source_key (inputs d) \<and>
     unique_key ef_key (effects d) \<and> unique_key ch_work_id (children d) \<and>
     unique_key ch_source_key (children d) \<and>
     unique_key rc_work_id (recoveries d) \<and> unique_key dl_id (deliveries d) \<and>
     unique_key wa_id (waits d) \<and> unique_key wa_call_key (waits d) \<and>
     unique_key bg_root (budgets d)"

text \<open>The row id SQLite gives an inserted \<open>INTEGER PRIMARY KEY\<close>: one above the largest.\<close>

definition next_input_id :: "db \<Rightarrow> int" where
  "next_input_id d = fold (\<lambda>r m. max m (in_id r)) (inputs d) 0 + 1"

text \<open>
  Failures of the Work operations, with the code's own reason slugs: \<open>WorkConflict\<close>,
  \<open>ValueError\<close>, \<open>WorkBudgetExceeded\<close>, SQLAlchemy's \<open>NoResultFound\<close> from
  \<open>.one()\<close>, a violated UNIQUE or PRIMARY KEY constraint, \<open>KeyError\<close> and
  \<open>PermissionError\<close>.
\<close>

datatype work_error =
    Conflict string
  | Value_error string
  | Budget_exceeded string
  | No_result
  | Integrity string
  | Key_error string
  | Permission_error string

record work_lease =
  l_conversation :: string
  l_generation :: int
  l_cancel_epoch :: int
  l_fence :: int
  l_owner :: string
  l_work_id :: "string option"

lemma parse_work_state_name [simp]: "parse_work_state (work_state_name st) = Some st"
  by (cases st) (simp_all add: parse_work_state_def work_state_name_def work_states_def)

lemma parse_work_state_Some: "parse_work_state s = Some st \<Longrightarrow> work_state_name st = s"
  by (auto simp: parse_work_state_def find_Some_iff)

lemma fold_max_ge: "(m::int) \<le> fold (\<lambda>r m. max m (f r)) rows m"
proof (induction rows arbitrary: m)
  case (Cons a rows)
  show ?case
    using Cons.IH [of "max m (f a)"] by simp
qed simp

lemma fold_max_mem: "r \<in> set rows \<Longrightarrow> f r \<le> fold (\<lambda>r m. max m (f r)) rows (m::int)"
  by (induction rows arbitrary: m) (auto intro: order_trans [OF _ fold_max_ge])

lemma next_input_id_fresh: "r \<in> set (inputs d) \<Longrightarrow> in_id r < next_input_id d"
  using fold_max_mem [of r "inputs d" in_id 0] by (simp add: next_input_id_def)

end
