(* ===== verification/Work_Lease.thy ===== *)
theory Work_Lease
  imports Work_Schema
begin

text \<open>
  Activation leases (\<open>runtime/work_repository.py\<close>, \<open>WorkRepository._fence\<close> to
  \<open>_assert_lease\<close>, \<open>cancel_in_session\<close>; \<open>runtime/subagent_repository.py\<close>,
  \<open>acquire\<close>). A lease names the row it was cut from (a conversation's scope row, or a
  worker's row when it carries a work id) and is valid while that row still has its
  generation, cancel epoch, fence and owner and its deadline lies in the future.
  The clock is an argument of every operation; \<open>uuid4()\<close> is the owner argument.
\<close>

section \<open>The fence\<close>

text \<open>\<open>_lease_table\<close>: a lease with a (non-empty) work id lives in the worker table.\<close>

definition worker_lease :: "work_lease \<Rightarrow> bool" where
  "worker_lease l = truthy_str (l_work_id l)"

definition scope_fence :: "work_lease \<Rightarrow> clock \<Rightarrow> scope_row \<Rightarrow> bool" where
  "scope_fence l now s \<longleftrightarrow>
     sc_conversation s = l_conversation l \<and> sc_generation s = l_generation l \<and>
     sc_cancel_epoch s = l_cancel_epoch l \<and> sc_fence s = l_fence l \<and>
     sc_owner s = Some (l_owner l) \<and> sc_lease_until s > now"

definition child_fence :: "db \<Rightarrow> work_lease \<Rightarrow> clock \<Rightarrow> child_row \<Rightarrow> bool" where
  "child_fence d l now c \<longleftrightarrow>
     Some (ch_work_id c) = l_work_id l \<and> ch_cancel_epoch c = l_cancel_epoch l \<and>
     ch_fence c = l_fence l \<and> ch_owner c = Some (l_owner l) \<and> ch_lease_until c > now \<and>
     ch_archived_at c = None \<and>
     (\<exists>v\<in>set (conversations d). cv_id v = l_conversation l \<and> cv_generation v = l_generation l)"

definition lease_valid :: "db \<Rightarrow> clock \<Rightarrow> work_lease \<Rightarrow> bool" where
  "lease_valid d now l =
     (if worker_lease l then list_ex (child_fence d l now) (children d)
      else list_ex (scope_fence l now) (scopes d))"

definition lease_expiry :: "db \<Rightarrow> clock \<Rightarrow> work_lease \<Rightarrow> clock option" where
  "lease_expiry d now l =
     (if worker_lease l then map_option ch_lease_until (List.find (child_fence d l now) (children d))
      else map_option sc_lease_until (List.find (scope_fence l now) (scopes d)))"

definition assert_lease :: "db \<Rightarrow> clock \<Rightarrow> work_lease \<Rightarrow> work_error + unit" where
  "assert_lease d now l =
     (if lease_valid d now l then Inr () else Inl (Conflict ''work_activation_obsolete''))"

section \<open>Row updates of the lease columns\<close>

definition claim_scope :: "string \<Rightarrow> clock \<Rightarrow> scope_row \<Rightarrow> scope_row" where
  "claim_scope owner until s =
     s\<lparr>sc_owner := Some owner, sc_lease_until := until, sc_fence := sc_fence s + 1\<rparr>"

definition claim_child :: "string \<Rightarrow> clock \<Rightarrow> child_row \<Rightarrow> child_row" where
  "claim_child owner until c =
     c\<lparr>ch_owner := Some owner, ch_lease_until := until, ch_fence := ch_fence c + 1\<rparr>"

definition extend_scope :: "clock \<Rightarrow> scope_row \<Rightarrow> scope_row" where
  "extend_scope until s = s\<lparr>sc_lease_until := until\<rparr>"

definition extend_child :: "clock \<Rightarrow> child_row \<Rightarrow> child_row" where
  "extend_child until c = c\<lparr>ch_lease_until := until\<rparr>"

definition drop_scope :: "scope_row \<Rightarrow> scope_row" where
  "drop_scope s = s\<lparr>sc_owner := None, sc_lease_until := 0\<rparr>"

definition drop_child :: "child_row \<Rightarrow> child_row" where
  "drop_child c = c\<lparr>ch_owner := None, ch_lease_until := 0\<rparr>"

section \<open>Acquire, renew, release\<close>

definition valid_duration :: "rat \<Rightarrow> bool" where
  "valid_duration seconds \<longleftrightarrow> 1 \<le> seconds \<and> seconds \<le> 300"

text \<open>
  The read-only fast path of \<open>acquire\<close>: a missing conversation, another generation or an
  unexpired scope row rejects at once. \<open>True\<close> lets the writer phase run.
\<close>

definition acquire_observe :: "db \<Rightarrow> clock \<Rightarrow> string \<Rightarrow> int \<Rightarrow> bool" where
  "acquire_observe d now conv gen =
     (case lookup_by cv_id conv (conversations d) of
        None \<Rightarrow> False
      | Some v \<Rightarrow>
          cv_generation v = gen \<and>
          (case lookup_by sc_conversation conv (scopes d) of
             None \<Rightarrow> True
           | Some s \<Rightarrow> sc_generation s = gen \<and> \<not> sc_lease_until s > now))"

text \<open>
  The writer phase: \<open>INSERT ... SELECT\<close> from the conversation of that generation, or on
  conflict an update of an expired row of the same generation, with \<open>RETURNING\<close>.
\<close>

definition acquire_commit ::
  "db \<Rightarrow> clock \<Rightarrow> string \<Rightarrow> string \<Rightarrow> int \<Rightarrow> rat \<Rightarrow> work_lease option \<times> db" where
  "acquire_commit d now owner conv gen seconds =
     (if \<not> list_ex (\<lambda>v. cv_id v = conv \<and> cv_generation v = gen) (conversations d) then (None, d)
      else case lookup_by sc_conversation conv (scopes d) of
        None \<Rightarrow>
          (Some \<lparr>l_conversation = conv, l_generation = gen, l_cancel_epoch = 0, l_fence = 1,
                 l_owner = owner, l_work_id = None\<rparr>,
           d\<lparr>scopes := scopes d @
               [\<lparr>sc_conversation = conv, sc_generation = gen, sc_cancel_epoch = 0, sc_fence = 1,
                 sc_owner = Some owner, sc_lease_until = now + seconds\<rparr>]\<rparr>)
      | Some s \<Rightarrow>
          (if sc_generation s = gen \<and> sc_lease_until s \<le> now then
             (Some \<lparr>l_conversation = conv, l_generation = gen,
                    l_cancel_epoch = sc_cancel_epoch s, l_fence = sc_fence s + 1,
                    l_owner = owner, l_work_id = None\<rparr>,
              d\<lparr>scopes := update_where
                  (\<lambda>r. sc_conversation r = conv \<and> sc_generation r = gen \<and> sc_lease_until r \<le> now)
                  (claim_scope owner (now + seconds)) (scopes d)\<rparr>)
           else (None, d)))"

text \<open>
  \<open>acquire\<close> runs the two phases in sessions of their own, so the store and the clock may
  have moved in between: \<open>seen\<close> and \<open>t0\<close> are what the reader saw.
\<close>

definition acquire ::
  "db \<Rightarrow> clock \<Rightarrow> db \<Rightarrow> clock \<Rightarrow> string \<Rightarrow> string \<Rightarrow> int \<Rightarrow> rat \<Rightarrow>
   work_error + (work_lease option \<times> db)" where
  "acquire seen t0 d now owner conv gen seconds =
     (if \<not> valid_duration seconds then Inl (Value_error ''invalid_work_lease_duration'')
      else if \<not> acquire_observe seen t0 conv gen then Inr (None, d)
      else Inr (acquire_commit d now owner conv gen seconds))"

text \<open>The fenced \<open>UPDATE\<close>s of renewal and release, executed in their writer session.\<close>

definition renew_commit :: "db \<Rightarrow> clock \<Rightarrow> work_lease \<Rightarrow> rat \<Rightarrow> bool \<times> db" where
  "renew_commit d now l seconds =
     (lease_valid d now l,
      if worker_lease l then
        d\<lparr>children := update_where (child_fence d l now) (extend_child (now + seconds)) (children d)\<rparr>
      else
        d\<lparr>scopes := update_where (scope_fence l now) (extend_scope (now + seconds)) (scopes d)\<rparr>)"

definition renew ::
  "db \<Rightarrow> clock \<Rightarrow> db \<Rightarrow> clock \<Rightarrow> work_lease \<Rightarrow> rat \<Rightarrow> work_error + (bool \<times> db)" where
  "renew seen t0 d now l seconds =
     (if \<not> valid_duration seconds then Inl (Value_error ''invalid_work_lease_duration'')
      else if \<not> lease_valid seen t0 l then Inr (False, d)
      else Inr (renew_commit d now l seconds))"

definition release_commit :: "db \<Rightarrow> clock \<Rightarrow> work_lease \<Rightarrow> db" where
  "release_commit d now l =
     (if worker_lease l then
        d\<lparr>children := update_where (child_fence d l now) drop_child (children d)\<rparr>
      else d\<lparr>scopes := update_where (scope_fence l now) drop_scope (scopes d)\<rparr>)"

definition release :: "db \<Rightarrow> clock \<Rightarrow> db \<Rightarrow> clock \<Rightarrow> work_lease \<Rightarrow> db" where
  "release seen t0 d now l =
     (if \<not> lease_valid seen t0 l then d else release_commit d now l)"

section \<open>Worker leases and the hard boundary\<close>

text \<open>
  \<open>SubagentRepository.acquire\<close>: only a queued or running worker of the conversation's
  current generation, only over an expired lease of an unarchived row. An obsolete
  generation cancels the worker's Work instead.
\<close>

definition acquire_worker :: "db \<Rightarrow> clock \<Rightarrow> string \<Rightarrow> string \<Rightarrow> work_lease option \<times> db" where
  "acquire_worker d now owner wid =
     (case lookup_by w_id wid (works d) of
        None \<Rightarrow> (None, d)
      | Some w \<Rightarrow>
          if w_state w \<notin> {Queued, Running} then (None, d)
          else if map_option cv_generation (lookup_by cv_id (w_conversation w) (conversations d))
                    \<noteq> Some (w_generation w) then
            (None, d\<lparr>works := update_where (\<lambda>r. w_id r = wid)
               (\<lambda>r. r\<lparr>w_state := Cancelled, w_reason := Some ''generation_obsolete'',
                      w_checkpoint := json_remove ''accepted_control'' (w_checkpoint r),
                      w_updated := now\<rparr>) (works d)\<rparr>)
          else case List.find (\<lambda>c. ch_work_id c = wid \<and> ch_lease_until c \<le> now \<and>
                                   ch_archived_at c = None) (children d) of
            None \<Rightarrow> (None, d)
          | Some c \<Rightarrow>
              (Some \<lparr>l_conversation = w_conversation w, l_generation = w_generation w,
                     l_cancel_epoch = ch_cancel_epoch c, l_fence = ch_fence c + 1,
                     l_owner = owner, l_work_id = Some wid\<rparr>,
               d\<lparr>children := update_where
                   (\<lambda>c. ch_work_id c = wid \<and> ch_lease_until c \<le> now \<and> ch_archived_at c = None)
                   (claim_child owner (now + 60)) (children d),
                 works := update_where (\<lambda>r. w_id r = wid)
                   (\<lambda>r. r\<lparr>w_state := Running, w_updated := now\<rparr>) (works d)\<rparr>))"

text \<open>\<open>cancel_in_session\<close>: revoke every lease of a conversation and cancel its open Work.\<close>

definition revoke_scope :: "int option \<Rightarrow> scope_row \<Rightarrow> scope_row" where
  "revoke_scope generation s =
     (drop_scope s)\<lparr>sc_cancel_epoch := sc_cancel_epoch s + 1, sc_fence := sc_fence s + 1,
       sc_generation := (case generation of None \<Rightarrow> sc_generation s | Some g \<Rightarrow> g)\<rparr>"

definition revoke_child :: "child_row \<Rightarrow> child_row" where
  "revoke_child c = (drop_child c)\<lparr>ch_cancel_epoch := ch_cancel_epoch c + 1\<rparr>"

definition cancel_scope :: "db \<Rightarrow> clock \<Rightarrow> string \<Rightarrow> int option \<Rightarrow> db" where
  "cancel_scope d now conv generation =
     (let owned = (\<lambda>c. list_ex (\<lambda>w. w_id w = ch_work_id c \<and> w_conversation w = conv) (works d)) in
      d\<lparr>scopes := update_where (\<lambda>s. sc_conversation s = conv)
          (revoke_scope generation) (scopes d),
        children := update_where owned revoke_child (children d),
        works := update_where (\<lambda>w. w_conversation w = conv \<and> \<not> terminal (w_state w))
          (\<lambda>w. w\<lparr>w_state := Cancelled, w_reason := Some ''hard_boundary'',
                 w_checkpoint := json_remove ''accepted_control'' (w_checkpoint w),
                 w_revision := w_revision w + 1, w_updated := now\<rparr>) (works d),
        inputs := update_where
          (\<lambda>i. in_conversation i = conv \<and> in_state i \<in> {Pending, Staged})
          (\<lambda>i. i\<lparr>in_state := Withdrawn\<rparr>) (inputs d)\<rparr>)"


section \<open>The lease-table contract\<close>

text \<open>
  The scope table and the worker table follow one contract: claiming a row names a new
  owner and raises the fence, extending keeps the owner, dropping clears it. \<open>held\<close> says
  that an owner holds an unexpired row. The lemmas give, for each update, who still holds
  a row afterwards; they are used for both tables.
\<close>

definition held :: "('r \<Rightarrow> string option) \<Rightarrow> ('r \<Rightarrow> clock) \<Rightarrow> clock \<Rightarrow> string \<Rightarrow> 'r list \<Rightarrow> bool" where
  "held owner until now h rows = list_ex (\<lambda>r. owner r = Some h \<and> until r > now) rows"

text \<open>An archived worker row is owned by nobody, whatever its owner column says.\<close>

definition ch_live_owner :: "child_row \<Rightarrow> string option" where
  "ch_live_owner c = (if ch_archived_at c = None then ch_owner c else None)"

locale leased_table =
  fixes key :: "'r \<Rightarrow> string"
    and owner :: "'r \<Rightarrow> string option"
    and until :: "'r \<Rightarrow> clock"
    and fence :: "'r \<Rightarrow> int"
    and claim :: "string \<Rightarrow> clock \<Rightarrow> 'r \<Rightarrow> 'r"
    and extend :: "clock \<Rightarrow> 'r \<Rightarrow> 'r"
    and revoke :: "'r \<Rightarrow> 'r"
  assumes key_claim: "key (claim h u r) = key r"
    and owner_claim: "h' \<noteq> h \<Longrightarrow> owner (claim h u r) \<noteq> Some h'"
    and fence_claim: "fence (claim h u r) = fence r + 1"
    and key_extend: "key (extend u r) = key r"
    and owner_extend: "owner (extend u r) = owner r"
    and key_revoke: "key (revoke r) = key r"
    and owner_revoke: "owner (revoke r) = None"
    and fence_revoke: "fence r \<le> fence (revoke r)"
begin

lemmas keys = key_claim key_extend key_revoke

lemma held_later: "held owner until now' h rows \<Longrightarrow> now \<le> now' \<Longrightarrow> held owner until now h rows"
  by (fastforce simp: held_def list_ex_iff)

lemma held_claim:
  assumes "held owner until now h (update_where p (claim h' u) rows)" "h \<noteq> h'"
  shows "held owner until now h rows"
  using assms by (fastforce simp: held_def list_ex_iff set_update_where owner_claim split: if_splits)

lemma held_extend:
  assumes "held owner until now h (update_where p (extend u) rows)"
    and "\<And>r. p r \<Longrightarrow> until r > now"
  shows "held owner until now h rows"
  using assms by (fastforce simp: held_def list_ex_iff set_update_where owner_extend split: if_splits)

lemma held_revoke:
  "held owner until now h (update_where p revoke rows) \<Longrightarrow> held owner until now h rows"
  by (auto simp: held_def list_ex_iff set_update_where owner_revoke split: if_splits)

lemma unique_claim [simp]: "unique_key key (update_where p (claim h u) rows) = unique_key key rows"
  by (simp add: unique_key_update_where keys)

lemma unique_extend [simp]: "unique_key key (update_where p (extend u) rows) = unique_key key rows"
  by (simp add: unique_key_update_where keys)

lemma unique_revoke [simp]: "unique_key key (update_where p revoke rows) = unique_key key rows"
  by (simp add: unique_key_update_where keys)

end

interpretation scope_table: leased_table sc_conversation sc_owner sc_lease_until sc_fence
  claim_scope extend_scope "revoke_scope g"
  by unfold_locales
    (simp_all add: claim_scope_def extend_scope_def revoke_scope_def drop_scope_def)

interpretation scope_release: leased_table sc_conversation sc_owner sc_lease_until sc_fence
  claim_scope extend_scope drop_scope
  by unfold_locales (simp_all add: claim_scope_def extend_scope_def drop_scope_def)

interpretation child_table: leased_table ch_work_id ch_live_owner ch_lease_until ch_fence
  claim_child extend_child revoke_child
  by unfold_locales
    (simp_all add: claim_child_def extend_child_def revoke_child_def drop_child_def ch_live_owner_def)

interpretation child_release: leased_table ch_work_id ch_live_owner ch_lease_until ch_fence
  claim_child extend_child drop_child
  by unfold_locales
    (simp_all add: claim_child_def extend_child_def drop_child_def ch_live_owner_def)

end
