(* ===== verification/Work_Tree.thy ===== *)
theory Work_Tree
  imports Work_Schema
begin

text \<open>
  The Work tree (\<open>runtime/work_tree.py\<close>) and the shared budget of a root task
  (\<open>runtime/work_budget.py\<close>). The recursive queries follow the single parent column. They
  are written with one unit of fuel per row of the table, which is enough because a parent is
  always inserted before its children (\<open>wf_tree\<close>): \<open>lineage_rooted\<close> and
  \<open>descendants_iff\<close> show that neither query is cut short. (On a parent cycle, which no
  operation can create, SQLite's recursion would not end.)
\<close>

section \<open>Recursive queries\<close>

fun lineage_fuel :: "nat \<Rightarrow> work_row list \<Rightarrow> string \<Rightarrow> work_row list" where
  "lineage_fuel 0 rows i = []"
| "lineage_fuel (Suc n) rows i =
     (case lookup_by w_id i rows of
        None \<Rightarrow> []
      | Some w \<Rightarrow> w # (case w_parent w of None \<Rightarrow> [] | Some p \<Rightarrow> lineage_fuel n rows p))"

definition lineage :: "db \<Rightarrow> string \<Rightarrow> work_row list" where
  "lineage d i = lineage_fuel (length (works d)) (works d) i"

definition ancestor_ids :: "db \<Rightarrow> bool \<Rightarrow> string \<Rightarrow> string list" where
  "ancestor_ids d include_self i = map w_id (if include_self then lineage d i else tl (lineage d i))"

fun subtree_fuel :: "nat \<Rightarrow> work_row list \<Rightarrow> string list \<Rightarrow> string list" where
  "subtree_fuel 0 rows ids = []"
| "subtree_fuel (Suc n) rows ids =
     (if ids = [] then []
      else ids @ subtree_fuel n rows
        (map w_id (filter (\<lambda>w. \<exists>p\<in>set ids. w_parent w = Some p) rows)))"

definition descendants :: "db \<Rightarrow> string \<Rightarrow> string list" where
  "descendants d i =
     subtree_fuel (length (works d)) (works d)
       (map w_id (filter (\<lambda>w. w_id w = i) (works d)))"

definition descendant_ids :: "db \<Rightarrow> bool \<Rightarrow> string \<Rightarrow> string list" where
  "descendant_ids d include_self i =
     (if include_self then descendants d i else filter (\<lambda>j. j \<noteq> i) (descendants d i))"

definition budget_root_id :: "db \<Rightarrow> string \<Rightarrow> work_error + string" where
  "budget_root_id d i =
     (case List.find (\<lambda>w. w_parent w = None) (lineage d i) of
        None \<Rightarrow> Inl No_result | Some w \<Rightarrow> Inr (w_id w))"

section \<open>Charging the root budget\<close>

definition under_limit :: "int \<Rightarrow> int \<Rightarrow> int option \<Rightarrow> bool" where
  "under_limit used extra limit = (case limit of None \<Rightarrow> True | Some l \<Rightarrow> used + extra \<le> l)"

definition charge_row :: "int \<Rightarrow> int \<Rightarrow> budget_row \<Rightarrow> budget_row" where
  "charge_row models tools b =
     b\<lparr>bg_models := bg_models b + models, bg_tools := bg_tools b + tools\<rparr>"

definition charge_accepts :: "string \<Rightarrow> int \<Rightarrow> int \<Rightarrow> budget_row \<Rightarrow> bool" where
  "charge_accepts rt models tools b \<longleftrightarrow> bg_root b = rt \<and>
     (models \<noteq> 0 \<longrightarrow> under_limit (bg_models b) models (bg_model_limit b)) \<and>
     (tools \<noteq> 0 \<longrightarrow> under_limit (bg_tools b) tools (bg_tool_limit b))"

definition seed_budget :: "db \<Rightarrow> string \<Rightarrow> budget_row list" where
  "seed_budget d rt =
     (case lookup_by w_id rt (works d) of
        None \<Rightarrow> budgets d
      | Some w \<Rightarrow> insert_ignore bg_root
          \<lparr>bg_root = rt, bg_models = w_models w, bg_tools = w_tools w,
           bg_model_limit = None, bg_tool_limit = None\<rparr> (budgets d))"

definition charge :: "db \<Rightarrow> string \<Rightarrow> int \<Rightarrow> int \<Rightarrow> work_error + db" where
  "charge d i models tools =
     (if models < 0 \<or> tools < 0 then Inl (Value_error ''invalid_work_budget_charge'')
      else if models = 0 \<and> tools = 0 then Inr d
      else case budget_root_id d i of
        Inl e \<Rightarrow> Inl e
      | Inr rt \<Rightarrow>
          (let rows = seed_budget d rt in
           if list_ex (charge_accepts rt models tools) rows then
             Inr (d\<lparr>budgets := update_where (charge_accepts rt models tools)
                      (charge_row models tools) rows\<rparr>)
           else Inl (Budget_exceeded ''work_total_budget_exhausted'')))"

section \<open>Parents come first\<close>

fun parents_first :: "string set \<Rightarrow> work_row list \<Rightarrow> bool" where
  "parents_first seen [] = True"
| "parents_first seen (w # ws) =
     ((case w_parent w of None \<Rightarrow> True | Some p \<Rightarrow> p \<in> seen) \<and>
      parents_first (insert (w_id w) seen) ws)"

definition wf_tree :: "db \<Rightarrow> bool" where
  "wf_tree d \<longleftrightarrow> unique_key w_id (works d) \<and> parents_first {} (works d)"

lemma parents_first_append:
  "parents_first seen (xs @ ys) =
    (parents_first seen xs \<and> parents_first (seen \<union> w_id ` set xs) ys)"
  by (induction xs arbitrary: seen) (auto simp: insert_commute)

lemma parents_first_update:
  assumes "\<And>w. w_id (f w) = w_id w" "\<And>w. w_parent (f w) = w_parent w"
  shows "parents_first seen (update_where p f ws) = parents_first seen ws"
  by (induction ws arbitrary: seen) (simp_all add: assms)

lemma wf_tree_update:
  assumes "\<And>w. w_id (f w) = w_id w" "\<And>w. w_parent (f w) = w_parent w"
  shows "wf_tree (d\<lparr>works := update_where p f (works d)\<rparr>) = wf_tree d"
  by (simp add: wf_tree_def parents_first_update unique_key_update_where assms)

lemma wf_tree_same_works: "works d' = works d \<Longrightarrow> wf_tree d' = wf_tree d"
  by (simp add: wf_tree_def)

lemma parent_earlier:
  assumes "parents_first {} ws" "i < length ws" "w_parent (ws ! i) = Some p"
  shows "\<exists>j<i. w_id (ws ! j) = p"
proof -
  have "ws = take i ws @ ws ! i # drop (Suc i) ws"
    using assms(2) by (simp add: id_take_nth_drop)
  then have "p \<in> w_id ` set (take i ws)"
    using assms(1,3) parents_first_append [of "{}" "take i ws" "ws ! i # drop (Suc i) ws"] by simp
  then show ?thesis
    using assms(2) by (fastforce simp: in_set_conv_nth)
qed

definition rooted :: "work_row list \<Rightarrow> bool" where
  "rooted rows \<longleftrightarrow> rows \<noteq> [] \<and> w_parent (last rows) = None \<and>
     (\<forall>w\<in>set (butlast rows). w_parent w \<noteq> None)"

lemma lookup_by_nth:
  "unique_key key rows \<Longrightarrow> i < length rows \<Longrightarrow> lookup_by key (key (rows ! i)) rows = Some (rows ! i)"
  by (rule lookup_by_unique) auto

lemma lineage_fuel_rooted:
  assumes "unique_key w_id ws" "parents_first {} ws" "i < n" "i < length ws"
  shows "rooted (lineage_fuel n ws (w_id (ws ! i)))"
  using assms(3,4)
proof (induction n arbitrary: i)
  case (Suc n)
  note look = lookup_by_nth [OF assms(1) Suc.prems(2)]
  show ?case
  proof (cases "w_parent (ws ! i)")
    case None
    then show ?thesis by (simp add: look rooted_def)
  next
    case (Some p)
    then obtain j where j: "j < i" "w_id (ws ! j) = p"
      using parent_earlier [OF assms(2) Suc.prems(2)] by blast
    then have "rooted (lineage_fuel n ws p)"
      using Suc.IH [of j] Suc.prems by auto
    then show ?thesis by (simp add: look Some rooted_def)
  qed
qed simp

lemma lineage_rooted:
  assumes "wf_tree d" "w \<in> set (works d)"
  shows "rooted (lineage d (w_id w)) \<and> hd (lineage d (w_id w)) = w"
proof -
  obtain i where i: "i < length (works d)" "w = works d ! i"
    using assms(2) by (auto simp: in_set_conv_nth)
  have "rooted (lineage d (w_id w))"
    unfolding lineage_def i(2)
    by (rule lineage_fuel_rooted) (use assms i in \<open>auto simp: wf_tree_def\<close>)
  moreover have "lookup_by w_id (w_id w) (works d) = Some w"
    using assms by (auto simp: wf_tree_def intro: lookup_by_unique)
  ultimately show ?thesis
    using i(1) by (cases "length (works d)") (simp_all add: lineage_def)
qed

lemma find_rooted:
  "rooted rows \<Longrightarrow> List.find (\<lambda>w. w_parent w = None) rows = Some (last rows)"
  by (induction rows) (auto simp: rooted_def split: if_splits)

lemma budget_root_id_wf:
  assumes "wf_tree d" "w \<in> set (works d)"
  shows "budget_root_id d (w_id w) = Inr (w_id (last (lineage d (w_id w))))"
  using find_rooted lineage_rooted [OF assms] by (simp add: budget_root_id_def)


section \<open>Descendants and ancestors are converse\<close>

definition parent_id :: "work_row list \<Rightarrow> string \<Rightarrow> string option" where
  "parent_id rows j = Option.bind (lookup_by w_id j rows) w_parent"

definition up :: "work_row list \<Rightarrow> nat \<Rightarrow> string \<Rightarrow> string option" where
  "up rows k j = ((\<lambda>x. Option.bind x (parent_id rows)) ^^ k) (Some j)"

lemma up_0 [simp]: "up rows 0 j = Some j"
  by (simp add: up_def)

lemma up_Suc: "up rows (Suc k) j = Option.bind (up rows k j) (parent_id rows)"
  by (simp add: up_def)

lemma up_Suc_front: "up rows (Suc k) j = Option.bind (parent_id rows j) (up rows k)"
proof -
  have "((\<lambda>x. Option.bind x (parent_id rows)) ^^ k) None = None"
    by (induction k) simp_all
  then show ?thesis
    by (cases "parent_id rows j") (simp_all add: up_def funpow_Suc_right del: funpow.simps)
qed

lemma lineage_fuel_up:
  "c \<in> w_id ` set (lineage_fuel n rows j) \<longleftrightarrow>
    c \<in> w_id ` set rows \<and> (\<exists>k<n. up rows k j = Some c)"
proof (induction n arbitrary: j)
  case (Suc n)
  show ?case
  proof (cases "lookup_by w_id j rows")
    case None
    then have "parent_id rows j = None" "j \<notin> w_id ` set rows"
      by (simp add: parent_id_def, simp add: lookup_by_None_iff)
    moreover from this have "up rows k j = Some c \<Longrightarrow> c = j" for k
      by (cases k) (simp_all add: up_Suc_front)
    ultimately show ?thesis using None by auto
  next
    case (Some w)
    then have w: "w \<in> set rows" "w_id w = j" and par: "parent_id rows j = w_parent w"
      using lookup_by_Some_set by (fastforce simp: parent_id_def)+
    have "(\<exists>k<Suc n. up rows k j = Some c) \<longleftrightarrow> c = j \<or> (\<exists>k<n. up rows (Suc k) j = Some c)"
      by (metis Suc_less_eq gr0_conv_Suc less_Suc_eq_0_disj option.inject up_0)
    then show ?thesis
      using Some w Suc.IH by (cases "w_parent w") (auto simp: up_Suc_front par)
  qed
qed simp

lemma subtree_fuel_up:
  assumes "unique_key w_id rows" "set ids \<subseteq> w_id ` set rows"
  shows "j \<in> set (subtree_fuel n rows ids) \<longleftrightarrow>
    j \<in> w_id ` set rows \<and> (\<exists>k<n. \<exists>i\<in>set ids. up rows k j = Some i)"
  using assms(2)
proof (induction n arbitrary: ids)
  case (Suc n)
  let ?next = "map w_id (filter (\<lambda>w. \<exists>p\<in>set ids. w_parent w = Some p) rows)"
  have sub: "set ?next \<subseteq> w_id ` set rows" by auto
  have step: "(\<exists>i\<in>set ?next. up rows k j = Some i) \<longleftrightarrow> (\<exists>i\<in>set ids. up rows (Suc k) j = Some i)" for k
  proof -
    have par: "c \<in> set ?next \<longleftrightarrow> (\<exists>p\<in>set ids. parent_id rows c = Some p)" for c
    proof
      assume "c \<in> set ?next"
      then obtain w p where w: "w \<in> set rows" "w_id w = c" "p \<in> set ids" "w_parent w = Some p" by auto
      then have "lookup_by w_id c rows = Some w" using lookup_by_unique [OF assms(1)] by auto
      with w show "\<exists>p\<in>set ids. parent_id rows c = Some p" by (simp add: parent_id_def)
    next
      assume "\<exists>p\<in>set ids. parent_id rows c = Some p"
      then obtain w p where "lookup_by w_id c rows = Some w" "p \<in> set ids" "w_parent w = Some p"
        by (auto simp: parent_id_def bind_eq_Some_conv)
      then show "c \<in> set ?next" using lookup_by_Some_set [of w_id c rows w] by auto
    qed
    show ?thesis
    proof (cases "up rows k j")
      case (Some c)
      then show ?thesis using par [of c] unfolding up_Suc by (simp del: set_map set_filter)
    qed (simp add: up_Suc)
  qed
  have split: "(\<exists>k<Suc n. P k) \<longleftrightarrow> P 0 \<or> (\<exists>k<n. P (Suc k))" for P
    by (metis Suc_less_eq gr0_conv_Suc less_Suc_eq_0_disj)
  show ?case
  proof (cases "ids = []")
    case False
    have "j \<in> set (subtree_fuel (Suc n) rows ids) \<longleftrightarrow> j \<in> set ids \<or> j \<in> set (subtree_fuel n rows ?next)"
      using False by simp
    also have "\<dots> \<longleftrightarrow> j \<in> set ids \<or> (j \<in> w_id ` set rows \<and> (\<exists>k<n. \<exists>i\<in>set ids. up rows (Suc k) j = Some i))"
      using Suc.IH [OF sub] step by simp
    also have "\<dots> \<longleftrightarrow> j \<in> w_id ` set rows \<and> (\<exists>k<Suc n. \<exists>i\<in>set ids. up rows k j = Some i)"
      unfolding split using Suc.prems by auto
    finally show ?thesis .
  qed simp
qed simp

lemma descendants_iff:
  assumes "unique_key w_id (works d)"
  shows "j \<in> set (descendants d i) \<longleftrightarrow> i \<in> w_id ` set (lineage d j)"
proof -
  have ids: "set (map w_id (filter (\<lambda>w. w_id w = i) (works d))) = (if i \<in> w_id ` set (works d) then {i} else {})"
    by auto
  have ex: "up (works d) k j = Some i \<Longrightarrow> i \<in> w_id ` set (works d) \<Longrightarrow> j \<in> w_id ` set (works d)" for k
  proof (cases k)
    case (Suc m)
    moreover assume "up (works d) k j = Some i"
    ultimately obtain p where "parent_id (works d) j = Some p"
      by (auto simp: up_Suc_front bind_eq_Some_conv)
    then show "j \<in> w_id ` set (works d)"
      by (metis bind_eq_Some_conv lookup_by_None_iff option.distinct(1) parent_id_def)
  qed simp
  show ?thesis
    unfolding descendants_def lineage_def lineage_fuel_up
    by (subst subtree_fuel_up [OF assms]) (use ex in \<open>auto simp: ids split: if_splits\<close>)
qed


section \<open>Accounting over many charges\<close>

fun run_charges :: "db \<Rightarrow> (string \<times> int \<times> int) list \<Rightarrow> db \<times> (string \<times> int \<times> int) list" where
  "run_charges d [] = (d, [])"
| "run_charges d ((i, m, t) # cs) =
     (case charge d i m t of
        Inl e \<Rightarrow> run_charges d cs
      | Inr d' \<Rightarrow> (case run_charges d' cs of (d'', done) \<Rightarrow> (d'', (i, m, t) # done)))"

definition charged_to :: "db \<Rightarrow> string \<Rightarrow> (string \<times> int \<times> int) list \<Rightarrow> (string \<times> int \<times> int) list" where
  "charged_to d r cs = filter (\<lambda>c. budget_root_id d (fst c) = Inr r) cs"

definition in_limit :: "int \<Rightarrow> int option \<Rightarrow> bool" where
  "in_limit used limit = (case limit of None \<Rightarrow> True | Some l \<Rightarrow> used \<le> l)"

lemma charge_row_root [simp]: "bg_root (charge_row m t b) = bg_root b"
  by (simp add: charge_row_def)

lemma budget_root_same_works: "works d' = works d \<Longrightarrow> budget_root_id d' i = budget_root_id d i"
  by (simp add: budget_root_id_def lineage_def)

lemma seed_budget_lookup:
  "lookup_by bg_root r (budgets d) = Some b \<Longrightarrow> lookup_by bg_root r (seed_budget d r') = Some b"
  by (auto simp: seed_budget_def lookup_insert_ignore_old split: option.split)

lemma charge_cases:
  assumes "charge d i m t = Inr d'"
  obtains (nothing) "m = 0" "t = 0" "d' = d"
    | (charged) rt where "0 \<le> m" "0 \<le> t" "budget_root_id d i = Inr rt"
      "list_ex (charge_accepts rt m t) (seed_budget d rt)"
      "d' = d\<lparr>budgets := update_where (charge_accepts rt m t) (charge_row m t) (seed_budget d rt)\<rparr>"
proof -
  have pos: "\<not> (m < 0 \<or> t < 0)"
    using assms unfolding charge_def by (cases "m < 0 \<or> t < 0") simp_all
  show ?thesis
  proof (cases "m = 0 \<and> t = 0")
    case True
    then have "d' = d" using assms unfolding charge_def by simp
    with True show ?thesis by (elim conjE) (rule nothing)
  next
    case False
    with pos assms have c: "(case budget_root_id d i of Inl e \<Rightarrow> Inl e | Inr rt \<Rightarrow>
        if list_ex (charge_accepts rt m t) (seed_budget d rt)
        then Inr (d\<lparr>budgets := update_where (charge_accepts rt m t) (charge_row m t) (seed_budget d rt)\<rparr>)
        else Inl (Budget_exceeded ''work_total_budget_exhausted'')) = Inr d'"
      unfolding charge_def Let_def by (simp only: if_False)
    then obtain rt where rt: "budget_root_id d i = Inr rt" by (cases "budget_root_id d i") simp_all
    with c show ?thesis
      using pos by (cases "list_ex (charge_accepts rt m t) (seed_budget d rt)") (auto intro: charged)
  qed
qed

lemma charge_works: "charge d i m t = Inr d' \<Longrightarrow> works d' = works d"
  by (elim charge_cases) simp_all

lemma charge_other_root:
  assumes "charge d i m t = Inr d'" "budget_root_id d i \<noteq> Inr r"
    and "lookup_by bg_root r (budgets d) = Some b"
  shows "lookup_by bg_root r (budgets d') = Some b"
  using assms(1)
proof (cases rule: charge_cases)
  case nothing
  then show ?thesis using assms(3) by simp
next
  case (charged rt)
  have "\<not> charge_accepts rt m t b"
    using lookup_by_Some_set [OF assms(3)] charged assms(2) by (auto simp: charge_accepts_def)
  then show ?thesis
    using seed_budget_lookup [OF assms(3)] charged by (simp add: lookup_by_update_where)
qed

lemma seed_budget_unique: "unique_key bg_root (budgets d) \<Longrightarrow> unique_key bg_root (seed_budget d r)"
  by (auto simp: seed_budget_def unique_key_insert_ignore split: option.split)

lemma charge_unique:
  "charge d i m t = Inr d' \<Longrightarrow> unique_key bg_root (budgets d) \<Longrightarrow> unique_key bg_root (budgets d')"
  by (elim charge_cases) (simp_all add: unique_key_update_where seed_budget_unique)

lemma charge_own_root:
  assumes "charge d i m t = Inr d'" "budget_root_id d i = Inr r" "unique_key bg_root (budgets d)"
    and "lookup_by bg_root r (budgets d) = Some b"
  shows "lookup_by bg_root r (budgets d') = Some (charge_row m t b) \<and> 0 \<le> m \<and> 0 \<le> t \<and>
    (m \<noteq> 0 \<longrightarrow> in_limit (bg_models b + m) (bg_model_limit b)) \<and>
    (t \<noteq> 0 \<longrightarrow> in_limit (bg_tools b + t) (bg_tool_limit b))"
  using assms(1)
proof (cases rule: charge_cases)
  case nothing
  then show ?thesis using assms(4) by (simp add: charge_row_def)
next
  case (charged rt)
  then have rt: "rt = r" using assms(2) by simp
  have look: "lookup_by bg_root r (seed_budget d r) = Some b"
    by (rule seed_budget_lookup [OF assms(4)])
  obtain b' where b': "b' \<in> set (seed_budget d r)" "charge_accepts r m t b'"
    using charged rt by (auto simp: list_ex_iff)
  then have "bg_root b' = r" by (simp add: charge_accepts_def)
  then have "b' = b"
    using lookup_by_unique [OF seed_budget_unique [OF assms(3)] b'(1)] look by simp
  with b' have acc: "charge_accepts r m t b" by simp
  then have "(m \<noteq> 0 \<longrightarrow> in_limit (bg_models b + m) (bg_model_limit b)) \<and>
      (t \<noteq> 0 \<longrightarrow> in_limit (bg_tools b + t) (bg_tool_limit b))"
    by (simp add: charge_accepts_def under_limit_def in_limit_def)
  then show ?thesis
    using look charged(1,2) acc by (simp add: charged(5) rt lookup_by_update_where)
qed

lemma run_charges_works: "works (fst (run_charges d cs)) = works d"
  by (induction d cs rule: run_charges.induct)
    (auto simp: charge_works split: sum.split prod.split)

section \<open>Properties\<close>

text \<open>
  In every store whose parents were inserted before their children, the recursive queries
  are complete: the lineage of a Work starts at the Work and ends at its root, which is the
  row the budget is charged to, and the descendants of an id are exactly the Works that have
  the id in their lineage.
\<close>

theorem work_tree_queries:
  assumes "wf_tree d" "w \<in> set (works d)"
  shows "rooted (lineage d (w_id w)) \<and> hd (lineage d (w_id w)) = w \<and>
    budget_root_id d (w_id w) = Inr (w_id (last (lineage d (w_id w)))) \<and>
    (\<forall>i. w_id w \<in> set (descendants d i) \<longleftrightarrow> i \<in> set (ancestor_ids d True (w_id w)))"
  using lineage_rooted [OF assms] budget_root_id_wf [OF assms] descendants_iff [of d] assms(1)
  by (auto simp: ancestor_ids_def wf_tree_def)

text \<open>
  C18: Over any sequence of charges, accepted or refused and to any Works, the budget row of a
  root grows by exactly the accepted charges of its tree, its limits stay, and usage that
  starts within a limit never exceeds it.
\<close>

theorem budget_never_exceeded:
  assumes "unique_key bg_root (budgets d)" "lookup_by bg_root r (budgets d) = Some b"
    and "run_charges d cs = (d', done)"
  shows "\<exists>b'. lookup_by bg_root r (budgets d') = Some b' \<and>
    bg_model_limit b' = bg_model_limit b \<and> bg_tool_limit b' = bg_tool_limit b \<and>
    bg_models b' = bg_models b + (\<Sum>c\<leftarrow>charged_to d r done. fst (snd c)) \<and>
    bg_tools b' = bg_tools b + (\<Sum>c\<leftarrow>charged_to d r done. snd (snd c)) \<and>
    (in_limit (bg_models b) (bg_model_limit b) \<longrightarrow> in_limit (bg_models b') (bg_model_limit b)) \<and>
    (in_limit (bg_tools b) (bg_tool_limit b) \<longrightarrow> in_limit (bg_tools b') (bg_tool_limit b))"
  using assms
proof (induction d cs arbitrary: b d' "done" rule: run_charges.induct)
  case (1 d)
  then show ?case by (simp add: charged_to_def)
next
  case (2 d i m t cs)
  show ?case
  proof (cases "charge d i m t")
    case (Inl e)
    then show ?thesis using "2.IH"(1) [OF Inl] "2.prems" by simp
  next
    case (Inr d1)
    obtain rest where rest: "run_charges d1 cs = (d', rest)" and dn: "done = (i, m, t) # rest"
      using "2.prems"(3) Inr by (auto split: prod.splits)
    note uq = charge_unique [OF Inr "2.prems"(1)]
    have ct: "charged_to d1 r rest = charged_to d r rest"
      using budget_root_same_works [OF charge_works [OF Inr]] by (simp add: charged_to_def)
    show ?thesis
    proof (cases "budget_root_id d i = Inr r")
      case False
      note same = charge_other_root [OF Inr False "2.prems"(2)]
      show ?thesis
        using "2.IH"(2) [OF Inr uq same rest] False ct by (simp add: dn charged_to_def)
    next
      case True
      note own = charge_own_root [OF Inr True "2.prems"(1,2)]
      have "lookup_by bg_root r (budgets d1) = Some (charge_row m t b)" using own by simp
      from "2.IH"(2) [OF Inr uq this rest] obtain b' where b': "lookup_by bg_root r (budgets d') = Some b'"
          "bg_model_limit b' = bg_model_limit b" "bg_tool_limit b' = bg_tool_limit b"
          "bg_models b' = bg_models b + m + (\<Sum>c\<leftarrow>charged_to d r rest. fst (snd c))"
          "bg_tools b' = bg_tools b + t + (\<Sum>c\<leftarrow>charged_to d r rest. snd (snd c))"
        and lim: "in_limit (bg_models b + m) (bg_model_limit b) \<longrightarrow> in_limit (bg_models b') (bg_model_limit b)"
          "in_limit (bg_tools b + t) (bg_tool_limit b) \<longrightarrow> in_limit (bg_tools b') (bg_tool_limit b)"
        by (auto simp: charge_row_def ct)
      have "in_limit (bg_models b) (bg_model_limit b) \<longrightarrow> in_limit (bg_models b + m) (bg_model_limit b)"
        "in_limit (bg_tools b) (bg_tool_limit b) \<longrightarrow> in_limit (bg_tools b + t) (bg_tool_limit b)"
        using own by auto
      with b' lim True show ?thesis by (auto simp: dn charged_to_def)
    qed
  qed
qed


section \<open>Witnesses\<close>

definition demo_work :: "string \<Rightarrow> string option \<Rightarrow> work_state \<Rightarrow> work_row" where
  "demo_work i p st = \<lparr>w_id = i, w_parent = p, w_conversation = ''c'', w_generation = 0,
     w_source_key = ''k'' @ i, w_source = JObj [], w_goal = ''g'', w_revision = 1, w_state = st,
     w_reason = None, w_models = 0, w_tools = 0, w_active_seconds = 0, w_sent = 0,
     w_checkpoint = JObj [], w_created = 0, w_updated = 0\<rparr>"

definition demo_tree :: db where
  "demo_tree = empty_db\<lparr>
     works := [demo_work ''r'' None Running, demo_work ''s'' (Some ''r'') Running],
     budgets := [\<lparr>bg_root = ''r'', bg_models = 0, bg_tools = 0, bg_model_limit = Some 2,
                  bg_tool_limit = None\<rparr>]\<rparr>"

lemmas demo_tree_defs = demo_tree_def demo_work_def empty_db_def

lemma demo_tree_wf: "wf_tree demo_tree"
  by (simp add: wf_tree_def demo_tree_defs unique_key_def)

theorem work_tree_queries_witness:
  "budget_root_id demo_tree ''s'' = Inr ''r'' \<and> ''s'' \<in> set (descendants demo_tree ''r'')"
proof -
  have "demo_work ''s'' (Some ''r'') Running \<in> set (works demo_tree)"
    by (simp add: demo_tree_def)
  from work_tree_queries [OF demo_tree_wf this] show ?thesis
    by (simp add: demo_tree_defs lineage_def lookup_by_def ancestor_ids_def)
qed

theorem budget_never_exceeded_witness:
  "\<exists>d' b'. run_charges demo_tree [(''s'', 1, 0), (''r'', 1, 3), (''s'', 1, 0)] =
       (d', [(''s'', 1, 0), (''r'', 1, 3)]) \<and>
     lookup_by bg_root ''r'' (budgets d') = Some b' \<and> bg_models b' = 2 \<and> bg_tools b' = 3"
proof -
  obtain d' where run: "run_charges demo_tree [(''s'', 1, 0), (''r'', 1, 3), (''s'', 1, 0)] =
      (d', [(''s'', 1, 0), (''r'', 1, 3)])"
    by (simp add: charge_def Let_def budget_root_id_def lineage_def lookup_by_def seed_budget_def
        insert_ignore_def charge_accepts_def under_limit_def charge_row_def demo_tree_defs)
  have u: "unique_key bg_root (budgets demo_tree)"
    by (simp add: demo_tree_def unique_key_def)
  have l: "lookup_by bg_root ''r'' (budgets demo_tree) = Some \<lparr>bg_root = ''r'', bg_models = 0,
      bg_tools = 0, bg_model_limit = Some 2, bg_tool_limit = None\<rparr>"
    by (simp add: demo_tree_def)
  have "charged_to demo_tree ''r'' [(''s'', 1, 0), (''r'', 1, 3)] = [(''s'', 1, 0), (''r'', 1, 3)]"
    by (simp add: charged_to_def budget_root_id_def lineage_def lookup_by_def demo_tree_defs)
  with budget_never_exceeded [OF u l run] run show ?thesis by auto
qed

end
