(* ===== verification/Work_Store.thy ===== *)
theory Work_Store
  imports Work_Lease Work_Tree
begin

text \<open>
  The Work state machine of \<open>runtime/work_repository.py\<close>: admission
  (\<open>accept_in_session\<close>, \<open>derive\<close>), the single state writer \<open>commit_state\<close> with its
  caller \<open>transition\<close>, the accepted lifecycle decision and the checkpoint, and
  \<open>stop_owned_execution\<close> of \<open>runtime/work_management.py\<close>. An operation is one writer
  transaction: it returns the new store, or the error that rolls it back.

  \<open>commit_state\<close> is composed from the phases of the Python body in their order. The
  decision about the state to write (\<open>settle_state\<close>) reads the store, the update writes
  the Work row, and the follow-ups stop a subtree, record recovery facts, close waits and tell
  the parent.
\<close>

section \<open>Admission\<close>

definition json_falsy_field :: "string \<Rightarrow> json \<Rightarrow> bool" where
  "json_falsy_field k source = (\<not> truthy_opt (json_get k source))"

definition json_none_field :: "string \<Rightarrow> json \<Rightarrow> bool" where
  "json_none_field k source = (case json_get k source of None \<Rightarrow> True | Some v \<Rightarrow> v = JNull)"

definition self_automation_origin :: "json \<Rightarrow> bool" where
  "self_automation_origin source \<longleftrightarrow>
     json_get ''origin'' source = Some (JStr ''scheduled_automation'') \<and>
     json_get ''principal_kind'' source = Some (JStr ''self'')"

text \<open>The automation branch: the run exists, runs, and belongs to a self-created automation.\<close>

definition self_automation_ok :: "db \<Rightarrow> work_lease \<Rightarrow> json \<Rightarrow> bool" where
  "self_automation_ok d l source =
     (case (case json_get ''automation_run_id'' source of
              Some (JInt n) \<Rightarrow> lookup_by ar_id n (automation_runs d) | _ \<Rightarrow> None) of
        None \<Rightarrow> False
      | Some run \<Rightarrow>
          (case lookup_by au_id (ar_automation_id run) (automations d) of
             None \<Rightarrow> False
           | Some owner \<Rightarrow>
               au_creator_kind owner = ''self'' \<and> ar_status run = ''running'' \<and>
               json_get ''automation_id'' source = Some (JInt (au_id owner)) \<and>
               json_get ''conversation_id'' source = Some (JStr (l_conversation l)) \<and>
               json_get ''generation'' source = Some (JInt (l_generation l)) \<and>
               json_falsy_field ''actor_user_id'' source \<and>
               json_falsy_field ''actor_person_id'' source \<and>
               json_none_field ''trigger_event_id'' source))"

definition self_initiative_ok :: "db \<Rightarrow> work_lease \<Rightarrow> string \<Rightarrow> json \<Rightarrow> bool" where
  "self_initiative_ok d l source_key source =
     (case (case json_get ''initiative_run_id'' source of
              Some (JStr s) \<Rightarrow> lookup_by ir_id s (initiative_runs d) | _ \<Rightarrow> None) of
        None \<Rightarrow> False
      | Some run \<Rightarrow>
          ir_state run \<in> {''accepted'', ''running''} \<and>
          json_get ''principal_kind'' source = Some (JStr ''self'') \<and>
          json_get ''origin'' source = Some (JStr ''self_initiative'') \<and>
          source_key = ''initiative:'' @ ir_id run \<and>
          ir_conversation run = l_conversation l \<and> ir_generation run = l_generation l \<and>
          json_get ''conversation_id'' source = Some (JStr (ir_conversation run)) \<and>
          json_get ''generation'' source = Some (JInt (ir_generation run)) \<and>
          json_get ''presence_id'' source = Some (JStr (ir_presence_id run)) \<and>
          json_get ''space_id'' source = Some (JStr (ir_space_id run)) \<and>
          json_falsy_field ''actor_user_id'' source \<and> json_falsy_field ''person_id'' source \<and>
          json_falsy_field ''actor_person_id'' source \<and>
          json_none_field ''trigger_event_id'' source)"

definition open_parent :: "db \<Rightarrow> work_lease \<Rightarrow> string \<Rightarrow> bool" where
  "open_parent d l pid = list_ex (\<lambda>w. w_id w = pid \<and> w_conversation w = l_conversation l \<and>
     w_generation w = l_generation l \<and> \<not> terminal (w_state w)) (works d)"

text \<open>The authority check of a new Work: its parent, or the self-originated run behind it.\<close>

definition admission_authority ::
  "db \<Rightarrow> work_lease \<Rightarrow> string \<Rightarrow> json \<Rightarrow> string option \<Rightarrow> work_error + unit" where
  "admission_authority d l source_key source parent =
     (case parent of
        Some pid \<Rightarrow>
          if \<not> open_parent d l pid \<or> (l_work_id l \<noteq> None \<and> l_work_id l \<noteq> Some pid)
          then Inl (Conflict ''work_parent_source_invalid'') else Inr ()
      | None \<Rightarrow>
          if self_automation_origin source then
            (if self_automation_ok d l source then Inr ()
             else Inl (Conflict ''invalid_self_automation_work_admission''))
          else if json_get ''origin'' source = Some (JStr ''self_initiative'') then
            (if self_initiative_ok d l source_key source then Inr ()
             else Inl (Conflict ''invalid_self_work_admission''))
          else Inr ())"

definition new_work ::
  "work_lease \<Rightarrow> clock \<Rightarrow> string \<Rightarrow> string \<Rightarrow> json \<Rightarrow> string \<Rightarrow> string option \<Rightarrow> work_state \<Rightarrow> work_row" where
  "new_work l now i source_key source_json goal parent st =
     \<lparr>w_id = i, w_parent = parent, w_conversation = l_conversation l,
      w_generation = l_generation l, w_source_key = source_key, w_source = source_json,
      w_goal = goal, w_revision = 1, w_state = st, w_reason = None, w_models = 0, w_tools = 0,
      w_active_seconds = 0, w_sent = 0, w_checkpoint = JObj [], w_created = now,
      w_updated = now\<rparr>"

text \<open>
  \<open>INSERT ... ON CONFLICT (source_key) DO NOTHING\<close>. The target names only the source key,
  so a clash of the primary key is still an integrity error.
\<close>

definition insert_work :: "db \<Rightarrow> work_row \<Rightarrow> work_error + db" where
  "insert_work d w =
     (if w_source_key w \<in> w_source_key ` set (works d) then Inr d
      else if w_id w \<in> w_id ` set (works d) then Inl (Integrity ''runtime_work.id'')
      else Inr (d\<lparr>works := works d @ [w]\<rparr>))"

definition handoff_ok :: "work_lease \<Rightarrow> work_row \<Rightarrow> work_row \<Rightarrow> bool" where
  "handoff_ok l row previous \<longleftrightarrow> w_id previous \<noteq> w_id row \<and>
     w_conversation previous = l_conversation l \<and> w_generation previous = l_generation l \<and>
     \<not> terminal (w_state previous) \<and> \<not> worker_lease l"

definition set_handoff :: "string \<Rightarrow> clock \<Rightarrow> work_row \<Rightarrow> work_row" where
  "set_handoff target now w =
     w\<lparr>w_checkpoint := json_set ''handoff_work_id'' (JStr target) (w_checkpoint w),
       w_updated := now\<rparr>"

record admission =
  ad_source_key :: string
  ad_source :: json
  ad_goal :: string
  ad_parent :: "string option"
  ad_identity :: string
  ad_handoff :: "string option"
  ad_initial :: string

definition admitted_state :: "admission \<Rightarrow> work_state" where
  "admitted_state a = (if truthy_str (ad_handoff a) \<or> ad_initial a = ''queued'' then Queued else Running)"

text \<open>After the row is known: the conflict checks on it and the handoff of its predecessor.\<close>

definition admit_row ::
  "db \<Rightarrow> work_lease \<Rightarrow> clock \<Rightarrow> admission \<Rightarrow> work_row \<Rightarrow> work_error + (work_row \<times> db)" where
  "admit_row d l now a row =
     (if w_conversation row \<noteq> l_conversation l \<or> w_generation row \<noteq> l_generation l \<or>
         w_source row \<noteq> encode_json (ad_source a) \<or> w_parent row \<noteq> ad_parent a
      then Inl (Conflict ''work_source_conflict'')
      else if terminal (w_state row) \<and> ad_parent a = None
      then Inl (Conflict ''work_already_terminal'')
      else case ad_handoff a of
        None \<Rightarrow> Inr (row, d)
      | Some previous_id \<Rightarrow>
          (case lookup_by w_id previous_id (works d) of
             None \<Rightarrow> Inl No_result
           | Some previous \<Rightarrow>
               if \<not> handoff_ok l row previous then Inl (Conflict ''work_handoff_source_invalid'')
               else Inr (row, d\<lparr>works := update_where (\<lambda>w. w_id w = previous_id)
                                  (set_handoff (w_id row) now) (works d)\<rparr>)))"

definition accept_in_session ::
  "db \<Rightarrow> clock \<Rightarrow> work_lease \<Rightarrow> admission \<Rightarrow> work_error + (work_row \<times> db)" where
  "accept_in_session d now l a =
     (if blank (ad_goal a) \<or> ad_source_key a = [] then Inl (Value_error ''invalid_work_goal'')
      else if ad_initial a \<notin> {''running'', ''queued''}
      then Inl (Value_error ''invalid_work_initial_state'')
      else case assert_lease d now l of
        Inl e \<Rightarrow> Inl e
      | Inr _ \<Rightarrow>
        (case admission_authority d l (ad_source_key a) (ad_source a) (ad_parent a) of
           Inl e \<Rightarrow> Inl e
         | Inr _ \<Rightarrow>
           (case insert_work d (new_work l now (ad_identity a) (ad_source_key a)
                   (encode_json (ad_source a)) (ad_goal a) (ad_parent a) (admitted_state a)) of
              Inl e \<Rightarrow> Inl e
            | Inr d1 \<Rightarrow>
              (case lookup_by w_source_key (ad_source_key a) (works d1) of
                 None \<Rightarrow> Inl No_result
               | Some row \<Rightarrow> admit_row d1 l now a row))))"

section \<open>Queries\<close>

definition by_source :: "db \<Rightarrow> string \<Rightarrow> work_row option" where
  "by_source d key = lookup_by w_source_key key (works d)"

definition get_work :: "db \<Rightarrow> string \<Rightarrow> work_row option" where
  "get_work d i = lookup_by w_id i (works d)"

definition active_works :: "db \<Rightarrow> string \<Rightarrow> int \<Rightarrow> work_row list" where
  "active_works d conv gen =
     sort_key w_created (filter (\<lambda>w. w_conversation w = conv \<and> w_generation w = gen \<and>
       \<not> terminal (w_state w) \<and> w_id w \<notin> ch_work_id ` set (children d)) (works d))"

text \<open>\<open>_business_input_clause\<close>: only these inputs can defer the end of a Work.\<close>

fun nested_json :: "json option \<Rightarrow> json" where
  "nested_json (Some (JText j)) = j"
| "nested_json (Some (JObj kvs)) = JObj kvs"
| "nested_json _ = JObj []"

fun sql_zero :: "json option \<Rightarrow> bool" where
  "sql_zero None = True"
| "sql_zero (Some (JBool b)) = (\<not> b)"
| "sql_zero (Some (JInt n)) = (n = 0)"
| "sql_zero (Some (JFloat x)) = (x = 0)"
| "sql_zero _ = False"

definition business_input :: "input_row \<Rightarrow> bool" where
  "business_input i \<longleftrightarrow>
     (in_kind i = ''message'' \<or>
      in_kind i = ''subagent'' \<and>
        ((\<exists>w. in_work_id i = Some w \<and> json_extract [''child_id''] (in_payload i) = Some (JStr w)) \<or>
         json_extract [''kind''] (nested_json (json_extract [''text''] (in_payload i)))
           = Some (JStr ''subagent_question''))) \<and>
     sql_zero (json_extract [''signal''] (in_payload i))"

lemma business_input_code [code]:
  "business_input i \<longleftrightarrow>
     (in_kind i = ''message'' \<or>
      in_kind i = ''subagent'' \<and>
        ((case in_work_id i of None \<Rightarrow> False
          | Some w \<Rightarrow> json_extract [''child_id''] (in_payload i) = Some (JStr w)) \<or>
         json_extract [''kind''] (nested_json (json_extract [''text''] (in_payload i)))
           = Some (JStr ''subagent_question''))) \<and>
     sql_zero (json_extract [''signal''] (in_payload i))"
  by (auto simp: business_input_def split: option.splits)

definition open_input :: "input_row \<Rightarrow> bool" where
  "open_input i = (in_state i \<in> {Pending, Staged})"

definition has_pending_business_inputs ::
  "db \<Rightarrow> clock \<Rightarrow> work_lease \<Rightarrow> string \<Rightarrow> int list option \<Rightarrow> work_error + bool" where
  "has_pending_business_inputs d now l wid ids =
     (case assert_lease d now l of
        Inl e \<Rightarrow> Inl e
      | Inr _ \<Rightarrow> Inr (list_ex (\<lambda>i. in_work_id i = Some wid \<and>
          in_conversation i = l_conversation l \<and> in_generation i = l_generation l \<and>
          open_input i \<and> business_input i \<and>
          (case ids of None \<Rightarrow> True | Some xs \<Rightarrow> in_id i \<in> set xs)) (inputs d)))"

text \<open>\<open>_owned_execution_clause\<close>: a waiting sandbox run or a live worker in the subtree.\<close>

definition owned_sandbox :: "string list \<Rightarrow> sandbox_run_row \<Rightarrow> bool" where
  "owned_sandbox tree r \<longleftrightarrow>
     (\<exists>j\<in>set tree. json_extract [''work_id''] (sr_source r) = Some (JStr j)) \<and>
     sr_status r = ''waiting'' \<and> sr_run_id r \<noteq> None \<and>
     json_extract [''ownership''] (sr_progress r) \<noteq> Some (JStr ''observe'')"

definition owned_worker :: "db \<Rightarrow> clock \<Rightarrow> string list \<Rightarrow> string \<Rightarrow> child_row \<Rightarrow> bool" where
  "owned_worker d now tree i c \<longleftrightarrow>
     ch_work_id c \<in> set tree \<and> ch_work_id c \<noteq> i \<and> ch_owner c \<noteq> None \<and> ch_lease_until c > now \<and>
     list_ex (\<lambda>w. w_id w = ch_work_id c \<and> \<not> terminal (w_state w)) (works d)"

definition owned_execution :: "db \<Rightarrow> clock \<Rightarrow> string \<Rightarrow> bool" where
  "owned_execution d now i =
     (let tree = descendant_ids d True i in
      list_ex (owned_sandbox tree) (sandbox_runs d) \<or> list_ex (owned_worker d now tree i) (children d))"

definition has_owned_execution :: "db \<Rightarrow> clock \<Rightarrow> work_lease \<Rightarrow> string \<Rightarrow> work_error + bool" where
  "has_owned_execution d now l i =
     (case assert_lease d now l of Inl e \<Rightarrow> Inl e | Inr _ \<Rightarrow> Inr (owned_execution d now i))"

section \<open>The single state writer: which state to write\<close>

record settlement =
  se_state :: work_state
  se_reason :: "string option"
  se_exit :: "string option"
  se_business :: bool
  se_draining :: bool

definition replace_exit :: "string \<Rightarrow> settlement \<Rightarrow> settlement" where
  "replace_exit x s = s\<lparr>se_exit := map_option (\<lambda>_. x) (se_exit s)\<rparr>"

definition mailbox :: "db \<Rightarrow> string \<Rightarrow> string option \<Rightarrow> input_row option" where
  "mailbox d i reason =
     (case sort_key in_id (filter (\<lambda>x. in_work_id x = Some i \<and> open_input x \<and>
             (reason = Some ''work_input_preparing'' \<or> business_input x)) (inputs d)) of
        [] \<Rightarrow> None | x # _ \<Rightarrow> Some x)"

definition settle_mailbox :: "db \<Rightarrow> string \<Rightarrow> settlement \<Rightarrow> settlement" where
  "settle_mailbox d i s =
     (if se_state s \<notin> {Completed, Failed, Waiting_user, Waiting_external} then s
      else case mailbox d i (se_reason s) of
        None \<Rightarrow>
          if se_reason s = Some ''work_input_preparing'' then
            replace_exit ''waiting_input''
              (s\<lparr>se_state := Queued, se_reason := Some ''input_preparation_cleared''\<rparr>)
          else s
      | Some x \<Rightarrow>
          if in_ready x then
            replace_exit ''waiting_input''
              (s\<lparr>se_state := Queued, se_reason := Some ''work_input_arrived'', se_business := True\<rparr>)
          else
            replace_exit ''waiting_external''
              (s\<lparr>se_state := Waiting_external, se_reason := Some ''work_input_preparing'',
                 se_business := True\<rparr>))"

definition settle_owned :: "db \<Rightarrow> clock \<Rightarrow> string \<Rightarrow> settlement \<Rightarrow> settlement" where
  "settle_owned d now i s =
     (if se_state s = Completed \<and> owned_execution d now i then
        replace_exit ''waiting_external''
          (s\<lparr>se_state := Waiting_external, se_reason := Some ''work_owned_execution_pending'',
             se_draining := True\<rparr>)
      else s)"

definition matched_signal :: "db \<Rightarrow> string \<Rightarrow> bool" where
  "matched_signal d i =
     list_ex (\<lambda>x. in_work_id x = Some i \<and> open_input x \<and> in_ready x \<and>
       list_ex (\<lambda>y. in_source_key x = ''wait:'' @ wa_id y \<and> wa_work_id y = i \<and>
         wa_status y \<in> {Delivered, Expired} \<and>
         list_ex (\<lambda>w. w_id w = i \<and>
           json_extract [''accepted_control'', ''wait_id''] (w_checkpoint w) = Some (JStr (wa_id y)) \<and>
           json_extract [''accepted_control'', ''action''] (w_checkpoint w) = Some (JStr ''wait''))
           (works d))
         (waits d))
       (inputs d)"

definition settle_signal :: "db \<Rightarrow> string \<Rightarrow> string option \<Rightarrow> settlement \<Rightarrow> settlement" where
  "settle_signal d i goal s =
     (if se_state s = Waiting_external \<and> \<not> se_business s \<and> goal = None \<and> matched_signal d i then
        replace_exit ''waiting_input''
          (s\<lparr>se_state := Queued, se_reason := Some ''work_wait_delivered''\<rparr>)
      else s)"

definition settle_state ::
  "db \<Rightarrow> clock \<Rightarrow> string \<Rightarrow> work_state \<Rightarrow> string option \<Rightarrow> string option \<Rightarrow> string option \<Rightarrow> settlement" where
  "settle_state d now i st reason goal exit_reason =
     settle_signal d i goal (settle_owned d now i (settle_mailbox d i
       \<lparr>se_state = st, se_reason = reason, se_exit = exit_reason, se_business = False,
        se_draining = False\<rparr>))"

text \<open>The checkpoint the state is written with: the accepted decision is settled or kept.\<close>

definition keeps_control :: "settlement \<Rightarrow> bool" where
  "keeps_control s \<longleftrightarrow> se_state s = Running \<or> se_draining s \<or>
     se_reason s = Some ''work_input_preparing'' \<or>
     (se_state s = Queued \<and> se_exit s = Some ''segment_budget'')"

definition bound_wait :: "db \<Rightarrow> work_row \<Rightarrow> bool" where
  "bound_wait d w = list_ex (\<lambda>y.
     json_extract [''accepted_control'', ''wait_id''] (w_checkpoint w) = Some (JStr (wa_id y)) \<and>
     wa_work_id y = w_id w \<and> wa_status y = Active \<and>
     json_extract [''accepted_control'', ''action''] (w_checkpoint w) = Some (JStr ''wait'')) (waits d)"

definition settle_checkpoint :: "db \<Rightarrow> settlement \<Rightarrow> string option \<Rightarrow> work_row \<Rightarrow> json" where
  "settle_checkpoint d s goal w =
     (let before = w_checkpoint w;
          c0 = json_remove ''accepted_control'' before;
          copy = (\<lambda>k out c. case json_path [''accepted_control'', k] before of
                    Some v \<Rightarrow> if is_text (Some v) then json_set out v c else c | None \<Rightarrow> c);
          c1 = (if se_state s = Completed then copy ''result'' ''sync_result'' c0 else c0);
          c2 = (if se_state s \<in> {Failed, Waiting_user} then copy ''reason'' ''reason'' c1 else c1)
      in if keeps_control s then before
         else if se_state s = Waiting_external \<and> \<not> se_business s \<and> goal = None \<and> bound_wait d w
         then before else c2)"

section \<open>The single state writer: what it writes\<close>

definition state_row ::
  "db \<Rightarrow> clock \<Rightarrow> settlement \<Rightarrow> int option \<Rightarrow> string option \<Rightarrow> work_row \<Rightarrow> work_row" where
  "state_row d now s revision goal w =
     w\<lparr>w_state := se_state s, w_reason := se_reason s,
       w_revision := (case revision of None \<Rightarrow> w_revision w + 1 | Some r \<Rightarrow> r + 1),
       w_updated := now, w_goal := (case goal of None \<Rightarrow> w_goal w | Some g \<Rightarrow> g),
       w_checkpoint := settle_checkpoint d s goal w\<rparr>"

definition state_guard :: "work_lease \<Rightarrow> string \<Rightarrow> int option \<Rightarrow> work_row \<Rightarrow> bool" where
  "state_guard l i revision w \<longleftrightarrow> w_id w = i \<and> w_conversation w = l_conversation l \<and>
     w_generation w = l_generation l \<and> \<not> terminal (w_state w) \<and>
     (case revision of None \<Rightarrow> True | Some r \<Rightarrow> w_revision w = r)"

text \<open>\<open>stop_owned_execution\<close>: withdraw the authority of a subtree.\<close>

definition cancel_row :: "string option \<Rightarrow> clock \<Rightarrow> work_row \<Rightarrow> work_row" where
  "cancel_row reason now w =
     w\<lparr>w_state := Cancelled, w_reason := reason,
       w_checkpoint := json_remove ''accepted_control'' (w_checkpoint w),
       w_revision := w_revision w + 1, w_updated := now\<rparr>"

definition withdraw_input :: "input_row \<Rightarrow> input_row" where
  "withdraw_input i = i\<lparr>in_state := Withdrawn\<rparr>"

definition close_wait :: "wait_status \<Rightarrow> clock \<Rightarrow> wait_row \<Rightarrow> wait_row" where
  "close_wait st now y = y\<lparr>wa_status := st, wa_updated := now\<rparr>"

definition stop_owned_execution :: "db \<Rightarrow> clock \<Rightarrow> string \<Rightarrow> string option \<Rightarrow> db" where
  "stop_owned_execution d now i reason =
     (let tree = descendant_ids d True i in
      d\<lparr>works := update_where
          (\<lambda>w. w_id w \<in> set tree \<and> w_id w \<noteq> i \<and> \<not> terminal (w_state w)) (cancel_row reason now) (works d),
        children := update_where (\<lambda>c. ch_work_id c \<in> set tree) revoke_child (children d),
        inputs := update_where
          (\<lambda>x. (\<exists>j\<in>set tree. in_work_id x = Some j) \<and> open_input x) withdraw_input (inputs d),
        waits := update_where (\<lambda>y. wa_work_id y \<in> set tree \<and> wa_status y = Active)
          (close_wait Wait_cancelled now) (waits d)\<rparr>)"

text \<open>
  The recovery fact of a settlement, upserted by Work id. A caller's own detail is a whole row;
  otherwise only an exit reason is recorded, and the attempts and failure of an existing row
  are cleared for the exits that end a failure streak.
\<close>

definition clean_exits :: "string set" where
  "clean_exits = {''segment_budget'', ''completed'', ''waiting_input'', ''waiting_external''}"

definition exit_fact :: "work_lease \<Rightarrow> clock \<Rightarrow> string \<Rightarrow> string \<Rightarrow> recovery_row option \<Rightarrow> recovery_row" where
  "exit_fact l now i x prior =
     \<lparr>rc_work_id = i, rc_activation_id = l_owner l, rc_exit_reason = x, rc_stage = ''activation'',
      rc_failure = (if x \<in> clean_exits then JObj []
                    else case prior of None \<Rightarrow> JObj [] | Some p \<Rightarrow> rc_failure p),
      rc_attempts = (if x \<in> clean_exits then 0
                     else case prior of None \<Rightarrow> 0 | Some p \<Rightarrow> rc_attempts p),
      rc_not_before = 0, rc_updated = now\<rparr>"

definition put_recovery :: "recovery_row \<Rightarrow> recovery_row list \<Rightarrow> recovery_row list" where
  "put_recovery r rows =
     (if rc_work_id r \<in> rc_work_id ` set rows
      then update_where (\<lambda>q. rc_work_id q = rc_work_id r) (\<lambda>_. r) rows else rows @ [r])"

definition record_exit ::
  "db \<Rightarrow> work_lease \<Rightarrow> clock \<Rightarrow> string \<Rightarrow> string option \<Rightarrow> recovery_row option \<Rightarrow> db" where
  "record_exit d l now i exit_reason detail =
     (case detail of
        Some r \<Rightarrow>
          d\<lparr>recoveries := put_recovery
              (r\<lparr>rc_work_id := i,
                 rc_exit_reason := (case exit_reason of None \<Rightarrow> rc_exit_reason r | Some x \<Rightarrow> x)\<rparr>)
              (recoveries d)\<rparr>
      | None \<Rightarrow>
          (case exit_reason of
             None \<Rightarrow> d
           | Some x \<Rightarrow> d\<lparr>recoveries := put_recovery
                 (exit_fact l now i x (lookup_by rc_work_id i (recoveries d))) (recoveries d)\<rparr>))"

definition close_waits :: "db \<Rightarrow> clock \<Rightarrow> string \<Rightarrow> db" where
  "close_waits d now i =
     d\<lparr>waits := update_where (\<lambda>y. wa_work_id y = i \<and> wa_status y = Active)
         (close_wait Wait_cancelled now) (waits d)\<rparr>"

text \<open>The end of a plain business child, delivered to the inbox of its parent.\<close>

definition opt_json :: "string option \<Rightarrow> json" where
  "opt_json v = (case v of None \<Rightarrow> JNull | Some s \<Rightarrow> JStr s)"

definition result_input :: "db \<Rightarrow> clock \<Rightarrow> work_row \<Rightarrow> string \<Rightarrow> input_row" where
  "result_input d now row pid =
     \<lparr>in_id = next_input_id d, in_conversation = w_conversation row,
      in_generation = w_generation row,
      in_source_key = ''work-result:'' @ w_id row @ '':'' @ show_int (w_revision row),
      in_event_id = None, in_work_id = Some pid, in_kind = ''completion'', in_state = Pending,
      in_attempt = None, in_ready = True, in_prepare_owner = None,
      in_payload = encode_json (JObj [(''text'', JText (encode_json (JObj
        [(''work_id'', JStr (w_id row)), (''state'', JStr (work_state_name (w_state row))),
         (''reason'', opt_json (w_reason row)),
         (''result'', case json_extract [''sync_result''] (w_checkpoint row) of
            None \<Rightarrow> JNull | Some v \<Rightarrow> v)])))]),
      in_created = now\<rparr>"

definition wake_parent :: "clock \<Rightarrow> work_row \<Rightarrow> work_row" where
  "wake_parent now w = w\<lparr>w_state := Queued, w_revision := w_revision w + 1, w_updated := now\<rparr>"

definition active_wait :: "db \<Rightarrow> string \<Rightarrow> bool" where
  "active_wait d i = list_ex (\<lambda>y. wa_work_id y = i \<and> wa_status y = Active) (waits d)"

definition notify_parent :: "db \<Rightarrow> clock \<Rightarrow> work_row \<Rightarrow> db" where
  "notify_parent d now row =
     (case w_parent row of
        None \<Rightarrow> d
      | Some pid \<Rightarrow>
          if w_id row \<in> ch_work_id ` set (children d) then d
          else d\<lparr>inputs := insert_ignore in_source_key (result_input d now row pid) (inputs d),
                 works := update_where
                   (\<lambda>w. w_id w = pid \<and> w_state w = Waiting_external \<and> \<not> active_wait d pid)
                   (wake_parent now) (works d)\<rparr>)"

definition after_state ::
  "db \<Rightarrow> clock \<Rightarrow> work_lease \<Rightarrow> string \<Rightarrow> settlement \<Rightarrow> string option \<Rightarrow> string option \<Rightarrow>
   recovery_row option \<Rightarrow> work_row \<Rightarrow> db" where
  "after_state d now l i s reason goal detail row =
     (let d1 = (if w_state row \<in> {Failed, Cancelled} \<and> \<not> se_business s
                then stop_owned_execution d now i reason else d);
          d2 = record_exit d1 l now i (se_exit s) detail;
          d3 = (if terminal (w_state row) \<or> goal \<noteq> None then close_waits d2 now i else d2)
      in if terminal (w_state row) then notify_parent d3 now row else d3)"

definition commit_state ::
  "db \<Rightarrow> clock \<Rightarrow> work_lease \<Rightarrow> string \<Rightarrow> work_state \<Rightarrow> int option \<Rightarrow> string option \<Rightarrow> string option \<Rightarrow>
   string option \<Rightarrow> recovery_row option \<Rightarrow> work_error + (work_row \<times> db)" where
  "commit_state d now l i st revision reason goal exit_reason detail =
     (let s = settle_state d now i st reason goal exit_reason in
      case List.find (state_guard l i revision) (works d) of
        None \<Rightarrow> Inl (Conflict ''work_revision_conflict'')
      | Some w \<Rightarrow>
          (let row = state_row d now s revision goal w;
               d1 = d\<lparr>works := update_where (state_guard l i revision)
                                (state_row d now s revision goal) (works d)\<rparr>
           in Inr (row, after_state d1 now l i s reason goal detail row)))"

definition transition ::
  "db \<Rightarrow> clock \<Rightarrow> work_lease \<Rightarrow> string \<Rightarrow> int \<Rightarrow> string \<Rightarrow> string option \<Rightarrow> string option \<Rightarrow>
   string option \<Rightarrow> work_error + (work_row \<times> db)" where
  "transition d now l i revision st reason goal exit_reason =
     (case parse_work_state st of
        None \<Rightarrow> Inl (Value_error ''invalid_work_transition'')
      | Some s \<Rightarrow>
          if (case goal of None \<Rightarrow> False | Some g \<Rightarrow> blank g)
          then Inl (Value_error ''invalid_work_transition'')
          else case assert_lease d now l of
            Inl e \<Rightarrow> Inl e
          | Inr _ \<Rightarrow> commit_state d now l i s (Some revision) reason goal exit_reason None)"

section \<open>The accepted decision and the checkpoint\<close>

definition open_work :: "work_lease \<Rightarrow> string \<Rightarrow> work_row \<Rightarrow> bool" where
  "open_work l i w \<longleftrightarrow> w_id w = i \<and> w_conversation w = l_conversation l \<and>
     w_generation w = l_generation l \<and> \<not> terminal (w_state w)"

definition control_row :: "clock \<Rightarrow> json option \<Rightarrow> work_row \<Rightarrow> work_row" where
  "control_row now control w =
     w\<lparr>w_checkpoint := (case control of
          Some c \<Rightarrow> json_set ''accepted_control'' (encode_json c) (w_checkpoint w)
        | None \<Rightarrow> json_remove ''accepted_control'' (w_checkpoint w)),
       w_updated := now\<rparr>"

definition set_accepted_control ::
  "db \<Rightarrow> clock \<Rightarrow> work_lease \<Rightarrow> string \<Rightarrow> json option \<Rightarrow> work_error + (work_row \<times> db)" where
  "set_accepted_control d now l i control =
     (case List.find (open_work l i) (works d) of
        None \<Rightarrow> Inl (Conflict ''work_checkpoint_obsolete'')
      | Some w \<Rightarrow> Inr (control_row now control w,
          d\<lparr>works := update_where (open_work l i) (control_row now control) (works d)\<rparr>))"

definition accept_control ::
  "db \<Rightarrow> clock \<Rightarrow> work_lease \<Rightarrow> string \<Rightarrow> json option \<Rightarrow> work_error + (work_row \<times> db)" where
  "accept_control d now l i control =
     (case assert_lease d now l of
        Inl e \<Rightarrow> Inl e | Inr _ \<Rightarrow> set_accepted_control d now l i control)"

definition retain_key :: "json \<Rightarrow> string \<Rightarrow> json \<Rightarrow> json" where
  "retain_key old k new =
     (case json_path [k] old of
        Some v \<Rightarrow> if is_object (Some v) then json_set k v new else new | None \<Rightarrow> new)"

definition checkpoint_row ::
  "clock \<Rightarrow> json option \<Rightarrow> int \<Rightarrow> int \<Rightarrow> int \<Rightarrow> work_row \<Rightarrow> work_row" where
  "checkpoint_row now payload models tools messages w =
     w\<lparr>w_checkpoint := json_remove ''communication'' (case payload of
          None \<Rightarrow> w_checkpoint w
        | Some p \<Rightarrow> retain_key (w_checkpoint w) ''accepted_control''
            (retain_key (w_checkpoint w) ''context_note'' (encode_json p))),
       w_updated := now, w_models := w_models w + models, w_tools := w_tools w + tools,
       w_sent := w_sent w + messages\<rparr>"

definition checkpoint ::
  "db \<Rightarrow> clock \<Rightarrow> work_lease \<Rightarrow> string \<Rightarrow> json option \<Rightarrow> int \<Rightarrow> int \<Rightarrow> int \<Rightarrow> work_error + db" where
  "checkpoint d now l i payload models tools messages =
     (if models < 0 \<or> tools < 0 \<or> messages < 0 then Inl (Value_error ''invalid_work_usage'')
      else case assert_lease d now l of
        Inl e \<Rightarrow> Inl e
      | Inr _ \<Rightarrow>
        (case (if models \<noteq> 0 \<or> tools \<noteq> 0 then charge d i models tools else Inr d) of
           Inl e \<Rightarrow> Inl e
         | Inr d1 \<Rightarrow>
             if list_ex (open_work l i) (works d1) then
               Inr (d1\<lparr>works := update_where (open_work l i)
                   (checkpoint_row now payload models tools messages) (works d1)\<rparr>)
             else Inl (Conflict ''work_checkpoint_obsolete'')))"

end
