(* ===== verification/Work_Media.thy ===== *)
theory Work_Media
  imports Json
begin

text \<open>
  Content-addressed media in durable payloads (\<open>runtime/work_media.py\<close>). The digest
  function (\<open>hashlib.sha256\<close>) is a parameter; all the code relies on is that different
  contents get different digests, which the round-trip property states as its hypothesis. A
  blob is kept as the string whose encoding the code stores. The blob dictionary that
  \<open>externalize\<close> fills is threaded as a state. \<open>hydrate\<close> returns \<open>None\<close> where the code
  raises (\<open>KeyError\<close> or \<open>work_media_corrupt\<close>).
\<close>

type_synonym blobs = "(string \<times> string) list"

definition is_image :: "string \<Rightarrow> bool" where
  "is_image s = (take 11 s = ''data:image/'')"

definition media_marker :: string where
  "media_marker = ''$work_media''"

fun externalize :: "(string \<Rightarrow> string) \<Rightarrow> json \<Rightarrow> blobs \<Rightarrow> json \<times> blobs"
  and externalize_list :: "(string \<Rightarrow> string) \<Rightarrow> json list \<Rightarrow> blobs \<Rightarrow> json list \<times> blobs"
  and externalize_items ::
    "(string \<Rightarrow> string) \<Rightarrow> (string \<times> json) list \<Rightarrow> blobs \<Rightarrow> (string \<times> json) list \<times> blobs" where
  "externalize sha (JStr s) b =
     (if is_image s then (JObj [(media_marker, JStr (sha s))], AList.update (sha s) s b)
      else (JStr s, b))"
| "externalize sha (JObj kvs) b =
     (case externalize_items sha kvs b of (kvs', b') \<Rightarrow> (JObj kvs', b'))"
| "externalize sha (JArr xs) b = (case externalize_list sha xs b of (xs', b') \<Rightarrow> (JArr xs', b'))"
| "externalize sha (JText j) b = (JText j, b)"
| "externalize sha JNull b = (JNull, b)"
| "externalize sha (JBool x) b = (JBool x, b)"
| "externalize sha (JInt n) b = (JInt n, b)"
| "externalize sha (JFloat x) b = (JFloat x, b)"
| "externalize_list sha [] b = ([], b)"
| "externalize_list sha (x # xs) b =
     (case externalize sha x b of (x', b1) \<Rightarrow>
        (case externalize_list sha xs b1 of (xs', b2) \<Rightarrow> (x' # xs', b2)))"
| "externalize_items sha [] b = ([], b)"
| "externalize_items sha ((k, x) # kvs) b =
     (case externalize sha x b of (x', b1) \<Rightarrow>
        (case externalize_items sha kvs b1 of (kvs', b2) \<Rightarrow> ((k, x') # kvs', b2)))"

text \<open>\<open>set(value) == {"$work_media"}\<close>: an object whose only key is the marker.\<close>

definition marked :: "(string \<times> json) list \<Rightarrow> bool" where
  "marked kvs \<longleftrightarrow> kvs \<noteq> [] \<and> list_all (\<lambda>kv. fst kv = media_marker) kvs"

fun hydrate :: "(string \<Rightarrow> string) \<Rightarrow> blobs \<Rightarrow> json \<Rightarrow> json option"
  and hydrate_list :: "(string \<Rightarrow> string) \<Rightarrow> blobs \<Rightarrow> json list \<Rightarrow> json list option"
  and hydrate_items ::
    "(string \<Rightarrow> string) \<Rightarrow> blobs \<Rightarrow> (string \<times> json) list \<Rightarrow> (string \<times> json) list option" where
  "hydrate sha b (JObj kvs) =
     (if marked kvs then
        (case map_of kvs media_marker of
           Some (JStr digest) \<Rightarrow>
             (case map_of b digest of
                None \<Rightarrow> None
              | Some s \<Rightarrow> if sha s = digest then Some (JStr s) else None)
         | _ \<Rightarrow> None)
      else map_option JObj (hydrate_items sha b kvs))"
| "hydrate sha b (JArr xs) = map_option JArr (hydrate_list sha b xs)"
| "hydrate sha b (JStr s) = Some (JStr s)"
| "hydrate sha b (JText j) = Some (JText j)"
| "hydrate sha b JNull = Some JNull"
| "hydrate sha b (JBool x) = Some (JBool x)"
| "hydrate sha b (JInt n) = Some (JInt n)"
| "hydrate sha b (JFloat x) = Some (JFloat x)"
| "hydrate_list sha b [] = Some []"
| "hydrate_list sha b (x # xs) =
     (case hydrate sha b x of None \<Rightarrow> None | Some x' \<Rightarrow> map_option (\<lambda>xs'. x' # xs') (hydrate_list sha b xs))"
| "hydrate_items sha b [] = Some []"
| "hydrate_items sha b ((k, x) # kvs) =
     (case hydrate sha b x of None \<Rightarrow> None | Some x' \<Rightarrow> map_option (\<lambda>ys. (k, x') # ys) (hydrate_items sha b kvs))"

fun references :: "json \<Rightarrow> json set"
  and references_list :: "json list \<Rightarrow> json set"
  and references_items :: "(string \<times> json) list \<Rightarrow> json set" where
  "references (JObj kvs) =
     (if marked kvs then (case map_of kvs media_marker of None \<Rightarrow> {} | Some v \<Rightarrow> {v})
      else references_items kvs)"
| "references (JArr xs) = references_list xs"
| "references (JStr s) = {}"
| "references (JText j) = {}"
| "references JNull = {}"
| "references (JBool x) = {}"
| "references (JInt n) = {}"
| "references (JFloat x) = {}"
| "references_list [] = {}"
| "references_list (x # xs) = references x \<union> references_list xs"
| "references_items [] = {}"
| "references_items ((k, x) # kvs) = references x \<union> references_items kvs"

section \<open>Round trip\<close>

text \<open>
  \<open>plain v\<close>: no object of \<open>v\<close> is itself a marker object. \<open>images v\<close> are the image strings
  of \<open>v\<close>; \<open>stored\<close> says that every blob lies under its own digest.
\<close>

fun plain :: "json \<Rightarrow> bool" where
  "plain (JObj kvs) \<longleftrightarrow> \<not> marked kvs \<and> (\<forall>kv\<in>set kvs. plain (snd kv))"
| "plain (JArr xs) \<longleftrightarrow> (\<forall>x\<in>set xs. plain x)"
| "plain _ \<longleftrightarrow> True"

fun images :: "json \<Rightarrow> string set" where
  "images (JStr s) = (if is_image s then {s} else {})"
| "images (JObj kvs) = (\<Union>kv\<in>set kvs. images (snd kv))"
| "images (JArr xs) = (\<Union>x\<in>set xs. images x)"
| "images _ = {}"

definition stored :: "(string \<Rightarrow> string) \<Rightarrow> blobs \<Rightarrow> string set" where
  "stored sha b = {s. map_of b (sha s) = Some s}"

lemma stored_update:
  assumes "inj_on sha S" "stored sha b \<subseteq> S" "s \<in> S"
  shows "stored sha (AList.update (sha s) s b) = insert s (stored sha b)"
proof -
  have "sha x = sha s \<longleftrightarrow> x = s" if "x \<in> stored sha b" for x
    using assms that by (auto dest: inj_onD)
  moreover have "map_of (AList.update (sha s) s b) (sha x) = Some x \<longleftrightarrow>
      x = s \<or> (sha x \<noteq> sha s \<and> x \<in> stored sha b)" for x
    by (auto simp: update_conv stored_def)
  ultimately show ?thesis
    unfolding stored_def by blast
qed

lemma externalize_stored:
  shows "inj_on sha S \<Longrightarrow> images v \<subseteq> S \<Longrightarrow> stored sha b \<subseteq> S \<Longrightarrow>
      stored sha (snd (externalize sha v b)) = stored sha b \<union> images v"
    and "inj_on sha S \<Longrightarrow> (\<Union>x\<in>set xs. images x) \<subseteq> S \<Longrightarrow> stored sha b \<subseteq> S \<Longrightarrow>
      stored sha (snd (externalize_list sha xs b)) = stored sha b \<union> (\<Union>x\<in>set xs. images x)"
    and "inj_on sha S \<Longrightarrow> (\<Union>kv\<in>set kvs. images (snd kv)) \<subseteq> S \<Longrightarrow> stored sha b \<subseteq> S \<Longrightarrow>
      stored sha (snd (externalize_items sha kvs b)) = stored sha b \<union> (\<Union>kv\<in>set kvs. images (snd kv))"
proof (induction sha v b and sha xs b and sha kvs b
    rule: externalize_externalize_list_externalize_items.induct)
  case (1 sha s b)
  show ?case
  proof (cases "is_image s")
    case True
    then show ?thesis using stored_update [of sha S b s] 1 by simp
  qed simp
next
  case (10 sha x xs b)
  obtain x' b1 where x: "externalize sha x b = (x', b1)" by fastforce
  obtain ys b2 where "externalize_list sha xs b1 = (ys, b2)" by fastforce
  with x 10 show ?case by (simp add: Un_assoc)
next
  case (12 sha k x kvs b)
  obtain x' b1 where x: "externalize sha x b = (x', b1)" by fastforce
  obtain ys b2 where "externalize_items sha kvs b1 = (ys, b2)" by fastforce
  with x 12 show ?case by (simp add: Un_assoc)
qed (simp_all add: case_prod_beta)

lemma externalize_keys:
  "map fst (fst (externalize_items sha kvs b)) = map fst kvs"
  by (induction kvs arbitrary: b) (auto split: prod.split, metis fst_conv)

lemma marked_keys: "map fst kvs = map fst kvs' \<Longrightarrow> marked kvs = marked kvs'"
proof -
  have "marked xs \<longleftrightarrow> map fst xs \<noteq> [] \<and> list_all (\<lambda>k. k = media_marker) (map fst xs)" for xs
    by (simp add: marked_def list.pred_map comp_def)
  then show "map fst kvs = map fst kvs' \<Longrightarrow> marked kvs = marked kvs'"
    by presburger
qed

lemma marked_externalized:
  "externalize_items sha kvs b = (kvs', b') \<Longrightarrow> marked kvs' = marked kvs"
  using externalize_keys [of sha kvs b] by (intro marked_keys) simp

lemma hydrate_externalize:
  shows "plain v \<Longrightarrow> images v \<subseteq> stored sha c \<Longrightarrow> hydrate sha c (fst (externalize sha v b)) = Some v"
    and "(\<forall>x\<in>set xs. plain x) \<Longrightarrow> (\<Union>x\<in>set xs. images x) \<subseteq> stored sha c \<Longrightarrow>
      hydrate_list sha c (fst (externalize_list sha xs b)) = Some xs"
    and "(\<forall>kv\<in>set kvs. plain (snd kv)) \<Longrightarrow> (\<Union>kv\<in>set kvs. images (snd kv)) \<subseteq> stored sha c \<Longrightarrow>
      hydrate_items sha c (fst (externalize_items sha kvs b)) = Some kvs"
proof (induction sha v b and sha xs b and sha kvs b
    rule: externalize_externalize_list_externalize_items.induct)
  case (1 sha s b)
  then show ?case by (auto simp: marked_def stored_def)
next
  case (2 sha kvs b)
  then show ?case by (auto split: prod.split simp: marked_externalized)
qed (fastforce split: prod.split)+

lemma references_externalize:
  shows "plain v \<Longrightarrow> references (fst (externalize sha v b)) = (\<lambda>s. JStr (sha s)) ` images v"
    and "(\<forall>x\<in>set xs. plain x) \<Longrightarrow> references_list (fst (externalize_list sha xs b)) =
      (\<lambda>s. JStr (sha s)) ` (\<Union>x\<in>set xs. images x)"
    and "(\<forall>kv\<in>set kvs. plain (snd kv)) \<Longrightarrow> references_items (fst (externalize_items sha kvs b)) =
      (\<lambda>s. JStr (sha s)) ` (\<Union>kv\<in>set kvs. images (snd kv))"
proof (induction sha v b and sha xs b and sha kvs b
    rule: externalize_externalize_list_externalize_items.induct)
  case (1 sha s b)
  then show ?case by (auto simp: marked_def)
next
  case (2 sha kvs b)
  then show ?case
    by (cases "externalize_items sha kvs b") (simp add: marked_externalized)
next
  case (10 sha x xs b)
  obtain x' b1 where x: "externalize sha x b = (x', b1)" by fastforce
  obtain ys b2 where "externalize_list sha xs b1 = (ys, b2)" by fastforce
  with x 10 show ?case by (simp add: image_Un)
next
  case (12 sha k x kvs b)
  obtain x' b1 where x: "externalize sha x b = (x', b1)" by fastforce
  obtain ys b2 where "externalize_items sha kvs b1 = (ys, b2)" by fastforce
  with x 12 show ?case by (simp add: image_Un)
qed (simp_all add: case_prod_beta)

section \<open>Property\<close>

text \<open>
  C24: A payload without marker objects, externalized with a digest that does not collide on the
  images involved, hydrates back to itself from the resulting blobs and from any later blob
  table that still holds them. The stored payload references exactly the digests of its images,
  and no blob stored before is lost.
\<close>

theorem media_roundtrip:
  assumes "inj_on sha (images v \<union> stored sha b)" "plain v" "externalize sha v b = (w, b')"
  shows "hydrate sha b' w = Some v \<and>
    (\<forall>c. stored sha b' \<subseteq> stored sha c \<longrightarrow> hydrate sha c w = Some v) \<and>
    references w = (\<lambda>s. JStr (sha s)) ` images v \<and> stored sha b \<subseteq> stored sha b'"
proof -
  have st: "stored sha b' = stored sha b \<union> images v"
    using externalize_stored(1) [OF assms(1), of v b] assms(3) by simp
  moreover have "images v \<subseteq> stored sha c \<Longrightarrow> hydrate sha c w = Some v" for c
    using hydrate_externalize(1) [OF assms(2), of sha c b] assms(3) by simp
  ultimately show ?thesis
    using references_externalize(1) [OF assms(2), of sha b] assms(3) by auto
qed

definition demo_payload :: json where
  "demo_payload = JObj [(''text'', JStr ''hi''),
     (''images'', JArr [JObj [(''url'', JStr ''data:image/png;base64,AA'')]])]"

theorem media_roundtrip_witness:
  "\<exists>w b'. externalize rev demo_payload [] = (w, b') \<and> hydrate rev b' w = Some demo_payload \<and>
     w \<noteq> demo_payload"
proof -
  obtain w b' where e: "externalize rev demo_payload [] = (w, b')" by fastforce
  have "inj_on rev (images demo_payload \<union> stored rev [])" by (simp add: inj_on_def)
  moreover have "plain demo_payload" by (simp add: demo_payload_def marked_def media_marker_def)
  ultimately have "hydrate rev b' w = Some demo_payload" using media_roundtrip e by blast
  moreover have "w \<noteq> demo_payload"
    using e by (auto simp: demo_payload_def is_image_def media_marker_def)
  ultimately show ?thesis using e by blast
qed

end
