(* ===== verification/Work_Inputs.thy ===== *)
theory Work_Inputs
  imports Work_Store Work_Media
begin

text \<open>
  The durable inbox of \<open>runtime/work_repository.py\<close>: \<open>enqueue\<close> (with the explicit resume
  of a Work), \<open>prepare_input\<close>, \<open>pending\<close>, \<open>stage\<close>, \<open>consume\<close>, \<open>discard_input\<close>,
  the completion receipts of sandbox children (\<open>route_child_completion\<close>,
  \<open>confirm_child_completion\<close>), media reclamation and the privacy purge of a scope.
  An operation with a read phase before its writer takes the store the reader saw (\<open>seen\<close>)
  and the store of the writer (\<open>d\<close>) separately, because other writers may run in between.
\<close>

section \<open>Enqueue and explicit resume\<close>

record enqueue_request =
  eq_conversation :: string
  eq_generation :: int
  eq_source_key :: string
  eq_kind :: string
  eq_event_id :: "int option"
  eq_work_id :: "string option"
  eq_ready :: bool
  eq_resume :: "(work_lease \<times> json) option"
  eq_payload :: "json option"
  eq_prepared :: "json option"
  eq_in_session :: bool

definition eq_serialized :: "enqueue_request \<Rightarrow> json" where
  "eq_serialized q =
     (case eq_prepared q of
        Some j \<Rightarrow> j
      | None \<Rightarrow> encode_json (case eq_resume q of
          Some (_, j) \<Rightarrow> j
        | None \<Rightarrow> (case eq_payload q of None \<Rightarrow> JObj [] | Some j \<Rightarrow> j)))"

definition eq_matches :: "enqueue_request \<Rightarrow> input_row \<Rightarrow> bool" where
  "eq_matches q r \<longleftrightarrow>
     (eq_payload q = None \<and> eq_prepared q = None \<or> in_payload r = eq_serialized q) \<and>
     in_conversation r = eq_conversation q \<and> in_generation r = eq_generation q \<and>
     in_kind r = eq_kind q \<and> in_event_id r = eq_event_id q \<and> in_work_id r = eq_work_id q"

definition eq_row :: "string \<Rightarrow> db \<Rightarrow> clock \<Rightarrow> enqueue_request \<Rightarrow> input_row" where
  "eq_row process d now q =
     \<lparr>in_id = next_input_id d, in_conversation = eq_conversation q,
      in_generation = eq_generation q, in_source_key = eq_source_key q,
      in_event_id = eq_event_id q, in_work_id = eq_work_id q, in_kind = eq_kind q,
      in_state = Pending, in_attempt = None, in_ready = eq_ready q,
      in_prepare_owner = (if eq_ready q then None else Some process),
      in_payload = eq_serialized q, in_created = now\<rparr>"

definition resume_guard :: "enqueue_request \<Rightarrow> work_row \<Rightarrow> bool" where
  "resume_guard q w \<longleftrightarrow> Some (w_id w) = eq_work_id q \<and>
     w_conversation w = eq_conversation q \<and> w_generation w = eq_generation q \<and>
     w_state w \<notin> {Completed, Cancelled} \<and> json_extract [''archived''] (w_checkpoint w) = None"

definition resume_row :: "clock \<Rightarrow> work_row \<Rightarrow> work_row" where
  "resume_row now w =
     w\<lparr>w_state := Queued, w_reason := Some ''explicit_resume'',
       w_checkpoint := json_remove ''accepted_control'' (w_checkpoint w),
       w_revision := w_revision w + 1, w_updated := now\<rparr>"

definition resume_work :: "db \<Rightarrow> clock \<Rightarrow> enqueue_request \<Rightarrow> work_error + db" where
  "resume_work d now q =
     (if \<not> list_ex (resume_guard q) (works d) then Inl (Conflict ''work_resume_obsolete'')
      else Inr (d\<lparr>works := update_where (resume_guard q) (resume_row now) (works d),
                  waits := update_where (\<lambda>y. Some (wa_work_id y) = eq_work_id q \<and> wa_status y = Active)
                    (close_wait Wait_cancelled now) (waits d)\<rparr>))"

definition resume_lease_ok :: "db \<Rightarrow> clock \<Rightarrow> enqueue_request \<Rightarrow> work_error + unit" where
  "resume_lease_ok d now q =
     (case eq_resume q of
        None \<Rightarrow> Inr ()
      | Some (owned, _) \<Rightarrow>
          (case assert_lease d now owned of
             Inl e \<Rightarrow> Inl e
           | Inr _ \<Rightarrow>
               if worker_lease owned \<or> l_conversation owned \<noteq> eq_conversation q \<or>
                  l_generation owned \<noteq> eq_generation q
               then Inl (Conflict ''work_resume_scope_mismatch'') else Inr ()))"

definition enqueue_commit ::
  "string \<Rightarrow> db \<Rightarrow> clock \<Rightarrow> enqueue_request \<Rightarrow> work_error + (int \<times> db)" where
  "enqueue_commit process d now q =
     (case resume_lease_ok d now q of
        Inl e \<Rightarrow> Inl e
      | Inr _ \<Rightarrow>
        (let d1 = d\<lparr>inputs := insert_ignore in_source_key (eq_row process d now q) (inputs d)\<rparr> in
         case lookup_by in_source_key (eq_source_key q) (inputs d1) of
           None \<Rightarrow> Inl No_result
         | Some row \<Rightarrow>
             if \<not> eq_matches q row then Inl (Conflict ''work_input_conflict'')
             else if eq_resume q \<noteq> None \<and> in_payload row \<noteq> eq_serialized q
             then Inl (Conflict ''work_input_conflict'')
             else if eq_resume q \<noteq> None \<and> in_state row = Pending then
               (case resume_work d1 now q of
                  Inl e \<Rightarrow> Inl e | Inr d2 \<Rightarrow> Inr (in_id row, d2))
             else Inr (in_id row, d1)))"

definition enqueue ::
  "string \<Rightarrow> db \<Rightarrow> db \<Rightarrow> clock \<Rightarrow> enqueue_request \<Rightarrow> work_error + (int \<times> db)" where
  "enqueue process seen d now q =
     (if eq_source_key q = [] \<or> eq_kind q \<notin> {''message'', ''completion'', ''control''}
      then Inl (Value_error ''invalid_work_input'')
      else if eq_resume q = None \<and> \<not> eq_in_session q then
        (case lookup_by in_source_key (eq_source_key q) (inputs seen) of
           Some row \<Rightarrow>
             if eq_matches q row then Inr (in_id row, d) else Inl (Conflict ''work_input_conflict'')
         | None \<Rightarrow> enqueue_commit process d now q)
      else enqueue_commit process d now q)"

section \<open>Preparation\<close>

definition settled_ready :: "db \<Rightarrow> int \<Rightarrow> bool" where
  "settled_ready d i = list_ex (\<lambda>r. in_id r = i \<and> in_state r \<in> {Pending, Staged, Consumed} \<and> in_ready r)
     (inputs d)"

definition live_input_owner :: "db \<Rightarrow> input_row \<Rightarrow> bool" where
  "live_input_owner d r = list_ex (\<lambda>w. Some (w_id w) = in_work_id r \<and>
     w_generation w = in_generation r \<and> w_conversation w = in_conversation r \<and>
     \<not> terminal (w_state w) \<and>
     list_ex (\<lambda>v. cv_id v = w_conversation w \<and> cv_generation v = in_generation r) (conversations d))
     (works d)"

definition preparable :: "db \<Rightarrow> int \<Rightarrow> input_row \<Rightarrow> bool" where
  "preparable d i r \<longleftrightarrow> in_id r = i \<and> in_state r = Pending \<and> \<not> in_ready r \<and>
     (in_work_id r = None \<or> live_input_owner d r)"

definition input_prepared :: "clock \<Rightarrow> work_row \<Rightarrow> work_row" where
  "input_prepared now w =
     w\<lparr>w_state := Queued, w_reason := Some ''input_prepared'', w_updated := now,
       w_revision := w_revision w + 1\<rparr>"

definition wake_prepared :: "db \<Rightarrow> clock \<Rightarrow> int \<Rightarrow> db" where
  "wake_prepared d now i =
     d\<lparr>works := update_where
         (\<lambda>w. list_ex (\<lambda>x. in_id x = i \<and> in_ready x \<and> in_work_id x = Some (w_id w)) (inputs d) \<and>
              w_state w \<in> {Waiting_external, Waiting_user})
         (input_prepared now) (works d)\<rparr>"

definition add_media :: "string option \<Rightarrow> blobs \<Rightarrow> db \<Rightarrow> work_error + db" where
  "add_media owner b d =
     (if b = [] then Inr d
      else case owner of
        None \<Rightarrow> Inl (Conflict ''work_input_media_owner_missing'')
      | Some w \<Rightarrow> Inr (d\<lparr>media_blobs := fold (insert_ignore fst) b (media_blobs d),
            media_refs := fold (insert_ignore id) (map (\<lambda>kv. (w, fst kv)) b) (media_refs d)\<rparr>))"

text \<open>
  \<open>payload\<close> is \<open>{**payload, "images": [...]}\<close>; \<open>publish\<close> is the optional
  \<open>before_publish\<close> callback, which runs in the same transaction.
\<close>

definition prepare_input ::
  "(string \<Rightarrow> string) \<Rightarrow> db \<Rightarrow> db \<Rightarrow> clock \<Rightarrow> int \<Rightarrow> json \<Rightarrow> (db \<Rightarrow> int \<Rightarrow> work_error + db) option \<Rightarrow>
   work_error + (bool \<times> db)" where
  "prepare_input sha seen d now i payload publish =
     (if publish = None \<and> settled_ready seen i then Inr (True, d)
      else case externalize sha payload [] of (prepared, b) \<Rightarrow>
        let hook = (\<lambda>x. case publish of None \<Rightarrow> Inr x | Some f \<Rightarrow> f x i) in
        (case List.find (preparable d i) (inputs d) of
           None \<Rightarrow>
             if settled_ready d i then
               (case hook d of Inl e \<Rightarrow> Inl e | Inr d1 \<Rightarrow> Inr (True, d1))
             else Inr (False, d)
         | Some r \<Rightarrow>
             (case hook (d\<lparr>inputs := update_where (preparable d i)
                  (\<lambda>r. r\<lparr>in_payload := encode_json prepared, in_ready := True\<rparr>) (inputs d)\<rparr>) of
                Inl e \<Rightarrow> Inl e
              | Inr d1 \<Rightarrow>
                (case add_media (in_work_id r) b d1 of
                   Inl e \<Rightarrow> Inl e
                 | Inr d2 \<Rightarrow> Inr (True, wake_prepared d2 now i)))))"

definition discard_input :: "db \<Rightarrow> clock \<Rightarrow> int \<Rightarrow> db" where
  "discard_input d now i =
     (let p = (\<lambda>r. in_id r = i \<and> in_state r = Pending \<and> \<not> in_ready r);
          d1 = d\<lparr>inputs := update_where p
                  (\<lambda>r. r\<lparr>in_state := Withdrawn, in_payload := JObj []\<rparr>) (inputs d)\<rparr>
      in case List.find p (inputs d) of
           None \<Rightarrow> d1
         | Some r \<Rightarrow>
             (case in_work_id r of
                None \<Rightarrow> d1
              | Some wid \<Rightarrow> d1\<lparr>works := update_where
                  (\<lambda>w. w_id w = wid \<and> w_state w = Waiting_external \<and>
                       w_reason w = Some ''work_input_preparing'')
                  (\<lambda>w. w\<lparr>w_state := Queued, w_reason := Some ''input_preparation_cleared'',
                         w_revision := w_revision w + 1, w_updated := now\<rparr>) (works d)\<rparr>))"

section \<open>Delivery to an activation\<close>

definition mail_target :: "work_lease \<Rightarrow> string option \<Rightarrow> string option" where
  "mail_target l wid = (if truthy_str wid then wid else l_work_id l)"

definition pending_inputs ::
  "db \<Rightarrow> work_lease \<Rightarrow> int \<Rightarrow> string option \<Rightarrow> work_error + input_row list" where
  "pending_inputs d l cap wid =
     (if worker_lease l \<and> wid \<noteq> None \<and> wid \<noteq> l_work_id l
      then Inl (Conflict ''worker_mail_not_owned'')
      else Inr (take (nat (min 32 (max 1 cap))) (sort_key in_id (filter (\<lambda>r.
        in_conversation r = l_conversation l \<and> in_generation r = l_generation l \<and>
        in_state r = Pending \<and>
        (if truthy_str (mail_target l wid) then in_work_id r = mail_target l wid
         else (case in_work_id r of None \<Rightarrow> True | Some w \<Rightarrow> w \<notin> ch_work_id ` set (children d))))
        (inputs d)))))"

definition stageable :: "work_lease \<Rightarrow> int list \<Rightarrow> input_row \<Rightarrow> bool" where
  "stageable l ids r \<longleftrightarrow> in_id r \<in> set ids \<and> in_conversation r = l_conversation l \<and>
     in_generation r = l_generation l \<and> in_state r = Pending"

definition stage :: "db \<Rightarrow> clock \<Rightarrow> work_lease \<Rightarrow> int list \<Rightarrow> string \<Rightarrow> work_error + db" where
  "stage d now l ids attempt =
     (if ids = [] \<or> \<not> distinct ids \<or> length ids > 32
      then Inl (Value_error ''invalid_work_input_batch'')
      else case assert_lease d now l of
        Inl e \<Rightarrow> Inl e
      | Inr _ \<Rightarrow>
          if length (filter (stageable l ids) (inputs d)) \<noteq> length ids
          then Inl (Conflict ''work_input_already_staged'')
          else Inr (d\<lparr>inputs := update_where (stageable l ids)
                 (\<lambda>r. r\<lparr>in_state := Staged, in_attempt := Some attempt\<rparr>) (inputs d)\<rparr>))"

definition consumable :: "work_lease \<Rightarrow> string \<Rightarrow> input_row \<Rightarrow> bool" where
  "consumable l attempt r \<longleftrightarrow> in_conversation r = l_conversation l \<and>
     in_generation r = l_generation l \<and> in_attempt r = Some attempt \<and> in_state r = Staged"

definition consume :: "db \<Rightarrow> clock \<Rightarrow> work_lease \<Rightarrow> string \<Rightarrow> work_error + db" where
  "consume d now l attempt =
     (case assert_lease d now l of
        Inl e \<Rightarrow> Inl e
      | Inr _ \<Rightarrow> Inr (d\<lparr>inputs := update_where (consumable l attempt)
            (\<lambda>r. r\<lparr>in_state := Consumed\<rparr>) (inputs d)\<rparr>))"

section \<open>Completion receipts of sandbox children\<close>

definition completion_object :: "sandbox_run_row \<Rightarrow> json" where
  "completion_object t = (case sr_completion t of None \<Rightarrow> JObj [] | Some j \<Rightarrow> j)"

definition json_or_null :: "string \<Rightarrow> json \<Rightarrow> json" where
  "json_or_null k j = (case json_get k j of None \<Rightarrow> JNull | Some v \<Rightarrow> v)"

definition optional_fields :: "string list \<Rightarrow> json \<Rightarrow> (string \<times> json) list" where
  "optional_fields ks j = List.map_filter (\<lambda>k. map_option (\<lambda>v. (k, v)) (json_get k j)) ks"

text \<open>The forwarded notice; \<open>hint\<close> is its fixed sentence for the model.\<close>

definition completion_notice :: "json \<Rightarrow> sandbox_run_row \<Rightarrow> json" where
  "completion_notice hint t =
     (let c = completion_object t in
      encode_json (JObj [(''text'', JText (JObj (
        [(''kind'', JStr (if json_get ''kind'' c = Some (JStr ''external_agent'')
                          then ''external_agent_completion'' else ''sandbox_completion'')),
         (''request_id'', JStr (sr_request_id t)),
         (''run_id'', opt_json (sr_run_id t)),
         (''status'', case json_get ''operation_status'' c of
            Some v \<Rightarrow> v | None \<Rightarrow> json_or_null ''status'' c)]
        @ optional_fields [''operation_status'', ''native_status'', ''native_pending'',
            ''operation_id'', ''instance_id'', ''session_id'', ''execution_id''] c
        @ [(''pending'', JBool False), (''exit_code'', json_or_null ''exit_code'' c),
           (''detail'', hint)])))]))"

definition same_task :: "sandbox_run_row \<Rightarrow> sandbox_run_row \<Rightarrow> bool" where
  "same_task t p \<longleftrightarrow> sr_run_id t = sr_run_id p \<and> sr_source t = sr_source p \<and>
     sr_completion t = sr_completion p \<and> sr_conversation t = sr_conversation p"

definition mark_receipt ::
  "string \<Rightarrow> string \<Rightarrow> string \<Rightarrow> clock option \<Rightarrow> continuation_row list \<Rightarrow> continuation_row list" where
  "mark_receipt rid st reason now rows = update_where (\<lambda>r. ct_request_id r = rid)
     (\<lambda>r. r\<lparr>ct_state := st, ct_reason := Some reason,
            ct_updated := (case now of None \<Rightarrow> ct_updated r | Some t \<Rightarrow> t)\<rparr>) rows"

definition completion_input :: "json \<Rightarrow> db \<Rightarrow> clock \<Rightarrow> sandbox_run_row \<Rightarrow> work_row \<Rightarrow> input_row" where
  "completion_input hint d now t parent =
     \<lparr>in_id = next_input_id d, in_conversation = w_conversation parent,
      in_generation = w_generation parent, in_source_key = ''completion:'' @ sr_request_id t,
      in_event_id = None, in_work_id = Some (w_id parent), in_kind = ''completion'',
      in_state = Pending, in_attempt = None, in_ready = True, in_prepare_owner = None,
      in_payload = completion_notice hint t, in_created = now\<rparr>"

definition source_work_id :: "json \<Rightarrow> string option" where
  "source_work_id source = (case json_get ''work_id'' source of Some (JStr s) \<Rightarrow> Some s | _ \<Rightarrow> None)"

definition route_to_parent ::
  "json \<Rightarrow> db \<Rightarrow> clock \<Rightarrow> sandbox_run_row \<Rightarrow> sandbox_run_row \<Rightarrow> work_error + db" where
  "route_to_parent hint d now prepared t =
     (let rid = sr_request_id t in
      if \<not> truthy_opt (json_get ''work_id'' (sr_source prepared)) then
        Inr (d\<lparr>continuations :=
          mark_receipt rid ''blocked'' ''legacy_continuation_retired'' (Some now) (continuations d)\<rparr>)
      else case List.find (\<lambda>w. source_work_id (sr_source prepared) = Some (w_id w)) (works d) of
        None \<Rightarrow> Inr (d\<lparr>continuations :=
          mark_receipt rid ''blocked'' ''work_terminal_or_deleted'' None (continuations d)\<rparr>)
      | Some parent \<Rightarrow>
          if terminal (w_state parent) then
            Inr (d\<lparr>continuations :=
              mark_receipt rid ''blocked'' ''work_terminal_or_deleted'' None (continuations d)\<rparr>)
          else if sr_conversation t \<noteq> w_conversation parent \<or>
             json_get ''generation'' (sr_source prepared) \<noteq> Some (JInt (w_generation parent))
          then Inl (Conflict ''work_child_source_mismatch'')
          else Inr (d\<lparr>inputs := insert_ignore in_source_key
                        (completion_input hint d now prepared parent) (inputs d),
                      works := update_where
                        (\<lambda>w. w_id w = w_id parent \<and> w_state w = Waiting_external \<and>
                             \<not> active_wait d (w_id parent)) (wake_parent now) (works d),
                      continuations := mark_receipt rid ''observed'' ''forwarded_to_parent_work''
                        (Some now) (continuations d)\<rparr>))"

definition route_child_completion ::
  "json \<Rightarrow> db \<Rightarrow> db \<Rightarrow> clock \<Rightarrow> string \<Rightarrow> work_error + db" where
  "route_child_completion hint seen d now rid =
     (case lookup_by sr_request_id rid (sandbox_runs seen) of
        None \<Rightarrow> Inr d
      | Some prepared \<Rightarrow>
          (case (lookup_by sr_request_id rid (sandbox_runs d), lookup_by ct_request_id rid (continuations d)) of
             (Some t, Some receipt) \<Rightarrow>
               if ct_state receipt \<noteq> ''ready'' \<or> \<not> same_task t prepared then Inr d
               else route_to_parent hint d now prepared t
           | _ \<Rightarrow> Inr d))"

definition confirmable :: "continuation_row \<Rightarrow> bool" where
  "confirmable r \<longleftrightarrow> ct_state r \<in> {''ready'', ''observed''} \<and>
     (ct_state r = ''observed'' \<longrightarrow>
        ct_reason r \<in> {Some ''forwarded_to_parent_work'', Some ''original_turn_observed''})"

definition wakeup_input :: "string \<Rightarrow> input_row \<Rightarrow> bool" where
  "wakeup_input rid x \<longleftrightarrow> in_source_key x = ''completion:'' @ rid \<and> in_kind x = ''completion'' \<and>
     in_state x = Pending"

text \<open>The indexed candidate read of \<open>confirm_child_completion\<close> and its receipt check.\<close>

definition confirm_candidate :: "db \<Rightarrow> string \<Rightarrow> sandbox_run_row option" where
  "confirm_candidate d rid =
     (case (lookup_by sr_request_id rid (sandbox_runs d), lookup_by ct_request_id rid (continuations d)) of
        (Some t, Some r) \<Rightarrow>
          if sr_status t = ''completed'' \<and> sr_run_id t \<noteq> None \<and>
             (ct_state r = ''ready'' \<or>
              ct_state r = ''observed'' \<and>
                (ct_reason r = Some ''forwarded_to_parent_work'' \<or>
                 ct_reason r = Some ''original_turn_observed'' \<and>
                   list_ex (wakeup_input rid) (inputs d)))
          then Some t else None
      | _ \<Rightarrow> None)"

definition native_receipt :: "sandbox_run_row \<Rightarrow> bool" where
  "native_receipt t \<longleftrightarrow>
     is_object (Some (sr_source t)) \<and> is_object (Some (completion_object t)) \<and>
     json_or_null ''run_id'' (completion_object t) = opt_json (sr_run_id t) \<and>
     json_get ''pending'' (completion_object t) = Some (JBool False) \<and>
     json_get ''status'' (completion_object t)
       \<in> {Some (JStr ''succeeded''), Some (JStr ''failed''), Some (JStr ''cancelled'')}"

definition parent_of_source :: "db \<Rightarrow> sandbox_run_row \<Rightarrow> json \<Rightarrow> work_row option" where
  "parent_of_source d t source =
     (case List.find (\<lambda>w. source_work_id source = Some (w_id w)) (works d) of
        None \<Rightarrow> None
      | Some w \<Rightarrow>
          if json_get ''conversation_id'' source = Some (JStr (sr_conversation t)) \<and>
             sr_conversation t = w_conversation w \<and>
             json_get ''generation'' source = Some (JInt (w_generation w))
          then Some w else None)"

definition confirm_commit ::
  "db \<Rightarrow> clock \<Rightarrow> string \<Rightarrow> continuation_row \<Rightarrow> work_row option \<Rightarrow> bool \<times> db" where
  "confirm_commit d now rid r parent =
     (let changed = (ct_state r \<noteq> ''observed'' \<or> ct_reason r \<noteq> Some ''original_turn_observed'');
          d1 = (if changed then d\<lparr>continuations := mark_receipt rid ''observed''
                  ''original_turn_observed'' (Some now) (continuations d)\<rparr> else d)
      in case parent of
           None \<Rightarrow> (changed, d1)
         | Some w \<Rightarrow>
             (let p = (\<lambda>x. wakeup_input rid x \<and> in_work_id x = Some (w_id w) \<and>
                           in_conversation x = w_conversation w \<and> in_generation x = w_generation w)
              in (list_ex p (inputs d) \<or> changed,
                  d1\<lparr>inputs := update_where p withdraw_input (inputs d)\<rparr>)))"

definition confirm_child_completion :: "db \<Rightarrow> db \<Rightarrow> clock \<Rightarrow> string \<Rightarrow> bool \<times> db" where
  "confirm_child_completion seen d now rid =
     (case confirm_candidate seen rid of
        None \<Rightarrow> (False, d)
      | Some c \<Rightarrow>
        if \<not> native_receipt c then (False, d)
        else (case (lookup_by sr_request_id rid (sandbox_runs d), lookup_by ct_request_id rid (continuations d)) of
          (Some t, Some r) \<Rightarrow>
            if sr_status t \<noteq> ''completed'' \<or> \<not> truthy_str (sr_run_id t) \<or> \<not> confirmable r \<or> \<not> same_task t c
            then (False, d)
            else if truthy_opt (json_get ''work_id'' (sr_source c)) then
              (case parent_of_source d t (sr_source c) of
                 None \<Rightarrow> (False, d)
               | Some w \<Rightarrow> confirm_commit d now rid r (Some w))
            else confirm_commit d now rid r None
        | _ \<Rightarrow> (False, d)))"

section \<open>Privacy purge and media\<close>

definition reclaim_unreferenced_media :: "db \<Rightarrow> db \<Rightarrow> db" where
  "reclaim_unreferenced_media seen d =
     (let orphaned = take 64 (filter (\<lambda>h. h \<notin> snd ` set (media_refs seen)) (map fst (media_blobs seen)))
      in if orphaned = [] then d
         else d\<lparr>media_blobs := filter (\<lambda>kv. \<not> (fst kv \<in> set orphaned \<and> fst kv \<notin> snd ` set (media_refs d)))
                (media_blobs d)\<rparr>)"

text \<open>
  \<open>purge_scope\<close> on the modelled tables, with the \<open>ON DELETE CASCADE\<close> of the recovery,
  delivery, budget and media-reference rows that the deletion of a Work runs.
\<close>

definition purge_scope :: "db \<Rightarrow> string \<Rightarrow> db" where
  "purge_scope d conv =
     (let gone = map w_id (filter (\<lambda>w. w_conversation w = conv) (works d));
          refs = filter (\<lambda>r. fst r \<notin> set gone) (media_refs d)
      in d\<lparr>journals := filter (\<lambda>j. jn_work_id j \<notin> set gone) (journals d),
           waits := filter (\<lambda>y. wa_work_id y \<notin> set gone) (waits d),
           effects := filter (\<lambda>e. ef_work_id e \<notin> set gone) (effects d),
           inputs := filter (\<lambda>x. in_conversation x \<noteq> conv) (inputs d),
           children := filter (\<lambda>c. ch_work_id c \<notin> set gone) (children d),
           works := filter (\<lambda>w. w_conversation w \<noteq> conv) (works d),
           recoveries := filter (\<lambda>r. rc_work_id r \<notin> set gone) (recoveries d),
           deliveries := filter (\<lambda>r. dl_work_id r \<notin> set gone) (deliveries d),
           budgets := filter (\<lambda>b. bg_root b \<notin> set gone) (budgets d),
           media_refs := refs,
           media_blobs := filter (\<lambda>kv. fst kv \<in> snd ` set refs) (media_blobs d),
           scopes := filter (\<lambda>s. sc_conversation s \<noteq> conv) (scopes d)\<rparr>)"

end
