(* ===== verification/Work_Effects.thy ===== *)
theory Work_Effects
  imports Work_Store
begin

text \<open>
  External effects of a Work: the invocation intent (\<open>prepare_effect\<close>), the single dispatch
  marker (\<open>admit_dispatch\<close>), the domain reference (\<open>bind_domain_receipt\<close>) and the SQL
  clauses that decide which receipts are unresolved (\<open>runtime/work_repository.py\<close>), the
  Python reading of the same receipts (\<open>execution_finished\<close> and the domain checks of
  \<open>historical_evidence\<close> in \<open>runtime/effect_outcomes.py\<close>), and the delivery intents
  of \<open>runtime/delivery_intents.py\<close>.
\<close>

section \<open>Intents\<close>

definition opt_field :: "string \<Rightarrow> json option \<Rightarrow> (string \<times> json) list" where
  "opt_field k v = (case v of None \<Rightarrow> [] | Some j \<Rightarrow> [(k, j)])"

definition prepare_effect ::
  "db \<Rightarrow> clock \<Rightarrow> work_lease \<Rightarrow> string \<Rightarrow> string \<Rightarrow> string \<Rightarrow> json option \<Rightarrow> json option \<Rightarrow> json option \<Rightarrow>
   work_error + (bool \<times> db)" where
  "prepare_effect d now l i key kind outcome invocation composition =
     (case assert_lease d now l of
        Inl e \<Rightarrow> Inl e
      | Inr _ \<Rightarrow>
          if \<not> list_ex (open_work l i) (works d) then Inl (Conflict ''work_effect_obsolete'')
          else Inr (key \<notin> ef_key ` set (effects d),
            d\<lparr>effects := insert_ignore ef_key
                \<lparr>ef_key = key, ef_work_id = i, ef_kind = kind, ef_state = Prepared,
                 ef_receipt = encode_json (JObj (opt_field ''outcome'' outcome @
                    opt_field ''invocation'' invocation @ opt_field ''composition'' composition)),
                 ef_created = now, ef_updated = now\<rparr> (effects d)\<rparr>))"

definition find_effect :: "db \<Rightarrow> string \<Rightarrow> string \<Rightarrow> effect_row option" where
  "find_effect d i key = List.find (\<lambda>e. ef_key e = key \<and> ef_work_id e = i) (effects d)"

definition undispatched_intent :: "db \<Rightarrow> string \<Rightarrow> string \<Rightarrow> bool" where
  "undispatched_intent d i key =
     (case find_effect d i key of
        None \<Rightarrow> False
      | Some e \<Rightarrow>
          if ef_state e \<noteq> Prepared then False
          else case json_get ''invocation'' (ef_receipt e) of
            None \<Rightarrow> False
          | Some m \<Rightarrow> is_object (Some m) \<and> num_eq (json_get ''version'' m) 1 \<and>
              json_get ''dispatch_started'' m = Some (JBool False))"

definition volatile_fields :: "string set" where
  "volatile_fields = {''dispatch_started'', ''budget_admitted'', ''revision'', ''original_domain_ref''}"

text \<open>\<open>previous.get(k) != v\<close>, where a missing key reads as \<open>None\<close>.\<close>

definition validate_invocation :: "db \<Rightarrow> string \<Rightarrow> (string \<times> json) list \<Rightarrow> work_error + unit" where
  "validate_invocation d key expected =
     (case lookup_by ef_key key (effects d) of
        None \<Rightarrow> Inr ()
      | Some e \<Rightarrow>
          (case json_get ''invocation'' (ef_receipt e) of
             None \<Rightarrow> Inr ()
           | Some JNull \<Rightarrow> Inr ()
           | Some previous \<Rightarrow>
               if list_ex (\<lambda>(k, v). k \<notin> volatile_fields \<and>
                    (case json_get k previous of None \<Rightarrow> JNull | Some x \<Rightarrow> x) \<noteq> v) expected
               then Inl (Conflict ''invocation_content_conflict'') else Inr ()))"

section \<open>Dispatch\<close>

definition started_invocation :: "bool \<Rightarrow> int \<Rightarrow> json \<Rightarrow> json" where
  "started_invocation charged revision m =
     json_set ''revision'' (JInt (revision + 1))
       (json_set ''budget_admitted'' (JBool charged)
         (json_set ''dispatch_started'' (JBool True) m))"

definition dispatch_guard :: "effect_row \<Rightarrow> string \<Rightarrow> string \<Rightarrow> effect_row \<Rightarrow> bool" where
  "dispatch_guard original i key e \<longleftrightarrow> ef_key e = key \<and> ef_work_id e = i \<and>
     ef_state e = Prepared \<and> ef_receipt e = ef_receipt original"

text \<open>The writer transaction: the marker by compare-and-set, then the charge of the root budget.\<close>

definition dispatch_commit ::
  "db \<Rightarrow> clock \<Rightarrow> work_lease \<Rightarrow> string \<Rightarrow> string \<Rightarrow> bool \<Rightarrow> effect_row \<Rightarrow> json \<Rightarrow>
   work_error + (bool \<times> db)" where
  "dispatch_commit d now l i key charged original serialized =
     (case assert_lease d now l of
        Inl e \<Rightarrow> Inl e
      | Inr _ \<Rightarrow>
          if \<not> list_ex (dispatch_guard original i key) (effects d) then Inr (False, d)
          else
            (let d1 = d\<lparr>effects := update_where (dispatch_guard original i key)
                         (\<lambda>e. e\<lparr>ef_receipt := serialized, ef_updated := now\<rparr>) (effects d)\<rparr>
             in if \<not> charged then Inr (True, d1)
                else case charge d1 i 0 1 of
                  Inl e \<Rightarrow> Inl e
                | Inr d2 \<Rightarrow>
                    if list_ex (open_work l i) (works d2) then
                      Inr (True, d2\<lparr>works := update_where (open_work l i)
                             (\<lambda>w. w\<lparr>w_tools := w_tools w + 1, w_updated := now\<rparr>) (works d2)\<rparr>)
                    else Inl (Conflict ''work_effect_obsolete'')))"

definition admit_dispatch ::
  "db \<Rightarrow> db \<Rightarrow> clock \<Rightarrow> work_lease \<Rightarrow> string \<Rightarrow> string \<Rightarrow> bool \<Rightarrow> work_error + (bool \<times> db)" where
  "admit_dispatch seen d now l i key charged =
     (case find_effect seen i key of
        None \<Rightarrow> Inl (Conflict ''invocation_intent_missing'')
      | Some original \<Rightarrow>
          (case json_get ''invocation'' (ef_receipt original) of
             None \<Rightarrow> Inl (Conflict ''invocation_metadata_missing'')
           | Some m \<Rightarrow>
               if \<not> is_object (Some m) \<or> \<not> num_eq (json_get ''version'' m) 1
               then Inl (Conflict ''invocation_metadata_missing'')
               else if truthy_opt (json_get ''dispatch_started'' m) \<or> ef_state original \<noteq> Prepared
               then Inr (False, d)
               else case json_get ''revision'' m of
                 Some (JInt r) \<Rightarrow> dispatch_commit d now l i key charged original
                   (encode_json (json_set ''invocation'' (started_invocation charged r m)
                      (ef_receipt original)))
               | _ \<Rightarrow> Inl (Key_error ''revision'')))"

text \<open>\<open>json_set\<close> on a path of two keys, as SQLite does it when the outer value is an object.\<close>

definition json_set2 :: "string \<Rightarrow> string \<Rightarrow> json \<Rightarrow> json \<Rightarrow> json" where
  "json_set2 k k' v j = (case json_get k j of None \<Rightarrow> j | Some inner \<Rightarrow> json_set k (json_set k' v inner) j)"

fun sql_increment :: "json option \<Rightarrow> json" where
  "sql_increment (Some (JInt n)) = JInt (n + 1)"
| "sql_increment (Some (JFloat x)) = JFloat (x + 1)"
| "sql_increment _ = JNull"

definition bind_guard :: "db \<Rightarrow> string \<Rightarrow> string \<Rightarrow> string \<Rightarrow> effect_row \<Rightarrow> bool" where
  "bind_guard d i key reference e \<longleftrightarrow> ef_key e = key \<and> ef_work_id e = i \<and>
     list_ex (\<lambda>w. w_id w = i \<and> \<not> terminal (w_state w) \<and>
       map_option cv_generation (lookup_by cv_id (w_conversation w) (conversations d))
         = Some (w_generation w)) (works d) \<and>
     num_eq (json_extract [''invocation'', ''version''] (ef_receipt e)) 1 \<and>
     num_eq (json_extract [''invocation'', ''dispatch_started''] (ef_receipt e)) 1 \<and>
     json_extract [''invocation'', ''original_domain_ref''] (ef_receipt e) \<in> {None, Some (JStr reference)}"

definition bind_row :: "clock \<Rightarrow> string \<Rightarrow> effect_row \<Rightarrow> effect_row" where
  "bind_row now reference e =
     e\<lparr>ef_receipt := json_set2 ''invocation'' ''revision''
          (sql_increment (json_extract [''invocation'', ''revision''] (ef_receipt e)))
          (json_set2 ''invocation'' ''original_domain_ref'' (JStr reference) (ef_receipt e)),
       ef_updated := now\<rparr>"

definition bind_domain_receipt ::
  "db \<Rightarrow> clock \<Rightarrow> string \<Rightarrow> string \<Rightarrow> string \<Rightarrow> work_error + db" where
  "bind_domain_receipt d now i key reference =
     (if reference = [] \<or> length reference > 256
      then Inl (Conflict ''effect_domain_reference_invalid'')
      else if \<not> list_ex (bind_guard d i key reference) (effects d)
      then Inl (Conflict ''effect_domain_reference_conflict'')
      else Inr (d\<lparr>effects := update_where (bind_guard d i key reference) (bind_row now reference)
             (effects d)\<rparr>))"

section \<open>Which receipts are unresolved\<close>

definition field_type :: "string \<Rightarrow> effect_row \<Rightarrow> string" where
  "field_type k e = json_type (json_path [k] (ef_receipt e))"

definition outcome_type :: "string \<Rightarrow> effect_row \<Rightarrow> string" where
  "outcome_type k e = json_type (json_path [''outcome'', k] (ef_receipt e))"

definition lifecycle_role :: "effect_row \<Rightarrow> bool" where
  "lifecycle_role e \<longleftrightarrow> outcome_type ''side_effecting'' e \<noteq> ''false''"

definition known_native_final :: "effect_row \<Rightarrow> bool" where
  "known_native_final e \<longleftrightarrow>
     (ef_kind e = ''final'' \<and> field_type ''outcome'' e = ''missing'' \<and>
      field_type ''result'' e = ''missing'' \<and> field_type ''status'' e = ''missing'' \<and>
      field_type ''ok'' e = ''missing'') \<and>
     ((ef_state e = Accepted \<and> field_type ''transport_accepted'' e = ''true'' \<and>
       field_type ''error'' e = ''missing'' \<and>
       field_type ''pending'' e \<in> {''missing'', ''false''} \<and>
       field_type ''uncertain'' e \<in> {''missing'', ''false''} \<and>
       field_type ''executed'' e \<in> {''missing'', ''true''} \<and>
       field_type ''mutation_committed'' e \<in> {''missing'', ''true''}) \<or>
      (ef_state e = Effect_failed \<and> field_type ''error'' e = ''text'' \<and>
       json_extract [''error''] (ef_receipt e) = Some (JStr ''delivery_not_dispatched'') \<and>
       field_type ''executed'' e = ''false'' \<and> field_type ''mutation_committed'' e = ''false'' \<and>
       field_type ''transport_accepted'' e = ''missing'' \<and>
       field_type ''pending'' e \<in> {''missing'', ''false''} \<and>
       field_type ''uncertain'' e \<in> {''missing'', ''false''}))"

definition outcome_absent :: "effect_row \<Rightarrow> bool" where
  "outcome_absent e \<longleftrightarrow> field_type ''outcome'' e \<in> {''missing'', ''null''} \<or>
     json_extract [''outcome''] (ef_receipt e) \<in> {Some (JObj []), Some (JText (JObj []))}"

definition outcome_malformed :: "effect_row \<Rightarrow> bool" where
  "outcome_malformed e \<longleftrightarrow>
     field_type ''outcome'' e \<notin> {''object'', ''missing'', ''null''} \<or>
     list_ex (\<lambda>k. outcome_type k e \<notin> {''missing'', ''true'', ''false''})
       [''ok'', ''pending'', ''uncertain'', ''side_effecting'', ''executed'', ''retryable''] \<or>
     outcome_type ''mutation_committed'' e \<notin> {''missing'', ''true'', ''false'', ''null''} \<or>
     outcome_type ''status'' e \<notin> {''missing'', ''null'', ''text''} \<or>
     (\<not> outcome_absent e \<and>
      \<not> (outcome_type ''ok'' e \<in> {''true'', ''false''} \<or> outcome_type ''pending'' e = ''true'' \<or>
         outcome_type ''uncertain'' e = ''true'' \<or> outcome_type ''side_effecting'' e = ''false''))"

definition unknown_historical :: "effect_row \<Rightarrow> bool" where
  "unknown_historical e \<longleftrightarrow> \<not> known_native_final e \<and> (outcome_malformed e \<or> outcome_absent e)"

definition outcome_status_in :: "string set \<Rightarrow> effect_row \<Rightarrow> bool" where
  "outcome_status_in S e \<longleftrightarrow>
     (\<exists>s\<in>S. json_extract [''outcome'', ''status''] (ef_receipt e) = Some (JStr s))"

definition never_dispatched :: "effect_row \<Rightarrow> bool" where
  "never_dispatched e \<longleftrightarrow> ef_state e = Prepared \<and>
     num_eq (json_extract [''invocation'', ''version''] (ef_receipt e)) 1 \<and>
     num_eq (json_extract [''invocation'', ''dispatch_started''] (ef_receipt e)) 0"

definition unresolved :: "bool \<Rightarrow> bool \<Rightarrow> effect_row \<Rightarrow> bool" where
  "unresolved pending uncertain e \<longleftrightarrow>
     (lifecycle_role e \<or> unknown_historical e) \<and>
     ((pending \<and> (num_eq (json_extract [''outcome'', ''pending''] (ef_receipt e)) 1 \<or>
                   outcome_status_in {''running'', ''queued'', ''waiting''} e)) \<or>
      (uncertain \<and> (num_eq (json_extract [''outcome'', ''uncertain''] (ef_receipt e)) 1 \<or>
                     outcome_status_in {''unknown'', ''uncertain''} e \<or>
                     ef_state e \<in> {Prepared, Unknown} \<or> unknown_historical e))) \<and>
     \<not> never_dispatched e \<and>
     (ef_kind e \<noteq> ''code_composition'' \<or>
      \<not> num_eq (json_extract [''composition'', ''version''] (ef_receipt e)) 1)"

section \<open>The same receipts read by the Python code\<close>

definition execution_finished :: "json \<Rightarrow> bool" where
  "execution_finished evidence \<longleftrightarrow>
     (case (case json_get ''operation_status'' evidence of
              Some v \<Rightarrow> Some v | None \<Rightarrow> json_get ''status'' evidence) of
        Some (JStr s) \<Rightarrow> s \<in> {''completed'', ''succeeded'', ''failed'', ''cancelled'', ''detached''}
      | _ \<Rightarrow> False) \<and>
     \<not> truthy_opt (json_get ''pending'' evidence) \<and> \<not> truthy_opt (json_get ''uncertain'' evidence)"

definition get_default :: "string \<Rightarrow> json \<Rightarrow> json \<Rightarrow> json" where
  "get_default k v j = (case json_get k j of None \<Rightarrow> v | Some x \<Rightarrow> x)"

definition native_accepted :: "effect_state \<Rightarrow> json \<Rightarrow> bool" where
  "native_accepted st r \<longleftrightarrow> st = Accepted \<and>
     json_get ''transport_accepted'' r = Some (JBool True) \<and> json_get ''error'' r = None \<and>
     list_all (\<lambda>(k, expected). get_default k (JBool expected) r = JBool expected)
       [(''pending'', False), (''uncertain'', False), (''executed'', True), (''mutation_committed'', True)]"

definition native_refused :: "effect_state \<Rightarrow> json \<Rightarrow> bool" where
  "native_refused st r \<longleftrightarrow> st = Effect_failed \<and>
     json_get ''error'' r = Some (JStr ''delivery_not_dispatched'') \<and>
     json_get ''executed'' r = Some (JBool False) \<and>
     json_get ''mutation_committed'' r = Some (JBool False) \<and>
     json_get ''transport_accepted'' r = None \<and>
     get_default ''pending'' (JBool False) r = JBool False \<and>
     get_default ''uncertain'' (JBool False) r = JBool False"

definition native_final :: "string \<Rightarrow> effect_state \<Rightarrow> json \<Rightarrow> bool" where
  "native_final kind st r \<longleftrightarrow> kind = ''final'' \<and>
     list_all (\<lambda>k. json_get k r = None) [''outcome'', ''result'', ''status'', ''ok''] \<and>
     (native_accepted st r \<or> native_refused st r)"

text \<open>\<open>valid\<close> of \<open>historical_evidence\<close> for the value of the outcome field.\<close>

definition evidence_valid :: "json option \<Rightarrow> bool" where
  "evidence_valid v =
     (case v of
        Some (JObj kvs) \<Rightarrow>
          (let e = JObj kvs in
           ((\<exists>b. json_get ''ok'' e = Some (JBool b)) \<or> json_get ''pending'' e = Some (JBool True) \<or>
            json_get ''uncertain'' e = Some (JBool True) \<or>
            json_get ''side_effecting'' e = Some (JBool False)) \<and>
           list_all (\<lambda>k. json_get k e \<in> {None, Some (JBool True), Some (JBool False)})
             [''ok'', ''pending'', ''uncertain'', ''side_effecting'', ''executed'', ''retryable''] \<and>
           (json_get ''status'' e \<in> {None, Some JNull} \<or> is_text (json_get ''status'' e)) \<and>
           json_get ''mutation_committed'' e
             \<in> {None, Some JNull, Some (JBool True), Some (JBool False)})
      | _ \<Rightarrow> False)"

section \<open>Delivery intents\<close>

definition new_delivery :: "clock \<Rightarrow> string \<Rightarrow> string \<Rightarrow> string \<Rightarrow> json \<Rightarrow> int \<Rightarrow> delivery_row" where
  "new_delivery now i key kind payload count =
     \<lparr>dl_id = key, dl_work_id = i, dl_kind = kind, dl_count = count, dl_state = ''reserved'',
      dl_payload = payload, dl_receipt = JObj [], dl_created = now, dl_updated = now\<rparr>"

definition deliver_row :: "clock \<Rightarrow> delivery_row \<Rightarrow> delivery_row" where
  "deliver_row now r = r\<lparr>dl_state := ''reserved'', dl_created := now, dl_updated := now\<rparr>"

definition count_sent :: "db \<Rightarrow> string \<Rightarrow> int \<Rightarrow> db" where
  "count_sent d i n = d\<lparr>works := update_where (\<lambda>w. w_id w = i) (\<lambda>w. w\<lparr>w_sent := w_sent w + n\<rparr>) (works d)\<rparr>"

text \<open>
  \<open>reserve\<close> with the current Work \<open>i\<close> of the control. Its \<open>sent_messages\<close> cache is the
  column's value and is not kept separately.
\<close>

definition reserve ::
  "db \<Rightarrow> clock \<Rightarrow> work_lease \<Rightarrow> string option \<Rightarrow> string \<Rightarrow> string \<Rightarrow> json \<Rightarrow> int \<Rightarrow> work_error + db" where
  "reserve d now l current key kind payload count =
     (case current of
        None \<Rightarrow> Inr d
      | Some i \<Rightarrow>
        if count < 1 then Inl (Conflict ''delivery_message_count_invalid'')
        else case assert_lease d now l of
          Inl e \<Rightarrow> Inl e
        | Inr _ \<Rightarrow>
          if \<not> list_ex (open_work l i) (works d) then Inl (Conflict ''work_delivery_obsolete'')
          else case lookup_by dl_id key (deliveries d) of
            None \<Rightarrow> Inr (count_sent (d\<lparr>deliveries := deliveries d @ [new_delivery now i key kind payload count]\<rparr>) i count)
          | Some prior \<Rightarrow>
              if dl_work_id prior \<noteq> i \<or> dl_kind prior \<noteq> kind \<or> dl_count prior \<noteq> count \<or>
                 dl_payload prior \<noteq> payload
              then Inl (Conflict ''delivery_intent_conflict'')
              else if dl_state prior = ''reserved'' then Inr d
              else if dl_state prior \<in> {''accepted'', ''unknown'', ''dispatching''}
              then Inl (Conflict ''delivery_replay_forbidden'')
              else Inr (count_sent (d\<lparr>deliveries := update_where (\<lambda>r. dl_id r = key) (deliver_row now)
                     (deliveries d)\<rparr>) i count))"

definition record_delivery :: "db \<Rightarrow> clock \<Rightarrow> string \<Rightarrow> string \<Rightarrow> json \<Rightarrow> db" where
  "record_delivery d now key st receipt =
     d\<lparr>deliveries := update_where
         (\<lambda>r. dl_id r = key \<and> dl_state r \<noteq> ''accepted'' \<and> (st \<noteq> ''accepted'' \<longrightarrow> dl_state r \<noteq> ''unknown''))
         (\<lambda>r. r\<lparr>dl_state := st, dl_receipt := encode_json receipt, dl_updated := now\<rparr>) (deliveries d)\<rparr>"

end
