(* ===== verification/Lease_Protocol.thy ===== *)
theory Lease_Protocol
  imports Work_Lease
begin

text \<open>
  Safety of the lease operations over whole executions. The state is the store, the wall
  clock (which does not run backwards here) and the list of leases handed out so far. A step
  is a tick, one writer session of a lease operation, or any other writer session, which may
  change the store arbitrarily as long as it satisfies \<open>lease_frame\<close>: it gives no row a
  new owner. Every operation of the Work runtime modelled in this development is shown to
  satisfy it. The freshness premise of the two acquisition rules is the documented behaviour
  of \<open>uuid4()\<close>.
\<close>

definition lease_frame :: "db \<Rightarrow> db \<Rightarrow> bool" where
  "lease_frame d d' \<longleftrightarrow>
     unique_key sc_conversation (scopes d') \<and> unique_key ch_work_id (children d') \<and>
     (\<forall>s'\<in>set (scopes d'). sc_owner s' = None \<or> s' \<in> set (scopes d)) \<and>
     (\<forall>c'\<in>set (children d'). ch_owner c' = None \<or>
        (\<exists>c\<in>set (children d). ch_work_id c = ch_work_id c' \<and> ch_owner c = ch_owner c' \<and>
           ch_fence c = ch_fence c' \<and> ch_lease_until c = ch_lease_until c' \<and>
           ch_cancel_epoch c = ch_cancel_epoch c' \<and>
           (ch_archived_at c' = None \<longrightarrow> ch_archived_at c = None)))"

definition conversations_advance :: "string set \<Rightarrow> db \<Rightarrow> db \<Rightarrow> bool" where
  "conversations_advance used d d' \<longleftrightarrow> unique_key cv_id (conversations d') \<and>
     (\<forall>v'\<in>set (conversations d'). cv_id v' \<notin> used \<or>
        (\<exists>v\<in>set (conversations d). cv_id v = cv_id v' \<and> cv_generation v \<le> cv_generation v'))"

record lease_sys =
  clk :: clock
  store :: db
  granted :: "work_lease list"

inductive lease_step :: "lease_sys \<Rightarrow> lease_sys \<Rightarrow> bool" where
  tick: "clk s \<le> t \<Longrightarrow> lease_step s (s\<lparr>clk := t\<rparr>)"
| acquire: "acquire_commit (store s) (clk s) h conv gen secs = (Some l, d') \<Longrightarrow>
     h \<notin> l_owner ` set (granted s) \<Longrightarrow> valid_duration secs \<Longrightarrow>
     lease_step s (s\<lparr>store := d', granted := l # granted s\<rparr>)"
| worker: "acquire_worker (store s) (clk s) h wid = (Some l, d') \<Longrightarrow>
     h \<notin> l_owner ` set (granted s) \<Longrightarrow> wid \<noteq> [] \<Longrightarrow>
     lease_step s (s\<lparr>store := d', granted := l # granted s\<rparr>)"
| renew: "l \<in> set (granted s) \<Longrightarrow> valid_duration secs \<Longrightarrow>
     renew_commit (store s) (clk s) l secs = (b, d') \<Longrightarrow> lease_step s (s\<lparr>store := d'\<rparr>)"
| release: "l \<in> set (granted s) \<Longrightarrow>
     lease_step s (s\<lparr>store := release_commit (store s) (clk s) l\<rparr>)"
| other: "lease_frame (store s) d' \<Longrightarrow>
     conversations_advance (l_conversation ` set (granted s)) (store s) d' \<Longrightarrow>
     lease_step s (s\<lparr>store := d'\<rparr>)"

inductive lease_run :: "lease_sys \<Rightarrow> lease_sys \<Rightarrow> bool" where
  stop: "lease_run s s"
| more: "lease_run s t \<Longrightarrow> lease_step t u \<Longrightarrow> lease_run s u"

text \<open>A fresh start: any store in which no row has an owner.\<close>

definition lease_start :: "lease_sys \<Rightarrow> bool" where
  "lease_start s \<longleftrightarrow> granted s = [] \<and> unique_key cv_id (conversations (store s)) \<and>
     unique_key sc_conversation (scopes (store s)) \<and> unique_key ch_work_id (children (store s)) \<and>
     (\<forall>r\<in>set (scopes (store s)). sc_owner r = None) \<and>
     (\<forall>r\<in>set (children (store s)). ch_owner r = None)"

section \<open>The invariant\<close>

text \<open>
  An owner written in a row is the owner of a granted lease of that row, whose recorded
  generation, epoch and fence are the row's; the conversation of a granted worker lease has
  at least the lease's generation.
\<close>

definition scope_matches :: "work_lease \<Rightarrow> scope_row \<Rightarrow> bool" where
  "scope_matches l r \<longleftrightarrow> \<not> worker_lease l \<and> sc_conversation r = l_conversation l \<and>
     sc_generation r = l_generation l \<and> sc_cancel_epoch r = l_cancel_epoch l \<and>
     sc_fence r = l_fence l"

definition child_matches :: "work_lease \<Rightarrow> child_row \<Rightarrow> bool" where
  "child_matches l r \<longleftrightarrow> worker_lease l \<and> l_work_id l = Some (ch_work_id r) \<and>
     ch_cancel_epoch r = l_cancel_epoch l \<and> ch_fence r = l_fence l"

definition owners_known :: "('r \<Rightarrow> string option) \<Rightarrow> (work_lease \<Rightarrow> 'r \<Rightarrow> bool) \<Rightarrow>
    work_lease list \<Rightarrow> 'r list \<Rightarrow> bool" where
  "owners_known owner matches ls rows \<longleftrightarrow>
     (\<forall>r\<in>set rows. \<forall>h. owner r = Some h \<longrightarrow> (\<exists>l\<in>set ls. l_owner l = h \<and> matches l r))"

definition lease_inv :: "lease_sys \<Rightarrow> bool" where
  "lease_inv s \<longleftrightarrow>
     distinct (map l_owner (granted s)) \<and> unique_key cv_id (conversations (store s)) \<and>
     unique_key sc_conversation (scopes (store s)) \<and> unique_key ch_work_id (children (store s)) \<and>
     owners_known sc_owner scope_matches (granted s) (scopes (store s)) \<and>
     owners_known ch_owner child_matches (granted s) (children (store s)) \<and>
     (\<forall>l\<in>set (granted s). worker_lease l \<longrightarrow>
        (\<forall>v\<in>set (conversations (store s)). cv_id v = l_conversation l \<longrightarrow>
           l_generation l \<le> cv_generation v))"

lemma lease_inv_start: "lease_start s \<Longrightarrow> lease_inv s"
  by (auto simp: lease_start_def lease_inv_def owners_known_def)

lemma owners_knownD:
  "owners_known ow m ls rows \<Longrightarrow> r \<in> set rows \<Longrightarrow> ow r = Some h \<Longrightarrow>
    \<exists>l\<in>set ls. l_owner l = h \<and> m l r"
  by (auto simp: owners_known_def)

lemma owners_known_more: "owners_known ow m ls rows \<Longrightarrow> owners_known ow m (l # ls) rows"
  by (fastforce simp: owners_known_def)

lemma owners_known_update:
  assumes "owners_known ow m ls rows"
    and "\<And>r. r \<in> set rows \<Longrightarrow> p r \<Longrightarrow>
      ow (f r) = None \<or> (ow (f r) = ow r \<and> (\<forall>l. m l (f r) = m l r)) \<or>
      (\<exists>l\<in>set ls. ow (f r) = Some (l_owner l) \<and> m l (f r))"
  shows "owners_known ow m ls (update_where p f rows)"
  unfolding owners_known_def set_update_where
  using assms unfolding owners_known_def by fastforce

section \<open>What one lease operation does\<close>

lemma acquire_commit_Some:
  assumes "acquire_commit d now h conv gen secs = (Some l, d')" "unique_key sc_conversation (scopes d)"
  obtains (fresh) r where "d' = d\<lparr>scopes := scopes d @ [r]\<rparr>" "sc_owner r = Some h"
      "l_owner l = h" "scope_matches l r" "sc_conversation r \<notin> sc_conversation ` set (scopes d)"
    | (over) p u where "d' = d\<lparr>scopes := update_where p (claim_scope h u) (scopes d)\<rparr>"
      "l_owner l = h" "\<not> worker_lease l"
      "\<And>r. r \<in> set (scopes d) \<Longrightarrow> p r \<Longrightarrow> scope_matches l (claim_scope h u r) \<and> sc_lease_until r \<le> now"
proof (cases "lookup_by sc_conversation conv (scopes d)")
  case None
  then have new: "conv \<notin> sc_conversation ` set (scopes d)"
    by (simp add: lookup_by_None_iff)
  from None assms(1) have "l = \<lparr>l_conversation = conv, l_generation = gen, l_cancel_epoch = 0,
      l_fence = 1, l_owner = h, l_work_id = None\<rparr>"
    and "d' = d\<lparr>scopes := scopes d @ [\<lparr>sc_conversation = conv, sc_generation = gen,
      sc_cancel_epoch = 0, sc_fence = 1, sc_owner = Some h, sc_lease_until = now + secs\<rparr>]\<rparr>"
    by (auto simp: acquire_commit_def split: if_splits)
  with new show ?thesis
    by (intro fresh) (auto simp: scope_matches_def worker_lease_def truthy_str_def)
next
  case (Some s)
  let ?p = "\<lambda>r. sc_conversation r = conv \<and> sc_generation r = gen \<and> sc_lease_until r \<le> now"
  have s: "s \<in> set (scopes d)" "sc_conversation s = conv"
    using lookup_by_Some_set [OF Some] by auto
  have l: "l = \<lparr>l_conversation = conv, l_generation = gen, l_cancel_epoch = sc_cancel_epoch s,
      l_fence = sc_fence s + 1, l_owner = h, l_work_id = None\<rparr>"
    and d': "d' = d\<lparr>scopes := update_where ?p (claim_scope h (now + secs)) (scopes d)\<rparr>"
    using assms(1) Some by (auto simp: acquire_commit_def split: if_splits)
  have "\<And>r. r \<in> set (scopes d) \<Longrightarrow> ?p r \<Longrightarrow> r = s"
    using unique_keyD [OF assms(2)] s by metis
  then show ?thesis
    using d' l by (intro over [where p = ?p and u = "now + secs"])
      (auto simp: scope_matches_def worker_lease_def truthy_str_def claim_scope_def)
qed

lemma acquire_worker_Some:
  assumes "acquire_worker d now h wid = (Some l, d')" "unique_key ch_work_id (children d)" "wid \<noteq> []"
  obtains p u w' where
    "d' = d\<lparr>children := update_where p (claim_child h u) (children d), works := w'\<rparr>"
    "l_owner l = h" "worker_lease l"
    "map_option cv_generation (lookup_by cv_id (l_conversation l) (conversations d))
       = Some (l_generation l)"
    "\<And>r. r \<in> set (children d) \<Longrightarrow> p r \<Longrightarrow> child_matches l (claim_child h u r) \<and> ch_lease_until r \<le> now"
proof -
  let ?p = "\<lambda>c. ch_work_id c = wid \<and> ch_lease_until c \<le> now \<and> ch_archived_at c = None"
  obtain w c where w: "lookup_by w_id wid (works d) = Some w"
    and g: "map_option cv_generation (lookup_by cv_id (w_conversation w) (conversations d))
              = Some (w_generation w)"
    and c: "List.find ?p (children d) = Some c"
    and l: "l = \<lparr>l_conversation = w_conversation w, l_generation = w_generation w,
         l_cancel_epoch = ch_cancel_epoch c, l_fence = ch_fence c + 1, l_owner = h,
         l_work_id = Some wid\<rparr>"
    and d': "d' = d\<lparr>children := update_where ?p (claim_child h (now + 60)) (children d),
        works := update_where (\<lambda>r. w_id r = wid) (\<lambda>r. r\<lparr>w_state := Running, w_updated := now\<rparr>) (works d)\<rparr>"
    using assms(1) by (auto simp: acquire_worker_def split: option.splits if_splits)
  have "c \<in> set (children d)" "?p c"
    using c by (auto simp: find_Some_iff)
  then have "\<And>r. r \<in> set (children d) \<Longrightarrow> ?p r \<Longrightarrow> r = c"
    using unique_keyD [OF assms(2)] by metis
  then show ?thesis
    using d' l g assms(3) by (intro that [where p = ?p and u = "now + 60"])
      (auto simp: child_matches_def worker_lease_def truthy_str_def claim_child_def)
qed

section \<open>Every step keeps the invariant\<close>

lemma matches_extend [simp]:
  "scope_matches l (extend_scope u r) = scope_matches l r"
  "child_matches l (extend_child u c) = child_matches l c"
  by (simp_all add: scope_matches_def child_matches_def extend_scope_def extend_child_def)

lemma owner_updates [simp]:
  "sc_owner (extend_scope u r) = sc_owner r" "ch_owner (extend_child u c) = ch_owner c"
  "sc_owner (claim_scope h u r) = Some h" "ch_owner (claim_child h u c) = Some h"
  "sc_owner (drop_scope r) = None" "ch_owner (drop_child c) = None"
  by (simp_all add: extend_scope_def extend_child_def claim_scope_def claim_child_def
      drop_scope_def drop_child_def)

lemma owners_known_frame:
  assumes "owners_known ow m ls rows"
    and "\<And>r'. r' \<in> set rows' \<Longrightarrow> ow r' = None \<or> (\<exists>r\<in>set rows. ow r = ow r' \<and> (\<forall>l. m l r = m l r'))"
  shows "owners_known ow m ls rows'"
  unfolding owners_known_def
proof (intro ballI allI impI)
  fix r' h
  assume "r' \<in> set rows'" "ow r' = Some h"
  with assms(2) obtain r where "r \<in> set rows" "ow r = Some h" "\<forall>l. m l r = m l r'" by force
  then show "\<exists>l\<in>set ls. l_owner l = h \<and> m l r'"
    using assms(1) by (auto simp: owners_known_def)
qed

lemma lease_step_inv: "lease_step s t \<Longrightarrow> lease_inv s \<Longrightarrow> lease_inv t"
proof (induction rule: lease_step.induct)
  case (tick s t)
  then show ?case by (simp add: lease_inv_def)
next
  case (acquire s h conv gen secs l d')
  have uq: "unique_key sc_conversation (scopes (store s))"
    and known: "owners_known sc_owner scope_matches (l # granted s) (scopes (store s))"
    using acquire.prems by (auto simp: lease_inv_def intro: owners_known_more)
  from acquire.hyps(1) uq show ?case
  proof (cases rule: acquire_commit_Some)
    case (fresh r)
    have "owners_known sc_owner scope_matches (l # granted s) (scopes (store s) @ [r])"
      using known fresh by (auto simp: owners_known_def)
    with fresh acquire show ?thesis
      by (auto simp: lease_inv_def unique_key_def scope_matches_def intro: owners_known_more)
  next
    case (over p u)
    have "owners_known sc_owner scope_matches (l # granted s)
        (update_where p (claim_scope h u) (scopes (store s)))"
      using over by (intro owners_known_update [OF known]) auto
    with over acquire show ?thesis
      by (auto simp: lease_inv_def intro: owners_known_more)
  qed
next
  case (worker s h wid l d')
  have uq: "unique_key ch_work_id (children (store s))"
    and known: "owners_known ch_owner child_matches (l # granted s) (children (store s))"
    using worker.prems by (auto simp: lease_inv_def intro: owners_known_more)
  from worker.hyps(1) uq worker.hyps(3) show ?case
  proof (cases rule: acquire_worker_Some)
    case (1 p u w')
    have "owners_known ch_owner child_matches (l # granted s)
        (update_where p (claim_child h u) (children (store s)))"
      using 1 by (intro owners_known_update [OF known]) auto
    moreover have "\<forall>v\<in>set (conversations (store s)). cv_id v = l_conversation l \<longrightarrow>
        l_generation l \<le> cv_generation v"
    proof (intro ballI impI)
      fix v assume v: "v \<in> set (conversations (store s))" "cv_id v = l_conversation l"
      have "lookup_by cv_id (l_conversation l) (conversations (store s)) = Some v"
        using lookup_by_unique [of cv_id _ v] worker.prems v by (simp add: lease_inv_def)
      then show "l_generation l \<le> cv_generation v" using 1(4) by simp
    qed
    ultimately show ?thesis
      using 1 worker by (auto simp: lease_inv_def intro: owners_known_more)
  qed
next
  case (renew l s secs b d')
  then have "owners_known ch_owner child_matches (granted s)
      (update_where (child_fence (store s) l (clk s)) (extend_child u) (children (store s)))"
    and "owners_known sc_owner scope_matches (granted s)
      (update_where (scope_fence l (clk s)) (extend_scope u) (scopes (store s)))" for u
    by (auto intro!: owners_known_update simp: lease_inv_def)
  with renew show ?case
    by (auto simp: lease_inv_def renew_commit_def split: if_splits)
next
  case (release l s)
  then have "owners_known ch_owner child_matches (granted s)
      (update_where (child_fence (store s) l (clk s)) drop_child (children (store s)))"
    and "owners_known sc_owner scope_matches (granted s)
      (update_where (scope_fence l (clk s)) drop_scope (scopes (store s)))"
    by (auto intro!: owners_known_update simp: lease_inv_def)
  with release show ?case
    by (auto simp: lease_inv_def release_commit_def split: if_splits)
next
  case (other s d')
  have "owners_known sc_owner scope_matches (granted s) (scopes d')"
  proof (rule owners_known_frame)
    show "owners_known sc_owner scope_matches (granted s) (scopes (store s))"
      using other.prems by (simp add: lease_inv_def)
    show "sc_owner r' = None \<or> (\<exists>r\<in>set (scopes (store s)). sc_owner r = sc_owner r' \<and>
        (\<forall>l. scope_matches l r = scope_matches l r'))" if "r' \<in> set (scopes d')" for r'
      using other.hyps(1) that unfolding lease_frame_def by blast
  qed
  moreover have "owners_known ch_owner child_matches (granted s) (children d')"
  proof (rule owners_known_frame)
    show "owners_known ch_owner child_matches (granted s) (children (store s))"
      using other.prems by (simp add: lease_inv_def)
    show "ch_owner r' = None \<or> (\<exists>r\<in>set (children (store s)). ch_owner r = ch_owner r' \<and>
        (\<forall>l. child_matches l r = child_matches l r'))" if "r' \<in> set (children d')" for r'
      using other.hyps(1) that unfolding lease_frame_def child_matches_def by metis
  qed
  moreover have "l_generation l \<le> cv_generation v'"
    if "l \<in> set (granted s)" "worker_lease l" "v' \<in> set (conversations d')"
      "cv_id v' = l_conversation l" for l v'
  proof -
    have "cv_id v' \<in> l_conversation ` set (granted s)" using that by simp
    then obtain v where v: "v \<in> set (conversations (store s))" "cv_id v = cv_id v'"
        "cv_generation v \<le> cv_generation v'"
      using other.hyps(2) \<open>v' \<in> set (conversations d')\<close> unfolding conversations_advance_def by blast
    moreover have "l_generation l \<le> cv_generation v"
      using other.prems that v unfolding lease_inv_def by metis
    ultimately show ?thesis by linarith
  qed
  ultimately show ?case
    using other by (simp add: lease_inv_def lease_frame_def conversations_advance_def)
qed

section \<open>A lost lease stays lost\<close>

definition lost :: "lease_sys \<Rightarrow> work_lease \<Rightarrow> bool" where
  "lost s l \<longleftrightarrow>
     (if worker_lease l then
        \<not> held ch_live_owner ch_lease_until (clk s) (l_owner l) (children (store s)) \<or>
        (\<forall>v\<in>set (conversations (store s)). cv_id v = l_conversation l \<longrightarrow>
           l_generation l < cv_generation v)
      else \<not> held sc_owner sc_lease_until (clk s) (l_owner l) (scopes (store s)))"

lemma lost_invalid: "lost s l \<Longrightarrow> \<not> lease_valid (store s) (clk s) l"
  by (cases "worker_lease l")
    (force simp: lost_def lease_valid_def held_def list_ex_iff child_fence_def ch_live_owner_def,
     force simp: lost_def lease_valid_def held_def list_ex_iff scope_fence_def)

lemma owner_unique:
  "lease_inv s \<Longrightarrow> l \<in> set (granted s) \<Longrightarrow> l' \<in> set (granted s) \<Longrightarrow> l_owner l = l_owner l' \<Longrightarrow> l = l'"
  by (auto simp: lease_inv_def distinct_map inj_on_def)

lemma invalid_lost:
  assumes inv: "lease_inv s" and l: "l \<in> set (granted s)"
    and bad: "\<not> lease_valid (store s) (clk s) l"
  shows "lost s l"
proof (cases "worker_lease l")
  case True
  show ?thesis
  proof (rule ccontr)
    assume "\<not> lost s l"
    then obtain c where c: "c \<in> set (children (store s))" "ch_live_owner c = Some (l_owner l)"
        "ch_lease_until c > clk s"
      and v: "\<exists>v\<in>set (conversations (store s)). cv_id v = l_conversation l \<and>
          \<not> l_generation l < cv_generation v"
      using True by (auto simp: lost_def held_def list_ex_iff)
    have own: "ch_owner c = Some (l_owner l)" "ch_archived_at c = None"
      using c by (auto simp: ch_live_owner_def split: if_splits)
    with inv c obtain l' where "l' \<in> set (granted s)" "l_owner l' = l_owner l" "child_matches l' c"
      using owners_knownD [of ch_owner child_matches] unfolding lease_inv_def by metis
    then have "child_matches l c" using owner_unique [OF inv] l by metis
    moreover have "\<exists>v\<in>set (conversations (store s)). cv_id v = l_conversation l \<and>
        cv_generation v = l_generation l"
      using v inv l True by (force simp: lease_inv_def)
    ultimately have "child_fence (store s) l (clk s) c"
      using own c by (auto simp: child_fence_def child_matches_def)
    then show False using bad True c by (auto simp: lease_valid_def list_ex_iff)
  qed
next
  case False
  show ?thesis
  proof (rule ccontr)
    assume "\<not> lost s l"
    then obtain r where r: "r \<in> set (scopes (store s))" "sc_owner r = Some (l_owner l)"
        "sc_lease_until r > clk s"
      using False by (auto simp: lost_def held_def list_ex_iff)
    with inv obtain l' where "l' \<in> set (granted s)" "l_owner l' = l_owner l" "scope_matches l' r"
      using owners_knownD [of sc_owner scope_matches] unfolding lease_inv_def by metis
    then have "scope_matches l r" using owner_unique [OF inv] l by metis
    then have "scope_fence l (clk s) r" using r by (auto simp: scope_fence_def scope_matches_def)
    then show False using bad False r by (auto simp: lease_valid_def list_ex_iff)
  qed
qed

lemma held_frame:
  assumes "held ow un now h rows'"
    and "\<And>r'. r' \<in> set rows' \<Longrightarrow> ow r' = Some h \<Longrightarrow> \<exists>r\<in>set rows. ow r = ow r' \<and> un r = un r'"
  shows "held ow un now h rows"
  using assms by (fastforce simp: held_def list_ex_iff)

lemma lease_step_lost:
  assumes "lease_step s t" "lease_inv s" "l \<in> set (granted s)" "lost s l"
  shows "lost t l"
  using assms
proof (induction rule: lease_step.induct)
  case (tick s t)
  then show ?case
    using scope_table.held_later child_table.held_later by (fastforce simp: lost_def)
next
  case (acquire s h conv gen secs l0 d')
  have ne: "l_owner l \<noteq> h" using acquire by auto
  have uq: "unique_key sc_conversation (scopes (store s))"
    using acquire.prems by (simp add: lease_inv_def)
  from acquire.hyps(1) uq show ?case
  proof (cases rule: acquire_commit_Some)
    case (fresh r)
    then show ?thesis using acquire.prems ne by (auto simp: lost_def held_def)
  next
    case (over p u)
    then show ?thesis
      using acquire.prems scope_table.held_claim [OF _ ne] by (auto simp: lost_def)
  qed
next
  case (worker s h wid l0 d')
  have ne: "l_owner l \<noteq> h" using worker by auto
  have uq: "unique_key ch_work_id (children (store s))"
    using worker.prems by (simp add: lease_inv_def)
  from worker.hyps(1) uq worker.hyps(3) show ?case
  proof (cases rule: acquire_worker_Some)
    case (1 p u w')
    then show ?thesis
      using worker.prems child_table.held_claim [OF _ ne] by (auto simp: lost_def split: if_splits)
  qed
next
  case (renew l0 s secs b d')
  have "held sc_owner sc_lease_until (clk s) h
      (update_where (scope_fence l0 (clk s)) (extend_scope u) (scopes (store s))) \<Longrightarrow>
    held sc_owner sc_lease_until (clk s) h (scopes (store s))" for h u
    by (erule scope_table.held_extend) (simp add: scope_fence_def)
  moreover have "held ch_live_owner ch_lease_until (clk s) h
      (update_where (child_fence (store s) l0 (clk s)) (extend_child u) (children (store s))) \<Longrightarrow>
    held ch_live_owner ch_lease_until (clk s) h (children (store s))" for h u
    by (erule child_table.held_extend) (simp add: child_fence_def)
  ultimately show ?case
    using renew by (auto simp: lost_def renew_commit_def split: if_splits)
next
  case (release l0 s)
  then show ?case
    using scope_release.held_revoke child_release.held_revoke
    by (auto simp: lost_def release_commit_def split: if_splits)
next
  case (other s d')
  have "held sc_owner sc_lease_until (clk s) h (scopes d') \<Longrightarrow>
    held sc_owner sc_lease_until (clk s) h (scopes (store s))" for h
    by (erule held_frame) (use other in \<open>auto simp: lease_frame_def\<close>)
  moreover have "held ch_live_owner ch_lease_until (clk s) h (children d') \<Longrightarrow>
    held ch_live_owner ch_lease_until (clk s) h (children (store s))" for h
    by (erule held_frame)
      (use other in \<open>fastforce simp: lease_frame_def ch_live_owner_def split: if_splits\<close>)
  moreover have "\<forall>v\<in>set (conversations d'). cv_id v = l_conversation l \<longrightarrow> l_generation l < cv_generation v"
    if "\<forall>v\<in>set (conversations (store s)). cv_id v = l_conversation l \<longrightarrow> l_generation l < cv_generation v"
    using that other by (fastforce simp: conversations_advance_def)
  ultimately show ?case
    using other by (auto simp: lost_def)
qed

lemma lease_step_granted: "lease_step s t \<Longrightarrow> set (granted s) \<subseteq> set (granted t)"
  by (induction rule: lease_step.induct) auto

lemma lease_run_inv: "lease_run s t \<Longrightarrow> lease_inv s \<Longrightarrow> lease_inv t"
  by (induction rule: lease_run.induct) (auto intro: lease_step_inv)

lemma lease_run_granted: "lease_run s t \<Longrightarrow> set (granted s) \<subseteq> set (granted t)"
  by (induction rule: lease_run.induct) (auto dest: lease_step_granted)

lemma lease_run_lost:
  "lease_run s t \<Longrightarrow> lease_inv s \<Longrightarrow> l \<in> set (granted s) \<Longrightarrow> lost s l \<Longrightarrow> lost t l"
proof (induction rule: lease_run.induct)
  case (more s t u)
  then show ?case
    using lease_step_lost lease_run_inv lease_run_granted by (metis subsetD)
qed simp

section \<open>Properties\<close>

lemma valid_workerD:
  "lease_valid d now l \<Longrightarrow> worker_lease l \<Longrightarrow>
    \<exists>c\<in>set (children d). l_work_id l = Some (ch_work_id c) \<and> ch_owner c = Some (l_owner l)"
  unfolding lease_valid_def list_ex_iff child_fence_def by metis

lemma valid_scopeD:
  "lease_valid d now l \<Longrightarrow> \<not> worker_lease l \<Longrightarrow>
    \<exists>r\<in>set (scopes d). scope_fence l now r"
  by (simp add: lease_valid_def list_ex_iff)

lemma valid_scopeI:
  "r \<in> set (scopes d) \<Longrightarrow> scope_fence l now r \<Longrightarrow> \<not> worker_lease l \<Longrightarrow> lease_valid d now l"
  by (auto simp: lease_valid_def list_ex_iff)

lemma lease_run_reachable: "lease_start s0 \<Longrightarrow> lease_run s0 s \<Longrightarrow> lease_inv s"
  by (rule lease_run_inv [OF _ lease_inv_start])

text \<open>
  C1: A lease that has stopped being valid (expired, released, cancelled or superseded) never
  becomes valid again, whatever lease operations and other writers run afterwards: work done
  under an obsolete activation stays fenced off.
\<close>

theorem stale_lease_never_revives:
  assumes "lease_start s0" "lease_run s0 s" "l \<in> set (granted s)"
    and "\<not> lease_valid (store s) (clk s) l" and "lease_run s t"
  shows "\<not> lease_valid (store t) (clk t) l"
proof -
  have inv: "lease_inv s" by (rule lease_run_reachable [OF assms(1,2)])
  then have "lost s l" by (rule invalid_lost [OF _ assms(3,4)])
  then have "lost t l" by (rule lease_run_lost [OF assms(5) inv assms(3)])
  then show ?thesis by (rule lost_invalid)
qed

text \<open>
  C2: Mutual exclusion: in every reachable state at most one of the leases handed out for a
  conversation scope, and at most one of those handed out for a worker, is valid.
\<close>

theorem lease_mutual_exclusion:
  assumes "lease_start s0" "lease_run s0 s" "l \<in> set (granted s)" "l' \<in> set (granted s)"
    and "lease_valid (store s) (clk s) l" "lease_valid (store s) (clk s) l'"
    and "worker_lease l = worker_lease l'"
    and "if worker_lease l then l_work_id l = l_work_id l'
         else l_conversation l = l_conversation l'"
  shows "l = l'"
proof -
  have inv: "lease_inv s" by (rule lease_run_reachable [OF assms(1,2)])
  have "l_owner l = l_owner l'"
  proof (cases "worker_lease l")
    case True
    then obtain c c' where "c \<in> set (children (store s))" "c' \<in> set (children (store s))"
        "ch_work_id c = ch_work_id c'" "ch_owner c = Some (l_owner l)" "ch_owner c' = Some (l_owner l')"
      using valid_workerD [OF assms(5)] valid_workerD [OF assms(6)] assms(7,8) by auto
    moreover have "unique_key ch_work_id (children (store s))"
      using inv by (simp add: lease_inv_def)
    ultimately show ?thesis using unique_keyD by fastforce
  next
    case False
    then obtain r r' where "r \<in> set (scopes (store s))" "scope_fence l (clk s) r"
        "r' \<in> set (scopes (store s))" "scope_fence l' (clk s) r'"
      using valid_scopeD [OF assms(5)] valid_scopeD [OF assms(6)] assms(7) by auto
    moreover have "unique_key sc_conversation (scopes (store s))"
      using inv by (simp add: lease_inv_def)
    ultimately have "r = r'" "scope_fence l (clk s) r" "scope_fence l' (clk s) r'"
      using unique_keyD [of sc_conversation "scopes (store s)" r r'] assms(8) False
      by (simp_all add: scope_fence_def)
    then show ?thesis by (simp add: scope_fence_def)
  qed
  then show ?thesis by (rule owner_unique [OF inv assms(3,4)])
qed

text \<open>
  A successful \<open>acquire\<close> returns a lease that is valid at once, with a fence above the
  one the scope row had, and shuts out every other scope lease of that conversation at
  every time, although the reader's fast path may have looked at an older store.
\<close>

theorem acquire_fences_out:
  assumes "acquire seen t0 d now h conv gen secs = Inr (Some l, d')"
    and "unique_key sc_conversation (scopes d)"
  shows "lease_valid d' now l \<and> l_conversation l = conv \<and> l_generation l = gen \<and>
    (\<forall>s\<in>set (scopes d). sc_conversation s = conv \<longrightarrow> sc_lease_until s \<le> now \<and> sc_fence s < l_fence l) \<and>
    (\<forall>t l'. lease_valid d' t l' \<and> \<not> worker_lease l' \<and> l_conversation l' = conv \<longrightarrow>
       l_owner l' = h \<and> l_fence l' = l_fence l)"
proof -
  have c: "acquire_commit d now h conv gen secs = (Some l, d')" and secs: "1 \<le> secs"
    using assms(1) by (auto simp: acquire_def valid_duration_def split: if_splits)
  show ?thesis
  proof (cases "lookup_by sc_conversation conv (scopes d)")
    case None
    then have new: "\<And>s. s \<in> set (scopes d) \<Longrightarrow> sc_conversation s \<noteq> conv"
      by (auto simp: lookup_by_None_iff)
    show ?thesis
      using c None new secs
      by (auto simp: acquire_commit_def lease_valid_def worker_lease_def truthy_str_def
          scope_fence_def list_ex_iff split: if_splits)
  next
    case (Some s)
    then have s: "s \<in> set (scopes d)" "sc_conversation s = conv"
      using lookup_by_Some_set by fastforce+
    have only: "\<And>r. r \<in> set (scopes d) \<Longrightarrow> sc_conversation r = conv \<Longrightarrow> r = s"
      using unique_keyD [OF assms(2)] s by metis
    have l: "l = \<lparr>l_conversation = conv, l_generation = gen, l_cancel_epoch = sc_cancel_epoch s,
        l_fence = sc_fence s + 1, l_owner = h, l_work_id = None\<rparr>"
      and ok: "sc_generation s = gen" "sc_lease_until s \<le> now"
      and d': "scopes d' = update_where (\<lambda>r. sc_conversation r = conv \<and> sc_generation r = gen \<and>
          sc_lease_until r \<le> now) (claim_scope h (now + secs)) (scopes d)"
      using c Some by (auto simp: acquire_commit_def split: if_splits)
    have row: "r = claim_scope h (now + secs) s" if r: "r \<in> set (scopes d')" "sc_conversation r = conv" for r
    proof -
      obtain r0 where r0: "r0 \<in> set (scopes d)"
          "r = (if sc_conversation r0 = conv \<and> sc_generation r0 = gen \<and> sc_lease_until r0 \<le> now
                then claim_scope h (now + secs) r0 else r0)"
        using r(1) unfolding d' set_update_where by blast
      then have "sc_conversation r0 = conv"
        using r(2) by (simp add: claim_scope_def split: if_splits)
      then have "r0 = s" by (rule only [OF r0(1)])
      then show ?thesis using r0(2) s ok by simp
    qed
    have "claim_scope h (now + secs) s \<in> set (scopes d')"
      unfolding d' set_update_where by (rule image_eqI [where x = s]) (use s ok in simp_all)
    then have "lease_valid d' now l"
      by (rule valid_scopeI)
        (use l ok s secs in \<open>simp_all add: worker_lease_def truthy_str_def scope_fence_def claim_scope_def\<close>)
    moreover have "\<forall>r\<in>set (scopes d). sc_conversation r = conv \<longrightarrow>
        sc_lease_until r \<le> now \<and> sc_fence r < l_fence l"
    proof (intro ballI impI)
      fix r assume "r \<in> set (scopes d)" "sc_conversation r = conv"
      then have "r = s" by (rule only)
      then show "sc_lease_until r \<le> now \<and> sc_fence r < l_fence l" using ok l by simp
    qed
    moreover have "l_owner l' = h \<and> l_fence l' = l_fence l"
      if v: "lease_valid d' t l'" "\<not> worker_lease l'" "l_conversation l' = conv" for t l'
    proof -
      obtain r where r: "r \<in> set (scopes d')" "scope_fence l' t r"
        using valid_scopeD [OF v(1,2)] by blast
      then have "sc_conversation r = conv" using v(3) by (simp add: scope_fence_def)
      with row r have "scope_fence l' t (claim_scope h (now + secs) s)" by simp
      then show ?thesis using l by (auto simp: scope_fence_def claim_scope_def)
    qed
    ultimately show ?thesis using l by auto
  qed
qed

section \<open>Witnesses\<close>

text \<open>One conversation, a lease of 60 seconds, its expiry and a second lease.\<close>

definition demo_db :: db where
  "demo_db = empty_db\<lparr>conversations := [\<lparr>cv_id = ''c'', cv_generation = 0\<rparr>]\<rparr>"

definition demo_row :: "string \<Rightarrow> int \<Rightarrow> clock \<Rightarrow> scope_row" where
  "demo_row h f u = \<lparr>sc_conversation = ''c'', sc_generation = 0, sc_cancel_epoch = 0,
     sc_fence = f, sc_owner = Some h, sc_lease_until = u\<rparr>"

definition demo_lease :: "string \<Rightarrow> int \<Rightarrow> work_lease" where
  "demo_lease h f = \<lparr>l_conversation = ''c'', l_generation = 0, l_cancel_epoch = 0, l_fence = f,
     l_owner = h, l_work_id = None\<rparr>"

definition demo_start :: lease_sys where
  "demo_start = \<lparr>clk = 0, store = demo_db, granted = []\<rparr>"

definition demo_held :: lease_sys where
  "demo_held = \<lparr>clk = 0, store = demo_db\<lparr>scopes := [demo_row ''A'' 1 60]\<rparr>,
     granted = [demo_lease ''A'' 1]\<rparr>"

definition demo_expired :: lease_sys where
  "demo_expired = demo_held\<lparr>clk := 100\<rparr>"

definition demo_taken :: lease_sys where
  "demo_taken = \<lparr>clk = 100, store = demo_db\<lparr>scopes := [demo_row ''B'' 2 160]\<rparr>,
     granted = [demo_lease ''B'' 2, demo_lease ''A'' 1]\<rparr>"

lemmas demo_defs = demo_db_def demo_row_def demo_lease_def demo_start_def demo_held_def
  demo_expired_def demo_taken_def empty_db_def

lemma demo_starts: "lease_start demo_start"
  by (simp add: lease_start_def demo_defs unique_key_def)

lemma demo_run_held: "lease_run demo_start demo_held"
proof (rule lease_run.more [OF lease_run.stop])
  have "acquire_commit (store demo_start) (clk demo_start) ''A'' ''c'' 0 60 =
      (Some (demo_lease ''A'' 1), demo_db\<lparr>scopes := [demo_row ''A'' 1 60]\<rparr>)"
    by (simp add: acquire_commit_def demo_defs lookup_by_def)
  from lease_step.acquire [OF this] show "lease_step demo_start demo_held"
    by (simp add: demo_defs valid_duration_def)
qed

lemma demo_run_taken: "lease_run demo_expired demo_taken"
proof (rule lease_run.more [OF lease_run.stop])
  have "acquire_commit (store demo_expired) (clk demo_expired) ''B'' ''c'' 0 60 =
      (Some (demo_lease ''B'' 2), demo_db\<lparr>scopes := [demo_row ''B'' 2 160]\<rparr>)"
    by (simp add: acquire_commit_def demo_defs lookup_by_def claim_scope_def)
  from lease_step.acquire [OF this] show "lease_step demo_expired demo_taken"
    by (simp add: demo_defs valid_duration_def)
qed

lemma demo_run_expired: "lease_run demo_start demo_expired"
  using lease_run.more [OF demo_run_held lease_step.tick [of demo_held 100]]
  by (simp add: demo_expired_def demo_held_def)

theorem stale_lease_never_revives_witness:
  "demo_lease ''A'' 1 \<in> set (granted demo_expired) \<and>
   \<not> lease_valid (store demo_taken) (clk demo_taken) (demo_lease ''A'' 1)"
proof
  show g: "demo_lease ''A'' 1 \<in> set (granted demo_expired)" by (simp add: demo_defs)
  have "\<not> lease_valid (store demo_expired) (clk demo_expired) (demo_lease ''A'' 1)"
    by (simp add: lease_valid_def worker_lease_def truthy_str_def scope_fence_def demo_defs)
  then show "\<not> lease_valid (store demo_taken) (clk demo_taken) (demo_lease ''A'' 1)"
    by (rule stale_lease_never_revives [OF demo_starts demo_run_expired g _ demo_run_taken])
qed

theorem lease_mutual_exclusion_witness:
  "lease_valid (store demo_held) (clk demo_held) (demo_lease ''A'' 1) \<and>
   (\<exists>!l. l \<in> set (granted demo_held) \<and> lease_valid (store demo_held) (clk demo_held) l)"
proof
  have g: "demo_lease ''A'' 1 \<in> set (granted demo_held)" by (simp add: demo_defs)
  show v: "lease_valid (store demo_held) (clk demo_held) (demo_lease ''A'' 1)"
    by (simp add: lease_valid_def worker_lease_def truthy_str_def scope_fence_def demo_defs)
  have "\<And>l. l \<in> set (granted demo_held) \<Longrightarrow> lease_valid (store demo_held) (clk demo_held) l \<Longrightarrow>
      l = demo_lease ''A'' 1"
    by (rule lease_mutual_exclusion [OF demo_starts demo_run_held _ g _ v])
      (simp_all add: demo_defs worker_lease_def)
  with g v show "\<exists>!l. l \<in> set (granted demo_held) \<and> lease_valid (store demo_held) (clk demo_held) l"
    by blast
qed

theorem acquire_fences_out_witness:
  "\<exists>d'. acquire (store demo_start) 0 (store demo_expired) 100 ''B'' ''c'' 0 60 =
     Inr (Some (demo_lease ''B'' 2), d') \<and> lease_valid d' 100 (demo_lease ''B'' 2) \<and>
     (\<forall>t. \<not> lease_valid d' t (demo_lease ''A'' 1))"
proof -
  have a: "acquire (store demo_start) 0 (store demo_expired) 100 ''B'' ''c'' 0 60 =
      Inr (Some (demo_lease ''B'' 2), demo_db\<lparr>scopes := [demo_row ''B'' 2 160]\<rparr>)"
    by (simp add: acquire_def valid_duration_def acquire_observe_def acquire_commit_def demo_defs
        lookup_by_def claim_scope_def)
  have "unique_key sc_conversation (scopes (store demo_expired))"
    by (simp add: demo_defs unique_key_def)
  from acquire_fences_out [OF a this] a show ?thesis
    by (fastforce simp: demo_lease_def worker_lease_def truthy_str_def)
qed

end
