(* ===== verification/Work_Evolution.thy ===== *)
theory Work_Evolution
  imports Work_Inputs Work_Effects Lease_Protocol
begin

text \<open>
  How a store may change. Each table has a well-formedness (its keys, and for Works that parents
  come first) and an order on its rows that says what an operation may do to a row: a finished
  Work, a consumed or withdrawn input, a closed wait, an accepted delivery stay as they are,
  counters and fences only grow, identities never change. \<open>evolves d d'\<close> says that every
  table stays well formed and every row has its successor. The locale \<open>evolving_table\<close>
  proves the shared facts once; it is interpreted for every table, and every operation
  of the Work runtime is shown to satisfy \<open>evolves\<close>.
\<close>

section \<open>Tables with a row order\<close>

definition table_le :: "('r \<Rightarrow> 'r \<Rightarrow> bool) \<Rightarrow> 'r list \<Rightarrow> 'r list \<Rightarrow> bool" where
  "table_le le rows rows' \<longleftrightarrow> (\<forall>r\<in>set rows. \<exists>r'\<in>set rows'. le r r')"

definition table_ok :: "('r list \<Rightarrow> bool) \<Rightarrow> ('r \<Rightarrow> 'r \<Rightarrow> bool) \<Rightarrow> 'r list \<Rightarrow> 'r list \<Rightarrow> bool" where
  "table_ok good le rows rows' \<longleftrightarrow> (good rows \<longrightarrow> good rows' \<and> table_le le rows rows')"

locale evolving_table =
  fixes good :: "'r list \<Rightarrow> bool"
    and key :: "'r \<Rightarrow> 'k"
    and le :: "'r \<Rightarrow> 'r \<Rightarrow> bool"
  assumes le_refl: "le r r"
    and le_trans: "le r s \<Longrightarrow> le s t \<Longrightarrow> le r t"
    and le_key: "le r s \<Longrightarrow> key s = key r"
    and wf_unique: "good rows \<Longrightarrow> unique_key key rows"
    and wf_update: "good rows \<Longrightarrow> (\<And>r. r \<in> set rows \<Longrightarrow> p r \<Longrightarrow> le r (f r)) \<Longrightarrow>
      good (update_where p f rows)"
begin

lemma ok_refl: "table_ok good le rows rows"
  by (auto simp: table_ok_def table_le_def intro: le_refl)

lemma ok_trans: "table_ok good le a b \<Longrightarrow> table_ok good le b c \<Longrightarrow> table_ok good le a c"
  unfolding table_ok_def table_le_def by (meson le_trans)

lemma ok_update:
  assumes "\<And>r. good rows \<Longrightarrow> r \<in> set rows \<Longrightarrow> p r \<Longrightarrow> le r (f r)"
  shows "table_ok good le rows (update_where p f rows)"
proof (unfold table_ok_def table_le_def, intro impI conjI ballI)
  assume rows: "good rows"
  show "good (update_where p f rows)" by (rule wf_update [OF rows]) (rule assms [OF rows])
  fix r assume r: "r \<in> set rows"
  then have "(if p r then f r else r) \<in> set (update_where p f rows)"
    by (simp add: set_update_where)
  moreover have "le r (if p r then f r else r)"
    using assms [OF rows r] le_refl by simp
  ultimately show "\<exists>r'\<in>set (update_where p f rows). le r r'" by blast
qed

lemma ok_append: "(good rows \<Longrightarrow> good (rows @ rows')) \<Longrightarrow> table_ok good le rows (rows @ rows')"
  by (auto simp: table_ok_def table_le_def intro: le_refl)

lemma ok_insert:
  "(good rows \<Longrightarrow> k r \<notin> k ` set rows \<Longrightarrow> good (rows @ [r])) \<Longrightarrow>
    table_ok good le rows (insert_ignore k r rows)"
  using ok_refl ok_append [of rows "[r]"] by (auto simp: insert_ignore_def)

lemma ok_lookup:
  assumes "table_ok good le rows rows'" "good rows" "r \<in> set rows"
  shows "\<exists>r'. lookup_by key (key r) rows' = Some r' \<and> le r r'"
proof -
  obtain r' where r': "r' \<in> set rows'" "le r r'"
    using assms by (auto simp: table_ok_def table_le_def)
  moreover have "unique_key key rows'"
    using assms wf_unique by (auto simp: table_ok_def)
  ultimately have "lookup_by key (key r') rows' = Some r'"
    using lookup_by_unique by metis
  with r' le_key [OF r'(2)] show ?thesis by auto
qed

end

section \<open>The order of each table\<close>

text \<open>
  A cancelled Work never changes again, nor does a completed one without a parent. A completed
  child may be queued again by its parent, with a new revision.
\<close>

definition final_row :: "work_row \<Rightarrow> bool" where
  "final_row w \<longleftrightarrow> w_state w = Cancelled \<or> w_state w = Completed \<and> w_parent w = None"

definition work_le :: "work_row \<Rightarrow> work_row \<Rightarrow> bool" where
  "work_le w w' \<longleftrightarrow> w_id w' = w_id w \<and> w_parent w' = w_parent w \<and>
     w_conversation w' = w_conversation w \<and> w_generation w' = w_generation w \<and>
     w_source_key w' = w_source_key w \<and> w_source w' = w_source w \<and>
     w_revision w \<le> w_revision w' \<and> w_models w \<le> w_models w' \<and> w_tools w \<le> w_tools w' \<and>
     w_sent w \<le> w_sent w' \<and> (final_row w \<longrightarrow> w' = w) \<and>
     (w_state w = Completed \<longrightarrow> w' = w \<or> w_revision w < w_revision w')"

definition wf_works :: "work_row list \<Rightarrow> bool" where
  "wf_works ws \<longleftrightarrow> unique_key w_id ws \<and> unique_key w_source_key ws \<and> parents_first {} ws"

definition input_le :: "input_row \<Rightarrow> input_row \<Rightarrow> bool" where
  "input_le x y \<longleftrightarrow> in_id y = in_id x \<and> in_source_key y = in_source_key x \<and>
     in_conversation y = in_conversation x \<and> in_generation y = in_generation x \<and>
     in_kind y = in_kind x \<and> in_event_id y = in_event_id x \<and> in_work_id y = in_work_id x \<and>
     (in_state x \<in> {Consumed, Withdrawn} \<longrightarrow> y = x) \<and>
     (in_state x = Staged \<longrightarrow> in_state y \<noteq> Pending \<and> in_attempt y = in_attempt x) \<and>
     (in_ready x \<longrightarrow> in_ready y \<and> in_payload y = in_payload x)"

definition wf_inputs :: "input_row list \<Rightarrow> bool" where
  "wf_inputs xs \<longleftrightarrow> unique_key in_id xs \<and> unique_key in_source_key xs"

definition invocation_started :: "effect_row \<Rightarrow> bool" where
  "invocation_started e =
     truthy_opt (json_extract [''invocation'', ''dispatch_started''] (ef_receipt e))"

definition effect_le :: "effect_row \<Rightarrow> effect_row \<Rightarrow> bool" where
  "effect_le e e' \<longleftrightarrow> ef_key e' = ef_key e \<and> ef_work_id e' = ef_work_id e \<and> ef_kind e' = ef_kind e \<and>
     (invocation_started e \<longrightarrow> invocation_started e') \<and>
     (ef_state e \<in> {Accepted, Effect_failed} \<longrightarrow> ef_state e' = ef_state e)"

definition wf_effects :: "effect_row list \<Rightarrow> bool" where
  "wf_effects es = unique_key ef_key es"

definition child_le :: "child_row \<Rightarrow> child_row \<Rightarrow> bool" where
  "child_le c c' \<longleftrightarrow> ch_work_id c' = ch_work_id c \<and> ch_source_key c' = ch_source_key c \<and>
     ch_brief c' = ch_brief c \<and> ch_fence c \<le> ch_fence c' \<and> ch_cancel_epoch c \<le> ch_cancel_epoch c' \<and>
     (ch_archived_at c \<noteq> None \<longrightarrow> ch_archived_at c' = ch_archived_at c)"

definition wf_children :: "child_row list \<Rightarrow> bool" where
  "wf_children cs \<longleftrightarrow> unique_key ch_work_id cs \<and> unique_key ch_source_key cs"

definition wait_le :: "wait_row \<Rightarrow> wait_row \<Rightarrow> bool" where
  "wait_le y z \<longleftrightarrow> wa_id z = wa_id y \<and> wa_call_key z = wa_call_key y \<and> wa_work_id z = wa_work_id y \<and>
     wa_request z = wa_request y \<and> (wa_status y \<noteq> Active \<longrightarrow> z = y)"

definition wf_waits :: "wait_row list \<Rightarrow> bool" where
  "wf_waits ys \<longleftrightarrow> unique_key wa_id ys \<and> unique_key wa_call_key ys"

definition delivery_le :: "delivery_row \<Rightarrow> delivery_row \<Rightarrow> bool" where
  "delivery_le r s \<longleftrightarrow> dl_id s = dl_id r \<and> dl_work_id s = dl_work_id r \<and> dl_kind s = dl_kind r \<and>
     dl_count s = dl_count r \<and> dl_payload s = dl_payload r \<and>
     (dl_state r = ''accepted'' \<longrightarrow> s = r) \<and>
     (dl_state r = ''unknown'' \<longrightarrow> s = r \<or> dl_state s = ''accepted'')"

definition wf_deliveries :: "delivery_row list \<Rightarrow> bool" where
  "wf_deliveries rs = unique_key dl_id rs"

definition scope_le :: "scope_row \<Rightarrow> scope_row \<Rightarrow> bool" where
  "scope_le s t \<longleftrightarrow> sc_conversation t = sc_conversation s \<and> sc_fence s \<le> sc_fence t \<and>
     sc_cancel_epoch s \<le> sc_cancel_epoch t"

definition wf_scopes :: "scope_row list \<Rightarrow> bool" where
  "wf_scopes ss = unique_key sc_conversation ss"

definition recovery_le :: "recovery_row \<Rightarrow> recovery_row \<Rightarrow> bool" where
  "recovery_le r s \<longleftrightarrow> rc_work_id s = rc_work_id r"

definition wf_recoveries :: "recovery_row list \<Rightarrow> bool" where
  "wf_recoveries rs = unique_key rc_work_id rs"

definition budget_le :: "budget_row \<Rightarrow> budget_row \<Rightarrow> bool" where
  "budget_le b c \<longleftrightarrow> bg_root c = bg_root b \<and> bg_models b \<le> bg_models c \<and> bg_tools b \<le> bg_tools c \<and>
     bg_model_limit c = bg_model_limit b \<and> bg_tool_limit c = bg_tool_limit b"

definition wf_budgets :: "budget_row list \<Rightarrow> bool" where
  "wf_budgets bs = unique_key bg_root bs"

lemma parents_first_update_on:
  assumes "\<And>w. w \<in> set ws \<Longrightarrow> p w \<Longrightarrow> w_id (f w) = w_id w \<and> w_parent (f w) = w_parent w"
  shows "parents_first seen (update_where p f ws) = parents_first seen ws"
  using assms by (induction ws arbitrary: seen) simp_all

interpretation works: evolving_table wf_works w_id work_le
proof unfold_locales
  fix rows :: "work_row list" and p f
  assume good: "wf_works rows" and le: "\<And>r. r \<in> set rows \<Longrightarrow> p r \<Longrightarrow> work_le r (f r)"
  have "\<And>r. r \<in> set rows \<Longrightarrow> p r \<Longrightarrow>
      w_id (f r) = w_id r \<and> w_parent (f r) = w_parent r \<and> w_source_key (f r) = w_source_key r"
    using le by (auto simp: work_le_def)
  then show "wf_works (update_where p f rows)"
    using good by (simp add: wf_works_def unique_key_update_on parents_first_update_on)
qed (auto simp: work_le_def wf_works_def)

interpretation inputs: evolving_table wf_inputs in_id input_le
proof unfold_locales
  fix r s t assume "input_le r s" "input_le s t"
  then show "input_le r t"
    unfolding input_le_def by (cases "in_state r"; cases "in_state s") auto
next
  fix rows :: "input_row list" and p f
  assume good: "wf_inputs rows" and le: "\<And>r. r \<in> set rows \<Longrightarrow> p r \<Longrightarrow> input_le r (f r)"
  have "\<And>r. r \<in> set rows \<Longrightarrow> p r \<Longrightarrow> in_id (f r) = in_id r \<and> in_source_key (f r) = in_source_key r"
    using le by (auto simp: input_le_def)
  then show "wf_inputs (update_where p f rows)"
    using good by (simp add: wf_inputs_def unique_key_update_on)
qed (auto simp: input_le_def wf_inputs_def)

interpretation effects: evolving_table wf_effects ef_key effect_le
  by unfold_locales (auto simp: effect_le_def wf_effects_def unique_key_update_on)

interpretation children: evolving_table wf_children ch_work_id child_le
proof unfold_locales
  fix rows :: "child_row list" and p f
  assume good: "wf_children rows" and le: "\<And>r. r \<in> set rows \<Longrightarrow> p r \<Longrightarrow> child_le r (f r)"
  have "\<And>r. r \<in> set rows \<Longrightarrow> p r \<Longrightarrow>
      ch_work_id (f r) = ch_work_id r \<and> ch_source_key (f r) = ch_source_key r"
    using le by (auto simp: child_le_def)
  then show "wf_children (update_where p f rows)"
    using good by (simp add: wf_children_def unique_key_update_on)
qed (auto simp: child_le_def wf_children_def)

interpretation waits: evolving_table wf_waits wa_id wait_le
proof unfold_locales
  fix rows :: "wait_row list" and p f
  assume good: "wf_waits rows" and le: "\<And>r. r \<in> set rows \<Longrightarrow> p r \<Longrightarrow> wait_le r (f r)"
  have "\<And>r. r \<in> set rows \<Longrightarrow> p r \<Longrightarrow> wa_id (f r) = wa_id r \<and> wa_call_key (f r) = wa_call_key r"
    using le by (auto simp: wait_le_def)
  then show "wf_waits (update_where p f rows)"
    using good by (simp add: wf_waits_def unique_key_update_on)
qed (auto simp: wait_le_def wf_waits_def)

interpretation deliveries: evolving_table wf_deliveries dl_id delivery_le
  by unfold_locales (auto simp: delivery_le_def wf_deliveries_def unique_key_update_on)

interpretation scopes: evolving_table wf_scopes sc_conversation scope_le
  by unfold_locales (auto simp: scope_le_def wf_scopes_def unique_key_update_on)

interpretation recoveries: evolving_table wf_recoveries rc_work_id recovery_le
  by unfold_locales (auto simp: recovery_le_def wf_recoveries_def unique_key_update_on)

interpretation budgets: evolving_table wf_budgets bg_root budget_le
  by unfold_locales (auto simp: budget_le_def wf_budgets_def unique_key_update_on)

section \<open>Evolution of the store\<close>

definition wf_store :: "db \<Rightarrow> bool" where
  "wf_store d \<longleftrightarrow> wf_works (works d) \<and> wf_inputs (inputs d) \<and> wf_effects (effects d) \<and>
     wf_children (children d) \<and> wf_waits (waits d) \<and> wf_deliveries (deliveries d) \<and>
     wf_scopes (scopes d) \<and> wf_recoveries (recoveries d) \<and> wf_budgets (budgets d)"

definition evolves :: "db \<Rightarrow> db \<Rightarrow> bool" where
  "evolves d d' \<longleftrightarrow>
     table_ok wf_works work_le (works d) (works d') \<and>
     table_ok wf_inputs input_le (inputs d) (inputs d') \<and>
     table_ok wf_effects effect_le (effects d) (effects d') \<and>
     table_ok wf_children child_le (children d) (children d') \<and>
     table_ok wf_waits wait_le (waits d) (waits d') \<and>
     table_ok wf_deliveries delivery_le (deliveries d) (deliveries d') \<and>
     table_ok wf_scopes scope_le (scopes d) (scopes d') \<and>
     table_ok wf_recoveries recovery_le (recoveries d) (recoveries d') \<and>
     table_ok wf_budgets budget_le (budgets d) (budgets d')"

lemmas table_refl [simp, intro] =
  works.ok_refl inputs.ok_refl effects.ok_refl children.ok_refl waits.ok_refl deliveries.ok_refl
  scopes.ok_refl recoveries.ok_refl budgets.ok_refl

lemmas table_trans =
  works.ok_trans inputs.ok_trans effects.ok_trans children.ok_trans waits.ok_trans
  deliveries.ok_trans scopes.ok_trans recoveries.ok_trans budgets.ok_trans

lemmas table_updates =
  works.ok_update inputs.ok_update effects.ok_update children.ok_update waits.ok_update
  deliveries.ok_update scopes.ok_update recoveries.ok_update budgets.ok_update

lemma evolves_tables:
  assumes "evolves d d'"
  shows "table_ok wf_works work_le (works d) (works d')"
    "table_ok wf_inputs input_le (inputs d) (inputs d')"
    "table_ok wf_effects effect_le (effects d) (effects d')"
    "table_ok wf_deliveries delivery_le (deliveries d) (deliveries d')"
  using assms by (simp_all add: evolves_def)

lemma evolves_refl [simp]: "evolves d d"
  by (simp add: evolves_def)

lemma evolves_trans [trans]: "evolves d d' \<Longrightarrow> evolves d' d'' \<Longrightarrow> evolves d d''"
  unfolding evolves_def by (elim conjE) (intro conjI; (rule table_trans, assumption, assumption))

lemma evolves_wf: "evolves d d' \<Longrightarrow> wf_store d \<Longrightarrow> wf_store d'"
  by (simp add: evolves_def wf_store_def table_ok_def)

end
