(* ===== verification/Work_Operations.thy ===== *)
theory Work_Operations
  imports Work_Evolution
begin

text \<open>
  Every operation of the Work runtime lets the store evolve: one lemma per operation of
  \<open>Work_Lease\<close>, \<open>Work_Tree\<close>, \<open>Work_Store\<close>, \<open>Work_Inputs\<close> and \<open>Work_Effects\<close>.
  The row functions are compared with the row orders first.
\<close>

section \<open>Row functions\<close>

lemma terminal_final:
  "\<not> terminal (w_state w) \<Longrightarrow> \<not> final_row w" "\<not> terminal (w_state w) \<Longrightarrow> w_state w \<noteq> Completed"
  by (auto simp: terminal_def final_row_def)

lemmas work_row_fns = state_row_def cancel_row_def wake_parent_def set_handoff_def control_row_def
  checkpoint_row_def resume_row_def input_prepared_def

lemma work_le_simps [simp]:
  "\<not> terminal (w_state w) \<Longrightarrow> work_le w (cancel_row reason now w)"
  "w_state w = Waiting_external \<Longrightarrow> work_le w (wake_parent now w)"
  "\<not> terminal (w_state w) \<Longrightarrow> work_le w (set_handoff i now w)"
  "\<not> terminal (w_state w) \<Longrightarrow> work_le w (control_row now c w)"
  "\<not> terminal (w_state w) \<Longrightarrow> 0 \<le> m \<Longrightarrow> 0 \<le> t \<Longrightarrow> 0 \<le> n \<Longrightarrow>
     work_le w (checkpoint_row now p m t n w)"
  "\<not> final_row w \<Longrightarrow> w_state w \<noteq> Completed \<Longrightarrow> work_le w (resume_row now w)"
  "w_state w \<in> {Waiting_external, Waiting_user} \<Longrightarrow> work_le w (input_prepared now w)"
  "state_guard l i revision w \<Longrightarrow> work_le w (state_row d now s revision goal w)"
  by (auto simp: work_le_def work_row_fns terminal_def final_row_def state_guard_def
      split: option.splits)

lemma input_le_simps [simp]:
  "open_input x \<Longrightarrow> input_le x (withdraw_input x)"
  by (auto simp: input_le_def withdraw_input_def open_input_def)

lemma wait_le_simps [simp]: "wa_status y = Active \<Longrightarrow> wait_le y (close_wait st now y)"
  by (simp add: wait_le_def close_wait_def)

lemma child_le_simps [simp]:
  "child_le c (revoke_child c)" "child_le c (drop_child c)" "child_le c (claim_child h u c)"
  "child_le c (extend_child u c)"
  by (simp_all add: child_le_def revoke_child_def drop_child_def claim_child_def extend_child_def)

lemma scope_le_simps [simp]:
  "scope_le s (revoke_scope g s)" "scope_le s (drop_scope s)" "scope_le s (claim_scope h u s)"
  "scope_le s (extend_scope u s)"
  by (simp_all add: scope_le_def revoke_scope_def drop_scope_def claim_scope_def extend_scope_def)

section \<open>Leases\<close>

lemma acquire_commit_evolves:
  assumes "acquire_commit d now h conv gen secs = (r, d')"
  shows "evolves d d'"
proof -
  have "table_ok wf_scopes scope_le (scopes d) (scopes d @ [x])"
    if "lookup_by sc_conversation conv (scopes d) = None" "sc_conversation x = conv" for x
    using that by (intro scopes.ok_append)
      (simp add: wf_scopes_def unique_key_append lookup_by_None_iff)
  moreover have "table_ok wf_scopes scope_le (scopes d) (update_where p (claim_scope h u) (scopes d))" for p u
    by (rule scopes.ok_update) simp
  ultimately show ?thesis
    using assms by (auto simp: acquire_commit_def evolves_def split: if_splits option.splits)
qed

lemma renew_commit_evolves: "renew_commit d now l secs = (b, d') \<Longrightarrow> evolves d d'"
  by (auto simp: renew_commit_def evolves_def intro!: scopes.ok_update children.ok_update)

lemma release_commit_evolves: "evolves d (release_commit d now l)"
  by (simp add: release_commit_def evolves_def scopes.ok_update children.ok_update)

lemma acquire_worker_evolves:
  assumes "acquire_worker d now h wid = (r, d')"
  shows "evolves d d'"
proof (cases "lookup_by w_id wid (works d)")
  case None
  then show ?thesis using assms by (simp add: acquire_worker_def)
next
  case (Some w)
  have only: "x = w" if "wf_works (works d)" "x \<in> set (works d)" "w_id x = wid" for x
    using that lookup_by_Some_set [OF Some] unique_keyD [of w_id "works d" x w]
    by (simp add: wf_works_def)
  have upd: "table_ok wf_works work_le (works d) (update_where (\<lambda>r. w_id r = wid) f (works d))"
    if "w_state w \<in> {Queued, Running}" "work_le w (f w)" for f
    using only that by (intro works.ok_update) metis
  show ?thesis
    using assms Some unfolding acquire_worker_def
    by (auto simp: evolves_def work_le_def final_row_def
        intro!: upd children.ok_update split: if_splits option.splits)
qed

lemma cancel_scope_evolves: "evolves d (cancel_scope d now conv g)"
proof -
  have "table_ok wf_works work_le (works d) (update_where
      (\<lambda>w. w_conversation w = conv \<and> \<not> terminal (w_state w)) (\<lambda>w. w\<lparr>w_state := Cancelled,
        w_reason := Some ''hard_boundary'',
        w_checkpoint := json_remove ''accepted_control'' (w_checkpoint w),
        w_revision := w_revision w + 1, w_updated := now\<rparr>) (works d))"
    by (rule works.ok_update) (auto simp: work_le_def terminal_def final_row_def)
  moreover have "table_ok wf_inputs input_le (inputs d) (update_where
      (\<lambda>i. in_conversation i = conv \<and> in_state i \<in> {Pending, Staged})
      (\<lambda>i. i\<lparr>in_state := Withdrawn\<rparr>) (inputs d))"
    by (rule inputs.ok_update) (auto simp: input_le_def)
  ultimately show ?thesis
    unfolding cancel_scope_def Let_def evolves_def
    by (simp add: scopes.ok_update children.ok_update)
qed

section \<open>Budget\<close>

lemma charge_evolves:
  assumes "charge d i m t = Inr d'"
  shows "evolves d d'"
  using assms
proof (cases rule: charge_cases)
  case (charged rt)
  have "table_ok wf_budgets budget_le (budgets d) (seed_budget d rt)"
    unfolding seed_budget_def
    by (auto split: option.split intro!: budgets.ok_insert
        simp: wf_budgets_def unique_key_append)
  moreover have "table_ok wf_budgets budget_le (seed_budget d rt)
      (update_where (charge_accepts rt m t) (charge_row m t) (seed_budget d rt))"
    by (rule budgets.ok_update) (simp add: budget_le_def charge_row_def charged)
  ultimately show ?thesis
    using budgets.ok_trans by (auto simp: charged(5) evolves_def)
qed simp

section \<open>Admission\<close>

lemma insert_work_evolves:
  assumes "insert_work d w = Inr d'"
    and "wf_store d \<Longrightarrow> case w_parent w of None \<Rightarrow> True | Some p \<Rightarrow> p \<in> w_id ` set (works d)"
  shows "wf_store d \<longrightarrow> evolves d d'"
proof
  assume wf: "wf_store d"
  have "table_ok wf_works work_le (works d) (works d @ [w])"
    if "w_source_key w \<notin> w_source_key ` set (works d)" "w_id w \<notin> w_id ` set (works d)"
    using that assms(2) [OF wf]
    by (intro works.ok_append) (simp add: wf_works_def unique_key_append parents_first_append)
  then show "evolves d d'"
    using assms(1) by (auto simp: insert_work_def evolves_def split: if_splits)
qed

lemma admit_row_evolves:
  assumes "admit_row d l now a row = Inr (row', d')"
  shows "evolves d d'"
proof -
  have "table_ok wf_works work_le (works d)
      (update_where (\<lambda>w. w_id w = p) (set_handoff i now) (works d))"
    if look: "lookup_by w_id p (works d) = Some w" and nt: "\<not> terminal (w_state w)" for p w i
  proof (rule works.ok_update)
    fix r assume "wf_works (works d)" "r \<in> set (works d)" "w_id r = p"
    then have "r = w"
      using lookup_by_Some_set [OF look] unique_keyD by (metis wf_works_def)
    then show "work_le r (set_handoff i now r)" using nt by simp
  qed
  then show ?thesis
    using assms by (auto simp: admit_row_def evolves_def handoff_ok_def
        split: if_splits option.splits)
qed

lemma admission_parent:
  "admission_authority d l k s p = Inr u \<Longrightarrow>
    case p of None \<Rightarrow> True | Some i \<Rightarrow> i \<in> w_id ` set (works d)"
  by (auto simp: admission_authority_def open_parent_def list_ex_iff split: option.splits if_splits)

lemma accept_evolves:
  assumes "accept_in_session d now l a = Inr (row, d')" "wf_store d"
  shows "evolves d d'"
proof -
  let ?w = "new_work l now (ad_identity a) (ad_source_key a) (encode_json (ad_source a))
    (ad_goal a) (ad_parent a) (admitted_state a)"
  obtain u d1 where auth: "admission_authority d l (ad_source_key a) (ad_source a) (ad_parent a) = Inr u"
    and ins: "insert_work d ?w = Inr d1" and row: "\<exists>r. admit_row d1 l now a r = Inr (row, d')"
    using assms(1)
    by (auto simp: accept_in_session_def split: if_splits sum.splits option.splits)
  have "case w_parent ?w of None \<Rightarrow> True | Some p \<Rightarrow> p \<in> w_id ` set (works d)"
    using admission_parent [OF auth] by (simp add: new_work_def)
  with insert_work_evolves [OF ins] assms(2) have "evolves d d1" by blast
  then show ?thesis using row admit_row_evolves evolves_trans by blast
qed

section \<open>The state writer\<close>

lemma stop_owned_evolves: "evolves d (stop_owned_execution d now i reason)"
  unfolding stop_owned_execution_def Let_def evolves_def
  by (auto intro!: table_updates)

lemma put_recovery_ok: "table_ok wf_recoveries recovery_le rows (put_recovery r rows)"
  unfolding put_recovery_def
  by (auto intro!: recoveries.ok_update recoveries.ok_append
      simp: recovery_le_def wf_recoveries_def unique_key_append)

lemma record_exit_evolves: "evolves d (record_exit d l now i x detail)"
  by (auto simp: record_exit_def evolves_def put_recovery_ok split: option.split)

lemma close_waits_evolves: "evolves d (close_waits d now i)"
  by (auto simp: close_waits_def evolves_def intro!: table_updates)

lemma insert_input_ok:
  assumes "in_id x = next_input_id d"
  shows "table_ok wf_inputs input_le (inputs d) (insert_ignore in_source_key x (inputs d))"
proof (rule inputs.ok_insert)
  assume wf: "wf_inputs (inputs d)" and new: "in_source_key x \<notin> in_source_key ` set (inputs d)"
  have "in_id x \<notin> in_id ` set (inputs d)"
    using next_input_id_fresh [of _ d] assms by force
  then show "wf_inputs (inputs d @ [x])"
    using wf new by (simp add: wf_inputs_def unique_key_append)
qed

lemma notify_parent_evolves: "evolves d (notify_parent d now row)"
  by (auto simp: notify_parent_def evolves_def result_input_def
      intro!: insert_input_ok table_updates split: option.split)

lemma after_state_evolves: "evolves d (after_state d now l i s reason goal detail row)"
  unfolding after_state_def Let_def
  using stop_owned_evolves record_exit_evolves close_waits_evolves notify_parent_evolves
  by (smt (verit, best) evolves_refl evolves_trans)

lemma commit_state_evolves:
  assumes "commit_state d now l i st revision reason goal x detail = Inr (row, d')"
  shows "evolves d d'"
proof -
  let ?s = "settle_state d now i st reason goal x"
  let ?d1 = "d\<lparr>works := update_where (state_guard l i revision)
      (state_row d now ?s revision goal) (works d)\<rparr>"
  have "evolves d ?d1"
    by (simp add: evolves_def works.ok_update)
  moreover have "d' = after_state ?d1 now l i ?s reason goal detail row"
    using assms by (auto simp: commit_state_def Let_def split: option.splits)
  ultimately show ?thesis
    using after_state_evolves evolves_trans by blast
qed

lemma transition_evolves:
  "transition d now l i revision st reason goal x = Inr (row, d') \<Longrightarrow> evolves d d'"
  by (auto simp: transition_def split: option.splits if_splits sum.splits
      intro: commit_state_evolves)

lemma set_accepted_control_evolves:
  "set_accepted_control d now l i c = Inr (row, d') \<Longrightarrow> evolves d d'"
  by (auto simp: set_accepted_control_def evolves_def open_work_def intro!: table_updates split: option.splits)

lemma accept_control_evolves: "accept_control d now l i c = Inr (row, d') \<Longrightarrow> evolves d d'"
  by (auto simp: accept_control_def split: sum.splits intro: set_accepted_control_evolves)

lemma checkpoint_evolves:
  assumes "checkpoint d now l i p m t n = Inr d'"
  shows "evolves d d'"
proof -
  have pos: "0 \<le> m" "0 \<le> t" "0 \<le> n"
    using assms by (auto simp: checkpoint_def split: if_splits)
  obtain d1 where d1: "(if m \<noteq> 0 \<or> t \<noteq> 0 then charge d i m t else Inr d) = Inr d1"
    and d': "d' = d1\<lparr>works := update_where (open_work l i) (checkpoint_row now p m t n) (works d1)\<rparr>"
    using assms by (auto simp: checkpoint_def split: if_splits sum.splits)
  have "evolves d d1"
    using d1 charge_evolves by (auto split: if_splits)
  moreover have "evolves d1 d'"
    unfolding d' evolves_def by (auto simp: open_work_def pos intro!: table_updates)
  ultimately show ?thesis by (rule evolves_trans)
qed

section \<open>The inbox\<close>

lemma resume_work_evolves: "resume_work d now q = Inr d' \<Longrightarrow> evolves d d'"
  by (auto simp: resume_work_def evolves_def resume_guard_def final_row_def
      intro!: table_updates split: if_splits)

lemma enqueue_commit_evolves:
  assumes "enqueue_commit process d now q = Inr (n, d')"
  shows "evolves d d'"
proof -
  let ?d1 = "d\<lparr>inputs := insert_ignore in_source_key (eq_row process d now q) (inputs d)\<rparr>"
  have "evolves d ?d1"
    by (auto simp: evolves_def eq_row_def intro!: insert_input_ok)
  moreover have "d' = ?d1 \<or> resume_work ?d1 now q = Inr d'"
    using assms unfolding enqueue_commit_def Let_def
    by (auto split: sum.splits option.splits if_splits)
  ultimately show ?thesis
    using resume_work_evolves evolves_trans by blast
qed

lemma enqueue_evolves: "enqueue process seen d now q = Inr (n, d') \<Longrightarrow> evolves d d'"
  by (auto simp: enqueue_def split: if_splits option.splits intro: enqueue_commit_evolves)

lemma add_media_evolves: "add_media owner b d = Inr d' \<Longrightarrow> evolves d d'"
  by (auto simp: add_media_def evolves_def split: if_splits option.splits)

text \<open>What a successful \<open>prepare_input\<close> did, with \<open>hook\<close> the publication callback.\<close>

definition publish_hook ::
  "(db \<Rightarrow> int \<Rightarrow> work_error + db) option \<Rightarrow> int \<Rightarrow> db \<Rightarrow> work_error + db" where
  "publish_hook publish i x = (case publish of None \<Rightarrow> Inr x | Some f \<Rightarrow> f x i)"

definition mark_prepared :: "db \<Rightarrow> int \<Rightarrow> json \<Rightarrow> db" where
  "mark_prepared d i prep =
     d\<lparr>inputs := update_where (preparable d i)
         (\<lambda>r. r\<lparr>in_payload := encode_json prep, in_ready := True\<rparr>) (inputs d)\<rparr>"

lemma prepare_input_cases:
  assumes "prepare_input sha seen d now i payload publish = Inr (b, d')"
  obtains (same) "d' = d"
    | (again) "publish_hook publish i d = Inr d'"
    | (published) prep blobs owner d1 d2 where
      "publish_hook publish i (mark_prepared d i prep) = Inr d1"
      "add_media owner blobs d1 = Inr d2" "d' = wake_prepared d2 now i"
proof -
  obtain prep blobs where ext: "externalize sha payload [] = (prep, blobs)" by fastforce
  show ?thesis
  proof (cases "publish = None \<and> settled_ready seen i")
    case True
    then show ?thesis using assms same by (simp add: prepare_input_def)
  next
    case False
    show ?thesis
    proof (cases "List.find (preparable d i) (inputs d)")
      case None
      then have "d' = d \<or> publish_hook publish i d = Inr d'"
        using assms False unfolding prepare_input_def Let_def ext
        by (auto simp: publish_hook_def split: if_splits sum.splits)
      then show ?thesis using same again by blast
    next
      case (Some r)
      then have "\<exists>d1 d2. publish_hook publish i (mark_prepared d i prep) = Inr d1 \<and>
          add_media (in_work_id r) blobs d1 = Inr d2 \<and> d' = wake_prepared d2 now i"
        using assms False unfolding prepare_input_def Let_def ext
        by (auto simp: publish_hook_def mark_prepared_def split: if_splits sum.splits)
      then show ?thesis using published by blast
    qed
  qed
qed

lemma prepare_input_evolves:
  assumes "prepare_input sha seen d now i payload publish = Inr (b, d')"
    and "\<And>f x y. publish = Some f \<Longrightarrow> f x i = Inr y \<Longrightarrow> evolves x y"
  shows "evolves d d'"
proof -
  have hook: "publish_hook publish i x = Inr y \<Longrightarrow> evolves x y" for x y
    using assms(2) by (auto simp: publish_hook_def split: option.splits)
  have mark: "evolves d (mark_prepared d i prep)" for prep
    by (auto simp: mark_prepared_def evolves_def input_le_def preparable_def intro!: table_updates)
  have wake: "evolves d2 (wake_prepared d2 now i)" for d2
    unfolding wake_prepared_def evolves_def by (auto intro!: table_updates)
  show ?thesis
    using assms(1)
  proof (cases rule: prepare_input_cases)
    case (published prep blobs owner d1 d2)
    then show ?thesis
      using mark hook add_media_evolves wake evolves_trans by metis
  qed (use hook in simp_all)
qed

lemma discard_input_evolves: "evolves d (discard_input d now i)"
  unfolding discard_input_def Let_def evolves_def
  by (auto simp: input_le_def work_le_def final_row_def intro!: table_updates split: option.split)

lemma stage_evolves: "stage d now l ids attempt = Inr d' \<Longrightarrow> evolves d d'"
  by (auto simp: stage_def evolves_def stageable_def input_le_def intro!: table_updates
      split: if_splits sum.splits)

lemma consume_evolves: "consume d now l attempt = Inr d' \<Longrightarrow> evolves d d'"
  by (auto simp: consume_def evolves_def consumable_def input_le_def intro!: table_updates
      split: sum.splits)

lemma route_to_parent_evolves: "route_to_parent hint d now p t = Inr d' \<Longrightarrow> evolves d d'"
  unfolding route_to_parent_def Let_def
  by (auto simp: evolves_def completion_input_def intro!: insert_input_ok table_updates
      split: if_splits option.splits)

lemma route_child_completion_evolves:
  "route_child_completion hint seen d now rid = Inr d' \<Longrightarrow> evolves d d'"
  by (auto simp: route_child_completion_def split: option.splits if_splits
      intro: route_to_parent_evolves)

lemma confirm_commit_evolves: "confirm_commit d now rid r p = (b, d') \<Longrightarrow> evolves d d'"
  unfolding confirm_commit_def Let_def
  by (auto simp: evolves_def wakeup_input_def open_input_def intro!: table_updates
      split: option.splits if_splits)

lemma confirm_child_completion_evolves:
  "confirm_child_completion seen d now rid = (b, d') \<Longrightarrow> evolves d d'"
  by (auto simp: confirm_child_completion_def split: option.splits if_splits
      intro: confirm_commit_evolves)

lemma reclaim_evolves: "evolves d (reclaim_unreferenced_media seen d)"
  by (simp add: reclaim_unreferenced_media_def Let_def evolves_def)

section \<open>Effects and deliveries\<close>

lemma prepare_effect_evolves:
  "prepare_effect d now l i key kind a b c = Inr (r, d') \<Longrightarrow> evolves d d'"
  by (auto simp: prepare_effect_def evolves_def wf_effects_def unique_key_append
      intro!: effects.ok_insert split: sum.splits if_splits)

lemma invocation_started_dispatch:
  assumes "json_get ''invocation'' r = Some m" "is_object (Some m)"
  shows "invocation_started (e\<lparr>ef_receipt := encode_json (json_set ''invocation'' (started_invocation c n m) r),
    ef_updated := now\<rparr>)"
  using assms json_get_object [OF assms(1)]
  by (simp add: invocation_started_def json_extract_def started_invocation_def truthy_opt_def)

lemma dispatch_commit_evolves:
  assumes "dispatch_commit d now l i key c original s = Inr (b, d')"
    and "\<And>e. invocation_started (e\<lparr>ef_receipt := s, ef_updated := now\<rparr>)"
  shows "evolves d d'"
proof -
  let ?d1 = "d\<lparr>effects := update_where (dispatch_guard original i key)
      (\<lambda>e. e\<lparr>ef_receipt := s, ef_updated := now\<rparr>) (effects d)\<rparr>"
  have start: "evolves d ?d1"
    by (auto simp: evolves_def effect_le_def assms(2) intro!: table_updates)
  consider "d' = d" | "d' = ?d1"
    | d2 where "charge ?d1 i 0 1 = Inr d2" "d' = d2\<lparr>works := update_where (open_work l i)
        (\<lambda>w. w\<lparr>w_tools := w_tools w + 1, w_updated := now\<rparr>) (works d2)\<rparr>"
    using assms(1) unfolding dispatch_commit_def Let_def
    by (auto split: sum.splits if_splits)
  then show ?thesis
  proof cases
    case (3 d2)
    have "evolves d2 d'"
      unfolding 3 by (auto simp: evolves_def open_work_def work_le_def terminal_final intro!: table_updates)
    then show ?thesis
      using start charge_evolves [OF 3(1)] evolves_trans by blast
  qed (use start in simp_all)
qed

lemma admit_dispatch_evolves:
  assumes "admit_dispatch seen d now l i key c = Inr (b, d')"
  shows "evolves d d'"
proof -
  obtain original where o: "find_effect seen i key = Some original"
    using assms by (auto simp: admit_dispatch_def split: option.splits)
  then obtain m where m: "json_get ''invocation'' (ef_receipt original) = Some m" "is_object (Some m)"
    using assms by (auto simp: admit_dispatch_def split: option.splits if_splits)
  consider "d' = d" | n where "dispatch_commit d now l i key c original
      (encode_json (json_set ''invocation'' (started_invocation c n m) (ef_receipt original))) = Inr (b, d')"
    using assms o m unfolding admit_dispatch_def
    by (auto split: option.splits if_splits json.splits)
  then show ?thesis
    using dispatch_commit_evolves invocation_started_dispatch [OF m] by cases auto
qed

lemma bind_row_started: "invocation_started (bind_row now ref e) = invocation_started e"
proof -
  have "json_path [''invocation'', ''dispatch_started''] (json_set2 ''invocation'' k v j) =
      json_path [''invocation'', ''dispatch_started''] j" if "k \<noteq> ''dispatch_started''" for k v j
  proof (cases "json_get ''invocation'' j")
    case (Some inner)
    then show ?thesis
      using that json_get_object [OF Some] by (simp add: json_set2_def)
  qed (simp add: json_set2_def)
  then show ?thesis
    by (simp add: invocation_started_def bind_row_def json_extract_def)
qed

lemma bind_row_le [simp]: "effect_le e (bind_row now ref e)"
  unfolding effect_le_def bind_row_started by (simp add: bind_row_def)

lemma bind_domain_receipt_evolves:
  "bind_domain_receipt d now i key ref = Inr d' \<Longrightarrow> evolves d d'"
  by (auto simp: bind_domain_receipt_def evolves_def intro!: table_updates split: if_splits)

lemma count_sent_evolves:
  assumes "list_ex (open_work l i) (works d)" "0 \<le> n"
  shows "evolves d (count_sent d i n)"
proof -
  have "table_ok wf_works work_le (works d)
      (update_where (\<lambda>w. w_id w = i) (\<lambda>w. w\<lparr>w_sent := w_sent w + n\<rparr>) (works d))"
  proof (rule works.ok_update)
    fix r assume r: "wf_works (works d)" "r \<in> set (works d)" "w_id r = i"
    moreover obtain w where "w \<in> set (works d)" "w_id w = i" "\<not> terminal (w_state w)"
      using assms(1) by (auto simp: list_ex_iff open_work_def)
    ultimately have "\<not> terminal (w_state r)"
      using unique_keyD by (metis wf_works_def)
    then show "work_le r (r\<lparr>w_sent := w_sent r + n\<rparr>)"
      using assms(2) by (simp add: work_le_def terminal_final)
  qed
  then show ?thesis by (simp add: count_sent_def evolves_def)
qed

lemma reserve_cases:
  assumes "reserve d now l cur key kind payload count = Inr d'"
  obtains (same) "d' = d"
    | (fresh) i where "list_ex (open_work l i) (works d)" "0 \<le> count"
      "lookup_by dl_id key (deliveries d) = None"
      "d' = count_sent (d\<lparr>deliveries := deliveries d @ [new_delivery now i key kind payload count]\<rparr>) i count"
    | (again) i prior where "list_ex (open_work l i) (works d)" "0 \<le> count"
      "lookup_by dl_id key (deliveries d) = Some prior"
      "dl_state prior \<notin> {''reserved'', ''accepted'', ''unknown'', ''dispatching''}"
      "d' = count_sent (d\<lparr>deliveries := update_where (\<lambda>r. dl_id r = key) (deliver_row now)
          (deliveries d)\<rparr>) i count"
proof (cases cur)
  case None
  then show ?thesis using assms same by (simp add: reserve_def)
next
  case (Some i)
  have pre: "\<not> count < 1" "list_ex (open_work l i) (works d)"
    using assms unfolding reserve_def Some by (simp_all split: if_splits sum.splits)
  then have n: "0 \<le> count" by simp
  obtain u where lease: "assert_lease d now l = Inr u"
    using assms pre unfolding reserve_def Some by (simp split: sum.splits)
  show ?thesis
  proof (cases "lookup_by dl_id key (deliveries d)")
    case None
    then have "d' = count_sent (d\<lparr>deliveries := deliveries d @ [new_delivery now i key kind payload count]\<rparr>) i count"
      using assms pre lease unfolding reserve_def Some by simp
    then show ?thesis by (rule fresh [OF pre(2) n None])
  next
    case look: (Some prior)
    have "d' = d \<or> (dl_state prior \<notin> {''reserved'', ''accepted'', ''unknown'', ''dispatching''} \<and>
        d' = count_sent (d\<lparr>deliveries := update_where (\<lambda>r. dl_id r = key) (deliver_row now)
          (deliveries d)\<rparr>) i count)"
      using assms pre lease look unfolding reserve_def Some by (simp split: if_splits)
    then show ?thesis using same again [OF pre(2) n look] by blast
  qed
qed

lemma reserve_evolves:
  assumes "reserve d now l cur key kind payload count = Inr d'"
  shows "evolves d d'"
  using assms
proof (cases rule: reserve_cases)
  case (fresh i)
  let ?d1 = "d\<lparr>deliveries := deliveries d @ [new_delivery now i key kind payload count]\<rparr>"
  have "evolves d ?d1"
    using fresh(3) by (auto simp: evolves_def wf_deliveries_def lookup_by_None_iff new_delivery_def
        intro!: deliveries.ok_append unique_key_append)
  then show ?thesis
    using count_sent_evolves [of l i ?d1] fresh evolves_trans by auto
next
  case (again i prior)
  let ?d1 = "d\<lparr>deliveries := update_where (\<lambda>r. dl_id r = key) (deliver_row now) (deliveries d)\<rparr>"
  have "table_ok wf_deliveries delivery_le (deliveries d) (deliveries ?d1)"
  proof (simp, rule deliveries.ok_update)
    fix r assume "wf_deliveries (deliveries d)" "r \<in> set (deliveries d)" "dl_id r = key"
    then have "r = prior"
      using lookup_by_Some_set [OF again(3)] unique_keyD by (metis wf_deliveries_def)
    then show "delivery_le r (deliver_row now r)"
      using again(4) by (simp add: delivery_le_def deliver_row_def)
  qed
  then have "evolves d ?d1" by (simp add: evolves_def)
  then show ?thesis
    using count_sent_evolves [of l i ?d1] again evolves_trans by auto
qed simp

lemma record_delivery_evolves: "evolves d (record_delivery d now key st receipt)"
  unfolding record_delivery_def evolves_def
  by (auto simp: delivery_le_def intro!: table_updates)

end
