(* ===== verification/Results.thy ===== *)
theory Results
  imports Main
begin

text \<open>
  Fallible results: \<open>Inl\<close> an error, \<open>Inr\<close> a value. \<open>ebind\<close> is the sequencing of two
  statements of which the first may raise, \<open>efold\<close> a loop whose body may raise. The
  collection \<open>returns\<close> says when a composed computation returns.
\<close>

named_theorems returns \<open>when a fallible computation returns\<close>

definition ebind :: "'e + 'a \<Rightarrow> ('a \<Rightarrow> 'e + 'b) \<Rightarrow> 'e + 'b" where
  "ebind m f = (case m of Inl e \<Rightarrow> Inl e | Inr x \<Rightarrow> f x)"

fun efold :: "('a \<Rightarrow> 's \<Rightarrow> 'e + 's) \<Rightarrow> 'a list \<Rightarrow> 's \<Rightarrow> 'e + 's" where
  "efold f [] s = Inr s"
| "efold f (x # xs) s = ebind (f x s) (efold f xs)"

lemma ebind_simps [simp]: "ebind (Inl e) f = Inl e" "ebind (Inr x) f = f x"
  by (simp_all add: ebind_def)

lemma ebind_returns [returns]: "ebind m f = Inr y \<longleftrightarrow> (\<exists>x. m = Inr x \<and> f x = Inr y)"
  by (cases m) auto

lemma efold_inv:
  assumes "efold f xs s = Inr t" "P s" "\<And>x s t. x \<in> set xs \<Longrightarrow> f x s = Inr t \<Longrightarrow> P s \<Longrightarrow> P t"
  shows "P t"
  using assms by (induction xs arbitrary: s) (auto simp: returns)

end
