(* ===== verification/Work_Receipts.thy ===== *)
theory Work_Receipts
  imports Work_Effects Results
begin

text \<open>
  Receipts of external effects: reading them (\<open>historical_evidence\<close> of
  \<open>runtime/effect_outcomes.py\<close>, \<open>effect_evidence\<close>, \<open>composition_children\<close>), recording an
  outcome (\<open>record_effect\<close>), settling the effects of a finished run
  (\<open>resolve_run_effects\<close>) and the publication of a program snapshot with its next child
  intent (\<open>publish_code_boundary\<close>), all of \<open>runtime/work_repository.py\<close>.

  \<open>record_effect\<close> reads in one session and writes by compare-and-set in another, and
  starts again when somebody else wrote in between: \<open>record_attempt\<close> is one round and
  \<open>record_effect\<close> the loop over the rounds the environment allows. Two readings of results
  without a typed outcome are parameters of the model: \<open>legacy\<close>, the evidence of a result
  in the older format, and \<open>original\<close>, the outcome of a result given without one. The
  stored snapshots of programs are a parameter as well (\<open>refs\<close>, the prepared ones, and
  \<open>loads\<close>, whether the bytes of one decode for the binding).
\<close>

section \<open>JSON objects\<close>

text \<open>\<open>{**a, **b}\<close>; Python equality of JSON values is equality of their canonical forms.\<close>

fun jmerge :: "json \<Rightarrow> json \<Rightarrow> json" where
  "jmerge (JObj a) (JObj b) = JObj (AList.merge a b)"
| "jmerge a b = a"

definition same_json :: "json \<Rightarrow> json \<Rightarrow> bool" where
  "same_json a b \<longleftrightarrow> encode_json a = encode_json b"

definition optional_json :: "json option \<Rightarrow> json" where
  "optional_json v = (case v of None \<Rightarrow> JNull | Some x \<Rightarrow> x)"

lemma json_get_jmerge:
  "is_object (Some a) \<Longrightarrow> is_object (Some b) \<Longrightarrow>
    json_get k (jmerge a b) = (case json_get k b of None \<Rightarrow> json_get k a | Some v \<Rightarrow> Some v)"
  by (cases a; cases b) (auto simp: merge_conv' map_add_def split: option.split)

lemma is_object_jmerge [simp]: "is_object (Some (jmerge a b)) = is_object (Some a)"
  by (cases a; cases b) simp_all

section \<open>Reading receipts\<close>

definition native_evidence :: "bool \<Rightarrow> json" where
  "native_evidence accepted = JObj
     [(''tool'', JStr ''final_delivery''), (''side_effecting'', JBool True), (''ok'', JBool accepted),
      (''executed'', JBool accepted), (''mutation_committed'', JBool accepted),
      (''pending'', JBool False), (''uncertain'', JBool False),
      (''status'', JStr (if accepted then ''succeeded'' else ''not_dispatched'')),
      (''transport_accepted'', JBool accepted),
      (''error_code'', if accepted then JNull else JStr ''delivery_not_dispatched'')]"

definition unclear_evidence :: "json \<Rightarrow> json" where
  "unclear_evidence r =
     json_set ''executed'' (JBool True) (json_set ''side_effecting'' (JBool True)
       (json_set ''uncertain'' (JBool True) (json_set ''ok'' (JBool False) r)))"

definition drop_odd_status :: "json \<Rightarrow> json" where
  "drop_odd_status r =
     (if json_get ''status'' r \<in> {None, Some JNull} \<or> is_text (json_get ''status'' r) then r
      else json_remove ''status'' r)"

text \<open>The evidence before the common adjustments of the last lines.\<close>

definition raw_evidence :: "(json \<Rightarrow> json option) \<Rightarrow> json \<Rightarrow> json" where
  "raw_evidence legacy receipt =
     (let e = json_get ''outcome'' receipt
      in if evidence_valid e then optional_json e
         else if e \<in> {None, Some JNull, Some (JObj [])}
         then (case legacy receipt of Some r \<Rightarrow> r | None \<Rightarrow> unclear_evidence (JObj []))
         else drop_odd_status (unclear_evidence (if is_object e then optional_json e else JObj [])))"

definition text_in :: "string list \<Rightarrow> json option \<Rightarrow> bool" where
  "text_in names v \<longleftrightarrow> (case v of Some (JStr s) \<Rightarrow> s \<in> set names | _ \<Rightarrow> False)"

definition status_evidence :: "json \<Rightarrow> json" where
  "status_evidence r =
     (if text_in [''unknown'', ''uncertain''] (json_get ''status'' r)
      then json_set ''uncertain'' (JBool True) (json_set ''ok'' (JBool False) r)
      else if text_in [''running'', ''queued'', ''waiting''] (json_get ''status'' r)
      then json_set ''pending'' (JBool True) r else r)"

definition agent_evidence :: "json \<Rightarrow> json \<Rightarrow> json" where
  "agent_evidence invocation r =
     (if is_object (Some invocation) \<and> json_get ''tool_id'' invocation = Some (JStr ''external_agent'')
      then (let r1 = json_set ''tool'' (JStr ''external_agent'') r
            in case json_get ''action'' invocation of
                 None \<Rightarrow> r1
               | Some a \<Rightarrow> if json_get ''action'' r1 = None then json_set ''action'' a r1 else r1)
      else r)"

definition historical_evidence :: "(json \<Rightarrow> json option) \<Rightarrow> json \<Rightarrow> effect_state \<Rightarrow> string \<Rightarrow> json" where
  "historical_evidence legacy receipt st kind =
     (if native_final kind st receipt then native_evidence (native_accepted st receipt)
      else
        (let r = agent_evidence (get_default ''invocation'' (JObj []) receipt)
                   (status_evidence (raw_evidence legacy receipt))
         in if st \<in> {Prepared, Unknown} \<and> json_get ''side_effecting'' r \<noteq> Some (JBool False)
            then json_set ''uncertain'' (JBool True) r else r))"

text \<open>The effects of a Work and of its subtree.\<close>

definition effect_evidence ::
  "(json \<Rightarrow> json option) \<Rightarrow> db \<Rightarrow> clock \<Rightarrow> work_lease \<Rightarrow> string \<Rightarrow> bool \<Rightarrow> nat option \<Rightarrow>
   work_error + json list" where
  "effect_evidence legacy d now l i only_unresolved limit =
     (if \<not> lease_valid d now l then Inl (Conflict ''work_activation_obsolete'')
      else
        (let rows = filter (\<lambda>e. ef_work_id e \<in> set (descendant_ids d True i) \<and> (only_unresolved \<longrightarrow> unresolved True True e)) (effects d);
             page = (case limit of
                 None \<Rightarrow> sort_key ef_key rows
               | Some n \<Rightarrow> take n (rev (sort_key ef_updated (sort_key ef_key rows))))
         in Inr (map (\<lambda>e. json_set ''work_id'' (JStr (ef_work_id e)) (json_set ''effect_key'' (JStr (ef_key e))
                  (historical_evidence legacy (ef_receipt e) (ef_state e) (ef_kind e)))) page)))"

definition child_of :: "string \<Rightarrow> effect_row \<Rightarrow> bool" where
  "child_of parent_key e \<longleftrightarrow>
     json_extract [''invocation'', ''parent_effect_key''] (ef_receipt e) = Some (JStr parent_key) \<and>
     num_eq (json_extract [''invocation'', ''version''] (ef_receipt e)) 1"

definition composition_children :: "db \<Rightarrow> string \<Rightarrow> string \<Rightarrow> (string \<times> effect_state \<times> json) list" where
  "composition_children d i parent_key =
     map (\<lambda>e. (ef_key e, ef_state e, ef_receipt e))
       (sort_key ef_key (filter (\<lambda>e. ef_work_id e = i \<and> child_of parent_key e) (effects d)))"

section \<open>Recording an outcome\<close>

text \<open>Host-owned fields are taken from the stored receipt.\<close>

definition keep_field :: "json \<Rightarrow> string \<Rightarrow> json \<Rightarrow> work_error + json" where
  "keep_field previous field candidate =
     (case json_get field previous of
        None \<Rightarrow> Inr candidate
      | Some v \<Rightarrow>
          (case json_get field candidate of
             Some x \<Rightarrow> if \<not> same_json x v then Inl (Conflict ''work_effect_metadata_conflict'')
                       else Inr (json_set field v candidate)
           | None \<Rightarrow> Inr (json_set field v candidate)))"

definition default_outcome ::
  "(json \<Rightarrow> json \<Rightarrow> work_error + json) \<Rightarrow> effect_state \<Rightarrow> json \<Rightarrow> json \<Rightarrow> work_error + json" where
  "default_outcome original st existing candidate =
     (if json_get ''outcome'' candidate \<noteq> None then Inr candidate
      else
        ebind (case json_get ''result'' candidate of
                 None \<Rightarrow> Inr candidate
               | Some r \<Rightarrow> ebind (original r existing) (\<lambda>o1. Inr (json_set ''outcome'' o1 candidate)))
          (\<lambda>c1. if \<not> truthy existing then Inr c1
                else
                  (let o1 = get_default ''outcome'' (JObj []) c1;
                       side = get_default ''side_effecting'' (JBool True) existing;
                       uncertain = (if st = Unknown \<and> truthy side then side
                                    else get_default ''uncertain'' (JBool False) o1)
                   in Inr (json_set ''outcome''
                        (json_set ''uncertain'' uncertain (jmerge existing o1)) c1))))"

definition canonical :: "(json \<Rightarrow> json option) \<Rightarrow> json \<Rightarrow> json" where
  "canonical legacy value =
     (let out = historical_evidence legacy value Accepted ''tool''
      in json_set ''outcome'' (JObj [(k, get_default k JNull out).
           k \<leftarrow> [''ok'', ''pending'', ''uncertain'', ''executed'', ''status'', ''run_id'']]) value)"

definition fields :: "json \<Rightarrow> (string \<times> json) list" where
  "fields j = (case j of JObj kvs \<Rightarrow> kvs | _ \<Rightarrow> [])"

text \<open>What a stored state allows: nothing to do, a conflict, or an update.\<close>

datatype verdict = Keep_stored | Write_receipt | Refuse_receipt

definition settle_verdict :: "(json \<Rightarrow> json option) \<Rightarrow> effect_state \<Rightarrow> json \<Rightarrow> effect_state \<Rightarrow> json \<Rightarrow> verdict" where
  "settle_verdict legacy stored previous st candidate =
     (case stored of
        Accepted \<Rightarrow>
          (if st = Unknown then Keep_stored
           else
             (let before = canonical legacy previous; after = canonical legacy candidate
              in if st \<noteq> Accepted \<or>
                    list_ex (\<lambda>(k, v). \<not> same_json (get_default k JNull after) v) (fields before)
                 then Refuse_receipt
                 else if same_json after before then Keep_stored else Write_receipt))
      | Effect_failed \<Rightarrow>
          (if stored = st \<and> same_json candidate previous then Keep_stored else Refuse_receipt)
      | _ \<Rightarrow> Write_receipt)"

definition next_revision :: "json \<Rightarrow> work_error + json" where
  "next_revision candidate =
     (case json_get ''invocation'' candidate of
        None \<Rightarrow> Inr candidate
      | Some m \<Rightarrow>
          if is_object (Some m) \<and> num_eq (json_get ''version'' m) 1
          then (case json_get ''revision'' m of
                  Some (JInt r) \<Rightarrow> Inr (json_set ''invocation'' (json_set ''revision'' (JInt (r + 1)) m) candidate)
                | _ \<Rightarrow> Inl (Key_error ''revision''))
          else Inr candidate)"

text \<open>
  The authority the writer checks: the privacy generation of the trace for results that
  quote history, and the conversation's generation for media.
\<close>

definition source_authority ::
  "db \<Rightarrow> int \<Rightarrow> json \<Rightarrow> (string \<times> int \<times> int) option \<Rightarrow> work_error + unit" where
  "source_authority d privacy out media =
     (if truthy_opt (json_get ''source_event_ids'' out) \<and>
         \<not> num_eq (json_get ''source_privacy_generation'' out) privacy
      then Inl (Conflict ''work_effect_history_source_changed'')
      else case media of
        None \<Rightarrow> Inr ()
      | Some (conv, gen, generation) \<Rightarrow>
          if map_option cv_generation (lookup_by cv_id conv (conversations d)) \<noteq> Some gen \<or>
             privacy \<noteq> generation
          then Inl (Conflict ''work_effect_media_source_changed'') else Inr ())"

definition record_guard :: "effect_row \<Rightarrow> effect_row \<Rightarrow> bool" where
  "record_guard existing e \<longleftrightarrow> ef_key e = ef_key existing \<and> ef_state e = ef_state existing \<and>
     ef_receipt e = ef_receipt existing"

definition record_commit ::
  "(db \<Rightarrow> string \<Rightarrow> work_error + db) \<Rightarrow> db \<Rightarrow> clock \<Rightarrow> int \<Rightarrow> effect_state \<Rightarrow> effect_row \<Rightarrow> json \<Rightarrow>
   (string \<times> int \<times> int) option \<Rightarrow> work_error + (bool \<times> db)" where
  "record_commit publish d now privacy st existing candidate media =
     ebind (source_authority d privacy (get_default ''outcome'' (JObj []) candidate) media) (\<lambda>_.
       if \<not> list_ex (record_guard existing) (effects d) then Inr (False, d)
       else ebind (publish (d\<lparr>effects := update_where (record_guard existing)
              (\<lambda>e. e\<lparr>ef_state := st, ef_receipt := encode_json candidate, ef_updated := now\<rparr>)
              (effects d)\<rparr>) (ef_work_id existing)) (\<lambda>d'. Inr (True, d')))"

text \<open>One round: \<open>True\<close> says that the method returns, \<open>False\<close> that it reads again.\<close>

definition record_attempt ::
  "(json \<Rightarrow> json option) \<Rightarrow> (json \<Rightarrow> json \<Rightarrow> work_error + json) \<Rightarrow> (db \<Rightarrow> string \<Rightarrow> work_error + db) \<Rightarrow>
   string \<Rightarrow> effect_state \<Rightarrow> (string \<times> json) list \<Rightarrow> (string \<times> int \<times> int) option \<Rightarrow>
   db \<Rightarrow> db \<Rightarrow> clock \<Rightarrow> int \<Rightarrow> work_error + (bool \<times> db)" where
  "record_attempt legacy original publish key st receipt media seen d now privacy =
     (if st = Prepared then Inl (Value_error ''invalid_work_effect_state'')
      else case lookup_by ef_key key (effects seen) of
        None \<Rightarrow> Inl (Conflict ''work_effect_receipt_conflict'')
      | Some existing \<Rightarrow>
          (let previous = ef_receipt existing
           in ebind (keep_field previous ''invocation'' (JObj receipt)) (\<lambda>c0.
              ebind (keep_field previous ''composition'' c0) (\<lambda>c1.
              ebind (default_outcome original st (get_default ''outcome'' (JObj []) previous) c1) (\<lambda>c2.
              case settle_verdict legacy (ef_state existing) previous st c2 of
                Keep_stored \<Rightarrow> Inr (True, d)
              | Refuse_receipt \<Rightarrow> Inl (Conflict ''work_effect_receipt_conflict'')
              | Write_receipt \<Rightarrow> ebind (next_revision c2) (\<lambda>c3.
                  record_commit publish d now privacy st existing c3 media))))))"

fun record_effect ::
  "(json \<Rightarrow> json option) \<Rightarrow> (json \<Rightarrow> json \<Rightarrow> work_error + json) \<Rightarrow> (db \<Rightarrow> string \<Rightarrow> work_error + db) \<Rightarrow>
   string \<Rightarrow> effect_state \<Rightarrow> (string \<times> json) list \<Rightarrow> (string \<times> int \<times> int) option \<Rightarrow>
   (db \<times> db \<times> clock \<times> int) list \<Rightarrow> work_error + db option" where
  "record_effect legacy original publish key st receipt media [] = Inr None"
| "record_effect legacy original publish key st receipt media ((seen, d, now, privacy) # rounds) =
     ebind (record_attempt legacy original publish key st receipt media seen d now privacy)
       (\<lambda>(done1, d'). if done1 then Inr (Some d')
                      else record_effect legacy original publish key st receipt media rounds)"

section \<open>Settling the effects of a finished run\<close>

definition execution_tool :: "string \<Rightarrow> json \<Rightarrow> bool" where
  "execution_tool name action \<longleftrightarrow>
     name = ''terminal_exec'' \<or>
     name = ''external_agent'' \<and> text_in [''prompt'', ''queue''] (Some action) \<or>
     name \<in> {''environment_packages'', ''run_python''}"

definition run_target :: "string option \<Rightarrow> string \<Rightarrow> effect_row \<Rightarrow> bool" where
  "run_target key run_id e \<longleftrightarrow>
     (case key of
        Some k \<Rightarrow> ef_key e = k \<and> ef_state e = Accepted
      | None \<Rightarrow> json_extract [''outcome'', ''run_id''] (ef_receipt e) = Some (JStr run_id))"

text \<open>The receipt of an effect after the run's outcome, \<open>None\<close> when it stays as it is.\<close>

definition resolved_receipt ::
  "string \<Rightarrow> json \<Rightarrow> string option \<Rightarrow> string option \<Rightarrow> effect_row \<Rightarrow> json option" where
  "resolved_receipt run_id outcome key request_id e =
     (let receipt = ef_receipt e;
          previous = get_default ''outcome'' (JObj []) receipt;
          name = (case json_get ''tool'' previous of Some (JStr n) \<Rightarrow> n | _ \<Rightarrow> []);
          original_action = optional_json (json_get ''action'' (get_default ''invocation'' (JObj []) receipt));
          execution = execution_tool name (get_default ''action'' original_action previous);
          merged = json_set ''mutation_committed'' (optional_json (json_get ''mutation_committed'' previous))
            (json_set ''tool'' (case json_get ''tool'' previous of
                 Some t \<Rightarrow> t | None \<Rightarrow> optional_json (json_get ''tool'' outcome))
              (json_set ''side_effecting'' (JBool True) (jmerge previous outcome)))
      in if key \<noteq> None \<and>
            (optional_json (json_get ''request_id'' previous) \<noteq>
               (case request_id of None \<Rightarrow> JNull | Some r \<Rightarrow> JStr r) \<or>
             json_get ''run_id'' previous \<notin> {None, Some JNull, Some (JStr run_id)} \<or> \<not> execution)
         then None
         else if \<not> execution \<and> name \<notin> {''terminal_write'', ''terminal_control'', ''cancel_code_run''} then None
         else if same_json merged previous then None
         else (let encoded = encode_json (json_set ''outcome'' merged receipt)
               in if encoded = receipt then None else Some encoded))"

definition owned_work :: "work_lease \<Rightarrow> string \<Rightarrow> work_row \<Rightarrow> bool" where
  "owned_work l i w \<longleftrightarrow> w_id w = i \<and> w_conversation w = l_conversation l \<and> w_generation w = l_generation l"

definition resolve_prepare ::
  "db \<Rightarrow> clock \<Rightarrow> work_lease \<Rightarrow> string \<Rightarrow> string \<Rightarrow> json \<Rightarrow> string option \<Rightarrow> string option \<Rightarrow>
   work_error + (effect_row \<times> json) list" where
  "resolve_prepare d now l i run_id outcome key request_id =
     (if \<not> execution_finished outcome \<or> json_get ''run_id'' outcome \<noteq> Some (JStr run_id) then Inr []
      else if key \<noteq> None \<and> (request_id = None \<or>
                json_get ''request_id'' outcome \<noteq> map_option JStr request_id) then Inr []
      else if l_work_id l \<noteq> None \<and> l_work_id l \<noteq> Some i then Inl (Conflict ''work_effect_obsolete'')
      else ebind (assert_lease d now l) (\<lambda>_.
        if \<not> list_ex (owned_work l i) (works d) then Inl (Conflict ''work_effect_obsolete'')
        else Inr (List.map_filter
               (\<lambda>e. map_option (Pair e) (resolved_receipt run_id outcome key request_id e))
               (sort_key ef_key (filter (\<lambda>e. ef_work_id e = i \<and> run_target key run_id e \<and> lifecycle_role e)
                  (effects d))))))"

text \<open>One writer session settles a page of at most 128 of them, each by compare-and-set.\<close>

definition resolve_one :: "clock \<Rightarrow> work_lease \<Rightarrow> string \<Rightarrow> effect_row \<times> json \<Rightarrow> db \<Rightarrow> db" where
  "resolve_one now l i p d =
     (if list_ex (owned_work l i) (works d)
      then d\<lparr>effects := update_where
               (\<lambda>e. ef_key e = ef_key (fst p) \<and> ef_work_id e = i \<and> ef_receipt e = ef_receipt (fst p))
               (\<lambda>e. e\<lparr>ef_receipt := snd p, ef_updated := now\<rparr>) (effects d)\<rparr>
      else d)"

definition resolve_page :: "db \<Rightarrow> clock \<Rightarrow> work_lease \<Rightarrow> string \<Rightarrow> (effect_row \<times> json) list \<Rightarrow> work_error + db" where
  "resolve_page d now l i page = ebind (assert_lease d now l) (\<lambda>_. Inr (fold (resolve_one now l i) page d))"

fun pages_of :: "nat \<Rightarrow> 'a list \<Rightarrow> 'a list list" where
  "pages_of n [] = []"
| "pages_of n (x # xs) = take (Suc n) (x # xs) # pages_of n (drop n xs)"

text \<open>
  The pages are written in sessions of their own, each on the store and at the time the
  environment gives; a page that raises ends the method.
\<close>

fun resolve_pages ::
  "work_lease \<Rightarrow> string \<Rightarrow> (effect_row \<times> json) list list \<Rightarrow> (db \<times> clock) list \<Rightarrow> work_error + db list" where
  "resolve_pages l i (page # pages) ((d, now) # sessions) =
     ebind (resolve_page d now l i page) (\<lambda>d'. ebind (resolve_pages l i pages sessions) (\<lambda>ds. Inr (d' # ds)))"
| "resolve_pages l i pages sessions = Inr []"

definition resolve_run_effects ::
  "db \<Rightarrow> clock \<Rightarrow> (db \<times> clock) list \<Rightarrow> work_lease \<Rightarrow> string \<Rightarrow> string \<Rightarrow> json \<Rightarrow> string option \<Rightarrow> string option \<Rightarrow>
   work_error + db list" where
  "resolve_run_effects seen t0 sessions l i run_id outcome key request_id =
     ebind (resolve_prepare seen t0 l i run_id outcome key request_id) (\<lambda>prepared.
       resolve_pages l i (pages_of 127 prepared) sessions)"

section \<open>Publishing a program snapshot and its next child\<close>

record code_binding =
  cb_work_id :: string
  cb_operation_id :: string
  cb_source_execution_id :: string
  cb_conversation :: string
  cb_generation :: int
  cb_source_revision :: int
  cb_privacy :: int
  cb_engine_digest :: string
  cb_api_revision :: string
  cb_dump_format :: string

definition binding_matches :: "work_lease \<Rightarrow> string \<Rightarrow> string \<Rightarrow> code_binding \<Rightarrow> bool" where
  "binding_matches l i parent_key b \<longleftrightarrow> cb_work_id b = i \<and> cb_operation_id b = parent_key \<and>
     cb_conversation b = l_conversation l \<and> cb_generation b = l_generation l"

definition is_int :: "json option \<Rightarrow> bool" where
  "is_int v \<longleftrightarrow> (case v of Some (JInt _) \<Rightarrow> True | Some (JBool _) \<Rightarrow> True | _ \<Rightarrow> False)"

definition child_intent :: "string \<Rightarrow> string \<Rightarrow> json \<Rightarrow> bool" where
  "child_intent i parent_key c \<longleftrightarrow>
     num_eq (json_get ''version'' c) 1 \<and>
     json_get ''parent_effect_key'' c = Some (JStr parent_key) \<and>
     json_get ''owner_execution_id'' c = Some (JStr i) \<and>
     json_get ''dispatch_started'' c = Some (JBool False) \<and>
     json_get ''budget_admitted'' c = Some (JBool False) \<and>
     is_int (json_get ''child_ordinal'' c) \<and> is_int (json_get ''feed_index'' c) \<and>
     is_text (json_get ''engine_call_id'' c)"

definition bound_fields :: "string list" where
  "bound_fields = [''script_id'', ''media_privacy_generation'', ''code_ref'', ''inputs_ref'',
     ''api_revision'', ''engine_digest'', ''dump_format'']"

definition binding_conflict :: "code_binding \<Rightarrow> json \<Rightarrow> json \<Rightarrow> bool" where
  "binding_conflict b saved composition \<longleftrightarrow>
     list_ex (\<lambda>k. case json_get k composition of None \<Rightarrow> False
        | Some v \<Rightarrow> \<not> same_json v (optional_json (json_get k saved))) bound_fields \<or>
     json_get ''api_revision'' saved \<noteq> Some (JStr (cb_api_revision b)) \<or>
     json_get ''engine_digest'' saved \<noteq> Some (JStr (cb_engine_digest b)) \<or>
     json_get ''dump_format'' saved \<noteq> Some (JStr (cb_dump_format b))"

definition next_composition :: "json \<Rightarrow> json \<Rightarrow> int \<Rightarrow> json" where
  "next_composition saved composition revision =
     json_set ''snapshot_revision'' (JInt (revision + 1))
       (json_set ''version'' (JInt 1) (jmerge saved composition))"

definition child_receipt :: "bool \<Rightarrow> json \<Rightarrow> json" where
  "child_receipt side_effecting c = encode_json (JObj
     [(''invocation'', c),
      (''outcome'', JObj [(''tool'', optional_json (json_get ''tool_id'' c)),
         (''side_effecting'', JBool side_effecting), (''ok'', JBool False), (''pending'', JBool False),
         (''uncertain'', JBool False), (''executed'', JBool False)])])"

text \<open>The unique indexes over the children of one parent, SQL NULLs never being equal.\<close>

definition indexed_child :: "effect_row \<Rightarrow> bool" where
  "indexed_child e \<longleftrightarrow> num_eq (json_extract [''invocation'', ''version''] (ef_receipt e)) 1 \<and>
     is_text (json_path [''invocation'', ''parent_effect_key''] (ef_receipt e))"

definition same_field :: "string \<Rightarrow> effect_row \<Rightarrow> effect_row \<Rightarrow> bool" where
  "same_field k e e' \<longleftrightarrow> json_extract [''invocation'', k] (ef_receipt e) \<noteq> None \<and>
     json_extract [''invocation'', k] (ef_receipt e) = json_extract [''invocation'', k] (ef_receipt e')"

definition child_clash :: "effect_row \<Rightarrow> effect_row \<Rightarrow> bool" where
  "child_clash e e' \<longleftrightarrow> ef_key e = ef_key e' \<or>
     (indexed_child e \<and> indexed_child e' \<and> ef_work_id e = ef_work_id e' \<and>
      same_field ''parent_effect_key'' e e' \<and>
      (same_field ''child_ordinal'' e e' \<or> same_field ''feed_index'' e e' \<and> same_field ''engine_call_id'' e e'))"

definition insert_child :: "effect_row \<Rightarrow> db \<Rightarrow> work_error + db" where
  "insert_child c d =
     (if list_ex (child_clash c) (effects d) then Inl (Conflict ''code_child_identity_conflict'')
      else Inr (d\<lparr>effects := effects d @ [c]\<rparr>))"

definition boundary_guard :: "effect_row \<Rightarrow> string \<Rightarrow> string \<Rightarrow> effect_row \<Rightarrow> bool" where
  "boundary_guard original i parent_key e \<longleftrightarrow> ef_key e = parent_key \<and> ef_work_id e = i \<and>
     ef_state e \<in> {Prepared, Unknown} \<and> ef_receipt e = ef_receipt original"

definition boundary_update :: "effect_row \<Rightarrow> string \<Rightarrow> string \<Rightarrow> json \<Rightarrow> clock \<Rightarrow> db \<Rightarrow> db" where
  "boundary_update original i parent_key receipt now d =
     d\<lparr>effects := update_where (boundary_guard original i parent_key)
         (\<lambda>e. e\<lparr>ef_receipt := receipt, ef_updated := now\<rparr>) (effects d)\<rparr>"

definition new_child :: "clock \<Rightarrow> string \<Rightarrow> bool \<Rightarrow> json \<Rightarrow> work_error + effect_row" where
  "new_child now i side_effecting c =
     (case json_get ''operation_id'' c of
        Some (JStr k) \<Rightarrow> Inr \<lparr>ef_key = k, ef_work_id = i, ef_kind = ''tool'', ef_state = Prepared,
          ef_receipt = child_receipt side_effecting c, ef_created = now, ef_updated = now\<rparr>
      | _ \<Rightarrow> Inl (Key_error ''operation_id''))"

definition boundary_commit ::
  "(db \<Rightarrow> work_error + db) \<Rightarrow> db \<Rightarrow> clock \<Rightarrow> int \<Rightarrow> int \<Rightarrow> work_lease \<Rightarrow> string \<Rightarrow> string \<Rightarrow> code_binding \<Rightarrow>
   effect_row \<Rightarrow> json \<Rightarrow> json option \<Rightarrow> bool \<Rightarrow> work_error + db" where
  "boundary_commit publish d now source_revision privacy l i parent_key b original receipt child side_effecting =
     ebind (assert_lease d now l) (\<lambda>_.
       if map_option cv_generation (lookup_by cv_id (l_conversation l) (conversations d)) \<noteq> Some (cb_generation b) \<or>
          source_revision \<noteq> cb_source_revision b \<or> privacy \<noteq> cb_privacy b
       then Inl (Conflict ''code_boundary_authority_changed'')
       else if \<not> list_ex (open_work l i) (works d) then Inl (Conflict ''work_effect_obsolete'')
       else if \<not> list_ex (boundary_guard original i parent_key) (effects d)
       then Inl (Conflict ''code_checkpoint_conflict'')
       else
         (let d1 = boundary_update original i parent_key receipt now d
          in ebind (case child of None \<Rightarrow> Inr d1
                    | Some c \<Rightarrow> ebind (new_child now i side_effecting c) (\<lambda>row. insert_child row d1)) publish))"

definition publish_code_boundary ::
  "(json \<Rightarrow> bool) \<Rightarrow> (json \<Rightarrow> bool) \<Rightarrow> (db \<Rightarrow> work_error + db) \<Rightarrow> db \<Rightarrow> db \<Rightarrow> clock \<Rightarrow> int \<Rightarrow> int \<Rightarrow>
   work_lease \<Rightarrow> string \<Rightarrow> string \<Rightarrow> int \<Rightarrow> json \<Rightarrow> json option \<Rightarrow> code_binding \<Rightarrow> bool \<Rightarrow> work_error + db" where
  "publish_code_boundary refs loads publish seen d now source_revision privacy
      l i parent_key expected composition child b side_effecting =
     (if \<not> binding_matches l i parent_key b \<or>
         (case child of None \<Rightarrow> False | Some c \<Rightarrow> \<not> child_intent i parent_key c)
      then Inl (Conflict ''code_boundary_identity_conflict'')
      else case find_effect seen i parent_key of
        None \<Rightarrow> Inl (Conflict ''code_composition_closed'')
      | Some original \<Rightarrow>
          if ef_kind original \<noteq> ''code_composition'' \<or> ef_state original \<notin> {Prepared, Unknown}
          then Inl (Conflict ''code_composition_closed'')
          else
            (let previous = ef_receipt original;
                 saved = get_default ''composition'' (JObj []) previous;
                 following = next_composition saved composition expected;
                 snapshot = optional_json (json_get ''snapshot_ref'' following);
                 output = json_get ''output_ref'' following
             in if \<not> num_eq (json_get ''version'' saved) 1 \<or>
                   \<not> num_eq (json_get ''snapshot_revision'' saved) expected
                then Inl (Conflict ''code_checkpoint_conflict'')
                else if binding_conflict b saved composition
                then Inl (Conflict ''code_composition_binding_conflict'')
                else if \<not> refs snapshot then Inl (Conflict ''code_snapshot_not_prepared'')
                else if \<not> loads snapshot then Inl (Integrity ''snapshot'')
                else if (case output of None \<Rightarrow> False | Some JNull \<Rightarrow> False | Some r \<Rightarrow> \<not> refs r)
                then Inl (Conflict ''code_output_not_prepared'')
                else if (case output of None \<Rightarrow> False | Some JNull \<Rightarrow> False | Some r \<Rightarrow> \<not> loads r)
                then Inl (Integrity ''snapshot'')
                else if (case child of None \<Rightarrow> False | Some c \<Rightarrow> json_get ''tool_id'' c = None)
                then Inl (Key_error ''tool_id'')
                else boundary_commit publish d now source_revision privacy l i parent_key b original
                       (encode_json (json_set ''composition'' following previous)) child side_effecting))"

end
