(* ===== verification/Work_Receipt_Steps.thy ===== *)
theory Work_Receipt_Steps
  imports Work_Operations Work_Receipts
begin

text \<open>
  The writers of \<open>Work_Receipts\<close> keep the store well formed and move effects forward: the
  dispatch marker of an invocation survives every receipt, and an accepted or refused effect
  keeps its state.
\<close>

section \<open>What a recorded receipt keeps\<close>

definition carries :: "json \<Rightarrow> json \<Rightarrow> bool" where
  "carries previous c \<longleftrightarrow> is_object (Some c) \<and>
     (\<forall>m. json_get ''invocation'' previous = Some m \<longrightarrow> json_get ''invocation'' c = Some m)"

lemma keep_invocation: "keep_field p ''invocation'' (JObj r) = Inr c \<Longrightarrow> carries p c"
  unfolding keep_field_def carries_def
  by (auto split: option.splits if_splits simp: update_conv)

lemma keep_field_carries:
  assumes "keep_field p k c = Inr c'" "carries p c" "k \<noteq> ''invocation''"
  shows "carries p c'"
proof -
  have "c' = c \<or> (\<exists>v. c' = json_set k v c)"
    using assms(1) by (auto simp: keep_field_def split: option.splits if_splits)
  then show ?thesis using assms(2,3) by (auto simp: carries_def)
qed

lemma default_outcome_carries:
  assumes "default_outcome original st ex c = Inr c'" "carries p c"
  shows "carries p c'"
proof -
  have "carries p (json_set ''outcome'' v x)" if "carries p x" for v x
    using that by (simp add: carries_def)
  then show ?thesis using assms
    by (auto simp: default_outcome_def Let_def returns split: if_splits option.splits)
qed

lemma sort_key_empty [simp]: "sort_key f xs = [] \<longleftrightarrow> xs = []"
  using length_sort [of f xs] by (metis length_0_conv)

lemma truthy_encode: "truthy v \<Longrightarrow> truthy (encode_json v)"
  by (cases v) simp_all

lemma marker_encode:
  "k \<noteq> ''invocation'' \<Longrightarrow> truthy_opt (json_extract [''invocation'', ''dispatch_started''] r) \<Longrightarrow>
    truthy_opt (json_extract [''invocation'', ''dispatch_started''] (encode_json (json_set k v r)))"
  using truthy_encode
  by (auto simp: json_extract_def truthy_opt_def split: option.splits json.splits)

lemma next_revision_marker:
  assumes "next_revision c = Inr c'" "carries p c"
    and "truthy_opt (json_extract [''invocation'', ''dispatch_started''] p)"
  shows "truthy_opt (json_extract [''invocation'', ''dispatch_started''] (encode_json c'))"
proof -
  obtain m v where m: "json_get ''invocation'' p = Some m" "json_get ''dispatch_started'' m = Some v" "truthy v"
    using assms(3) by (auto simp: json_extract_def truthy_opt_def split: option.splits json.splits)
  then have c: "json_get ''invocation'' c = Some m" using assms(2) by (simp add: carries_def)
  have tv: "truthy (encode_json v)" using m(3) by (rule truthy_encode)
  have nv: "encode_json v \<noteq> JNull" using tv by auto
  have "\<exists>m'. json_get ''invocation'' c' = Some m' \<and> json_get ''dispatch_started'' m' = Some v"
  proof (cases "is_object (Some m) \<and> num_eq (json_get ''version'' m) 1")
    case True
    then obtain r where r: "json_get ''revision'' m = Some (JInt r)"
      and c': "c' = json_set ''invocation'' (json_set ''revision'' (JInt (r + 1)) m) c"
      using assms(1) c by (auto simp: next_revision_def split: option.splits json.splits)
    have "is_object (Some c)" using assms(2) by (simp add: carries_def)
    then show ?thesis using m(2) c' by simp
  next
    case False
    then have "c' = c" using assms(1) c by (auto simp: next_revision_def split: if_splits)
    then show ?thesis using c m(2) by simp
  qed
  then show ?thesis using tv nv
    by (auto simp: json_extract_def truthy_opt_def split: json.splits)
qed

lemma settle_verdict_state:
  "settle_verdict legacy st0 p st c = Write_receipt \<Longrightarrow> st0 \<in> {Accepted, Effect_failed} \<Longrightarrow> st = st0"
  by (auto simp: settle_verdict_def Let_def split: if_splits)

text \<open>Every change an attempt makes is one guarded update of the effect it read.\<close>

lemma record_attempt_cases:
  assumes "record_attempt legacy original publish key st receipt media seen d now privacy = Inr (b, d')"
  obtains (kept) "d' = d"
    | (written) existing c where "b" "lookup_by ef_key key (effects seen) = Some existing"
        "list_ex (record_guard existing) (effects d)"
        "invocation_started existing \<Longrightarrow>
           truthy_opt (json_extract [''invocation'', ''dispatch_started''] (encode_json c))"
        "ef_state existing \<in> {Accepted, Effect_failed} \<Longrightarrow> st = ef_state existing"
        "publish (d\<lparr>effects := update_where (record_guard existing)
           (\<lambda>e. e\<lparr>ef_state := st, ef_receipt := encode_json c, ef_updated := now\<rparr>) (effects d)\<rparr>)
           (ef_work_id existing) = Inr d'"
proof -
  obtain ex where ex: "lookup_by ef_key key (effects seen) = Some ex"
    using assms by (auto simp: record_attempt_def split: if_splits option.splits)
  let ?p = "ef_receipt ex"
  obtain c0 c1 c2 where c: "keep_field ?p ''invocation'' (JObj receipt) = Inr c0"
      "keep_field ?p ''composition'' c0 = Inr c1"
      "default_outcome original st (get_default ''outcome'' (JObj []) ?p) c1 = Inr c2"
    using assms ex by (auto simp: record_attempt_def Let_def returns split: if_splits)
  have car: "carries ?p c2"
    using default_outcome_carries [OF c(3) keep_field_carries [OF c(2) keep_invocation [OF c(1)]]] by simp
  show ?thesis
  proof (cases "settle_verdict legacy (ef_state ex) ?p st c2")
    case Keep_stored
    then show ?thesis using assms ex c by (intro kept) (auto simp: record_attempt_def Let_def split: if_splits)
  next
    case Refuse_receipt
    then show ?thesis using assms ex c by (auto simp: record_attempt_def Let_def split: if_splits)
  next
    case Write_receipt
    then obtain c3 where c3: "next_revision c2 = Inr c3"
      and w: "record_commit publish d now privacy st ex c3 media = Inr (b, d')"
      using assms ex c by (auto simp: record_attempt_def Let_def returns split: if_splits)
    show ?thesis
    proof (cases "list_ex (record_guard ex) (effects d)")
      case True
      then show ?thesis
        using w ex next_revision_marker [OF c3 car] settle_verdict_state [OF Write_receipt]
        by (intro written [of ex c3]) (auto simp: record_commit_def returns invocation_started_def)
    next
      case False
      then show ?thesis using w by (intro kept) (auto simp: record_commit_def returns)
    qed
  qed
qed


section \<open>The store evolves\<close>

lemma record_attempt_step:
  assumes "record_attempt legacy original publish key st receipt media seen d now privacy = Inr (b, d')"
    and hook: "\<And>x i y. publish x i = Inr y \<Longrightarrow> R x y"
    and refl: "R d d" and trans: "\<And>x y. R d x \<Longrightarrow> R x y \<Longrightarrow> R d y"
    and row: "\<And>existing c. (\<And>e. record_guard existing e \<Longrightarrow>
        effect_le e (e\<lparr>ef_state := st, ef_receipt := c, ef_updated := now\<rparr>)) \<Longrightarrow>
      R d (d\<lparr>effects := update_where (record_guard existing)
        (\<lambda>e. e\<lparr>ef_state := st, ef_receipt := c, ef_updated := now\<rparr>) (effects d)\<rparr>)"
  shows "R d d'"
  using assms(1)
proof (cases rule: record_attempt_cases)
  case kept
  then show ?thesis using refl by simp
next
  case (written existing c)
  have "effect_le e (e\<lparr>ef_state := st, ef_receipt := encode_json c, ef_updated := now\<rparr>)"
    if "record_guard existing e" for e
    using that written(4,5) by (auto simp: effect_le_def record_guard_def invocation_started_def)
  then show ?thesis using row hook [OF written(6)] trans by blast
qed

lemma record_attempt_evolves:
  assumes "record_attempt legacy original publish key st receipt media seen d now privacy = Inr (b, d')"
    and "\<And>x i y. publish x i = Inr y \<Longrightarrow> evolves x y"
  shows "evolves d d'"
proof (rule record_attempt_step [OF assms(1), of evolves])
  fix existing c
  assume "\<And>e. record_guard existing e \<Longrightarrow>
    effect_le e (e\<lparr>ef_state := st, ef_receipt := c, ef_updated := now\<rparr>)"
  then show "evolves d (d\<lparr>effects := update_where (record_guard existing)
      (\<lambda>e. e\<lparr>ef_state := st, ef_receipt := c, ef_updated := now\<rparr>) (effects d)\<rparr>)"
    by (auto simp: evolves_def intro!: table_updates)
qed (use assms(2) evolves_trans in auto)

text \<open>The run's outcome replaces the outcome only.\<close>

lemma resolved_receipt_marker:
  assumes "resolved_receipt run_id outcome key request_id e = Some r"
    and "truthy_opt (json_extract [''invocation'', ''dispatch_started''] (ef_receipt e))"
  shows "truthy_opt (json_extract [''invocation'', ''dispatch_started''] r)"
proof -
  obtain m where "r = encode_json (json_set ''outcome'' m (ef_receipt e))"
    using assms(1) by (auto simp: resolved_receipt_def Let_def split: if_splits)
  then show ?thesis using assms(2) marker_encode by simp
qed

definition prepared_page :: "string \<Rightarrow> json \<Rightarrow> string option \<Rightarrow> string option \<Rightarrow> (effect_row \<times> json) list \<Rightarrow> bool" where
  "prepared_page run_id outcome key request_id page \<longleftrightarrow>
     (\<forall>(e, r)\<in>set page. resolved_receipt run_id outcome key request_id e = Some r)"

lemma resolve_prepare_page:
  "resolve_prepare d now l i run_id outcome key request_id = Inr page \<Longrightarrow>
    prepared_page run_id outcome key request_id page"
  by (auto simp: resolve_prepare_def prepared_page_def returns map_filter_def split: if_splits)

lemma resolve_one_evolves:
  assumes "resolved_receipt run_id outcome key request_id (fst p) = Some (snd p)"
  shows "evolves d (resolve_one now l i p d)"
  using resolved_receipt_marker [OF assms]
  by (auto simp: resolve_one_def evolves_def effect_le_def invocation_started_def intro!: table_updates)

lemma resolve_fold_evolves:
  "prepared_page run_id outcome key request_id page \<Longrightarrow> evolves d (fold (resolve_one now l i) page d)"
proof (induction page arbitrary: d)
  case (Cons p page)
  then show ?case
    using resolve_one_evolves [of run_id outcome key request_id p d now l i] evolves_trans
    by (force simp: prepared_page_def)
qed simp

lemma resolve_page_evolves:
  "resolve_page d now l i page = Inr d' \<Longrightarrow> prepared_page run_id outcome key request_id page \<Longrightarrow> evolves d d'"
  using resolve_fold_evolves by (auto simp: resolve_page_def returns)

lemma insert_child_evolves:
  assumes "insert_child c d = Inr d'"
  shows "evolves d d'"
proof -
  have d': "d' = d\<lparr>effects := effects d @ [c]\<rparr>" and free: "\<not> list_ex (child_clash c) (effects d)"
    using assms by (auto simp: insert_child_def split: if_splits)
  have "ef_key c \<notin> ef_key ` set (effects d)"
    using free by (auto simp: list_ex_iff child_clash_def)
  then have "table_ok wf_effects effect_le (effects d) (effects d @ [c])"
    by (intro effects.ok_append) (simp add: wf_effects_def unique_key_append)
  then show ?thesis by (simp add: d' evolves_def)
qed

text \<open>Each publication is an update of the parent, at most one new row, and the hook.\<close>

lemma publish_boundary_cases:
  assumes "publish_code_boundary refs loads publish seen d now source_revision privacy
    l i parent_key expected composition child b side = Inr d'"
  obtains original c d2 where "find_effect seen i parent_key = Some original"
    "child = None \<and> d2 = boundary_update original i parent_key
        (encode_json (json_set ''composition'' c (ef_receipt original))) now d \<or>
     (\<exists>row. insert_child row (boundary_update original i parent_key
        (encode_json (json_set ''composition'' c (ef_receipt original))) now d) = Inr d2)"
    "publish d2 = Inr d'"
proof -
  obtain original where o: "find_effect seen i parent_key = Some original"
    using assms by (auto simp: publish_code_boundary_def split: if_splits option.splits)
  then obtain c where "boundary_commit publish d now source_revision privacy l i parent_key b original
      (encode_json (json_set ''composition'' c (ef_receipt original))) child side = Inr d'"
    using assms by (auto simp: publish_code_boundary_def Let_def split: if_splits)
  then obtain d2 where "(case child of
        None \<Rightarrow> Inr (boundary_update original i parent_key
          (encode_json (json_set ''composition'' c (ef_receipt original))) now d)
      | Some x \<Rightarrow> ebind (new_child now i side x) (\<lambda>row. insert_child row (boundary_update original i parent_key
          (encode_json (json_set ''composition'' c (ef_receipt original))) now d))) = Inr d2"
      and "publish d2 = Inr d'"
    by (auto simp: boundary_commit_def returns Let_def split: if_splits)
  then show ?thesis
    by (cases child) (auto simp: returns intro: that [OF o])
qed

lemma boundary_update_evolves:
  "evolves d (boundary_update original i parent_key
     (encode_json (json_set ''composition'' c (ef_receipt original))) now d)"
  using marker_encode [of "''composition''" "ef_receipt original"]
  by (auto simp: boundary_update_def boundary_guard_def evolves_def effect_le_def invocation_started_def
      intro!: table_updates)

lemma publish_code_boundary_evolves:
  assumes "publish_code_boundary refs loads publish seen d now source_revision privacy
    l i parent_key expected composition child b side = Inr d'"
    and "\<And>x y. publish x = Inr y \<Longrightarrow> evolves x y"
  shows "evolves d d'"
  using assms(1)
proof (cases rule: publish_boundary_cases)
  case (1 original c d2)
  let ?d1 = "boundary_update original i parent_key
      (encode_json (json_set ''composition'' c (ef_receipt original))) now d"
  have "evolves ?d1 d2" using 1(2) insert_child_evolves by auto
  then show ?thesis
    using boundary_update_evolves [of d original i parent_key c now] assms(2) [OF 1(3)]
    by (blast intro: evolves_trans)
qed


text \<open>A round that nobody interrupts returns, and it never moves an accepted or refused effect.\<close>

lemma record_attempt_alone:
  assumes "record_attempt legacy original publish key st receipt media d d now privacy = Inr (b, d')"
  shows b
proof -
  obtain ex where ex: "lookup_by ef_key key (effects d) = Some ex"
    using assms by (auto simp: record_attempt_def split: if_splits option.splits)
  then have "list_ex (record_guard ex) (effects d)"
    by (auto simp: list_ex_iff record_guard_def dest!: lookup_by_Some_set)
  then show ?thesis
    using assms ex
    by (auto simp: record_attempt_def record_commit_def Let_def returns split: if_splits verdict.splits)
      (metis verdict.exhaust)
qed

lemma record_attempt_settled:
  assumes "record_attempt legacy original publish key st receipt media d d now privacy = Inr (b, d')"
    and "lookup_by ef_key key (effects d) = Some e" "ef_state e \<in> {Accepted, Effect_failed}" "st \<noteq> ef_state e"
  shows "st = Unknown \<and> ef_state e = Accepted \<and> d' = d"
  using assms
  by (auto simp: record_attempt_def Let_def returns settle_verdict_def split: if_splits verdict.splits)

end
