(* ===== verification/Subagents.thy ===== *)
theory Subagents
  imports Work_Inputs Results
begin

text \<open>
  Child executions (\<open>runtime/subagent_repository.py\<close>) and the management of a Work tree
  (\<open>runtime/work_management.py\<close>): starting a child, mail between a child and its parent,
  resuming and cancelling, the publication of a child's result to its parent, the repair of
  results that a crash left unpublished, and the archive of old trees. Acquiring a child's lease
  is \<open>acquire_worker\<close> of \<open>Work_Lease\<close>.

  A read phase in a session of its own gives its own store (\<open>seen\<close>). Fresh identifiers are
  arguments. \<open>py_str\<close> is Python's \<open>str\<close> on a JSON value.
\<close>

section \<open>Starting a child\<close>

definition start_source :: "json \<Rightarrow> string \<Rightarrow> string \<Rightarrow> json" where
  "start_source source i parent =
     json_set ''worker'' (JBool True) (json_set ''parent_work_id'' (JStr parent)
       (json_set ''work_id'' (JStr i) source))"

definition new_child_row :: "string \<Rightarrow> string \<Rightarrow> json \<Rightarrow> child_row" where
  "new_child_row i key brief =
     \<lparr>ch_work_id = i, ch_source_key = key, ch_brief = brief, ch_result = JObj [], ch_owner = None,
      ch_fence = 0, ch_lease_until = 0, ch_cancel_epoch = 0, ch_notified_revision = 0,
      ch_archived_at = None\<rparr>"

definition insert_child_row :: "child_row \<Rightarrow> db \<Rightarrow> work_error + db" where
  "insert_child_row c d =
     (if ch_work_id c \<in> ch_work_id ` set (children d) \<or> ch_source_key c \<in> ch_source_key ` set (children d)
      then Inl (Integrity ''runtime_subagents'') else Inr (d\<lparr>children := children d @ [c]\<rparr>))"

definition parent_unavailable :: "work_lease \<Rightarrow> work_row \<Rightarrow> work_row \<Rightarrow> bool" where
  "parent_unavailable l snapshot rt \<longleftrightarrow> w_conversation rt \<noteq> l_conversation l \<or>
     w_generation rt \<noteq> l_generation l \<or> terminal (w_state rt) \<or> w_source rt \<noteq> w_source snapshot"

definition start_admission :: "work_row \<Rightarrow> string \<Rightarrow> string \<Rightarrow> string \<Rightarrow> admission" where
  "start_admission snapshot i parent goal =
     \<lparr>ad_source_key = ''worker:'' @ i, ad_source = start_source (w_source snapshot) i parent,
      ad_goal = goal, ad_parent = Some parent, ad_identity = i, ad_handoff = None,
      ad_initial = ''queued''\<rparr>"

definition start_commit ::
  "bool \<Rightarrow> db \<Rightarrow> clock \<Rightarrow> work_lease \<Rightarrow> string \<Rightarrow> string \<Rightarrow> json \<Rightarrow> string \<Rightarrow> string \<Rightarrow> work_row \<Rightarrow>
   work_error + (string \<times> db)" where
  "start_commit enabled d now l parent key brief goal i snapshot =
     ebind (assert_lease d now l) (\<lambda>_.
       case lookup_by w_id parent (works d) of
         None \<Rightarrow> Inl No_result
       | Some rt \<Rightarrow>
           if parent_unavailable l snapshot rt then Inl (Conflict ''subagent_parent_unavailable'')
           else case lookup_by ch_source_key key (children d) of
             Some previous \<Rightarrow>
               (if (case lookup_by w_id (ch_work_id previous) (works d) of
                      None \<Rightarrow> True | Some w \<Rightarrow> w_parent w \<noteq> Some parent) \<or>
                   ch_brief previous \<noteq> encode_json brief
                then Inl (Conflict ''subagent_start_conflict'') else Inr (ch_work_id previous, d))
           | None \<Rightarrow>
               if \<not> enabled then Inl (Value_error ''subagent_admission_disabled'')
               else ebind (accept_in_session d now l (start_admission snapshot i parent goal)) (\<lambda>(row, d1).
                 ebind (insert_child_row (new_child_row i key (encode_json brief)) d1) (\<lambda>d2. Inr (i, d2))))"

definition subagent_start ::
  "bool \<Rightarrow> db \<Rightarrow> db \<Rightarrow> clock \<Rightarrow> work_lease \<Rightarrow> string \<Rightarrow> string \<Rightarrow> json \<Rightarrow> string \<Rightarrow> work_error + (string \<times> db)" where
  "subagent_start enabled seen d now l parent key brief i =
     (if l_work_id l \<noteq> None \<and> l_work_id l \<noteq> Some parent then Inl (Value_error ''subagent_not_owned'')
      else case json_get ''goal'' brief of
        Some (JStr goal) \<Rightarrow>
          if blank goal then Inl (Value_error ''invalid_subagent_goal'')
          else (case lookup_by w_id parent (works seen) of
              None \<Rightarrow> Inl No_result
            | Some snapshot \<Rightarrow> start_commit enabled d now l parent key brief goal i snapshot)
      | _ \<Rightarrow> Inl (Value_error ''invalid_subagent_goal''))"

section \<open>Reading children\<close>

definition child_with_work :: "db \<Rightarrow> child_row \<Rightarrow> (child_row \<times> work_row) option" where
  "child_with_work d c = map_option (Pair c) (lookup_by w_id (ch_work_id c) (works d))"

definition related :: "db \<Rightarrow> string \<Rightarrow> string \<Rightarrow> work_error + (child_row \<times> work_row)" where
  "related d parent i =
     (case List.find (\<lambda>c. ch_work_id c = i \<and> i \<in> set (descendant_ids d False parent)) (children d) of
        None \<Rightarrow> Inl (Value_error ''subagent_not_owned'')
      | Some c \<Rightarrow> (case child_with_work d c of None \<Rightarrow> Inl (Value_error ''subagent_not_owned'') | Some p \<Rightarrow> Inr p))"

text \<open>
  The receipt of \<open>related\<close> with the checkpoint: only when the receipt was published for the
  Work's current revision does the current checkpoint describe it.
\<close>

definition related_result :: "child_row \<times> work_row \<Rightarrow> json" where
  "related_result p =
     (let (c, w) = p; receipt = ch_result c
      in if truthy receipt \<and> ch_archived_at c = None
         then (if ch_notified_revision c = w_revision w
               then json_set ''checkpoint_revision'' (JInt (w_revision w))
                      (json_set ''checkpoint'' (w_checkpoint w) receipt)
               else json_set ''checkpoint_status'' (JStr ''unavailable_for_result_revision'')
                      (json_remove ''checkpoint'' receipt))
         else receipt)"

text \<open>The directory of a Work's children, in the order of their ids; a page or all of it.\<close>

definition owned_children :: "db \<Rightarrow> string \<Rightarrow> (child_row \<times> work_row) list" where
  "owned_children d parent =
     List.map_filter (child_with_work d)
       (sort_key ch_work_id (filter (\<lambda>c. ch_work_id c \<in> set (descendant_ids d False parent)) (children d)))"

definition child_page :: "nat \<Rightarrow> string option \<Rightarrow> (child_row \<times> work_row) list \<Rightarrow> (child_row \<times> work_row) list" where
  "child_page n cursor rows =
     take n (filter (\<lambda>(c, w). case cursor of None \<Rightarrow> True | Some k \<Rightarrow> ch_work_id c > k) rows)"

fun child_pages :: "nat \<Rightarrow> nat \<Rightarrow> string option \<Rightarrow> (child_row \<times> work_row) list \<Rightarrow> (child_row \<times> work_row) list" where
  "child_pages 0 n cursor rows = []"
| "child_pages (Suc fuel) n cursor rows =
     (let page = child_page n cursor rows
      in if length page < n then page
         else page @ child_pages fuel n (Some (ch_work_id (fst (last page)))) rows)"

definition list_children ::
  "db \<Rightarrow> string \<Rightarrow> nat option \<Rightarrow> string option \<Rightarrow> (child_row \<times> work_row) list" where
  "list_children d parent limit cursor =
     (let rows = owned_children d parent
      in case limit of
           Some n \<Rightarrow> child_page n cursor rows
         | None \<Rightarrow> child_pages (Suc (length rows)) 50 cursor rows)"

definition unfinished :: "db \<Rightarrow> string \<Rightarrow> (child_row \<times> work_row) list" where
  "unfinished d parent =
     filter (\<lambda>(c, w). \<not> terminal (w_state w))
       (List.map_filter (child_with_work d)
         (filter (\<lambda>c. ch_work_id c \<in> set (descendant_ids d False parent)) (children d)))"

section \<open>Mail\<close>

definition mail_payload ::
  "bool \<Rightarrow> string \<Rightarrow> string \<Rightarrow> string \<Rightarrow> string \<Rightarrow> string option \<Rightarrow> string \<Rightarrow> json" where
  "mail_payload ask i key sender target reply_to body = encode_json (JObj
     [(''text'', JText (encode_json (JObj
        [(''kind'', JStr (if ask then ''subagent_question'' else ''subagent_message'')),
         (''child_id'', JStr i), (''message_id'', JStr key), (''sender_work_id'', JStr sender),
         (''target_work_id'', JStr target), (''reply_to'', opt_json reply_to), (''text'', JStr body)]))),
      (''child_id'', JStr i)])"

definition mail_input :: "db \<Rightarrow> clock \<Rightarrow> string \<Rightarrow> int \<Rightarrow> string \<Rightarrow> string option \<Rightarrow> json \<Rightarrow> input_row" where
  "mail_input d now conv gen key target payload =
     \<lparr>in_id = next_input_id d, in_conversation = conv, in_generation = gen, in_source_key = key,
      in_event_id = None, in_work_id = target, in_kind = ''subagent'', in_state = Pending,
      in_attempt = None, in_ready = True, in_prepare_owner = None, in_payload = payload, in_created = now\<rparr>"

definition mail_wakes :: "bool \<Rightarrow> bool \<Rightarrow> bool \<Rightarrow> work_state \<Rightarrow> bool" where
  "mail_wakes to_parent ask waiting st =
     (if to_parent \<and> ask then st \<in> {Waiting_external, Waiting_user}
      else if to_parent then st = Waiting_external \<and> \<not> waiting
      else st \<noteq> Running)"

text \<open>The Work that business mail queues loses its accepted lifecycle decision.\<close>

definition requeue :: "bool \<Rightarrow> clock \<Rightarrow> work_row \<Rightarrow> work_row" where
  "requeue business now w =
     w\<lparr>w_state := Queued, w_revision := w_revision w + 1,
       w_checkpoint := (if business then json_remove ''accepted_control'' (w_checkpoint w) else w_checkpoint w),
       w_updated := now\<rparr>"

definition deliver_mail ::
  "bool \<Rightarrow> bool \<Rightarrow> db \<Rightarrow> clock \<Rightarrow> work_lease \<Rightarrow> string \<Rightarrow> string \<Rightarrow> work_row \<Rightarrow> json \<Rightarrow> db" where
  "deliver_mail to_parent ask d now l key destination target payload =
     (let inserted = key \<notin> in_source_key ` set (inputs d);
          d1 = d\<lparr>inputs := insert_ignore in_source_key
                 (mail_input d now (l_conversation l) (l_generation l) key (Some destination) payload) (inputs d)\<rparr>;
          business = (ask \<or> \<not> to_parent)
      in if inserted \<and> mail_wakes to_parent ask (active_wait d destination) (w_state target)
         then (let d2 = (if business then close_waits d1 now destination else d1)
               in d2\<lparr>works := update_where (\<lambda>w. w_id w = destination) (requeue business now) (works d2)\<rparr>)
         else d1)"

definition mail_commit ::
  "bool \<Rightarrow> bool \<Rightarrow> db \<Rightarrow> clock \<Rightarrow> work_lease \<Rightarrow> string \<Rightarrow> string \<Rightarrow> string \<Rightarrow> json option \<Rightarrow>
   work_error + (bool \<times> db)" where
  "mail_commit to_parent ask d now l i key destination payload =
     ebind (assert_lease d now l) (\<lambda>_.
       case lookup_by ch_work_id i (children d) of
         None \<Rightarrow> Inl No_result
       | Some child \<Rightarrow>
           if ch_archived_at child \<noteq> None then Inl (Value_error ''subagent_archived'')
           else case lookup_by w_id destination (works d) of
             None \<Rightarrow> Inl No_result
           | Some target \<Rightarrow>
               if w_conversation target \<noteq> l_conversation l \<or> w_generation target \<noteq> l_generation l
               then Inl (Value_error ''subagent_not_owned'')
               else if \<not> to_parent \<and> w_state target = Cancelled
               then Inl (Value_error ''subagent_message_target_terminal'')
               else Inr (ask \<and> to_parent \<and> \<not> terminal (w_state target),
                 case payload of None \<Rightarrow> d
                 | Some p \<Rightarrow> deliver_mail to_parent ask d now l key destination target p))"

text \<open>The first component of the result is \<open>waiting_parent\<close>.\<close>

definition subagent_message ::
  "db \<Rightarrow> db \<Rightarrow> clock \<Rightarrow> work_lease \<Rightarrow> string \<Rightarrow> string \<Rightarrow> string \<Rightarrow> string option \<Rightarrow> bool \<Rightarrow> string option \<Rightarrow>
   bool \<Rightarrow> work_error + (bool \<times> db)" where
  "subagent_message seen d now l parent i key body ask reply_to to_parent =
     (if (case body of None \<Rightarrow> False | Some s \<Rightarrow> blank s) then Inl (Value_error ''invalid_subagent_message'')
      else
        (let sender = (if to_parent then i else parent);
             destination = (if to_parent then parent else i)
         in if truthy_str (l_work_id l) \<and> l_work_id l \<noteq> Some sender
            then Inl (Value_error ''subagent_not_owned'')
            else ebind (related seen parent i) (\<lambda>_.
              mail_commit to_parent ask d now l i key destination
                (map_option (mail_payload ask i key sender destination reply_to) body))))"

definition resume_child_row :: "clock \<Rightarrow> work_row \<Rightarrow> work_row" where
  "resume_child_row now w =
     w\<lparr>w_state := Queued, w_reason := Some ''explicit_resume'',
       w_checkpoint := json_remove ''accepted_control'' (w_checkpoint w),
       w_revision := w_revision w + 1, w_updated := now\<rparr>"

definition subagent_resume ::
  "db \<Rightarrow> db \<Rightarrow> clock \<Rightarrow> work_lease \<Rightarrow> string \<Rightarrow> string \<Rightarrow> string \<Rightarrow> string option \<Rightarrow> work_error + db" where
  "subagent_resume seen d now l parent i key instruction =
     (if truthy_str instruction
      then ebind (subagent_message seen d now l parent i key instruction False None False) (\<lambda>(_, d'). Inr d')
      else ebind (assert_lease d now l) (\<lambda>_.
        case List.find (\<lambda>c. ch_work_id c = i \<and> i \<in> set (descendant_ids d False parent)) (children d) of
          None \<Rightarrow> Inl No_result
        | Some c \<Rightarrow>
            (case lookup_by w_id i (works d) of
               None \<Rightarrow> Inl No_result
             | Some w \<Rightarrow>
                 if ch_archived_at c \<noteq> None then Inl (Value_error ''subagent_archived'')
                 else if w_state w = Cancelled then Inl (Value_error ''subagent_not_resumable'')
                 else if w_conversation w \<noteq> l_conversation l \<or> w_generation w \<noteq> l_generation l
                 then Inl (Value_error ''subagent_not_owned'')
                 else (let d1 = close_waits d now i
                       in Inr (if w_state w \<noteq> Running
                               then d1\<lparr>works := update_where (\<lambda>w. w_id w = i) (resume_child_row now) (works d1)\<rparr>
                               else d1)))))"

section \<open>Managing a Work tree\<close>

datatype management_code =
    Not_found | Version_conflict | Precondition_failed | Validation_error
  | Operation_unavailable | State_mismatch

definition supported_source :: "json \<Rightarrow> bool" where
  "supported_source source \<longleftrightarrow>
     (\<exists>s\<in>{''plugin_invocation'', ''plugin_background'', ''automation''}.
        json_extract [''owner''] source = Some (JStr s)) \<or>
     (\<exists>s\<in>{''user_message'', ''autonomous_group'', ''self_initiative''}.
        json_extract [''origin''] source = Some (JStr s))"

definition original_run_missing :: "db \<Rightarrow> json \<Rightarrow> bool" where
  "original_run_missing d source \<longleftrightarrow> json_extract [''origin''] source = Some (JStr ''self_initiative'') \<and>
     (case json_extract [''initiative_run_id''] source of
        Some (JStr r) \<Rightarrow> r \<notin> ir_id ` set (initiative_runs d) | _ \<Rightarrow> True)"

definition retained_journal :: "db \<Rightarrow> work_row \<Rightarrow> management_code option" where
  "retained_journal d w =
     (if w_models w \<noteq> 0 \<and> w_id w \<notin> jn_work_id ` set (journals d) then Some State_mismatch else None)"

definition resume_blocker :: "db \<Rightarrow> clock \<Rightarrow> work_row \<Rightarrow> management_code option" where
  "resume_blocker d now w =
     (if w_state w \<notin> {Suspended, Waiting_user, Waiting_external, Failed} then Some Precondition_failed
      else if map_option cv_generation (lookup_by cv_id (w_conversation w) (conversations d)) \<noteq>
              Some (w_generation w) then Some Precondition_failed
      else case lookup_by ch_work_id (w_id w) (children d) of
        Some c \<Rightarrow>
          if ch_archived_at c \<noteq> None \<or> (ch_owner c \<noteq> None \<and> ch_lease_until c > now)
          then Some Precondition_failed else retained_journal d w
      | None \<Rightarrow>
          if \<not> supported_source (w_source w) then Some Operation_unavailable
          else if original_run_missing d (w_source w) then Some Precondition_failed
          else retained_journal d w)"

definition management_input :: "db \<Rightarrow> clock \<Rightarrow> string \<Rightarrow> int \<Rightarrow> work_state \<Rightarrow> string \<Rightarrow> work_row \<Rightarrow> input_row" where
  "management_input d now i revision st reason pw =
     mail_input d now (w_conversation pw) (w_generation pw)
       (''worker-result:'' @ i @ '':'' @ show_int (revision + 1)) (Some (w_id pw))
       (encode_json (JObj [(''text'', JText (encode_json (JObj [(''child_id'', JStr i),
          (''state'', JStr (work_state_name st)), (''reason'', JStr reason)])))]))"

definition stopped_row :: "work_state \<Rightarrow> string \<Rightarrow> clock \<Rightarrow> work_row \<Rightarrow> work_row" where
  "stopped_row st reason now w =
     w\<lparr>w_state := st, w_reason := Some reason,
       w_checkpoint := json_remove ''accepted_control'' (w_checkpoint w),
       w_revision := w_revision w + 1, w_updated := now\<rparr>"

definition tell_parent :: "db \<Rightarrow> clock \<Rightarrow> string \<Rightarrow> int \<Rightarrow> work_state \<Rightarrow> string \<Rightarrow> string option \<Rightarrow> db" where
  "tell_parent d now i revision st reason parent =
     (case parent of
        None \<Rightarrow> d
      | Some pid \<Rightarrow>
          (case lookup_by w_id pid (works d) of
             None \<Rightarrow> d
           | Some pw \<Rightarrow>
               d\<lparr>inputs := insert_ignore in_source_key (management_input d now i revision st reason pw) (inputs d),
                 works := (if w_state pw = Waiting_external \<and> \<not> active_wait d pid
                           then update_where (\<lambda>w. w_id w = pid) (wake_parent now) (works d)
                           else works d)\<rparr>))"

definition stop_work ::
  "db \<Rightarrow> clock \<Rightarrow> work_row \<Rightarrow> int \<Rightarrow> work_state \<Rightarrow> string \<Rightarrow> db" where
  "stop_work d now w revision st reason =
     (let i = w_id w;
          d1 = stop_owned_execution d now i (Some reason);
          d2 = d1\<lparr>works := update_where (\<lambda>w. w_id w = i) (stopped_row st reason now) (works d1)\<rparr>
      in tell_parent d2 now i revision st reason (w_parent w))"

definition operator_resume_row :: "clock \<Rightarrow> work_row \<Rightarrow> work_row" where
  "operator_resume_row now w =
     w\<lparr>w_state := Queued, w_reason := Some ''operator_resume'',
       w_checkpoint := json_remove ''accepted_control'' (w_checkpoint w),
       w_revision := w_revision w + 1, w_updated := now\<rparr>"

text \<open>\<open>uuid\<close> says whether a text is the canonical form of a version 4 UUID.\<close>

definition manage_work ::
  "(string \<Rightarrow> bool) \<Rightarrow> db \<Rightarrow> clock \<Rightarrow> string \<Rightarrow> int \<Rightarrow> string \<Rightarrow> string option \<Rightarrow>
   management_code + (int \<times> work_state \<times> db)" where
  "manage_work uuid d now i revision action reason =
     (if \<not> uuid i \<or> action \<notin> {''cancel'', ''fail'', ''resume''} then Inl Validation_error
      else case lookup_by w_id i (works d) of
        None \<Rightarrow> Inl Not_found
      | Some w \<Rightarrow>
          if w_revision w \<noteq> revision then Inl Version_conflict
          else if terminal (w_state w) \<and> \<not> (action = ''resume'' \<and> w_state w = Failed)
          then Inl Precondition_failed
          else if action \<in> {''cancel'', ''fail''}
          then (let st = (if action = ''cancel'' then Cancelled else Failed);
                    stopped = (case reason of Some r \<Rightarrow> r
                      | None \<Rightarrow> if action = ''cancel'' then ''operator_cancelled'' else ''agent_failed'')
                in Inr (revision + 1, st, stop_work d now w revision st stopped))
          else case resume_blocker d now w of
            Some code \<Rightarrow> Inl code
          | None \<Rightarrow>
              (let d1 = close_waits d now i
               in Inr (revision + 1, Queued,
                    d1\<lparr>works := update_where (\<lambda>w. w_id w = i) (operator_resume_row now) (works d1)\<rparr>)))"

definition subagent_cancel ::
  "(string \<Rightarrow> bool) \<Rightarrow> db \<Rightarrow> db \<Rightarrow> clock \<Rightarrow> work_lease \<Rightarrow> string \<Rightarrow> string \<Rightarrow>
   (work_error + management_code) + db" where
  "subagent_cancel uuid seen d now l parent i =
     (case related seen parent i of
        Inl e \<Rightarrow> Inl (Inl e)
      | Inr _ \<Rightarrow>
          (case assert_lease d now l of
             Inl e \<Rightarrow> Inl (Inl e)
           | Inr _ \<Rightarrow>
               (case lookup_by w_id i (works d) of
                  None \<Rightarrow> Inl (Inl No_result)
                | Some w \<Rightarrow>
                    (case manage_work uuid d now i (w_revision w) ''cancel'' None of
                       Inl code \<Rightarrow> Inl (Inr code) | Inr (_, _, d') \<Rightarrow> Inr d'))))"


section \<open>Publishing the result of a child\<close>

definition result_states :: "work_state list" where
  "result_states = [Completed, Failed, Cancelled, Suspended, Waiting_user]"

definition result_leaf :: "work_row \<Rightarrow> json option" where
  "result_leaf w =
     (if w_state w = Completed then json_get ''sync_result'' (w_checkpoint w)
      else json_get ''reason'' (w_checkpoint w))"

definition result_text :: "(json \<Rightarrow> string) \<Rightarrow> work_row \<Rightarrow> string" where
  "result_text py_str w =
     (let leaf = (case result_leaf w of None \<Rightarrow> JNull | Some j \<Rightarrow> j);
          result = (if w_state w \<in> {Completed, Waiting_user} \<or> truthy leaf then leaf
                    else opt_json (w_reason w))
      in if truthy result then py_str result else [])"

definition result_receipt :: "(json \<Rightarrow> string) \<Rightarrow> work_row \<Rightarrow> (string \<times> json) list" where
  "result_receipt py_str w =
     [(''child_id'', JStr (w_id w)), (''state'', JStr (work_state_name (w_state w))),
      (''text'', JStr (result_text py_str w))]"

text \<open>\<open>detail\<close> is the fixed advice the parent gets with a result.\<close>

definition result_payload :: "(json \<Rightarrow> string) \<Rightarrow> string \<Rightarrow> work_row \<Rightarrow> json" where
  "result_payload py_str detail w = encode_json (JObj
     [(''text'', JText (encode_json (JObj (result_receipt py_str w @ [(''detail'', JStr detail)]))))])"

text \<open>
  What was read and prepared outside the writer: the Work row, and the lease of the child that
  finishes itself, or none for a repair.
\<close>

record prepared_result =
  pr_work :: work_row
  pr_lease :: "work_lease option"

definition pr_conversation :: "prepared_result \<Rightarrow> string" where
  "pr_conversation p = (case pr_lease p of None \<Rightarrow> w_conversation (pr_work p) | Some l \<Rightarrow> l_conversation l)"

definition pr_generation :: "prepared_result \<Rightarrow> int" where
  "pr_generation p = (case pr_lease p of None \<Rightarrow> w_generation (pr_work p) | Some l \<Rightarrow> l_generation l)"

definition same_result :: "prepared_result \<Rightarrow> work_row \<Rightarrow> bool" where
  "same_result p w \<longleftrightarrow> w_id w = w_id (pr_work p) \<and> w_conversation w = pr_conversation p \<and>
     w_generation w = pr_generation p \<and> w_revision w = w_revision (pr_work p) \<and>
     w_state w = w_state (pr_work p) \<and> w_parent w \<noteq> None \<and> w_parent w = w_parent (pr_work p) \<and>
     w_reason w = w_reason (pr_work p) \<and>
     (terminal (w_state w) \<or> json_get ''reason'' (w_checkpoint w) = result_leaf (pr_work p))"

definition publish_claim :: "prepared_result \<Rightarrow> clock \<Rightarrow> child_row \<Rightarrow> bool" where
  "publish_claim p now c \<longleftrightarrow>
     (case pr_lease p of
        None \<Rightarrow> ch_lease_until c \<le> now \<and> ch_notified_revision c < w_revision (pr_work p)
      | Some l \<Rightarrow> ch_cancel_epoch c = l_cancel_epoch l \<and> ch_fence c = l_fence l \<and>
          ch_owner c = Some (l_owner l) \<and> ch_lease_until c > now)"

definition publishable :: "db \<Rightarrow> clock \<Rightarrow> prepared_result \<Rightarrow> child_row \<Rightarrow> bool" where
  "publishable d now p c \<longleftrightarrow> ch_work_id c = w_id (pr_work p) \<and> ch_archived_at c = None \<and>
     list_ex (\<lambda>v. cv_id v = pr_conversation p \<and> cv_generation v = pr_generation p) (conversations d) \<and>
     publish_claim p now c \<and> list_ex (same_result p) (works d)"

definition publish_row :: "(json \<Rightarrow> string) \<Rightarrow> prepared_result \<Rightarrow> child_row \<Rightarrow> child_row" where
  "publish_row py_str p c =
     c\<lparr>ch_result := encode_json (JObj (result_receipt py_str (pr_work p))),
       ch_notified_revision := w_revision (pr_work p),
       ch_owner := (if pr_lease p = None then None else ch_owner c),
       ch_lease_until := (if pr_lease p = None then 0 else ch_lease_until c)\<rparr>"

text \<open>The page is one \<open>UPDATE\<close>; the prepared results of a page are of different children.\<close>

definition publish_rows :: "(json \<Rightarrow> string) \<Rightarrow> db \<Rightarrow> clock \<Rightarrow> prepared_result list \<Rightarrow> child_row list" where
  "publish_rows py_str d now ps =
     map (\<lambda>c. case List.find (\<lambda>p. publishable d now p c) ps of None \<Rightarrow> c | Some p \<Rightarrow> publish_row py_str p c)
       (children d)"

definition published :: "db \<Rightarrow> clock \<Rightarrow> prepared_result list \<Rightarrow> prepared_result list" where
  "published d now ps = filter (\<lambda>p. list_ex (publishable d now p) (children d)) ps"

definition result_notice ::
  "(json \<Rightarrow> string) \<Rightarrow> string \<Rightarrow> clock \<Rightarrow> prepared_result \<Rightarrow> db \<Rightarrow> db" where
  "result_notice py_str detail now p d =
     d\<lparr>inputs := insert_ignore in_source_key
         (mail_input d now (pr_conversation p) (pr_generation p)
           (''worker-result:'' @ w_id (pr_work p) @ '':'' @ show_int (w_revision (pr_work p)))
           (w_parent (pr_work p)) (result_payload py_str detail (pr_work p))) (inputs d)\<rparr>"

definition wake_parents :: "db \<Rightarrow> clock \<Rightarrow> prepared_result list \<Rightarrow> db" where
  "wake_parents d now ps =
     d\<lparr>works := update_where
         (\<lambda>w. list_ex (\<lambda>p. w_parent (pr_work p) = Some (w_id w)) ps \<and> w_state w = Waiting_external \<and>
           \<not> active_wait d (w_id w)) (wake_parent now) (works d)\<rparr>"

definition lost_lease :: "db \<Rightarrow> clock \<Rightarrow> prepared_result \<Rightarrow> bool" where
  "lost_lease d now p \<longleftrightarrow> (case pr_lease p of None \<Rightarrow> False | Some l \<Rightarrow> assert_lease d now l \<noteq> Inr ())"

definition finish_results ::
  "(json \<Rightarrow> string) \<Rightarrow> string \<Rightarrow> db \<Rightarrow> clock \<Rightarrow> prepared_result list \<Rightarrow> work_error + (string list \<times> db)" where
  "finish_results py_str detail d now ps =
     (let done_ps = published d now ps;
          d1 = d\<lparr>children := publish_rows py_str d now ps\<rparr>;
          notices = filter (\<lambda>p. w_state (pr_work p) \<in> set result_states) done_ps
      in if list_ex (\<lambda>p. p \<notin> set done_ps \<and> lost_lease d1 now p) ps
         then Inl (Conflict ''work_activation_obsolete'')
         else Inr (map (w_id \<circ> pr_work) done_ps,
                wake_parents (fold (result_notice py_str detail now) notices d1) now notices))"

text \<open>\<open>finish\<close> prepares again while the result it read has changed.\<close>

fun finish_child ::
  "(json \<Rightarrow> string) \<Rightarrow> string \<Rightarrow> work_lease \<Rightarrow> (db \<times> db \<times> clock) list \<Rightarrow> work_error + db option" where
  "finish_child py_str detail l [] = Inr None"
| "finish_child py_str detail l ((seen, d, now) # rounds) =
     (case (case l_work_id l of None \<Rightarrow> None | Some i \<Rightarrow> lookup_by w_id i (works seen)) of
        None \<Rightarrow> Inl No_result
      | Some w \<Rightarrow>
          ebind (finish_results py_str detail d now [\<lparr>pr_work = w, pr_lease = Some l\<rparr>]) (\<lambda>(ids, d').
            if w_id w \<in> set ids then Inr (Some d') else finish_child py_str detail l rounds))"

section \<open>Repair after a crash\<close>

definition missed_result :: "db \<Rightarrow> clock \<Rightarrow> work_row \<Rightarrow> bool" where
  "missed_result d now w \<longleftrightarrow> w_state w \<in> set result_states \<and>
     list_ex (\<lambda>c. ch_work_id c = w_id w \<and> ch_archived_at c = None \<and> ch_lease_until c \<le> now \<and>
       ch_notified_revision c < w_revision w) (children d) \<and>
     list_ex (\<lambda>v. cv_id v = w_conversation w \<and> cv_generation v = w_generation w) (conversations d)"

text \<open>A page of at most sixteen in the order of their ids, after the last one of the page before.\<close>

definition missed_page :: "db \<Rightarrow> clock \<Rightarrow> (string \<times> int) option \<Rightarrow> work_row list" where
  "missed_page d now after =
     take 16 (sort_key w_id (filter (\<lambda>w. missed_result d now w \<and>
       (case after of None \<Rightarrow> True | Some (k, r) \<Rightarrow> w_id w > k \<or> w_id w = k \<and> w_revision w > r)) (works d)))"

definition repair_page ::
  "(json \<Rightarrow> string) \<Rightarrow> string \<Rightarrow> db \<Rightarrow> clock \<Rightarrow> work_row list \<Rightarrow> work_error + (string list \<times> db)" where
  "repair_page py_str detail d now page =
     finish_results py_str detail d now (map (\<lambda>w. \<lparr>pr_work = w, pr_lease = None\<rparr>) page)"

text \<open>The rows of a page that changed before they were written, read again.\<close>

definition changed_page :: "db \<Rightarrow> clock \<Rightarrow> string list \<Rightarrow> work_row list \<Rightarrow> work_row list" where
  "changed_page d now ids page =
     sort_key w_id (filter (\<lambda>w. missed_result d now w \<and> w_id w \<in> w_id ` set page \<and> w_id w \<notin> set ids) (works d))"

end
