(* ===== verification/Subagent_Steps.thy ===== *)
theory Subagent_Steps
  imports Work_Operations Subagents
begin

text \<open>
  The operations on child executions keep the store well formed and move its rows forward: a
  cancelled Work is never revived, a completed one only as a child of another Work and under a
  new revision, and the claims of a child change only when its owner is cleared.
\<close>

section \<open>Descendants have a parent\<close>

lemma subtree_parent:
  "j \<in> set (subtree_fuel n rows ids) \<Longrightarrow> j \<in> set ids \<or> (\<exists>w\<in>set rows. w_id w = j \<and> w_parent w \<noteq> None)"
proof (induction n rows ids rule: subtree_fuel.induct)
  case (2 n rows ids)
  then show ?case by (auto split: if_splits)
qed simp

lemma descendant_parent:
  "i \<in> set (descendant_ids d False p) \<Longrightarrow> \<exists>w\<in>set (works d). w_id w = i \<and> w_parent w \<noteq> None"
  using subtree_parent [of i] by (fastforce simp: descendant_ids_def descendants_def)

section \<open>Starting\<close>

lemma insert_child_row_evolves: "insert_child_row c d = Inr d' \<Longrightarrow> evolves d d'"
  by (auto simp: insert_child_row_def evolves_def wf_children_def unique_key_append split: if_splits
      intro!: children.ok_append)

lemma start_commit_cases:
  assumes "start_commit enabled d now l parent key brief goal i snapshot = Inr (k, d')"
  obtains (known) c w where "lookup_by ch_source_key key (children d) = Some c"
      "lookup_by w_id (ch_work_id c) (works d) = Some w" "w_parent w = Some parent"
      "ch_brief c = encode_json brief" "k = ch_work_id c" "d' = d"
    | (fresh) row d1 where "lookup_by ch_source_key key (children d) = None"
      "accept_in_session d now l (start_admission snapshot i parent goal) = Inr (row, d1)"
      "insert_child_row (new_child_row i key (encode_json brief)) d1 = Inr d'" "k = i"
proof -
  obtain rt where rt: "assert_lease d now l = Inr ()" "lookup_by w_id parent (works d) = Some rt"
      "\<not> parent_unavailable l snapshot rt"
    using assms by (auto simp: start_commit_def returns split: option.splits if_splits)
  show ?thesis
  proof (cases "lookup_by ch_source_key key (children d)")
    case None
    have e: "enabled" using assms rt None by (simp add: start_commit_def split: if_splits)
    have "ebind (accept_in_session d now l (start_admission snapshot i parent goal)) (\<lambda>(row, d1).
        ebind (insert_child_row (new_child_row i key (encode_json brief)) d1) (\<lambda>d2. Inr (i, d2))) = Inr (k, d')"
      using assms rt None e by (simp add: start_commit_def)
    then obtain p where p: "accept_in_session d now l (start_admission snapshot i parent goal) = Inr p"
      and q: "(case p of (row, d1) \<Rightarrow> ebind (insert_child_row (new_child_row i key (encode_json brief)) d1)
        (\<lambda>d2. Inr (i, d2))) = Inr (k, d')"
      unfolding ebind_returns [of "accept_in_session d now l (start_admission snapshot i parent goal)"] by blast
    obtain row d1 where "p = (row, d1)" by (cases p)
    with p q have acc: "accept_in_session d now l (start_admission snapshot i parent goal) = Inr (row, d1)"
      and ins: "ebind (insert_child_row (new_child_row i key (encode_json brief)) d1) (\<lambda>d2. Inr (i, d2)) = Inr (k, d')"
      by simp_all
    from ins have "insert_child_row (new_child_row i key (encode_json brief)) d1 = Inr d'" "k = i"
      by (auto simp: returns)
    then show ?thesis using fresh [OF None acc] by simp
  next
    case (Some c)
    have "\<not> ((case lookup_by w_id (ch_work_id c) (works d) of None \<Rightarrow> True | Some w \<Rightarrow> w_parent w \<noteq> Some parent) \<or>
        ch_brief c \<noteq> encode_json brief)" and kd: "k = ch_work_id c" "d' = d"
      using assms rt Some by (simp_all add: start_commit_def split: if_splits)
    then obtain w where "lookup_by w_id (ch_work_id c) (works d) = Some w" "w_parent w = Some parent" "ch_brief c = encode_json brief"
      by (cases "lookup_by w_id (ch_work_id c) (works d)") auto
    then show ?thesis using known [OF Some] kd by simp
  qed
qed

lemma subagent_start_commit:
  assumes "subagent_start enabled seen d now l parent key brief i = Inr (k, d')"
  obtains goal snapshot where "start_commit enabled d now l parent key brief goal i snapshot = Inr (k, d')"
  using assms by (auto simp: subagent_start_def split: if_splits option.splits json.splits)

lemma subagent_start_evolves:
  assumes "subagent_start enabled seen d now l parent key brief i = Inr (k, d')" "wf_store d"
  shows "evolves d d'"
proof -
  obtain goal snapshot where "start_commit enabled d now l parent key brief goal i snapshot = Inr (k, d')"
    using subagent_start_commit [OF assms(1)] .
  then show ?thesis
  proof (cases rule: start_commit_cases)
    case (fresh row d1)
    show ?thesis by (rule evolves_trans [OF accept_evolves [OF fresh(2) assms(2)] insert_child_row_evolves [OF fresh(3)]])
  qed simp
qed

section \<open>Mail, resumption and management\<close>

lemma mail_input_simps [simp]:
  "in_source_key (mail_input d now conv gen key target payload) = key"
  "in_id (mail_input d now conv gen key target payload) = next_input_id d"
  by (simp_all add: mail_input_def)

lemma requeued_le:
  assumes "w_state w \<noteq> Cancelled" "w_parent w \<noteq> None \<or> w_state w \<noteq> Completed"
  shows "work_le w (requeue b now w)" "work_le w (resume_child_row now w)"
proof -
  have "\<not> final_row w" using assms by (auto simp: final_row_def)
  then show "work_le w (requeue b now w)" "work_le w (resume_child_row now w)"
    by (simp_all add: work_le_def requeue_def resume_child_row_def)
qed

lemma operator_le:
  "w_state w \<noteq> Cancelled \<Longrightarrow> w_state w \<noteq> Completed \<Longrightarrow> work_le w (operator_resume_row now w)"
  by (simp add: work_le_def final_row_def operator_resume_row_def)

lemma stopped_le: "\<not> terminal (w_state w) \<Longrightarrow> work_le w (stopped_row st reason now w)"
  by (cases "w_state w") (simp_all add: work_le_def final_row_def stopped_row_def terminal_def)

text \<open>Only one row has the id, so what is known of it holds of every row the update changes.\<close>

lemma update_work_evolves:
  assumes "lookup_by w_id i (works d) = Some w" "work_le w (f w)"
  shows "evolves d (d\<lparr>works := update_where (\<lambda>w. w_id w = i) f (works d)\<rparr>)"
proof -
  have "work_le r (f r)" if "wf_works (works d)" "r \<in> set (works d)" "w_id r = i" for r
    using that assms lookup_by_unique [of w_id "works d" r] by (auto simp: wf_works_def)
  then show ?thesis by (auto simp: evolves_def intro!: table_updates)
qed

lemma insert_mail_evolves:
  "evolves d (d\<lparr>inputs := insert_ignore in_source_key (mail_input d now conv gen key target payload) (inputs d)\<rparr>)"
  by (simp add: evolves_def insert_input_ok)

lemma deliver_mail_evolves:
  assumes target: "lookup_by w_id dest (works d) = Some w"
    and ok: "to_parent \<or> w_state w \<noteq> Cancelled \<and> (w_parent w \<noteq> None)"
  shows "evolves d (deliver_mail to_parent ask d now l key dest w p)"
proof -
  let ?d1 = "d\<lparr>inputs := insert_ignore in_source_key
      (mail_input d now (l_conversation l) (l_generation l) key (Some dest) p) (inputs d)\<rparr>"
  let ?b = "ask \<or> \<not> to_parent"
  let ?d2 = "if ?b then close_waits ?d1 now dest else ?d1"
  have 2: "evolves d ?d2"
    using evolves_trans [OF insert_mail_evolves close_waits_evolves] insert_mail_evolves by simp
  show ?thesis
  proof (cases "key \<notin> in_source_key ` set (inputs d) \<and>
      mail_wakes to_parent ask (active_wait d dest) (w_state w)")
    case True
    have look: "lookup_by w_id dest (works ?d2) = Some w" using target by (simp add: close_waits_def)
    have "work_le w (requeue ?b now w)"
      using True ok by (intro requeued_le) (auto simp: mail_wakes_def split: if_splits)
    from evolves_trans [OF 2 update_work_evolves [where f = "requeue ?b now", OF look this]] True
    show ?thesis by (simp add: deliver_mail_def Let_def)
  next
    case False
    then show ?thesis using insert_mail_evolves by (auto simp: deliver_mail_def Let_def)
  qed
qed

lemma related_child:
  assumes "related seen parent i = Inr p" "evolves seen d" "wf_store seen" "wf_store d"
    "lookup_by w_id i (works d) = Some w"
  shows "w_parent w \<noteq> None"
proof -
  have "i \<in> set (descendant_ids seen False parent)"
    using assms(1) by (auto simp: related_def find_Some_iff split: option.splits)
  then obtain w0 where w0: "w0 \<in> set (works seen)" "w_id w0 = i" "w_parent w0 \<noteq> None"
    using descendant_parent by blast
  then obtain w1 where "w1 \<in> set (works d)" "work_le w0 w1"
    using evolves_tables(1) [OF assms(2)] assms(3)
    by (auto simp: table_ok_def table_le_def wf_store_def)
  then have "lookup_by w_id i (works d) = Some w1" "w_parent w1 \<noteq> None"
    using w0 assms(4) lookup_by_unique [of w_id "works d" w1]
    by (auto simp: work_le_def wf_store_def wf_works_def)
  then show ?thesis using assms(5) by simp
qed

lemma subagent_message_evolves:
  assumes "subagent_message seen d now l parent i key body ask reply_to to_parent = Inr (b, d')"
    and "evolves seen d" "wf_store seen" "wf_store d"
  shows "evolves d d'"
proof -
  obtain p dest payload where rel: "related seen parent i = Inr p"
    and dest: "\<not> to_parent \<Longrightarrow> dest = i"
    and mc: "mail_commit to_parent ask d now l i key dest payload = Inr (b, d')"
    using assms(1) by (auto simp: subagent_message_def Let_def returns split: if_splits)
  obtain w where w: "lookup_by w_id dest (works d) = Some w" "to_parent \<or> w_state w \<noteq> Cancelled"
    and d': "d' = (case payload of None \<Rightarrow> d | Some p \<Rightarrow> deliver_mail to_parent ask d now l key dest w p)"
    using mc by (auto simp: mail_commit_def returns split: option.splits if_splits)
  have "to_parent \<or> w_parent w \<noteq> None"
    using related_child [OF rel assms(2-4)] dest w(1) by auto
  then show ?thesis using w d' deliver_mail_evolves by (auto split: option.split)
qed

lemma subagent_resume_evolves:
  assumes "subagent_resume seen d now l parent i key instruction = Inr d'"
    and "evolves seen d" "wf_store seen" "wf_store d"
  shows "evolves d d'"
proof (cases "truthy_str instruction")
  case True
  then show ?thesis
    using assms subagent_message_evolves by (auto simp: subagent_resume_def returns)
next
  case False
  obtain w where c: "i \<in> set (descendant_ids d False parent)"
    and w: "lookup_by w_id i (works d) = Some w" "w_state w \<noteq> Cancelled"
    and d': "d' = (let d1 = close_waits d now i in if w_state w \<noteq> Running
        then d1\<lparr>works := update_where (\<lambda>w. w_id w = i) (resume_child_row now) (works d1)\<rparr> else d1)"
  proof -
    obtain c where c: "List.find (\<lambda>c. ch_work_id c = i \<and> i \<in> set (descendant_ids d False parent)) (children d) = Some c"
      using assms(1) False by (auto simp: subagent_resume_def returns split: option.splits)
    then have "i \<in> set (descendant_ids d False parent)" by (auto simp: find_Some_iff)
    moreover obtain w where "lookup_by w_id i (works d) = Some w"
      using assms(1) False c by (auto simp: subagent_resume_def returns split: option.splits)
    ultimately show ?thesis
      using that assms(1) False c by (auto simp: subagent_resume_def returns Let_def split: if_splits)
  qed
  obtain w0 where "w0 \<in> set (works d)" "w_id w0 = i" "w_parent w0 \<noteq> None"
    using descendant_parent [OF c] by blast
  then have "w_parent w \<noteq> None"
    using w(1) assms(4) lookup_by_unique [of w_id "works d" w0] by (auto simp: wf_store_def wf_works_def)
  then have le: "work_le w (resume_child_row now w)" using w(2) by (intro requeued_le) auto
  have "lookup_by w_id i (works (close_waits d now i)) = Some w" using w(1) by (simp add: close_waits_def)
  from evolves_trans [OF close_waits_evolves update_work_evolves [where f = "resume_child_row now", OF this le]] d'
  show ?thesis using close_waits_evolves by (auto simp: Let_def)
qed

lemma stop_owned_keeps:
  assumes "wf_works (works d)" "lookup_by w_id i (works d) = Some w"
  shows "lookup_by w_id i (works (stop_owned_execution d now i reason)) = Some w"
proof -
  have "works (stop_owned_execution d now i reason) = update_where
      (\<lambda>w. w_id w \<in> set (descendant_ids d True i) \<and> w_id w \<noteq> i \<and> \<not> terminal (w_state w))
      (cancel_row reason now) (works d)"
    by (simp add: stop_owned_execution_def Let_def)
  then show ?thesis
    using assms(2) lookup_by_Some_set [OF assms(2)]
    by (simp add: lookup_by_update_where cancel_row_def)
qed

lemma tell_parent_evolves: "evolves d (tell_parent d now i revision st reason parent)"
proof -
  have wake: "evolves (d\<lparr>inputs := x\<rparr>) (d\<lparr>inputs := x, works := update_where (\<lambda>w. w_id w = pid) (wake_parent now) (works d)\<rparr>)"
    if "lookup_by w_id pid (works d) = Some pw" "w_state pw = Waiting_external" for x pid pw
    using update_work_evolves [of pid "d\<lparr>inputs := x\<rparr>" pw "wake_parent now"] that by simp
  have "evolves d (d\<lparr>inputs := insert_ignore in_source_key (management_input d now i revision st reason pw) (inputs d)\<rparr>)" for pw
    unfolding management_input_def by (rule insert_mail_evolves)
  note told = this evolves_trans [OF this]
  show ?thesis
  proof (cases parent)
    case (Some pid)
    show ?thesis
    proof (cases "lookup_by w_id pid (works d)")
      case (Some pw)
      then show ?thesis using \<open>parent = Some pid\<close> told(1) [of pw] told(2) [OF wake [OF Some]] by (simp add: tell_parent_def)
    qed (simp add: tell_parent_def Some)
  qed (simp add: tell_parent_def)
qed

lemma manage_work_evolves:
  assumes "manage_work uuid d now i revision action reason = Inr (r, st, d')" "wf_store d"
  shows "evolves d d'"
proof -
  obtain w where w: "lookup_by w_id i (works d) = Some w"
    using assms(1) by (auto simp: manage_work_def split: if_splits option.splits)
  have wf: "wf_works (works d)" using assms(2) by (simp add: wf_store_def)
  consider (stop) st' why where "\<not> terminal (w_state w)" "d' = stop_work d now w revision st' why"
    | (resume) "w_state w \<in> {Suspended, Waiting_user, Waiting_external, Failed}"
      "d' = (let d1 = close_waits d now i in
        d1\<lparr>works := update_where (\<lambda>w. w_id w = i) (operator_resume_row now) (works d1)\<rparr>)"
    using assms(1) w by (auto simp: manage_work_def Let_def resume_blocker_def split: if_splits option.splits)
  then show ?thesis
  proof cases
    case stop
    have i: "w_id w = i" using lookup_by_Some_set [OF w] by simp
    let ?d1 = "stop_owned_execution d now i (Some why)"
    from update_work_evolves [OF stop_owned_keeps [OF wf w]] stopped_le [OF stop(1)]
    have "evolves ?d1 (?d1\<lparr>works := update_where (\<lambda>w. w_id w = i) (stopped_row st' why now) (works ?d1)\<rparr>)"
      by blast
    then show ?thesis
      unfolding stop(2) stop_work_def Let_def i
      by (rule evolves_trans [OF evolves_trans [OF stop_owned_evolves] tell_parent_evolves])
  next
    case resume
    have "lookup_by w_id i (works (close_waits d now i)) = Some w" using w by (simp add: close_waits_def)
    moreover have "work_le w (operator_resume_row now w)" using resume(1) by (intro operator_le) auto
    ultimately show ?thesis
      unfolding resume(2) Let_def
      using evolves_trans [OF close_waits_evolves update_work_evolves] by blast
  qed
qed

lemma subagent_cancel_evolves:
  "subagent_cancel uuid seen d now l parent i = Inr d' \<Longrightarrow> wf_store d \<Longrightarrow> evolves d d'"
  by (auto simp: subagent_cancel_def split: sum.splits option.splits dest: manage_work_evolves)

section \<open>Results\<close>

lemma publish_row_le [simp]: "child_le c (publish_row py_str p c)"
  by (simp add: child_le_def publish_row_def)

lemma publish_rows_ok: "table_ok wf_children child_le (children d) (publish_rows py_str d now ps)"
proof -
  let ?f = "\<lambda>c. case List.find (\<lambda>p. publishable d now p c) ps of None \<Rightarrow> c | Some p \<Rightarrow> publish_row py_str p c"
  have "publish_rows py_str d now ps = update_where (\<lambda>c. True) ?f (children d)"
    by (simp add: publish_rows_def update_where_def)
  moreover have "child_le c (?f c)" for c
    by (auto split: option.split simp: children.le_refl)
  ultimately show ?thesis by (simp only:) (rule children.ok_update)
qed

lemma finish_results_evolves:
  assumes "finish_results py_str detail d now ps = Inr (ids, d')"
  shows "evolves d d'"
proof -
  let ?d1 = "d\<lparr>children := publish_rows py_str d now ps\<rparr>"
  have 1: "evolves d ?d1" by (simp add: evolves_def publish_rows_ok)
  have 2: "evolves x (fold (result_notice py_str detail now) ns x)" for ns x
  proof (induction ns arbitrary: x)
    case (Cons n ns)
    have "evolves x (result_notice py_str detail now n x)"
      unfolding result_notice_def by (rule insert_mail_evolves)
    then show ?case using Cons evolves_trans by (metis fold_simps(2))
  qed simp
  have 3: "evolves x (wake_parents x now ns)" for x ns
    by (auto simp: wake_parents_def evolves_def intro!: table_updates)
  show ?thesis
    using assms 1 2 3 evolves_trans by (auto simp: finish_results_def Let_def split: if_splits) blast
qed

end
