(* ===== verification/Work_Waits.thy ===== *)
theory Work_Waits
  imports Subagents "HOL-Library.Product_Lexorder"
begin

text \<open>
  The wait service (\<open>runtime/work_wait.py\<close>): a Work that waits registers conditions (a time, a
  message of the conversation, an event of a plugin, the end of a run it owns); when they are met,
  or at the deadline, one signal enters its inbox and the Work is queued.

  A condition is the JSON object the code stores, read with \<open>json_get\<close>. Tables of other components
  are arguments: \<open>events\<close> finds a chat event by its id, \<open>root_of\<close> the person a person was merged into,
  \<open>may_wake\<close> says which plugins may wake the conversation. \<open>parse\<close> is \<open>datetime.fromisoformat\<close>: nothing
  for a malformed text, a timestamp only with a time zone. A number of seconds is finite.
\<close>

section \<open>Conditions\<close>

definition replace_z :: "string \<Rightarrow> string" where
  "replace_z s = concat (map (\<lambda>c. if c = CHR ''Z'' then ''+00:00'' else [c]) s)"

definition timestamp :: "(string \<Rightarrow> clock option option) \<Rightarrow> string \<Rightarrow> work_error + clock" where
  "timestamp parse raw =
     (case parse (replace_z raw) of
        None \<Rightarrow> Inl (Value_error ''invalid_wait_time'')
      | Some None \<Rightarrow> Inl (Value_error ''wait_time_requires_timezone'')
      | Some (Some t) \<Rightarrow> Inr t)"

definition time_condition :: "clock \<Rightarrow> json" where
  "time_condition due = JObj [(''kind'', JStr ''time_due''), (''due'', JFloat due), (''matched'', JNull)]"

definition normalize_time :: "(string \<Rightarrow> clock option option) \<Rightarrow> clock \<Rightarrow> json \<Rightarrow> work_error + json" where
  "normalize_time parse now item =
     (case (json_get ''at'' item, json_get ''after_seconds'' item) of
        (Some at_time, None) \<Rightarrow>
          (case at_time of
             JStr s \<Rightarrow> ebind (timestamp parse s) (\<lambda>due. Inr (time_condition due))
           | _ \<Rightarrow> Inl (Value_error ''invalid_wait_time''))
      | (None, Some seconds) \<Rightarrow>
          (case seconds of
             JInt n \<Rightarrow> Inr (time_condition (now + of_int n))
           | JFloat x \<Rightarrow> Inr (time_condition (now + x))
           | _ \<Rightarrow> Inl (Value_error ''invalid_wait_delay''))
      | _ \<Rightarrow> Inl (Value_error ''wait_time_requires_at_or_after''))"

definition short_name :: "string \<Rightarrow> bool" where
  "short_name s \<longleftrightarrow> 1 \<le> length s \<and> length s \<le> 128"

definition normalize_plugin :: "(string \<times> json) list \<Rightarrow> work_error + json" where
  "normalize_plugin kvs =
     (case (map_of kvs ''plugin_id'', map_of kvs ''event_type'') of
        (Some (JStr plugin), Some (JStr event)) \<Rightarrow>
          (let source = (case map_of kvs ''external_source'' of None \<Rightarrow> JNull | Some s \<Rightarrow> s)
           in if short_name plugin \<and> short_name event \<and>
                 (case source of JNull \<Rightarrow> True | JStr s \<Rightarrow> length s \<le> 128 | _ \<Rightarrow> False) \<and>
                 fst ` set kvs \<subseteq> {''kind'', ''plugin_id'', ''event_type'', ''external_source''}
              then Inr (JObj [(''kind'', JStr ''plugin_event''), (''plugin_id'', JStr plugin),
                (''event_type'', JStr event), (''external_source'', source), (''matched'', JNull)])
              else Inl (Value_error ''invalid_wait_plugin_filter''))
      | _ \<Rightarrow> Inl (Value_error ''invalid_wait_plugin_filter''))"

definition normalize_run :: "(string \<times> json) list \<Rightarrow> work_error + json" where
  "normalize_run kvs =
     (case map_of kvs ''run_id'' of
        Some (JStr run) \<Rightarrow>
          if run \<noteq> [] \<and> fst ` set kvs = {''kind'', ''run_id''}
          then Inr (JObj [(''kind'', JStr ''owned_run''), (''run_id'', JStr run), (''matched'', JNull)])
          else Inl (Value_error ''invalid_wait_run'')
      | _ \<Rightarrow> Inl (Value_error ''invalid_wait_run''))"

fun normalize_condition :: "(string \<Rightarrow> clock option option) \<Rightarrow> clock \<Rightarrow> json \<Rightarrow> work_error + json" where
  "normalize_condition parse now (JObj kvs) =
     (case map_of kvs ''kind'' of
        Some (JStr kind) \<Rightarrow>
          if kind = ''time_due'' then normalize_time parse now (JObj kvs)
          else if kind = ''conversation'' then
            (if fst ` set kvs = {''kind''}
             then Inr (JObj [(''kind'', JStr ''conversation''), (''matched'', JNull)])
             else Inl (Value_error ''invalid_wait_condition''))
          else if kind = ''plugin_event'' then normalize_plugin kvs
          else if kind = ''owned_run'' then normalize_run kvs
          else Inl (Value_error ''unknown_wait_condition'')
      | _ \<Rightarrow> Inl (Value_error ''unknown_wait_condition''))"
| "normalize_condition parse now _ = Inl (Value_error ''invalid_wait_condition'')"

fun normalize_list :: "(string \<Rightarrow> clock option option) \<Rightarrow> clock \<Rightarrow> json list \<Rightarrow> work_error + json list" where
  "normalize_list parse now [] = Inr []"
| "normalize_list parse now (c # cs) =
     ebind (normalize_condition parse now c) (\<lambda>n. ebind (normalize_list parse now cs) (\<lambda>ns. Inr (n # ns)))"

definition normalize_conditions ::
  "(string \<Rightarrow> clock option option) \<Rightarrow> json \<Rightarrow> clock \<Rightarrow> work_error + json list" where
  "normalize_conditions parse raw now =
     (case raw of
        JArr (c # cs) \<Rightarrow> normalize_list parse now (c # cs)
      | _ \<Rightarrow> Inl (Value_error ''wait_conditions_required''))"

definition kind_is :: "string \<Rightarrow> json \<Rightarrow> bool" where
  "kind_is k c \<longleftrightarrow> json_get ''kind'' c = Some (JStr k)"

definition unmatched :: "json \<Rightarrow> bool" where
  "unmatched c \<longleftrightarrow> json_get ''matched'' c = Some JNull"

definition strip_text :: "json \<Rightarrow> json" where
  "strip_text c =
     (case json_get ''matched'' c of
        Some (JObj kvs) \<Rightarrow> json_set ''matched'' (json_remove ''text'' (JObj kvs)) c
      | _ \<Rightarrow> c)"

definition all_met :: "string \<Rightarrow> json list \<Rightarrow> bool" where
  "all_met mode cs = (if mode = ''any'' then list_ex (\<lambda>c. \<not> unmatched c) cs else list_all (\<lambda>c. \<not> unmatched c) cs)"

definition conditions_of :: "wait_row \<Rightarrow> json list" where
  "conditions_of y = (case wa_conditions y of JArr cs \<Rightarrow> cs | _ \<Rightarrow> [])"

section \<open>The active waits with their owners\<close>

text \<open>The joined columns of \<open>_due_query\<close>: the conversation and the Work of a wait as they are now.\<close>

record due_view =
  dv_current :: "int option"
  dv_generation :: "int option"
  dv_state :: "work_state option"
  dv_kind :: json
  dv_person :: "json option"

definition source_kind :: "json \<Rightarrow> json" where
  "source_kind source = (case json_extract [''principal_kind''] source of None \<Rightarrow> JStr ''person'' | Some k \<Rightarrow> k)"

definition view_of :: "db \<Rightarrow> string \<Rightarrow> string \<Rightarrow> due_view" where
  "view_of d i conv =
     (let w = lookup_by w_id i (works d)
      in \<lparr>dv_current = map_option cv_generation (lookup_by cv_id conv (conversations d)),
          dv_generation = map_option w_generation w, dv_state = map_option w_state w,
          dv_kind = (case w of None \<Rightarrow> JStr ''person'' | Some w \<Rightarrow> source_kind (w_source w)),
          dv_person = Option.bind w (\<lambda>w. json_extract [''actor_person_id''] (w_source w))\<rparr>)"

definition wait_order :: "wait_row \<Rightarrow> clock \<times> string" where
  "wait_order y = (wa_created y, wa_id y)"

definition due_rows :: "db \<Rightarrow> (wait_row \<Rightarrow> bool) \<Rightarrow> wait_row list" where
  "due_rows d p = sort_key wait_order (filter (\<lambda>y. wa_status y = Active \<and> p y) (waits d))"

definition due_row :: "db \<Rightarrow> wait_row \<Rightarrow> wait_row \<times> due_view" where
  "due_row d y = (y, view_of d (wa_work_id y) (wa_conversation y))"

text \<open>What identifies a wait and its principal, with the joined columns when they were read.\<close>

record wait_binding =
  wb_id :: string
  wb_work_id :: string
  wb_conversation :: string
  wb_generation :: int
  wb_kind :: string
  wb_principal :: string
  wb_view :: "due_view option"

definition binding_of :: "wait_row \<times> due_view \<Rightarrow> wait_binding" where
  "binding_of r = (let (y, v) = r in
     \<lparr>wb_id = wa_id y, wb_work_id = wa_work_id y, wb_conversation = wa_conversation y,
      wb_generation = wa_generation y, wb_kind = wa_principal_kind y, wb_principal = wa_principal_id y,
      wb_view = Some v\<rparr>)"

section \<open>Delivery\<close>

definition mark_wait :: "(wait_row \<Rightarrow> wait_row) \<Rightarrow> string \<Rightarrow> db \<Rightarrow> db" where
  "mark_wait f i d = d\<lparr>waits := update_where (\<lambda>y. wa_id y = i \<and> wa_status y = Active) f (waits d)\<rparr>"

definition delivered_wait :: "wait_status \<Rightarrow> json list \<Rightarrow> clock \<Rightarrow> wait_row \<Rightarrow> wait_row" where
  "delivered_wait st cs now y =
     y\<lparr>wa_status := st, wa_conditions := encode_json (JArr cs), wa_updated := now, wa_delivered := Some now\<rparr>"

definition matched_events :: "json list \<Rightarrow> int list" where
  "matched_events cs = List.map_filter (\<lambda>c. case json_get ''matched'' c of
     Some (JObj kvs) \<Rightarrow> (case map_of kvs ''event_id'' of Some (JInt n) \<Rightarrow> Some n | _ \<Rightarrow> None) | _ \<Rightarrow> None) cs"

definition signal_payload :: "string \<Rightarrow> string \<Rightarrow> json list \<Rightarrow> clock \<Rightarrow> json" where
  "signal_payload i reason cs now = encode_json (JObj
     [(''text'', JText (JObj [(''kind'', JStr ''work_signal''), (''wait_id'', JStr i), (''reason'', JStr reason),
        (''conditions'', JArr cs), (''at'', JFloat now)])), (''signal'', JBool True)])"

definition signal_input :: "db \<Rightarrow> clock \<Rightarrow> wait_binding \<Rightarrow> json list \<Rightarrow> string \<Rightarrow> int option \<Rightarrow> input_row" where
  "signal_input d now b cs reason source_event =
     \<lparr>in_id = next_input_id d, in_conversation = wb_conversation b, in_generation = wb_generation b,
      in_source_key = ''wait:'' @ wb_id b,
      in_event_id = (case source_event of Some e \<Rightarrow> Some e
        | None \<Rightarrow> (case matched_events cs of [] \<Rightarrow> None | e # es \<Rightarrow> Some (fold max es e))),
      in_work_id = Some (wb_work_id b), in_kind = ''control'', in_state = Pending, in_attempt = None,
      in_ready = True, in_prepare_owner = None, in_payload = signal_payload (wb_id b) reason cs now,
      in_created = now\<rparr>"

definition signalled_row :: "clock \<Rightarrow> work_row \<Rightarrow> work_row" where
  "signalled_row now w =
     w\<lparr>w_state := Queued, w_reason := Some ''wait_signal_arrived'', w_revision := w_revision w + 1, w_updated := now\<rparr>"

definition same_principal :: "wait_binding \<Rightarrow> due_view \<Rightarrow> bool" where
  "same_principal b v \<longleftrightarrow> dv_kind v = JStr (wb_kind b) \<and>
     (if dv_kind v = JStr ''self'' then wb_principal b = ''self'' else dv_person v = Some (JStr (wb_principal b)))"

definition live_view :: "int \<Rightarrow> due_view \<Rightarrow> bool" where
  "live_view g v \<longleftrightarrow> dv_current v = Some g \<and> dv_generation v = Some g \<and>
     (case dv_state v of None \<Rightarrow> False | Some st \<Rightarrow> \<not> terminal st)"

text \<open>The result is the id of the signal's input, if one was inserted.\<close>

definition deliver ::
  "db \<Rightarrow> clock \<Rightarrow> wait_binding \<Rightarrow> json list \<Rightarrow> string \<Rightarrow> int option \<Rightarrow> int option \<times> db" where
  "deliver d now b cs reason source_event =
     (let v = (case wb_view b of Some v \<Rightarrow> v | None \<Rightarrow> view_of d (wb_work_id b) (wb_conversation b));
          x = signal_input d now b cs reason source_event
      in if \<not> live_view (wb_generation b) v \<or> \<not> same_principal b v
         then (None, mark_wait (close_wait Invalidated now) (wb_id b) d)
         else if \<not> list_ex (\<lambda>y. wa_id y = wb_id b \<and> wa_status y = Active) (waits d) then (None, d)
         else (if in_source_key x \<in> in_source_key ` set (inputs d) then None else Some (in_id x),
           (mark_wait (delivered_wait (if reason = ''deadline'' then Expired else Delivered) cs now) (wb_id b) d)
             \<lparr>inputs := insert_ignore in_source_key x (inputs d),
              works := update_where (\<lambda>w. w_id w = wb_work_id b \<and> w_state w \<in> {Waiting_external, Waiting_user})
                (signalled_row now) (works d)\<rparr>))"

section \<open>External actions\<close>

definition action_row :: "clock \<Rightarrow> work_row \<Rightarrow> work_row" where
  "action_row now w =
     w\<lparr>w_state := Queued, w_reason := Some ''external_agent_requires_action'',
       w_revision := w_revision w + 1, w_updated := now\<rparr>"

definition signal_external_action ::
  "db \<Rightarrow> clock \<Rightarrow> string \<Rightarrow> json \<Rightarrow> wait_binding option \<Rightarrow> json list \<Rightarrow> db" where
  "signal_external_action d now i run binding cs =
     (case lookup_by w_id i (works d) of
        None \<Rightarrow> d
      | Some owner \<Rightarrow>
          if w_state owner \<in> {Completed, Failed, Cancelled, Suspended, Waiting_user} then d
          else case binding of
            Some b \<Rightarrow>
              if list_ex (\<lambda>c. kind_is ''owned_run'' c \<and> json_get ''run_id'' c = Some run) cs
              then snd (deliver d now b cs ''requires_action'' None) else d
          | None \<Rightarrow>
              if w_state owner = Waiting_external
              then d\<lparr>works := update_where (\<lambda>w. w_id w = i \<and> w_state w = Waiting_external) (action_row now) (works d)\<rparr>
              else d)"

definition prepare_external_action :: "db \<Rightarrow> string \<Rightarrow> (wait_row \<times> due_view) option" where
  "prepare_external_action d i =
     map_option (due_row d) (List.find (\<lambda>y. wa_status y = Active \<and> wa_work_id y = i) (waits d))"

text \<open>The columns of a wait that \<open>_due_query\<close> selects.\<close>

definition due_columns :: "wait_row \<times> due_view \<Rightarrow> wait_row \<times> due_view" where
  "due_columns r = ((fst r)\<lparr>wa_call_key := [], wa_request := JNull, wa_updated := 0, wa_delivered := None\<rparr>, snd r)"

definition external_action_current :: "db \<Rightarrow> string \<Rightarrow> (wait_row \<times> due_view) option \<Rightarrow> bool" where
  "external_action_current d i prepared \<longleftrightarrow>
     map_option due_columns (prepare_external_action d i) = map_option due_columns prepared"

section \<open>Registration\<close>

record wait_request =
  wq_work_id :: string
  wq_source :: json
  wq_call_key :: string
  wq_mode :: string
  wq_conditions :: json
  wq_deadline :: "string option"
  wq_accepted :: "json option"

definition wait_request_json :: "wait_request \<Rightarrow> json" where
  "wait_request_json q = encode_json (JObj
     [(''mode'', JStr (wq_mode q)), (''conditions'', wq_conditions q), (''deadline_at'', opt_json (wq_deadline q))])"

text \<open>The kind and the identity of the principal the caller acts for.\<close>

definition wait_principal :: "json \<Rightarrow> (string \<times> string) option" where
  "wait_principal source =
     (case (case json_get ''principal_kind'' source of None \<Rightarrow> JStr ''person'' | Some k \<Rightarrow> k) of
        JStr kind \<Rightarrow>
          if kind = ''self'' then Some (kind, ''self'')
          else if kind = ''person'' then
            (case json_get ''actor_person_id'' source of
               Some (JStr p) \<Rightarrow> if p \<noteq> [] then Some (kind, p) else None | _ \<Rightarrow> None)
          else None
      | _ \<Rightarrow> None)"

definition same_person :: "(string \<Rightarrow> string option) \<Rightarrow> string \<Rightarrow> json option \<Rightarrow> bool" where
  "same_person root_of p other =
     (case other of
        Some (JStr q) \<Rightarrow> (case (root_of p, root_of q) of (Some a, Some b) \<Rightarrow> a = b | _ \<Rightarrow> False)
      | _ \<Rightarrow> False)"

definition wait_source_ok :: "(string \<Rightarrow> string option) \<Rightarrow> string \<Rightarrow> string \<Rightarrow> json \<Rightarrow> bool" where
  "wait_source_ok root_of kind who source \<longleftrightarrow>
     (let original = (if source_kind source = JStr ''self'' then Some (JStr ''self'')
                      else json_extract [''actor_person_id''] source)
      in source_kind source = JStr kind \<and>
         (Some (JStr who) = original \<or> kind = ''person'' \<and> same_person root_of who original))"

definition waiting_work :: "work_lease \<Rightarrow> string \<Rightarrow> work_row \<Rightarrow> bool" where
  "waiting_work l i w \<longleftrightarrow> w_id w = i \<and> w_conversation w = l_conversation l \<and>
     w_generation w = l_generation l \<and> \<not> terminal (w_state w)"

definition ungranted :: "(string \<Rightarrow> bool) \<Rightarrow> json \<Rightarrow> bool" where
  "ungranted may_wake c \<longleftrightarrow> kind_is ''plugin_event'' c \<and>
     (case json_get ''plugin_id'' c of Some (JStr p) \<Rightarrow> \<not> may_wake p | _ \<Rightarrow> True)"

text \<open>Only events after the last one at the time of registration count.\<close>

definition set_watermark :: "int \<Rightarrow> json \<Rightarrow> json" where
  "set_watermark n c = (if kind_is ''conversation'' c \<or> kind_is ''plugin_event'' c
     then json_set ''after_event_id'' (JInt n) c else c)"

definition new_wait ::
  "clock \<Rightarrow> work_lease \<Rightarrow> wait_request \<Rightarrow> string \<Rightarrow> string \<Rightarrow> json list \<Rightarrow> clock option \<Rightarrow> string \<Rightarrow> wait_row" where
  "new_wait now l q kind who cs deadline i =
     \<lparr>wa_id = i, wa_work_id = wq_work_id q, wa_conversation = l_conversation l,
      wa_generation = l_generation l, wa_principal_kind = kind, wa_principal_id = who,
      wa_call_key = wq_call_key q, wa_request = wait_request_json q, wa_mode = wq_mode q,
      wa_conditions = encode_json (JArr cs), wa_status = Active, wa_deadline = deadline,
      wa_created = now, wa_updated = now, wa_delivered = None\<rparr>"

definition insert_wait :: "wait_row \<Rightarrow> db \<Rightarrow> work_error + db" where
  "insert_wait y d =
     (if wa_id y \<in> wa_id ` set (waits d) \<or> wa_call_key y \<in> wa_call_key ` set (waits d) \<or>
         list_ex (\<lambda>z. wa_work_id z = wa_work_id y \<and> wa_status z = Active) (waits d)
      then Inl (Integrity ''runtime_work_waits'') else Inr (d\<lparr>waits := waits d @ [y]\<rparr>))"

text \<open>The external runs that already asked for attention.\<close>

definition pending_runs :: "db \<Rightarrow> string \<Rightarrow> json list" where
  "pending_runs d i = List.map_filter (\<lambda>x. json_extract [''external_run_id''] (in_payload x))
     (filter (\<lambda>x. in_work_id x = Some i \<and> in_state x = Pending) (inputs d))"

definition bare_binding :: "wait_row \<Rightarrow> wait_binding" where
  "bare_binding y =
     \<lparr>wb_id = wa_id y, wb_work_id = wa_work_id y, wb_conversation = wa_conversation y,
      wb_generation = wa_generation y, wb_kind = wa_principal_kind y, wb_principal = wa_principal_id y,
      wb_view = None\<rparr>"

definition set_wait_control ::
  "db \<Rightarrow> clock \<Rightarrow> work_lease \<Rightarrow> string \<Rightarrow> string \<Rightarrow> json option \<Rightarrow> work_error + db" where
  "set_wait_control d now l i wid accepted =
     (case accepted of
        None \<Rightarrow> Inr d
      | Some a \<Rightarrow> ebind (set_accepted_control d now l i (Some (json_set ''wait_id'' (JStr wid) a))) (\<lambda>(w, d'). Inr d'))"

definition register_new ::
  "db \<Rightarrow> clock \<Rightarrow> clock \<Rightarrow> work_lease \<Rightarrow> wait_request \<Rightarrow> wait_row \<Rightarrow> json list \<Rightarrow> work_error + db" where
  "register_new d started now l q y cs =
     ebind (insert_wait y (close_waits d started (wq_work_id q))) (\<lambda>d1.
     ebind (set_wait_control d1 now l (wq_work_id q) (wa_id y) (wq_accepted q)) (\<lambda>d2.
       Inr (fold (\<lambda>run x. signal_external_action x now (wq_work_id q) run (Some (bare_binding y)) cs)
         (pending_runs d2 (wq_work_id q)) d2)))"

definition register_commit ::
  "(string \<Rightarrow> string option) \<Rightarrow> (string \<Rightarrow> bool) \<Rightarrow> int \<Rightarrow> db \<Rightarrow> clock \<Rightarrow> clock \<Rightarrow> work_lease \<Rightarrow>
   wait_request \<Rightarrow> string \<Rightarrow> string \<Rightarrow> json list \<Rightarrow> clock option \<Rightarrow> string \<Rightarrow> work_error + (wait_row \<times> db)" where
  "register_commit root_of may_wake newest d started now l q kind who cs deadline i =
     ebind (assert_lease d now l) (\<lambda>_.
       case List.find (waiting_work l (wq_work_id q)) (works d) of
         None \<Rightarrow> Inl (Conflict ''wait_work_source_changed'')
       | Some w \<Rightarrow>
           if \<not> wait_source_ok root_of kind who (w_source w)
           then Inl (Conflict ''wait_work_source_changed'')
           else if l_conversation l \<notin> cv_id ` set (conversations d)
           then Inl (Conflict ''wait_conversation_missing'')
           else if list_ex (ungranted may_wake) cs
           then Inl (Permission_error ''plugin_wait_target_not_granted'')
           else case lookup_by wa_call_key (wq_call_key q) (waits d) of
             Some y \<Rightarrow>
               if wa_work_id y \<noteq> wq_work_id q \<or> wa_request y \<noteq> wait_request_json q
               then Inl (Conflict ''wait_call_conflict'')
               else if wa_status y \<noteq> Active then Inl (Conflict ''wait_already_resolved'')
               else Inr (y, d)
           | None \<Rightarrow>
               (let marked = map (set_watermark newest) cs;
                    y = new_wait started l q kind who marked deadline i
                in ebind (register_new d started now l q y marked) (\<lambda>d'. Inr (y, d'))))"

text \<open>\<open>started\<close> is the time read at the call, \<open>now\<close> the one in the writer. \<open>newest\<close> is the largest event id of the conversation, or zero; \<open>i\<close> a fresh id.\<close>

definition register_wait ::
  "(string \<Rightarrow> clock option option) \<Rightarrow> (string \<Rightarrow> string option) \<Rightarrow> (string \<Rightarrow> bool) \<Rightarrow> int \<Rightarrow> db \<Rightarrow> clock \<Rightarrow>
   clock \<Rightarrow> work_lease \<Rightarrow> wait_request \<Rightarrow> string \<Rightarrow> work_error + (wait_row \<times> db)" where
  "register_wait parse root_of may_wake newest d started now l q i =
     (if wq_mode q \<notin> {''any'', ''all''} \<or> wq_call_key q = [] then Inl (Value_error ''invalid_wait_registration'')
      else ebind (normalize_conditions parse (wq_conditions q) started) (\<lambda>cs.
           ebind (case wq_deadline q of None \<Rightarrow> Inr None
               | Some s \<Rightarrow> ebind (timestamp parse s) (\<lambda>t. Inr (Some t))) (\<lambda>deadline.
             case wait_principal (wq_source q) of
               None \<Rightarrow> Inl (Value_error ''wait_principal_unavailable'')
             | Some (kind, who) \<Rightarrow>
                 register_commit root_of may_wake newest d started now l q kind who cs deadline i)))"

section \<open>Cancellation and description\<close>

definition cancellable_wait :: "work_lease \<Rightarrow> string \<Rightarrow> wait_row \<Rightarrow> bool" where
  "cancellable_wait l i y \<longleftrightarrow> wa_work_id y = i \<and> wa_conversation y = l_conversation l \<and>
     wa_generation y = l_generation l \<and> wa_status y = Active"

definition cancel_wait :: "db \<Rightarrow> clock \<Rightarrow> work_lease \<Rightarrow> string \<Rightarrow> work_error + (bool \<times> db)" where
  "cancel_wait d now l i =
     ebind (assert_lease d now l) (\<lambda>_.
       Inr (list_ex (cancellable_wait l i) (waits d),
         d\<lparr>waits := update_where (cancellable_wait l i) (close_wait Wait_cancelled now) (waits d)\<rparr>))"

end
