(* ===== verification/Work_Wait_Events.thy ===== *)
theory Work_Wait_Events
  imports Work_Waits
begin

text \<open>
  What wakes a waiting Work: a chat event (\<open>match_event\<close>, \<open>match_input\<close>, \<open>match_user_reply\<close>) and the
  periodic check of times, deadlines and owned runs (\<open>deliver_due\<close>). Both read and decode outside
  the writer and then prove in the writer that their sources are unchanged.
\<close>

section \<open>Chat events\<close>

record chat_event =
  ce_id :: int
  ce_conversation :: "string option"
  ce_suppression :: string
  ce_direction :: string
  ce_kind :: string
  ce_plugin :: "string option"
  ce_resume :: bool
  ce_type :: "string option"
  ce_source :: "string option"
  ce_author :: "string option"
  ce_reply_to :: "int option"
  ce_platform :: "string option"

text \<open>The waits of a conversation with their conditions, read and decoded outside the writer.\<close>

type_synonym event_wait = "(wait_row \<times> due_view) \<times> json list"

definition event_rows :: "db \<Rightarrow> string \<Rightarrow> (wait_row \<times> due_view) list" where
  "event_rows d conv = map (due_row d) (due_rows d (\<lambda>y. wa_conversation y = conv))"

definition prepare_event_waits :: "db \<Rightarrow> string \<Rightarrow> event_wait list" where
  "prepare_event_waits d conv = map (\<lambda>r. (r, map strip_text (conditions_of (fst r)))) (event_rows d conv)"

definition event_waits_current :: "db \<Rightarrow> string \<Rightarrow> event_wait list \<Rightarrow> bool" where
  "event_waits_current d conv prepared \<longleftrightarrow>
     map due_columns (event_rows d conv) = map (due_columns \<circ> fst) prepared"

definition later_event :: "int \<Rightarrow> json \<Rightarrow> bool" where
  "later_event e c \<longleftrightarrow> (case json_get ''after_event_id'' c of Some (JInt a) \<Rightarrow> e > a | _ \<Rightarrow> False)"

definition awaits_event :: "string \<Rightarrow> int \<Rightarrow> event_wait list \<Rightarrow> bool" where
  "awaits_event kind e prepared \<longleftrightarrow>
     list_ex (\<lambda>(r, cs). list_ex (\<lambda>c. kind_is kind c \<and> unmatched c \<and> later_event e c) cs) prepared"

definition plugin_event_fits :: "chat_event \<Rightarrow> json \<Rightarrow> bool" where
  "plugin_event_fits ev c \<longleftrightarrow>
     json_get ''plugin_id'' c = map_option JStr (ce_plugin ev) \<and>
     json_get ''event_type'' c = map_option JStr (ce_type ev) \<and>
     (json_get ''external_source'' c = Some JNull \<or>
      json_get ''external_source'' c = map_option JStr (ce_source ev))"

definition meets :: "string \<Rightarrow> chat_event \<Rightarrow> json \<Rightarrow> bool" where
  "meets kind ev c \<longleftrightarrow> kind_is kind c \<and> unmatched c \<and> later_event (ce_id ev) c \<and>
     (kind = ''plugin_event'' \<longrightarrow> plugin_event_fits ev c)"

definition match_one :: "string \<Rightarrow> chat_event \<Rightarrow> clock \<Rightarrow> json \<Rightarrow> json" where
  "match_one kind ev now c = (if meets kind ev c
     then json_set ''matched'' (JObj [(''event_id'', JInt (ce_id ev)), (''kind'', JStr kind), (''at'', JFloat now)]) c
     else c)"

definition usable_event :: "string \<Rightarrow> chat_event \<Rightarrow> bool" where
  "usable_event kind ev \<longleftrightarrow> ce_suppression ev = ''keeper'' \<and>
     (kind = ''conversation'' \<longrightarrow> ce_direction ev = ''inbound'' \<and> ce_kind ev = ''message'') \<and>
     (kind = ''plugin_event'' \<longrightarrow> ce_direction ev = ''external'' \<and> ce_kind ev = ''external_event'' \<and>
        truthy_str (ce_plugin ev) \<and> ce_resume ev)"

definition note_conditions :: "json list \<Rightarrow> clock \<Rightarrow> wait_row \<Rightarrow> wait_row" where
  "note_conditions cs now y = y\<lparr>wa_conditions := encode_json (JArr cs), wa_updated := now\<rparr>"

text \<open>One wait of \<open>apply_event\<close>: the state is the store, whether anything matched and the last input.\<close>

definition apply_wait ::
  "string \<Rightarrow> chat_event \<Rightarrow> clock \<Rightarrow> event_wait \<Rightarrow> db \<times> bool \<times> int option \<Rightarrow> db \<times> bool \<times> int option" where
  "apply_wait kind ev now r s =
     (let (d, matched, delivered) = s;
          cs = snd r; y = fst (fst r);
          cs' = map (match_one kind ev now) cs
      in if \<not> list_ex (meets kind ev) cs then s
         else if all_met (wa_mode y) cs' then
           (let (k, d') = deliver d now (binding_of (fst r)) cs' ''signal''
                  (if kind = ''conversation'' then Some (ce_id ev) else None)
            in (d', True, if truthy_opt (map_option JInt k) then k else delivered))
         else (mark_wait (note_conditions cs' now) (wa_id y) d, True, delivered))"

definition delivery_hook :: "(db \<Rightarrow> int \<Rightarrow> work_error + db) option \<Rightarrow> int option \<Rightarrow> db \<Rightarrow> work_error + db" where
  "delivery_hook hook delivered d =
     (case (hook, delivered) of (Some f, Some k) \<Rightarrow> f d k | _ \<Rightarrow> Inr d)"

definition apply_event ::
  "(int \<Rightarrow> chat_event option) \<Rightarrow> (db \<Rightarrow> int \<Rightarrow> work_error + db) option \<Rightarrow> string \<Rightarrow> int \<Rightarrow> event_wait list \<Rightarrow>
   db \<Rightarrow> clock \<Rightarrow> work_error + (int option \<times> db)" where
  "apply_event events hook kind e prepared d now =
     (case events e of
        None \<Rightarrow> Inr (None, d)
      | Some ev \<Rightarrow>
          (case Option.bind (ce_conversation ev) (\<lambda>c. lookup_by cv_id c (conversations d)) of
             None \<Rightarrow> Inr (None, d)
           | Some v \<Rightarrow>
               if \<not> usable_event kind ev then Inr (None, d)
               else
                 (let rows = filter (\<lambda>(r, cs). wa_conversation (fst r) = cv_id v \<and>
                        wa_generation (fst r) = cv_generation v) prepared;
                      (d1, matched, delivered) = fold (apply_wait kind ev now) rows (d, False, None)
                  in ebind (delivery_hook hook delivered d1) (\<lambda>d2.
                       Inr (case delivered of Some k \<Rightarrow> Some k | None \<Rightarrow> if matched then Some 0 else None, d2)))))"

text \<open>
  \<open>_match_prepared_event\<close>: one round per writer transaction, with the events and the store of the
  writer, its time, and what the next reader sees. \<open>prepare_source\<close> is the answer of the callback.
  The list of rounds may end while the loop still waits for a writer that finds its waits unchanged.
\<close>

fun match_prepared ::
  "(db \<Rightarrow> int \<Rightarrow> work_error + db) option \<Rightarrow> bool option \<Rightarrow> string \<Rightarrow> int \<Rightarrow> string \<Rightarrow> event_wait list \<Rightarrow>
   ((int \<Rightarrow> chat_event option) \<times> db \<times> clock \<times> (int \<Rightarrow> chat_event option) \<times> db) list \<Rightarrow>
   (work_error + (int option \<times> db option)) option" where
  "match_prepared hook prepare_source kind e conv prepared rounds =
     (if \<not> awaits_event kind e prepared then Some (Inr (None, None))
      else if prepare_source = Some False then Some (Inr (None, None))
      else case rounds of
        [] \<Rightarrow> None
      | (events, d, now, events', seen) # rest \<Rightarrow>
          if event_waits_current d conv prepared
          then Some (ebind (apply_event events hook kind e prepared d now) (\<lambda>(k, d'). Inr (k, Some d')))
          else case Option.bind (events' e) ce_conversation of
            None \<Rightarrow> Some (Inr (None, None))
          | Some conv' \<Rightarrow>
              match_prepared hook prepare_source kind e conv' (prepare_event_waits seen conv') rest)"

declare match_prepared.simps [simp del]

definition match_event ::
  "(db \<Rightarrow> int \<Rightarrow> work_error + db) option \<Rightarrow> bool option \<Rightarrow> (int \<Rightarrow> chat_event option) \<Rightarrow> db \<Rightarrow> string \<Rightarrow> int \<Rightarrow>
   ((int \<Rightarrow> chat_event option) \<times> db \<times> clock \<times> (int \<Rightarrow> chat_event option) \<times> db) list \<Rightarrow>
   (work_error + (int option \<times> db option)) option" where
  "match_event hook prepare_source events seen kind e rounds =
     (if kind \<notin> {''conversation'', ''plugin_event''} then Some (Inl (Value_error ''invalid_wait_event_kind''))
      else case Option.bind (events e) ce_conversation of
        None \<Rightarrow> Some (Inr (None, None))
      | Some conv \<Rightarrow> match_prepared hook prepare_source kind e conv (prepare_event_waits seen conv) rounds)"

section \<open>Replies to a waiting Work\<close>

definition local_platform :: "string option \<Rightarrow> bool" where
  "local_platform p \<longleftrightarrow> p = Some ''app'' \<or> p = Some ''acp''"

text \<open>\<open>answered conv turn e\<close>: the social operation of that turn that sent event \<open>e\<close> succeeded.\<close>

definition reply_candidate ::
  "(string \<Rightarrow> string option) \<Rightarrow> (string \<Rightarrow> string \<Rightarrow> int \<Rightarrow> bool) \<Rightarrow> chat_event \<Rightarrow> string \<Rightarrow> conversation_row \<Rightarrow>
   work_row \<Rightarrow> bool" where
  "reply_candidate root_of answered ev author v w \<longleftrightarrow>
     w_conversation w = cv_id v \<and> w_generation w = cv_generation v \<and> w_state w = Waiting_user \<and>
     json_extract [''origin''] (w_source w) = Some (JStr ''user_message'') \<and>
     same_person root_of author (json_extract [''actor_person_id''] (w_source w)) \<and>
     (case json_path [''trigger_event_id''] (w_source w) of
        Some (JInt n) \<Rightarrow>
          (case ce_reply_to ev of
             None \<Rightarrow> True
           | Some r \<Rightarrow> answered (cv_id v) (cv_id v @ '':event:'' @ show_int n) r)
      | _ \<Rightarrow> False)"

definition reply_input :: "string \<Rightarrow> db \<Rightarrow> clock \<Rightarrow> conversation_row \<Rightarrow> int \<Rightarrow> string \<Rightarrow> input_row" where
  "reply_input process d now v e i =
     \<lparr>in_id = next_input_id d, in_conversation = cv_id v, in_generation = cv_generation v,
      in_source_key = ''user-reply:'' @ show_int e @ '':'' @ i, in_event_id = Some e, in_work_id = Some i,
      in_kind = ''message'', in_state = Pending, in_attempt = None, in_ready = False,
      in_prepare_owner = Some process, in_payload = JObj [], in_created = now\<rparr>"

text \<open>The first of the rows that were updated last.\<close>

fun latest :: "work_row list \<Rightarrow> work_row option" where
  "latest [] = None"
| "latest (w # ws) = (case latest ws of None \<Rightarrow> Some w | Some v \<Rightarrow> if w_updated v > w_updated w then Some v else Some w)"

definition match_user_reply ::
  "string \<Rightarrow> (string \<Rightarrow> string option) \<Rightarrow> (string \<Rightarrow> string \<Rightarrow> int \<Rightarrow> bool) \<Rightarrow> (int \<Rightarrow> chat_event option) \<Rightarrow> db \<Rightarrow>
   clock \<Rightarrow> int \<Rightarrow> int option \<times> db" where
  "match_user_reply process root_of answered events d now e =
     (case events e of
        None \<Rightarrow> (None, d)
      | Some ev \<Rightarrow>
          (case (ce_author ev, Option.bind (ce_conversation ev) (\<lambda>c. lookup_by cv_id c (conversations d))) of
             (Some author, Some v) \<Rightarrow>
               if ce_direction ev \<noteq> ''inbound'' \<or> ce_kind ev \<noteq> ''message'' \<or>
                  ce_reply_to ev = None \<and> \<not> local_platform (ce_platform ev) then (None, d)
               else (case latest (filter (reply_candidate root_of answered ev author v) (works d)) of
                 None \<Rightarrow> (None, d)
               | Some w \<Rightarrow>
                   (let x = reply_input process d now v e (w_id w);
                        d' = d\<lparr>inputs := insert_ignore in_source_key x (inputs d)\<rparr>
                    in (map_option in_id (lookup_by in_source_key (in_source_key x) (inputs d')), d')))
           | _ \<Rightarrow> (None, d)))"

datatype input_match = Reply int | Wait int

text \<open>
  \<open>match_input\<close>: the reader of the first session (\<open>events\<close>, \<open>seen\<close>), the writer of the reply
  (\<open>events'\<close>, \<open>d\<close>) and the rounds of the wait. Its result is the match and, if a writer committed
  last, its store.
\<close>

definition match_input ::
  "string \<Rightarrow> (string \<Rightarrow> string option) \<Rightarrow> (string \<Rightarrow> string \<Rightarrow> int \<Rightarrow> bool) \<Rightarrow>
   (db \<Rightarrow> int \<Rightarrow> work_error + db) option \<Rightarrow> bool option \<Rightarrow> (int \<Rightarrow> chat_event option) \<Rightarrow> db \<Rightarrow>
   (int \<Rightarrow> chat_event option) \<Rightarrow> db \<Rightarrow> clock \<Rightarrow> int \<Rightarrow>
   ((int \<Rightarrow> chat_event option) \<times> db \<times> clock \<times> (int \<Rightarrow> chat_event option) \<times> db) list \<Rightarrow>
   (work_error + (input_match option \<times> db option)) option" where
  "match_input process root_of answered hook prepare_source events seen events' d now e rounds =
     (case events e of
        None \<Rightarrow> Some (Inr (None, None))
      | Some ev \<Rightarrow>
          (case ce_conversation ev of
             None \<Rightarrow> Some (Inr (None, None))
           | Some conv \<Rightarrow>
               (let candidate = (ce_reply_to ev \<noteq> None \<or> local_platform (ce_platform ev)) \<and>
                      list_ex (\<lambda>w. w_conversation w = conv \<and> w_state w = Waiting_user) (works seen);
                    (reply, d') = (if candidate then match_user_reply process root_of answered events' d now e
                                   else (None, d))
                in case reply of
                     Some k \<Rightarrow> Some (Inr (Some (Reply k), Some d'))
                   | None \<Rightarrow>
                       map_option (\<lambda>r. ebind r (\<lambda>(k, d''). Inr (map_option Wait k, d'')))
                         (match_prepared hook prepare_source ''conversation'' e conv
                           (prepare_event_waits seen conv) rounds))))"

section \<open>Times, deadlines and owned runs\<close>

text \<open>A row of \<open>_owned_runs_query\<close>: the state of a run for the Work that asks for it.\<close>

record owned_run =
  or_owner :: string
  or_run :: string
  or_state :: string
  or_completion :: "json option"
  or_sandbox :: bool

definition run_of :: "json \<Rightarrow> string option" where
  "run_of c = (case json_get ''run_id'' c of Some (JStr r) \<Rightarrow> Some r | _ \<Rightarrow> None)"

definition requested_runs :: "(string \<times> json list) list \<Rightarrow> (string \<times> string) list" where
  "requested_runs bindings = sort (remdups (concat (map (\<lambda>(i, cs).
     List.map_filter (\<lambda>c. if kind_is ''owned_run'' c \<and> unmatched c then map_option (Pair i) (run_of c) else None) cs)
     bindings)))"

definition owned_work_runs :: "db \<Rightarrow> string \<times> string \<Rightarrow> owned_run list" where
  "owned_work_runs d p = (let (owner, run) = p in
     map (\<lambda>w. \<lparr>or_owner = owner, or_run = run, or_state = work_state_name (w_state w), or_completion = None,
             or_sandbox = False\<rparr>)
       (filter (\<lambda>w. w_id w = run \<and> owner \<in> set (ancestor_ids d False run)) (works d)))"

definition owned_sandbox_runs :: "db \<Rightarrow> string \<times> string \<Rightarrow> owned_run list" where
  "owned_sandbox_runs d p = (let (owner, run) = p in
     map (\<lambda>t. \<lparr>or_owner = owner, or_run = run, or_state = sr_status t, or_completion = sr_completion t,
             or_sandbox = True\<rparr>)
       (filter (\<lambda>t. sr_run_id t = Some run \<and>
         (case json_extract [''work_id''] (sr_source t) of
            Some (JStr i) \<Rightarrow> owner \<in> set (ancestor_ids d True i) | _ \<Rightarrow> False)) (sandbox_runs d)))"

definition owned_runs :: "db \<Rightarrow> (string \<times> string) list \<Rightarrow> owned_run list" where
  "owned_runs d pairs = concat (map (owned_work_runs d) pairs) @ concat (map (owned_sandbox_runs d) pairs)"

definition receipt_names :: "string list" where
  "receipt_names = [''operation_status'', ''native_status'', ''native_pending'']"

definition sandbox_state :: "owned_run \<Rightarrow> (string \<times> json) list" where
  "sandbox_state r =
     (case or_completion r of
        Some receipt \<Rightarrow>
          if or_state r = ''completed'' then
            (''status'', (case json_get ''operation_status'' receipt of Some s \<Rightarrow> s
               | None \<Rightarrow> (case json_get ''status'' receipt of Some s \<Rightarrow> s | None \<Rightarrow> JStr (or_state r)))) #
            List.map_filter (\<lambda>n. map_option (Pair n) (json_get n receipt)) receipt_names
          else [(''status'', JStr (or_state r))]
      | None \<Rightarrow> [(''status'', JStr (or_state r))])"

definition run_state :: "owned_run list \<Rightarrow> string \<Rightarrow> string \<Rightarrow> (string \<times> json) list option" where
  "run_state rows owner run =
     (let mine = filter (\<lambda>r. or_owner r = owner \<and> or_run r = run) rows
      in case List.find (\<lambda>r. \<not> or_sandbox r) (rev mine) of
           Some r \<Rightarrow> Some [(''status'', JStr (or_state r))]
         | None \<Rightarrow> map_option sandbox_state (List.find or_sandbox mine))"

definition ended_states :: "string list" where
  "ended_states = [''completed'', ''succeeded'', ''failed'', ''cancelled'', ''detached'', ''uncertain'', ''unknown'']"

definition due_match :: "(string \<Rightarrow> string \<Rightarrow> (string \<times> json) list option) \<Rightarrow> string \<Rightarrow> clock \<Rightarrow> json \<Rightarrow> json option" where
  "due_match states i now c =
     (if \<not> unmatched c then None
      else if kind_is ''time_due'' c then
        (case json_get ''due'' c of
           Some (JFloat due) \<Rightarrow>
             if due \<le> now then Some (JObj [(''kind'', JStr ''time_due''), (''due'', JFloat due), (''observed_at'', JFloat now)])
             else None
         | _ \<Rightarrow> None)
      else if kind_is ''owned_run'' c then
        (case run_of c of
           None \<Rightarrow> None
         | Some run \<Rightarrow>
             (case states i run of
                None \<Rightarrow> None
              | Some st \<Rightarrow>
                  if map_of st ''status'' \<in> (Some \<circ> JStr) ` set ended_states
                  then Some (JObj ([(''kind'', JStr ''owned_run''), (''run_id'', JStr run)] @ st)) else None))
      else None)"

definition due_one :: "(string \<Rightarrow> string \<Rightarrow> (string \<times> json) list option) \<Rightarrow> string \<Rightarrow> clock \<Rightarrow> json \<Rightarrow> json" where
  "due_one states i now c = (case due_match states i now c of None \<Rightarrow> c | Some m \<Rightarrow> json_set ''matched'' m c)"

definition observe_due ::
  "wait_row \<times> due_view \<Rightarrow> json list \<Rightarrow> (string \<Rightarrow> string \<Rightarrow> (string \<times> json) list option) \<Rightarrow> clock \<Rightarrow>
   (json list \<times> string) option" where
  "observe_due r raw states now =
     (let (y, v) = r; cs = map strip_text raw; cs' = map (due_one states (wa_work_id y) now) cs;
          met = all_met (wa_mode y) cs';
          expired = (case wa_deadline y of None \<Rightarrow> False | Some t \<Rightarrow> t \<le> now)
      in if \<not> live_view (wa_generation y) v then Some ([], ''invalidated'')
         else if met \<or> expired then Some (cs', if expired \<and> \<not> met then ''deadline'' else ''signal'')
         else if list_ex (\<lambda>c. due_match states (wa_work_id y) now c \<noteq> None) cs then Some (cs', ''partial'') else None)"

definition runs_for :: "db \<Rightarrow> wait_row list \<Rightarrow> owned_run list" where
  "runs_for d ys = owned_runs d (requested_runs (map (\<lambda>y. (wa_work_id y, conditions_of y)) ys))"

text \<open>One page of the read phase: the observed waits and the run rows of their Works.\<close>

definition observe_page :: "db \<Rightarrow> clock \<Rightarrow> wait_row list \<Rightarrow> (wait_row \<times> due_view) list \<times> owned_run list" where
  "observe_page d now page =
     (let runs = runs_for d page;
          hits = filter (\<lambda>r. observe_due r (conditions_of (fst r)) (run_state runs) now \<noteq> None) (map (due_row d) page)
      in (hits, runs))"

text \<open>The dictionary of the selected runs, by owner, run and kind; the last row of a key wins.\<close>

definition put_run :: "owned_run \<Rightarrow> owned_run list \<Rightarrow> owned_run list" where
  "put_run r rs =
     (let same = (\<lambda>x. or_owner x = or_owner r \<and> or_run x = or_run r \<and> or_sandbox x = or_sandbox r)
      in if list_ex same rs then update_where same (\<lambda>_. r) rs else rs @ [r])"

text \<open>The states of the selected runs, by owner and run, as the page that selected them read them.\<close>

type_synonym run_states = "((string \<times> string) \<times> (string \<times> json) list) list"

definition put_state :: "owned_run list \<Rightarrow> owned_run \<Rightarrow> run_states \<Rightarrow> run_states" where
  "put_state page_runs r sts =
     (case run_state page_runs (or_owner r) (or_run r) of
        None \<Rightarrow> sts | Some st \<Rightarrow> AList.update (or_owner r, or_run r) st sts)"

function observe_pages ::
  "db \<Rightarrow> clock \<Rightarrow> wait_row list \<Rightarrow> (wait_row \<times> due_view) list \<Rightarrow> owned_run list \<Rightarrow> run_states \<Rightarrow>
   (wait_row \<times> due_view) list \<times> owned_run list \<times> run_states" where
  "observe_pages d now rows hits runs sts =
     (if length hits \<ge> 128 \<or> rows = [] then (hits, runs, sts)
      else
        (let page = take 128 rows;
             (found, page_runs) = observe_page d now page;
             new_hits = take (128 - length hits) found;
             new_runs = concat (map (\<lambda>r. filter (\<lambda>x. or_owner x = wa_work_id (fst r)) page_runs) new_hits)
         in observe_pages d now (drop 128 rows) (hits @ new_hits) (fold put_run new_runs runs)
              (fold (put_state page_runs) new_runs sts)))"
  by pat_completeness auto
termination by (relation "measure (\<lambda>(d, now, rows, hits, runs, sts). length rows)") auto

declare observe_pages.simps [simp del]

fun chunks :: "nat \<Rightarrow> 'a list \<Rightarrow> 'a list list" where
  "chunks 0 xs = [xs]"
| "chunks (Suc n) [] = []"
| "chunks (Suc n) (x # xs) = take (Suc n) (x # xs) # chunks (Suc n) (drop n xs)"

definition owned_runs_current :: "db \<Rightarrow> (string \<times> string) list \<Rightarrow> owned_run list \<Rightarrow> bool" where
  "owned_runs_current d pairs original \<longleftrightarrow>
     (let current = owned_runs d pairs
      in if original = [] then current = []
         else length current = length original \<and>
           list_all (\<lambda>page. length (concat (map (\<lambda>c. filter ((=) c) page) current)) = length page)
             (chunks 32 original))"

definition settled_columns ::
  "wait_row \<Rightarrow> string \<times> string \<times> int \<times> string \<times> string \<times> string \<times> json \<times> clock option" where
  "settled_columns y = (wa_work_id y, wa_conversation y, wa_generation y, wa_principal_kind y,
     wa_principal_id y, wa_mode y, wa_conditions y, wa_deadline y)"

definition settle_due ::
  "clock \<Rightarrow> (string \<Rightarrow> string \<Rightarrow> (string \<times> json) list option) \<Rightarrow> (wait_row \<times> due_view) list \<Rightarrow>
   wait_row \<times> due_view \<Rightarrow> db \<times> nat \<Rightarrow> db \<times> nat" where
  "settle_due now states prepared r s =
     (let (d, n) = s; (y, v) = r in
      case List.find (\<lambda>(z, u). wa_id z = wa_id y) prepared of
        None \<Rightarrow> s
      | Some (z, u) \<Rightarrow>
          if settled_columns y \<noteq> settled_columns z then s
          else case observe_due r (conditions_of z) states now of
            None \<Rightarrow> s
          | Some (cs, reason) \<Rightarrow>
              if reason = ''invalidated'' then (mark_wait (close_wait Invalidated now) (wa_id y) d, n)
              else if reason = ''partial'' then (mark_wait (note_conditions cs now) (wa_id y) d, n)
              else (let (k, d') = deliver d now (binding_of r) cs reason None
                    in (d', if truthy_opt (map_option JInt k) then n + 1 else n)))"

text \<open>The read phase at \<open>observed\<close> on \<open>seen\<close>, the writer at \<open>now\<close> on \<open>d\<close>.\<close>

definition deliver_due :: "db \<Rightarrow> clock \<Rightarrow> db \<Rightarrow> clock \<Rightarrow> nat \<times> db" where
  "deliver_due seen observed d now =
     (let (prepared, runs, sts) = observe_pages seen observed (due_rows seen (\<lambda>_. True)) [] [] [];
          pairs = requested_runs (map (\<lambda>r. (wa_work_id (fst r), conditions_of (fst r))) prepared)
      in if prepared = [] \<or> \<not> owned_runs_current d pairs runs then (0, d)
         else (let ids = map (wa_id \<circ> fst) prepared;
                   rows = map (due_row d) (due_rows d (\<lambda>y. wa_id y \<in> set ids));
                   (d', n) = fold (settle_due now (\<lambda>i run. map_of sts (i, run)) prepared) rows (d, 0)
               in (n, d')))"

end
