(* ===== verification/Work_Wait_Steps.thy ===== *)
theory Work_Wait_Steps
  imports Subagent_Steps Work_Wait_Events
begin

text \<open>
  The operations of the wait service keep the store well formed and move its rows forward: a closed
  wait stays as it is, a waiting Work is only ever queued, inputs are only added.
\<close>

lemma mark_wait_evolves:
  "(\<And>y. wa_status y = Active \<Longrightarrow> wait_le y (f y)) \<Longrightarrow> evolves d (mark_wait f i d)"
  by (auto simp: mark_wait_def evolves_def intro!: waits.ok_update)

lemma wait_rows_le [simp]:
  "wa_status y = Active \<Longrightarrow> wait_le y (delivered_wait st cs now y)"
  "wa_status y = Active \<Longrightarrow> wait_le y (note_conditions cs now y)"
  by (simp_all add: wait_le_def delivered_wait_def note_conditions_def)

lemma waiting_le [simp]:
  "w_state w \<in> {Waiting_external, Waiting_user} \<Longrightarrow> work_le w (signalled_row now w)"
  "w_state w = Waiting_external \<Longrightarrow> work_le w (action_row now w)"
  by (auto simp: work_le_def final_row_def signalled_row_def action_row_def)

lemma signal_input_simps [simp]:
  "in_source_key (signal_input d now b cs reason e) = ''wait:'' @ wb_id b"
  "in_id (signal_input d now b cs reason e) = next_input_id d"
  by (simp_all add: signal_input_def)

text \<open>What a delivery does, in three cases.\<close>

lemma deliver_cases:
  obtains (invalid) "deliver d now b cs reason e = (None, mark_wait (close_wait Invalidated now) (wb_id b) d)"
    | (closed) "deliver d now b cs reason e = (None, d)"
    | (sent) x st v where "x = signal_input d now b cs reason e" "st \<in> {Expired, Delivered}"
      "v = (case wb_view b of Some v \<Rightarrow> v | None \<Rightarrow> view_of d (wb_work_id b) (wb_conversation b))"
      "live_view (wb_generation b) v" "same_principal b v"
      "list_ex (\<lambda>y. wa_id y = wb_id b \<and> wa_status y = Active) (waits d)"
      "deliver d now b cs reason e =
        (if in_source_key x \<in> in_source_key ` set (inputs d) then None else Some (in_id x),
         (mark_wait (delivered_wait st cs now) (wb_id b) d)
           \<lparr>inputs := insert_ignore in_source_key x (inputs d),
            works := update_where (\<lambda>w. w_id w = wb_work_id b \<and> w_state w \<in> {Waiting_external, Waiting_user})
              (signalled_row now) (works d)\<rparr>)"
proof -
  define v where "v = (case wb_view b of Some v \<Rightarrow> v | None \<Rightarrow> view_of d (wb_work_id b) (wb_conversation b))"
  note D = deliver_def [of d now b cs reason e, folded v_def, unfolded Let_def]
  show ?thesis
  proof (cases "live_view (wb_generation b) v \<and> same_principal b v")
    case False
    then have "\<not> live_view (wb_generation b) v \<or> \<not> same_principal b v" by blast
    then have "deliver d now b cs reason e = (None, mark_wait (close_wait Invalidated now) (wb_id b) d)"
      unfolding D by (rule if_P)
    then show ?thesis by (rule invalid)
  next
    case True
    show ?thesis
    proof (cases "list_ex (\<lambda>y. wa_id y = wb_id b \<and> wa_status y = Active) (waits d)")
      case False
      then have "deliver d now b cs reason e = (None, d)" unfolding D using True by simp
      then show ?thesis by (rule closed)
    next
      case active: True
      show ?thesis
        by (rule sent [OF refl _ v_def conjunct1 [OF True] conjunct2 [OF True] active,
              of "if reason = ''deadline'' then Expired else Delivered"])
          (use True active in \<open>simp_all add: D\<close>)
    qed
  qed
qed

lemma sent_evolves:
  assumes "x = signal_input d now b cs reason e"
  shows "evolves d ((mark_wait (delivered_wait st cs now) i d)
     \<lparr>inputs := insert_ignore in_source_key x (inputs d),
      works := update_where (\<lambda>w. w_id w = j \<and> w_state w \<in> {Waiting_external, Waiting_user})
        (signalled_row now) (works d)\<rparr>)"
  by (auto simp: mark_wait_def evolves_def assms insert_input_ok intro!: waits.ok_update works.ok_update)

lemma deliver_evolves: "deliver d now b cs reason e = (k, d') \<Longrightarrow> evolves d d'"
proof -
  assume k: "deliver d now b cs reason e = (k, d')"
  show ?thesis
    by (cases rule: deliver_cases [of d now b cs reason e])
      (use k mark_wait_evolves [of "close_wait Invalidated now"] sent_evolves in auto)
qed

lemma mark_wait_frame [simp]:
  "conversations (mark_wait f i d) = conversations d" "scopes (mark_wait f i d) = scopes d"
  "children (mark_wait f i d) = children d" "inputs (mark_wait f i d) = inputs d"
  "works (mark_wait f i d) = works d" "sandbox_runs (mark_wait f i d) = sandbox_runs d"
  by (simp_all add: mark_wait_def)

text \<open>The tables no wait operation writes.\<close>

definition wait_frame :: "db \<Rightarrow> db \<Rightarrow> bool" where
  "wait_frame d d' \<longleftrightarrow> conversations d' = conversations d \<and> scopes d' = scopes d \<and>
     children d' = children d \<and> sandbox_runs d' = sandbox_runs d"

lemma wait_frame_refl [simp]: "wait_frame d d"
  by (simp add: wait_frame_def)

lemma wait_frame_trans: "wait_frame d d' \<Longrightarrow> wait_frame d' d'' \<Longrightarrow> wait_frame d d''"
  by (simp add: wait_frame_def)

lemma wait_frame_mark [simp]: "wait_frame d (mark_wait f i d)"
  by (simp add: wait_frame_def)

lemma deliver_frame: "deliver d now b cs reason e = (k, d') \<Longrightarrow> wait_frame d d'"
proof -
  assume k: "deliver d now b cs reason e = (k, d')"
  show ?thesis
  proof (cases rule: deliver_cases [of d now b cs reason e])
    case (sent x st v)
    then show ?thesis using k by (auto simp: wait_frame_def)
  qed (use k in auto)
qed

text \<open>A step of the wait service: every operation is a sequence of them.\<close>

definition wait_step :: "db \<Rightarrow> db \<Rightarrow> bool" where
  "wait_step d d' \<longleftrightarrow> evolves d d' \<and> wait_frame d d'"

lemma wait_step_refl [simp]: "wait_step d d"
  by (simp add: wait_step_def)

lemma wait_step_trans: "wait_step d d' \<Longrightarrow> wait_step d' d'' \<Longrightarrow> wait_step d d''"
  unfolding wait_step_def using evolves_trans wait_frame_trans by blast

lemma deliver_step: "deliver d now b cs reason e = (k, d') \<Longrightarrow> wait_step d d'"
  by (simp add: wait_step_def deliver_evolves deliver_frame)

lemma mark_wait_step:
  "(\<And>y. wa_status y = Active \<Longrightarrow> wait_le y (f y)) \<Longrightarrow> wait_step d (mark_wait f i d)"
  by (simp add: wait_step_def mark_wait_evolves)

lemma fold_wait_step:
  assumes "\<And>x s. x \<in> set xs \<Longrightarrow> wait_step (g s) (g (f x s))"
  shows "wait_step (g s) (g (fold f xs s))"
  using assms
proof (induction xs arbitrary: s)
  case (Cons x xs)
  have "wait_step (g s) (g (f x s))" by (rule Cons.prems) simp
  moreover have "wait_step (g (f x s)) (g (fold f xs (f x s)))"
    by (rule Cons.IH) (rule Cons.prems, simp)
  ultimately show ?case using wait_step_trans by simp
qed simp

section \<open>Registration\<close>

lemma action_step: "wait_step d (signal_external_action d now i run binding cs)"
proof -
  have "wait_step d (snd (deliver d now b cs ''requires_action'' None))" for b
    using deliver_step [of d now b cs] by (metis prod.collapse)
  moreover have "wait_step d (d\<lparr>works := update_where (\<lambda>w. w_id w = i \<and> w_state w = Waiting_external)
      (action_row now) (works d)\<rparr>)"
    by (auto simp: wait_step_def wait_frame_def evolves_def intro!: works.ok_update)
  ultimately show ?thesis by (simp add: signal_external_action_def split: option.split)
qed

lemma insert_wait_step: "insert_wait y d = Inr d' \<Longrightarrow> wait_step d d'"
  by (auto simp: insert_wait_def wait_step_def wait_frame_def evolves_def wf_waits_def unique_key_append
      split: if_splits intro!: waits.ok_append)

lemma close_waits_step: "wait_step d (close_waits d now i)"
  by (simp add: wait_step_def close_waits_evolves) (simp add: wait_frame_def close_waits_def)

lemma set_wait_control_step: "set_wait_control d now l i wid a = Inr d' \<Longrightarrow> wait_step d d'"
proof -
  assume s: "set_wait_control d now l i wid a = Inr d'"
  show ?thesis
  proof (cases a)
    case (Some c)
    then obtain w where w: "set_accepted_control d now l i (Some (json_set ''wait_id'' (JStr wid) c)) = Inr (w, d')"
      using s by (auto simp: set_wait_control_def returns)
    then have "wait_frame d d'"
      by (auto simp: set_accepted_control_def wait_frame_def split: option.splits)
    then show ?thesis using set_accepted_control_evolves [OF w] by (simp add: wait_step_def)
  qed (use s in \<open>simp add: set_wait_control_def\<close>)
qed

lemma register_new_step: "register_new d started now l q y cs = Inr d' \<Longrightarrow> wait_step d d'"
proof -
  assume "register_new d started now l q y cs = Inr d'"
  then obtain d1 d2 where s: "insert_wait y (close_waits d started (wq_work_id q)) = Inr d1"
      "set_wait_control d1 now l (wq_work_id q) (wa_id y) (wq_accepted q) = Inr d2"
      "d' = fold (\<lambda>run x. signal_external_action x now (wq_work_id q) run (Some (bare_binding y)) cs)
         (pending_runs d2 (wq_work_id q)) d2"
    unfolding register_new_def returns by blast
  have "wait_step d d2"
    by (rule wait_step_trans [OF wait_step_trans [OF close_waits_step insert_wait_step [OF s(1)]] set_wait_control_step [OF s(2)]])
  moreover have "wait_step d2 d'"
    unfolding s(3) by (rule fold_wait_step [where g = "\<lambda>x. x"]) (rule action_step)
  ultimately show ?thesis by (rule wait_step_trans)
qed

lemma register_commit_cases:
  assumes "register_commit root_of may_wake newest d started now l q kind who cs deadline i = Inr (y, d')"
  obtains (known) "lookup_by wa_call_key (wq_call_key q) (waits d) = Some y" "wa_status y = Active" "d' = d"
      "wa_work_id y = wq_work_id q" "wa_request y = wait_request_json q"
    | (fresh) w where "List.find (waiting_work l (wq_work_id q)) (works d) = Some w"
      "wait_source_ok root_of kind who (w_source w)" "lookup_by wa_call_key (wq_call_key q) (waits d) = None"
      "y = new_wait started l q kind who (map (set_watermark newest) cs) deadline i"
      "register_new d started now l q y (map (set_watermark newest) cs) = Inr d'"
proof -
  from assms obtain w where w: "List.find (waiting_work l (wq_work_id q)) (works d) = Some w"
      "wait_source_ok root_of kind who (w_source w)" "l_conversation l \<in> cv_id ` set (conversations d)"
      "\<not> list_ex (ungranted may_wake) cs" and lease: "assert_lease d now l = Inr ()"
    unfolding register_commit_def returns by (auto split: option.splits if_splits)
  show ?thesis
  proof (cases "lookup_by wa_call_key (wq_call_key q) (waits d)")
    case None
    have "register_new d started now l q y (map (set_watermark newest) cs) = Inr d' \<and>
        y = new_wait started l q kind who (map (set_watermark newest) cs) deadline i"
      using assms w lease None by (auto simp: register_commit_def Let_def returns)
    then show ?thesis using fresh [OF w(1,2) None] by blast
  next
    case (Some z)
    then show ?thesis using assms w lease known by (simp add: register_commit_def split: if_splits)
  qed
qed

lemma register_wait_commit:
  assumes "register_wait parse root_of may_wake newest d started now l q i = Inr (y, d')"
  obtains cs deadline kind who where "normalize_conditions parse (wq_conditions q) started = Inr cs"
    "wq_mode q \<in> {''any'', ''all''}" "wait_principal (wq_source q) = Some (kind, who)"
    "register_commit root_of may_wake newest d started now l q kind who cs deadline i = Inr (y, d')"
proof -
  have mode: "\<not> (wq_mode q \<notin> {''any'', ''all''} \<or> wq_call_key q = [])"
  proof
    assume "wq_mode q \<notin> {''any'', ''all''} \<or> wq_call_key q = []"
    from assms [unfolded register_wait_def if_P [OF this]] show False by simp
  qed
  from assms [unfolded register_wait_def if_not_P [OF mode] returns]
  obtain cs deadline where cs: "normalize_conditions parse (wq_conditions q) started = Inr cs"
    and r: "(case wait_principal (wq_source q) of
        None \<Rightarrow> Inl (Value_error ''wait_principal_unavailable'')
      | Some (kind, who) \<Rightarrow> register_commit root_of may_wake newest d started now l q kind who cs deadline i) = Inr (y, d')"
    by blast
  from r obtain kind who where "wait_principal (wq_source q) = Some (kind, who)"
      "register_commit root_of may_wake newest d started now l q kind who cs deadline i = Inr (y, d')"
    by (auto split: option.splits)
  then show ?thesis using that cs mode by blast
qed

lemma register_wait_step:
  assumes "register_wait parse root_of may_wake newest d started now l q i = Inr (y, d')"
  shows "wait_step d d'"
proof -
  obtain cs deadline kind who where
    "register_commit root_of may_wake newest d started now l q kind who cs deadline i = Inr (y, d')"
    by (rule register_wait_commit [OF assms])
  then show ?thesis
  proof (cases rule: register_commit_cases)
    case (fresh w)
    show ?thesis by (rule register_new_step [OF fresh(5)])
  qed simp
qed

lemma cancel_wait_step: "cancel_wait d now l i = Inr (b, d') \<Longrightarrow> wait_step d d'"
  by (auto simp: cancel_wait_def returns wait_step_def wait_frame_def evolves_def cancellable_wait_def
      intro!: waits.ok_update)

section \<open>Events and times\<close>

lemma apply_wait_step: "wait_step (fst s) (fst (apply_wait kind ev now r s))"
proof -
  obtain d m k where s: "s = (d, m, k)" by (cases s)
  let ?cs = "map (match_one kind ev now) (snd r)"
  let ?x = "deliver d now (binding_of (fst r)) ?cs ''signal'' (if kind = ''conversation'' then Some (ce_id ev) else None)"
  have 1: "wait_step d (snd ?x)" using deliver_step by (metis prod.collapse)
  have 2: "wait_step d (mark_wait (note_conditions ?cs now) (wa_id (fst (fst r))) d)"
    by (rule mark_wait_step) simp
  show ?thesis using 1 2 by (auto simp: s apply_wait_def Let_def split: prod.split)
qed

text \<open>Either nothing happens, or the waits of the conversation are folded over and the hook runs.\<close>

lemma apply_event_cases:
  assumes "apply_event events hook kind e prepared d now = Inr (k, d')"
  obtains (nothing) "k = None" "d' = d"
    | (applied) ev v rows d1 m delivered where "events e = Some ev" "v \<in> set (conversations d)"
      "usable_event kind ev"
      "rows = filter (\<lambda>(r, cs). wa_conversation (fst r) = cv_id v \<and> wa_generation (fst r) = cv_generation v) prepared"
      "fold (apply_wait kind ev now) rows (d, False, None) = (d1, m, delivered)"
      "delivery_hook hook delivered d1 = Inr d'"
      "k = (case delivered of Some k \<Rightarrow> Some k | None \<Rightarrow> if m then Some 0 else None)"
proof (cases "events e")
  case None
  then have "k = None" "d' = d" using assms by (auto simp: apply_event_def)
  then show ?thesis by (rule nothing)
next
  case (Some ev)
  show ?thesis
  proof (cases "Option.bind (ce_conversation ev) (\<lambda>c. lookup_by cv_id c (conversations d))")
    case None
    then have "k = None" "d' = d" using assms Some by (auto simp: apply_event_def)
    then show ?thesis by (rule nothing)
  next
    case conv: (Some v)
    show ?thesis
    proof (cases "usable_event kind ev")
      case False
      then have "k = None" "d' = d" using assms Some conv by (auto simp: apply_event_def)
      then show ?thesis by (rule nothing)
    next
      case True
      define rows where "rows = filter (\<lambda>(r, cs). wa_conversation (fst r) = cv_id v \<and>
        wa_generation (fst r) = cv_generation v) prepared"
      obtain d1 m delivered where f: "fold (apply_wait kind ev now) rows (d, False, None) = (d1, m, delivered)"
        by (metis prod_cases3)
      have v: "v \<in> set (conversations d)"
        using conv lookup_by_Some_set by (fastforce simp: bind_eq_Some_conv)
      have "ebind (delivery_hook hook delivered d1) (\<lambda>d2.
          Inr (case delivered of Some k \<Rightarrow> Some k | None \<Rightarrow> if m then Some 0 else None, d2)) = Inr (k, d')"
        using assms Some conv True f by (simp add: apply_event_def rows_def [symmetric])
      then have "delivery_hook hook delivered d1 = Inr d'"
          "k = (case delivered of Some k \<Rightarrow> Some k | None \<Rightarrow> if m then Some 0 else None)"
        by (auto simp: returns)
      then show ?thesis using applied [OF Some v True rows_def f] by blast
    qed
  qed
qed

lemma apply_event_parts:
  assumes "apply_event events hook kind e prepared d now = Inr (k, d')"
  obtains (nothing) "d' = d"
    | (applied) d1 delivered where "wait_step d d1" "delivery_hook hook delivered d1 = Inr d'"
proof (rule apply_event_cases [OF assms])
  assume "d' = d" then show ?thesis by (rule nothing)
next
  fix ev v rows d1 m delivered
  assume a: "events e = Some ev" "v \<in> set (conversations d)" "usable_event kind ev"
      "rows = filter (\<lambda>(r, cs). wa_conversation (fst r) = cv_id v \<and> wa_generation (fst r) = cv_generation v) prepared"
      "fold (apply_wait kind ev now) rows (d, False, None) = (d1, m, delivered)"
      "delivery_hook hook delivered d1 = Inr d'"
  have "wait_step d d1"
    using fold_wait_step [where g = fst and f = "apply_wait kind ev now" and xs = rows and s = "(d, False, None)"]
      apply_wait_step a(5) by simp
  then show ?thesis using a(6) by (rule applied)
qed

lemma apply_event_step:
  assumes "apply_event events hook kind e prepared d now = Inr (k, d')"
    and "\<And>f x i y. hook = Some f \<Longrightarrow> f x i = Inr y \<Longrightarrow> evolves x y"
  shows "evolves d d'"
proof (rule apply_event_parts [OF assms(1)])
  fix d1 delivered
  assume s: "wait_step d d1" "delivery_hook hook delivered d1 = Inr d'"
  then have "evolves d1 d'"
    using assms(2) by (auto simp: delivery_hook_def split: option.splits)
  then show ?thesis using s(1) evolves_trans by (auto simp: wait_step_def)
qed simp

lemma settle_due_step: "wait_step (fst s) (fst (settle_due now states prepared r s))"
proof -
  obtain d n where s: "s = (d, n)" by (cases s)
  obtain y v where r: "r = (y, v)" by (cases r)
  have dl: "wait_step d (snd (deliver d now (binding_of r) cs reason None))" for cs reason
    using deliver_step by (metis prod.collapse)
  have mk: "wait_step d (mark_wait (close_wait Invalidated now) i d)"
      "wait_step d (mark_wait (note_conditions cs now) i d)" for i cs
    by (rule mark_wait_step; simp)+
  show ?thesis
  proof (cases "List.find (\<lambda>(z, u). wa_id z = wa_id y) prepared")
    case (Some p)
    obtain z u where p: "p = (z, u)" by (cases p)
    show ?thesis
    proof (cases "settled_columns y \<noteq> settled_columns z \<or> observe_due r (conditions_of z) states now = None")
      case True
      then show ?thesis using Some p by (auto simp: s r settle_due_def)
    next
      case False
      then obtain cs reason where "observe_due r (conditions_of z) states now = Some (cs, reason)" by auto
      then show ?thesis
        using Some p False dl [of cs reason] mk
        by (auto simp: s r settle_due_def split: prod.split)
    qed
  qed (simp add: s r settle_due_def)
qed

lemma deliver_due_step:
  assumes "deliver_due seen observed d now = (n, d')"
  shows "wait_step d d'"
proof -
  obtain prepared runs sts where p: "observe_pages seen observed (due_rows seen (\<lambda>_. True)) [] [] [] = (prepared, runs, sts)"
    by (metis prod_cases3)
  have f: "wait_step d (fst (fold (settle_due now st prepared) rows (d, 0)))" for st rows
    using fold_wait_step [where g = fst and f = "settle_due now st prepared" and xs = rows and s = "(d, 0)"]
      settle_due_step by simp
  let ?pairs = "requested_runs (map (\<lambda>r. (wa_work_id (fst r), conditions_of (fst r))) prepared)"
  show ?thesis
  proof (cases "prepared = [] \<or> \<not> owned_runs_current d ?pairs runs")
    case True
    then have "d' = d" using assms by (simp add: deliver_due_def p Let_def)
    then show ?thesis by simp
  next
    case False
    let ?F = "fold (settle_due now (\<lambda>i run. map_of sts (i, run)) prepared)
      (map (due_row d) (due_rows d (\<lambda>y. wa_id y \<in> set (map (wa_id \<circ> fst) prepared)))) (d, 0)"
    have "deliver_due seen observed d now = (snd ?F, fst ?F)"
      unfolding deliver_due_def p Let_def prod.case using False by (simp add: split_def)
    then show ?thesis using assms f by (metis prod.inject)
  qed
qed

lemma match_user_reply_cases:
  assumes "match_user_reply process root_of answered events d now e = (k, d')"
  obtains (nothing) "k = None" "d' = d"
    | (reply) ev author v w where "events e = Some ev" "ce_author ev = Some author" "v \<in> set (conversations d)"
      "w \<in> set (works d)" "reply_candidate root_of answered ev author v w"
      "d' = d\<lparr>inputs := insert_ignore in_source_key (reply_input process d now v e (w_id w)) (inputs d)\<rparr>"
      "k = map_option in_id (lookup_by in_source_key (in_source_key (reply_input process d now v e (w_id w))) (inputs d'))"
proof -
  have latest: "latest ws = Some w \<Longrightarrow> w \<in> set ws" for ws w
    by (induction ws arbitrary: w) (auto split: option.splits if_splits)
  show ?thesis
  proof (cases "events e")
    case (Some ev)
    show ?thesis
    proof (cases "ce_author ev")
      case author: (Some author)
      show ?thesis
      proof (cases "Option.bind (ce_conversation ev) (\<lambda>c. lookup_by cv_id c (conversations d))")
        case conv: (Some v)
        have v: "v \<in> set (conversations d)"
          using conv lookup_by_Some_set by (fastforce simp: bind_eq_Some_conv)
        let ?c = "filter (reply_candidate root_of answered ev author v) (works d)"
        show ?thesis
        proof (cases "(ce_direction ev \<noteq> ''inbound'' \<or> ce_kind ev \<noteq> ''message'' \<or>
            ce_reply_to ev = None \<and> \<not> local_platform (ce_platform ev)) \<or> latest ?c = None")
          case True
          then have "k = None" "d' = d"
            using assms Some author conv by (auto simp: match_user_reply_def split: if_splits)
          then show ?thesis by (rule nothing)
        next
          case False
          then obtain w where w: "latest ?c = Some w" by auto
          have "k = map_option in_id (lookup_by in_source_key (in_source_key (reply_input process d now v e (w_id w))) (inputs d')) \<and>
              d' = d\<lparr>inputs := insert_ignore in_source_key (reply_input process d now v e (w_id w)) (inputs d)\<rparr>"
            using assms Some author conv w False by (auto simp: match_user_reply_def Let_def)
          moreover have "w \<in> set (works d)" "reply_candidate root_of answered ev author v w"
            using latest [OF w] by auto
          ultimately show ?thesis using reply [OF Some author v] by blast
        qed
      next
        case None
        then have "k = None" "d' = d" using assms Some author by (auto simp: match_user_reply_def)
        then show ?thesis by (rule nothing)
      qed
    next
      case None
      then have "k = None" "d' = d" using assms Some by (auto simp: match_user_reply_def)
      then show ?thesis by (rule nothing)
    qed
  next
    case None
    then have "k = None" "d' = d" using assms by (auto simp: match_user_reply_def)
    then show ?thesis by (rule nothing)
  qed
qed

lemma match_user_reply_step:
  assumes "match_user_reply process root_of answered events d now e = (k, d')"
  shows "wait_step d d'"
proof -
  have "wait_step d (d\<lparr>inputs := insert_ignore in_source_key (reply_input process d now v e i) (inputs d)\<rparr>)" for v i
    by (simp add: wait_step_def wait_frame_def evolves_def insert_input_ok reply_input_def)
  note added = this
  show ?thesis
  proof (rule match_user_reply_cases [OF assms])
    fix ev author v w
    assume "d' = d\<lparr>inputs := insert_ignore in_source_key (reply_input process d now v e (w_id w)) (inputs d)\<rparr>"
    then show ?thesis using added by simp
  qed simp
qed

end
