(* ===== verification/Work_Maintenance.thy ===== *)
theory Work_Maintenance
  imports Subagent_Steps
begin

text \<open>
  The remaining operations of \<open>runtime/work_repository.py\<close>: deriving a child from a Work, the
  context note of a Work, the receipts of its finished executions, the images of an input, and the
  repair of inputs whose preparation was interrupted by a restart.
\<close>

section \<open>Children with the original source\<close>

definition own_work :: "work_lease \<Rightarrow> string \<Rightarrow> work_row \<Rightarrow> bool" where
  "own_work l i w \<longleftrightarrow> w_id w = i \<and> w_conversation w = l_conversation l \<and> w_generation w = l_generation l"

definition derived_admission :: "json \<Rightarrow> string \<Rightarrow> string \<Rightarrow> string \<Rightarrow> string \<Rightarrow> admission" where
  "derived_admission source parent key goal i =
     \<lparr>ad_source_key = key, ad_source = source, ad_goal = goal, ad_parent = Some parent, ad_identity = i,
      ad_handoff = None, ad_initial = ''queued''\<rparr>"

definition derive_commit ::
  "db \<Rightarrow> clock \<Rightarrow> work_lease \<Rightarrow> string \<Rightarrow> string \<Rightarrow> string \<Rightarrow> string \<Rightarrow> json \<Rightarrow> work_error + (work_row \<times> db)" where
  "derive_commit d now l parent key goal i source =
     ebind (assert_lease d now l) (\<lambda>_.
       case List.find (own_work l parent) (works d) of
         None \<Rightarrow> Inl No_result
       | Some p \<Rightarrow>
           if w_source p \<noteq> source then Inl (Conflict ''work_parent_source_invalid'')
           else accept_in_session d now l (derived_admission source parent key goal i))"

text \<open>
  \<open>seen\<close> is the store of the reader, \<open>started\<close> the one \<open>SubagentRepository.start\<close> reads; the row of
  a started child is read right after its transaction.
\<close>

definition derive ::
  "bool \<Rightarrow> db \<Rightarrow> db \<Rightarrow> db \<Rightarrow> clock \<Rightarrow> work_lease \<Rightarrow> string \<Rightarrow> string \<Rightarrow> string \<Rightarrow> string \<Rightarrow>
   work_error + (work_row option \<times> db)" where
  "derive enabled seen started d now l parent key goal i =
     (case List.find (own_work l parent) (works seen) of
        None \<Rightarrow> Inl No_result
      | Some snapshot \<Rightarrow>
          (case lookup_by ch_work_id parent (children seen) of
             Some c \<Rightarrow>
               ebind (subagent_start enabled started d now l parent key
                   (json_set ''goal'' (JStr goal) (ch_brief c)) i) (\<lambda>(k, d').
                 Inr (lookup_by w_id k (works d'), d'))
           | None \<Rightarrow>
               ebind (derive_commit d now l parent key goal i (w_source snapshot)) (\<lambda>(row, d').
                 Inr (Some row, d'))))"

section \<open>The context note\<close>

text \<open>
  A row of \<open>tool_artifact_refs\<close> is the kind of its owner, the owner and the handle. \<open>available\<close> says
  which artifacts still exist: not being deleted, not expired unless protected.
\<close>

type_synonym artifact_ref = "string \<times> string \<times> string"

fun publish_refs ::
  "(string \<Rightarrow> bool) \<Rightarrow> string \<Rightarrow> string \<Rightarrow> string list \<Rightarrow> artifact_ref list \<Rightarrow> work_error + artifact_ref list" where
  "publish_refs available kind owner [] refs = Inr refs"
| "publish_refs available kind owner (h # hs) refs =
     (if \<not> available h then Inl (Value_error ''artifact_reference_unavailable'')
      else publish_refs available kind owner hs (insert_ignore id (kind, owner, h) refs))"

definition add_refs ::
  "(string \<Rightarrow> bool) \<Rightarrow> string \<Rightarrow> string \<Rightarrow> string list \<Rightarrow> artifact_ref list \<Rightarrow> work_error + artifact_ref list" where
  "add_refs available kind owner handles refs =
     (if kind \<notin> {''work_note'', ''observation'', ''summary''} \<or> owner = []
      then Inl (Value_error ''artifact_reference_owner_invalid'')
      else publish_refs available kind owner handles refs)"

definition note_guard :: "work_lease \<Rightarrow> string \<Rightarrow> int \<Rightarrow> work_row \<Rightarrow> bool" where
  "note_guard l i expected w \<longleftrightarrow> own_work l i w \<and> \<not> terminal (w_state w) \<and>
     (case json_extract [''context_note'', ''revision''] (w_checkpoint w) of
        None \<Rightarrow> expected = 0 | Some v \<Rightarrow> v = JInt expected)"

definition note_row :: "clock \<Rightarrow> json \<Rightarrow> work_row \<Rightarrow> work_row" where
  "note_row now note w =
     w\<lparr>w_checkpoint := json_set ''context_note'' (encode_json note) (w_checkpoint w), w_updated := now\<rparr>"

definition note_handles :: "json \<Rightarrow> work_error + string list" where
  "note_handles note =
     (case json_get ''artifact_handles'' note of
        Some (JArr xs) \<Rightarrow> Inr (List.map_filter (\<lambda>x. case x of JStr s \<Rightarrow> Some s | _ \<Rightarrow> None) xs)
      | _ \<Rightarrow> Inl (Key_error ''artifact_handles''))"

text \<open>
  \<open>privacy\<close> is the current privacy generation, \<open>revision_of\<close> the \<open>prompt_source_revision\<close> of a
  conversation. The note is an object with the fields the code reads.
\<close>

definition patch_context_note ::
  "int \<Rightarrow> (string \<Rightarrow> int) \<Rightarrow> (string \<Rightarrow> bool) \<Rightarrow> artifact_ref list \<Rightarrow> db \<Rightarrow> clock \<Rightarrow> work_lease \<Rightarrow> string \<Rightarrow> int \<Rightarrow>
   json \<Rightarrow> work_error + (work_row \<times> artifact_ref list \<times> db)" where
  "patch_context_note privacy revision_of available refs d now l i expected note =
     ebind (note_handles note) (\<lambda>handles.
     ebind (assert_lease d now l) (\<lambda>_.
       case json_get ''privacy_generation'' note of
         None \<Rightarrow> Inl (Key_error ''privacy_generation'')
       | Some p \<Rightarrow>
           if p \<noteq> JInt privacy then Inl (Conflict ''work_context_note_source_changed'')
           else case json_get ''source_revision'' note of
             None \<Rightarrow> Inl (Key_error ''source_revision'')
           | Some r \<Rightarrow>
               if \<not> list_ex (\<lambda>v. cv_id v = l_conversation l \<and> cv_generation v = l_generation l \<and>
                     JInt (revision_of (cv_id v)) = r) (conversations d)
               then Inl (Conflict ''work_context_note_source_changed'')
               else case List.find (note_guard l i expected) (works d) of
                 None \<Rightarrow> Inl (Conflict ''work_context_note_obsolete'')
               | Some w \<Rightarrow>
                   ebind (add_refs available ''work_note'' i handles refs) (\<lambda>refs'.
                     Inr (note_row now note w,
                       filter (\<lambda>(kind, owner, h). \<not> (kind = ''work_note'' \<and> owner = i \<and> h \<notin> set handles)) refs',
                       d\<lparr>works := update_where (note_guard l i expected) (note_row now note) (works d)\<rparr>))))"

section \<open>Receipts of finished executions\<close>

definition completion_fields :: "string list" where
  "completion_fields = [''run_id'', ''status'', ''operation_status'', ''native_status'', ''native_pending'', ''pending'',
     ''uncertain'', ''exit_code'', ''error'', ''artifact_id'', ''artifacts'']"

definition shown_fields :: "string list" where
  "shown_fields = [''status'', ''operation_status'', ''native_status'', ''native_pending'', ''exit_code'', ''error'',
     ''artifact_id'', ''artifacts'']"

definition completion_value :: "json \<Rightarrow> json" where
  "completion_value completion =
     JObj (List.map_filter (\<lambda>k. map_option (Pair k) (json_extract [k] completion)) completion_fields)"

definition requested_run :: "string list \<Rightarrow> string list \<Rightarrow> sandbox_run_row \<Rightarrow> bool" where
  "requested_run run_ids request_ids t \<longleftrightarrow>
     (case sr_run_id t of None \<Rightarrow> False | Some r \<Rightarrow> r \<in> set (take 32 run_ids)) \<or>
     sr_request_id t \<in> set (take 32 request_ids)"

definition own_source :: "work_lease \<Rightarrow> string \<Rightarrow> json \<Rightarrow> bool" where
  "own_source l i source \<longleftrightarrow> json_extract [''work_id''] source = Some (JStr i) \<and>
     json_extract [''conversation_id''] source = Some (JStr (l_conversation l)) \<and>
     json_extract [''generation''] source = Some (JInt (l_generation l))"

definition child_receipt :: "work_lease \<Rightarrow> string \<Rightarrow> sandbox_run_row \<Rightarrow> json option" where
  "child_receipt l i t =
     (case (sr_completion t, sr_run_id t) of
        (Some completion, Some run) \<Rightarrow>
          (let v = completion_value completion in
           if own_source l i (sr_source t) \<and> json_get ''run_id'' v = Some (JStr run) \<and> execution_finished v
           then Some ((if json_get ''operation_status'' v = Some (JStr ''detached'')
                       then json_set ''status'' (JStr ''detached'') else id)
             (JObj ([(''run_id'', JStr run), (''request_id'', JStr (sr_request_id t)), (''pending'', JBool False)] @
               List.map_filter (\<lambda>k. map_option (Pair k) (json_get k v)) shown_fields)))
           else None)
      | _ \<Rightarrow> None)"

definition completed_children ::
  "db \<Rightarrow> clock \<Rightarrow> work_lease \<Rightarrow> string \<Rightarrow> string list \<Rightarrow> string list \<Rightarrow> work_error + json list" where
  "completed_children d now l i run_ids request_ids =
     (if run_ids = [] \<and> request_ids = [] then Inr []
      else if \<not> lease_valid d now l then Inl (Conflict ''work_activation_obsolete'')
      else Inr (List.map_filter (child_receipt l i)
        (take 64 (sort_key sr_request_id
          (filter (\<lambda>t. sr_conversation t = l_conversation l \<and> requested_run run_ids request_ids t \<and>
             sr_completion t \<noteq> None) (sandbox_runs d))))))"

section \<open>Images of an input\<close>

text \<open>An image is the object of its fields. The blobs are those the Work of the input refers to.\<close>

definition input_blobs :: "db \<Rightarrow> string option \<Rightarrow> json \<Rightarrow> blobs" where
  "input_blobs d owner encoded =
     filter (\<lambda>(h, content). JStr h \<in> references encoded \<and>
       (case owner of None \<Rightarrow> False | Some w \<Rightarrow> (w, h) \<in> set (media_refs d))) (media_blobs d)"

definition input_images :: "(string \<Rightarrow> string) \<Rightarrow> db \<Rightarrow> input_row \<Rightarrow> work_error + json" where
  "input_images sha d x =
     (let encoded = (case json_get ''images'' (in_payload x) of None \<Rightarrow> JArr [] | Some v \<Rightarrow> v)
      in if references encoded = {} then Inr encoded
         else case hydrate sha (input_blobs d (in_work_id x) encoded) encoded of
           None \<Rightarrow> Inl (Conflict ''work_input_media_missing'') | Some v \<Rightarrow> Inr v)"

section \<open>Interrupted preparations\<close>

definition abandoned :: "string \<Rightarrow> db \<Rightarrow> input_row list" where
  "abandoned process d =
     take 128 (sort_key in_id (filter (\<lambda>x. in_state x = Pending \<and> \<not> in_ready x \<and>
       (case in_prepare_owner x of None \<Rightarrow> False | Some p \<Rightarrow> p \<noteq> process)) (inputs d)))"

text \<open>
  What the reader prepares for an input: its row id and a payload with the publisher of the ordinary
  admission, or nothing when its source is gone. \<open>content\<close> is the text of the original event if that
  still stands in its conversation and generation, \<open>admit\<close> the publisher unless the admission cannot be
  prepared, \<open>notice\<close> the sentence about the interruption.
\<close>

type_synonym publisher = "db \<Rightarrow> int \<Rightarrow> work_error + db"

definition prepare_abandoned ::
  "string \<Rightarrow> (input_row \<Rightarrow> string option) \<Rightarrow> (input_row \<Rightarrow> publisher option) \<Rightarrow> input_row \<Rightarrow>
   int \<times> (json \<times> publisher option) option" where
  "prepare_abandoned notice content admit x =
     (in_id x,
      if in_kind x = ''message'' \<and> in_event_id x \<noteq> None then
        (case (content x, admit x) of
           (Some s, Some f) \<Rightarrow> Some (JObj [(''text'', JStr (notice @ s))], Some f)
         | _ \<Rightarrow> None)
      else if in_kind x = ''message'' \<and> \<not> truthy (in_payload x) then None
      else Some (in_payload x, None))"

text \<open>How \<open>repair_abandoned_inputs\<close> reads an exception; \<open>Fatal\<close> also if the write may have been committed.\<close>

datatype admission_failure = Duplicate | Source_changed | Fatal

fun repair_prepared ::
  "(string \<Rightarrow> string) \<Rightarrow> (work_error \<Rightarrow> admission_failure) \<Rightarrow> clock \<Rightarrow>
   (int \<times> (json \<times> publisher option) option) list \<Rightarrow> db \<Rightarrow> work_error + db" where
  "repair_prepared sha failure now [] d = Inr d"
| "repair_prepared sha failure now ((i, None) # ps) d = repair_prepared sha failure now ps (discard_input d now i)"
| "repair_prepared sha failure now ((i, Some (payload, publish)) # ps) d =
     (case prepare_input sha d d now i payload publish of
        Inr (b, d') \<Rightarrow> repair_prepared sha failure now ps d'
      | Inl e \<Rightarrow>
          (case failure e of
             Duplicate \<Rightarrow> repair_prepared sha failure now ps (discard_input d now i)
           | Source_changed \<Rightarrow> repair_prepared sha failure now ps d
           | Fatal \<Rightarrow> Inl e))"

definition repair_abandoned_inputs ::
  "string \<Rightarrow> (string \<Rightarrow> string) \<Rightarrow> (input_row \<Rightarrow> string option) \<Rightarrow> (input_row \<Rightarrow> publisher option) \<Rightarrow>
   (work_error \<Rightarrow> admission_failure) \<Rightarrow> string \<Rightarrow> db \<Rightarrow> clock \<Rightarrow> work_error + db" where
  "repair_abandoned_inputs notice sha content admit failure process d now =
     repair_prepared sha failure now (map (prepare_abandoned notice content admit) (abandoned process d)) d"

section \<open>Steps of the store\<close>

lemma derive_cases:
  assumes "derive enabled seen started d now l parent key goal i = Inr (r, d')"
  obtains (worker) brief k where "subagent_start enabled started d now l parent key brief i = Inr (k, d')"
    | (business) source row where
      "accept_in_session d now l (derived_admission source parent key goal i) = Inr (row, d')"
  using assms by (auto simp: derive_def derive_commit_def returns split: option.splits if_splits)

lemma derive_evolves:
  assumes "derive enabled seen started d now l parent key goal i = Inr (r, d')" "wf_store d"
  shows "evolves d d'"
  using assms(1)
proof (cases rule: derive_cases)
  case worker
  then show ?thesis using assms(2) by (rule subagent_start_evolves)
next
  case business
  then show ?thesis using assms(2) by (rule accept_evolves)
qed

lemma note_row_le: "note_guard l i expected w \<Longrightarrow> work_le w (note_row now note w)"
  by (auto simp: work_le_def final_row_def note_row_def note_guard_def terminal_def)

lemma patch_note_works:
  assumes "patch_context_note privacy rv available refs d now l i expected note = Inr (w, refs', d')"
  shows "d' = d\<lparr>works := update_where (note_guard l i expected) (note_row now note) (works d)\<rparr>"
  using assms by (auto simp: patch_context_note_def returns split: option.splits if_splits)

lemma patch_note_evolves:
  assumes "patch_context_note privacy rv available refs d now l i expected note = Inr (w, refs', d')"
  shows "evolves d d'"
  unfolding patch_note_works [OF assms] using note_row_le by (auto simp: evolves_def intro!: works.ok_update)

end
