(* ===== verification/Work_Protocol.thy ===== *)
theory Work_Protocol
  imports Work_Operations Work_Receipt_Steps Subagent_Steps Work_Wait_Steps Work_Maintenance
begin

text \<open>
  Executions of the Work runtime. \<open>work_step\<close> has one rule for every modelled writer that erases
  no row and takes none back; the stores that read phases saw are arbitrary, so every interleaving
  of readers and writers is covered. \<open>work_run\<close> is a sequence of steps. The recovery of staged
  inputs, the archive of ended trees and the privacy purge are not among them: they are the further
  steps of \<open>full_run\<close> in \<open>Work_Erasure\<close>. The properties rest on the lemmas of \<open>Work_Operations\<close>.
\<close>

section \<open>Steps\<close>

text \<open>The operations that grant or extend leases are the steps of \<open>Lease_Protocol\<close>.\<close>

inductive lease_op :: "db \<Rightarrow> db \<Rightarrow> bool" where
  "acquire_commit d now h conv gen secs = (r, d') \<Longrightarrow> lease_op d d'"
| "acquire_worker d now h wid = (Some l, d') \<Longrightarrow> lease_op d d'"
| "renew_commit d now l secs = (b, d') \<Longrightarrow> lease_op d d'"
| "lease_op d (release_commit d now l)"

text \<open>
  The stores that read phases saw are arbitrary, except that the reads of \<open>message\<close> and
  \<open>resume\<close> precede the store they write: what they rely on afterwards is that the parent of a
  Work never changes.
\<close>

text \<open>
  The owner columns stay or are cleared; a publication hook must respect that as well. A child
  row may change, but not the columns of a lease that is held.
\<close>

definition same_claim :: "child_row \<Rightarrow> child_row \<Rightarrow> bool" where
  "same_claim c c' \<longleftrightarrow> ch_work_id c = ch_work_id c' \<and> ch_owner c = ch_owner c' \<and>
     ch_fence c = ch_fence c' \<and> ch_lease_until c = ch_lease_until c' \<and>
     ch_cancel_epoch c = ch_cancel_epoch c' \<and> (ch_archived_at c' = None \<longrightarrow> ch_archived_at c = None)"

lemma same_claim_refl [simp]: "same_claim c c"
  by (simp add: same_claim_def)

lemma same_claim_trans: "same_claim a b \<Longrightarrow> same_claim b c \<Longrightarrow> same_claim a c"
  by (auto simp: same_claim_def)

definition claims_kept :: "child_row list \<Rightarrow> child_row list \<Rightarrow> bool" where
  "claims_kept cs cs' \<longleftrightarrow> (\<forall>c\<in>set cs'. ch_owner c = None \<or> (\<exists>c0\<in>set cs. same_claim c0 c))"

lemma claims_kept_refl [simp]: "claims_kept cs cs"
  by (simp add: claims_kept_def) (meson same_claim_refl)

lemma claims_kept_trans:
  assumes "claims_kept a b" "claims_kept b c"
  shows "claims_kept a c"
  unfolding claims_kept_def
proof (intro ballI disjCI)
  fix z assume z: "z \<in> set c" "\<not> (\<exists>x\<in>set a. same_claim x z)"
  show "ch_owner z = None"
  proof (rule ccontr)
    assume o: "ch_owner z \<noteq> None"
    then obtain y where y: "y \<in> set b" "same_claim y z" using assms(2) z(1) by (auto simp: claims_kept_def)
    then have "ch_owner y \<noteq> None" using o by (simp add: same_claim_def)
    then obtain x where "x \<in> set a" "same_claim x y" using assms(1) y(1) by (auto simp: claims_kept_def)
    then show False using z(2) y(2) same_claim_trans by blast
  qed
qed

lemma claims_kept_map:
  assumes "\<And>c. c \<in> set cs \<Longrightarrow> ch_owner (f c) = None \<or> same_claim c (f c)"
  shows "claims_kept cs (map f cs)"
  unfolding claims_kept_def
proof
  fix z assume "z \<in> set (map f cs)"
  then obtain c where c: "c \<in> set cs" "z = f c" by auto
  from assms [OF c(1)] show "ch_owner z = None \<or> (\<exists>c0\<in>set cs. same_claim c0 z)"
  proof (elim disjE)
    assume "ch_owner (f c) = None"
    then show ?thesis using c(2) by simp
  next
    assume "same_claim c (f c)"
    then show ?thesis using c by blast
  qed
qed

lemma claims_kept_update:
  "(\<And>c. ch_owner (f c) = None \<or> same_claim c (f c)) \<Longrightarrow> claims_kept cs (update_where p f cs)"
  unfolding update_where_def by (rule claims_kept_map) simp

text \<open>
  In the other direction: a lease that is held stays as it is, unless its cancel epoch is raised,
  which is how the code stops an activation. The rows themselves stay.
\<close>

definition scope_stays :: "scope_row \<Rightarrow> scope_row \<Rightarrow> bool" where
  "scope_stays s s' \<longleftrightarrow> sc_conversation s' = sc_conversation s \<and> sc_cancel_epoch s \<le> sc_cancel_epoch s' \<and>
     (sc_cancel_epoch s' = sc_cancel_epoch s \<longrightarrow> s' = s)"

definition scopes_stay :: "scope_row list \<Rightarrow> scope_row list \<Rightarrow> bool" where
  "scopes_stay ss ss' \<longleftrightarrow> (\<forall>s\<in>set ss. \<exists>s'\<in>set ss'. scope_stays s s')"

definition claim_stays :: "child_row \<Rightarrow> child_row \<Rightarrow> bool" where
  "claim_stays c c' \<longleftrightarrow> ch_work_id c' = ch_work_id c \<and> ch_cancel_epoch c \<le> ch_cancel_epoch c' \<and>
     (ch_owner c \<noteq> None \<and> ch_cancel_epoch c' = ch_cancel_epoch c \<longrightarrow> same_claim c c')"

definition claims_stay :: "child_row list \<Rightarrow> child_row list \<Rightarrow> bool" where
  "claims_stay cs cs' \<longleftrightarrow> (\<forall>c\<in>set cs. \<exists>c'\<in>set cs'. claim_stays c c')"

lemma stays_refl [simp]: "scope_stays s s" "claim_stays c c"
  by (simp_all add: scope_stays_def claim_stays_def)

lemma tables_stay_refl [simp]: "scopes_stay ss ss" "claims_stay cs cs"
  by (auto simp: scopes_stay_def claims_stay_def intro: stays_refl)

lemma scope_stays_trans: "scope_stays a b \<Longrightarrow> scope_stays b c \<Longrightarrow> scope_stays a c"
  by (auto simp: scope_stays_def)

lemma claim_staysD:
  assumes "claim_stays c c'"
  shows "ch_work_id c' = ch_work_id c" "ch_cancel_epoch c \<le> ch_cancel_epoch c'"
    "ch_owner c \<noteq> None \<Longrightarrow> ch_cancel_epoch c' = ch_cancel_epoch c \<Longrightarrow> same_claim c c'"
  using assms unfolding claim_stays_def by blast+

lemma claim_stays_trans:
  assumes "claim_stays a b" "claim_stays b c"
  shows "claim_stays a c"
proof -
  note ab = claim_staysD [OF assms(1)] and bc = claim_staysD [OF assms(2)]
  have "same_claim a c" if h: "ch_owner a \<noteq> None" "ch_cancel_epoch c = ch_cancel_epoch a"
  proof -
    have e: "ch_cancel_epoch b = ch_cancel_epoch a" using ab(2) bc(2) h(2) by linarith
    then have s: "same_claim a b" using ab(3) h(1) by blast
    then have "ch_owner b \<noteq> None" using h(1) by (simp add: same_claim_def)
    then have "same_claim b c" using bc(3) e h(2) by simp
    with s show ?thesis by (rule same_claim_trans)
  qed
  moreover have "ch_work_id c = ch_work_id a" using ab(1) bc(1) by simp
  moreover have "ch_cancel_epoch a \<le> ch_cancel_epoch c" using ab(2) bc(2) by linarith
  ultimately show ?thesis unfolding claim_stays_def by blast
qed

lemma scopes_stay_trans: "scopes_stay a b \<Longrightarrow> scopes_stay b c \<Longrightarrow> scopes_stay a c"
  unfolding scopes_stay_def by (meson scope_stays_trans)

lemma claims_stay_trans: "claims_stay a b \<Longrightarrow> claims_stay b c \<Longrightarrow> claims_stay a c"
  unfolding claims_stay_def by (meson claim_stays_trans)

lemmas tables_stay_trans = scopes_stay_trans claims_stay_trans

lemma scopes_stay_update:
  assumes "\<And>s. scope_stays s (f s)"
  shows "scopes_stay ss (update_where p f ss)"
  unfolding scopes_stay_def
proof
  fix s assume "s \<in> set ss"
  then have "(if p s then f s else s) \<in> set (update_where p f ss)" by (simp add: set_update_where)
  moreover have "scope_stays s (if p s then f s else s)" using assms by simp
  ultimately show "\<exists>s'\<in>set (update_where p f ss). scope_stays s s'" by blast
qed

lemma claims_stay_update:
  assumes "\<And>c. claim_stays c (g c)"
  shows "claims_stay cs (update_where q g cs)"
  unfolding claims_stay_def
proof
  fix c assume "c \<in> set cs"
  then have "(if q c then g c else c) \<in> set (update_where q g cs)" by (simp add: set_update_where)
  moreover have "claim_stays c (if q c then g c else c)" using assms by simp
  ultimately show "\<exists>c'\<in>set (update_where q g cs). claim_stays c c'" by blast
qed

lemmas tables_stay_update = scopes_stay_update claims_stay_update

definition lease_quiet :: "db \<Rightarrow> db \<Rightarrow> bool" where
  "lease_quiet d d' \<longleftrightarrow> conversations d' = conversations d \<and>
     (\<forall>s\<in>set (scopes d'). sc_owner s = None \<or> s \<in> set (scopes d)) \<and>
     claims_kept (children d) (children d') \<and>
     scopes_stay (scopes d) (scopes d') \<and> claims_stay (children d) (children d')"

text \<open>
  The publication of results clears the owner of a child whose lease ran out, and says so in the
  revision it notified.
\<close>

definition lease_published :: "db \<Rightarrow> db \<Rightarrow> bool" where
  "lease_published d d' \<longleftrightarrow> conversations d' = conversations d \<and> scopes d' = scopes d \<and>
     claims_kept (children d) (children d') \<and>
     (\<forall>c\<in>set (children d). \<exists>c'\<in>set (children d'). ch_work_id c' = ch_work_id c \<and>
        (same_claim c c' \<or> ch_notified_revision c < ch_notified_revision c'))"

inductive store_op :: "db \<Rightarrow> db \<Rightarrow> bool" where
  obsolete: "acquire_worker d now h wid = (None, d') \<Longrightarrow> store_op d d'"
| cancel: "store_op d (cancel_scope d now conv g)"
| accept: "accept_in_session d now l a = Inr (row, d') \<Longrightarrow> store_op d d'"
| commit: "commit_state d now l i st revision reason goal x detail = Inr (row, d') \<Longrightarrow> store_op d d'"
| stop: "store_op d (stop_owned_execution d now i reason)"
| control: "accept_control d now l i c = Inr (row, d') \<Longrightarrow> store_op d d'"
| checkpoint: "checkpoint d now l i p m t n = Inr d' \<Longrightarrow> store_op d d'"
| enqueue: "enqueue process seen d now q = Inr (k, d') \<Longrightarrow> store_op d d'"
| prepare: "prepare_input sha seen d now k payload publish = Inr (b, d') \<Longrightarrow>
    (\<forall>f x y. publish = Some f \<longrightarrow> f x k = Inr y \<longrightarrow> evolves x y \<and> lease_quiet x y) \<Longrightarrow> store_op d d'"
| discard: "store_op d (discard_input d now k)"
| stage: "stage d now l ids attempt = Inr d' \<Longrightarrow> store_op d d'"
| consume: "consume d now l attempt = Inr d' \<Longrightarrow> store_op d d'"
| route: "route_child_completion hint seen d now rid = Inr d' \<Longrightarrow> store_op d d'"
| confirm: "confirm_child_completion seen d now rid = (b, d') \<Longrightarrow> store_op d d'"
| reclaim: "store_op d (reclaim_unreferenced_media seen d)"
| intent: "prepare_effect d now l i key kind oc iv cm = Inr (b, d') \<Longrightarrow> store_op d d'"
| dispatch: "admit_dispatch seen d now l i key charged = Inr (b, d') \<Longrightarrow> store_op d d'"
| bind: "bind_domain_receipt d now i key ref = Inr d' \<Longrightarrow> store_op d d'"
| reserve: "reserve d now l cur key kind payload cnt = Inr d' \<Longrightarrow> store_op d d'"
| receipt: "store_op d (record_delivery d now key st receipt)"
| outcome: "record_attempt legacy original hook key st rc media seen d now privacy = Inr (b, d') \<Longrightarrow>
    (\<forall>x i y. hook x i = Inr y \<longrightarrow> evolves x y \<and> lease_quiet x y) \<Longrightarrow> store_op d d'"
| settle: "resolve_page d now l i page = Inr d' \<Longrightarrow>
    prepared_page run_id out key request_id page \<Longrightarrow> store_op d d'"
| boundary: "publish_code_boundary refs loads hook seen d now sr privacy l i pk n cm child b side = Inr d' \<Longrightarrow>
    (\<forall>x y. hook x = Inr y \<longrightarrow> evolves x y \<and> lease_quiet x y) \<Longrightarrow> store_op d d'"
| spawn: "subagent_start enabled seen d now l parent key brief i = Inr (k, d') \<Longrightarrow> store_op d d'"
| mail: "subagent_message seen d now l parent i key body ask rt tp = Inr (b, d') \<Longrightarrow>
    evolves seen d \<Longrightarrow> wf_store seen \<Longrightarrow> store_op d d'"
| resume: "subagent_resume seen d now l parent i key instruction = Inr d' \<Longrightarrow>
    evolves seen d \<Longrightarrow> wf_store seen \<Longrightarrow> store_op d d'"
| manage: "manage_work uuid d now i revision action why = Inr (r, st, d') \<Longrightarrow> store_op d d'"
| cancel_child: "subagent_cancel uuid seen d now l parent i = Inr d' \<Longrightarrow> store_op d d'"
| publish: "finish_results py_str detail d now ps = Inr (ids, d') \<Longrightarrow> store_op d d'"
| register: "register_wait parse root_of may_wake newest d started now l q i = Inr (y, d') \<Longrightarrow> store_op d d'"
| unwait: "cancel_wait d now l i = Inr (b, d') \<Longrightarrow> store_op d d'"
| due: "deliver_due seen observed d now = (n, d') \<Longrightarrow> store_op d d'"
| event: "apply_event events hook kind e prepared d now = Inr (k, d') \<Longrightarrow>
    (\<forall>f x i y. hook = Some f \<longrightarrow> f x i = Inr y \<longrightarrow> evolves x y \<and> lease_quiet x y) \<Longrightarrow> store_op d d'"
| reply: "match_user_reply process root_of answered events d now e = (k, d') \<Longrightarrow> store_op d d'"
| derive: "derive enabled seen started d now l parent key goal i = Inr (r, d') \<Longrightarrow> store_op d d'"
| context_note: "patch_context_note privacy rv available refs d now l i expected note = Inr (w, refs', d') \<Longrightarrow> store_op d d'"
| attention: "store_op d (signal_external_action d now i run binding cs)"

definition work_step :: "db \<Rightarrow> db \<Rightarrow> bool" where
  "work_step d d' \<longleftrightarrow> lease_op d d' \<or> store_op d d'"

inductive work_run :: "db \<Rightarrow> db \<Rightarrow> bool" where
  stop: "work_run d d"
| step: "work_run d d' \<Longrightarrow> work_step d' d'' \<Longrightarrow> work_run d d''"

lemma lease_op_evolves: "lease_op d d' \<Longrightarrow> evolves d d'"
  by (induction rule: lease_op.induct)
    (auto intro: acquire_commit_evolves acquire_worker_evolves renew_commit_evolves
      release_commit_evolves)

lemma store_op_evolves: "store_op d d' \<Longrightarrow> wf_store d \<Longrightarrow> evolves d d'"
proof (induction rule: store_op.induct)
  case (prepare sha seen d now k payload publish b d')
  then show ?case using prepare_input_evolves [OF prepare(1)] by blast
next
  case outcome
  then show ?case using record_attempt_evolves [OF outcome(1)] by blast
next
  case boundary
  then show ?case using publish_code_boundary_evolves [OF boundary(1)] by blast
next
  case event
  then show ?case using apply_event_step [OF event(1)] by blast
next
  case register
  then show ?case using register_wait_step by (simp add: wait_step_def)
next
  case unwait
  then show ?case using cancel_wait_step by (simp add: wait_step_def)
next
  case due
  then show ?case using deliver_due_step by (simp add: wait_step_def)
next
  case reply
  then show ?case using match_user_reply_step by (simp add: wait_step_def)
next
  case attention
  then show ?case using action_step by (simp add: wait_step_def)
next
  case derive
  then show ?case by (rule derive_evolves)
next
  case context_note
  show ?case by (rule patch_note_evolves [OF context_note(1)])
qed (auto intro: acquire_worker_evolves cancel_scope_evolves accept_evolves commit_state_evolves
    stop_owned_evolves accept_control_evolves checkpoint_evolves enqueue_evolves
    discard_input_evolves stage_evolves consume_evolves route_child_completion_evolves
    confirm_child_completion_evolves reclaim_evolves prepare_effect_evolves
    admit_dispatch_evolves bind_domain_receipt_evolves reserve_evolves record_delivery_evolves
    resolve_page_evolves subagent_start_evolves subagent_message_evolves subagent_resume_evolves
    manage_work_evolves subagent_cancel_evolves finish_results_evolves)

lemma work_step_evolves: "work_step d d' \<Longrightarrow> wf_store d \<Longrightarrow> evolves d d'"
  using lease_op_evolves store_op_evolves by (auto simp: work_step_def)

lemma work_run_evolves: "work_run d d' \<Longrightarrow> wf_store d \<Longrightarrow> evolves d d'"
proof (induction rule: work_run.induct)
  case (step d d' d'')
  then have "evolves d d'" by blast
  with step work_step_evolves evolves_wf evolves_trans show ?case by metis
qed simp

lemma work_run_wf: "work_run d d' \<Longrightarrow> wf_store d \<Longrightarrow> wf_store d'"
  using work_run_evolves evolves_wf by blast

lemma work_run_trans: "work_run d' d'' \<Longrightarrow> work_run d d' \<Longrightarrow> work_run d d''"
  by (induction rule: work_run.induct) (auto intro: work_run.step)

text \<open>The repair of interrupted preparations is a run of its transactions.\<close>

lemma one_store_op: "store_op d d' \<Longrightarrow> work_run d d'"
  using work_run.step [OF work_run.stop] by (simp add: work_step_def)

definition quiet_publisher :: "publisher \<Rightarrow> bool" where
  "quiet_publisher f \<longleftrightarrow> (\<forall>x k y. f x k = Inr y \<longrightarrow> evolves x y \<and> lease_quiet x y)"

lemma quiet_publisherD: "quiet_publisher f \<Longrightarrow> f x k = Inr y \<Longrightarrow> evolves x y \<and> lease_quiet x y"
  unfolding quiet_publisher_def by blast

lemma repair_prepared_run:
  assumes "repair_prepared sha failure now ps d = Inr d'"
    and "\<forall>i payload f. (i, Some (payload, Some f)) \<in> set ps \<longrightarrow> quiet_publisher f"
  shows "work_run d d'"
  using assms
proof (induction sha failure now ps d rule: repair_prepared.induct)
  case (2 sha failure now i ps d)
  have "work_run (discard_input d now i) d'" using 2 by auto
  then show ?case by (rule work_run_trans) (rule one_store_op [OF store_op.discard])
next
  case (3 sha failure now i payload publish ps d)
  show ?case
  proof (cases "prepare_input sha d d now i payload publish")
    case (Inr r)
    obtain b d1 where r: "r = (b, d1)" by (cases r)
    have "publish = Some f \<Longrightarrow> quiet_publisher f" for f using 3(5) by simp
    then have "store_op d d1"
      by (intro store_op.prepare [OF Inr [unfolded r]] allI impI) (rule quiet_publisherD)
    moreover have "work_run d1 d'" using 3 Inr r by auto
    ultimately show ?thesis using work_run_trans one_store_op by blast
  next
    case (Inl e)
    then have "work_run (discard_input d now i) d' \<or> work_run d d'"
      using 3 by (auto split: admission_failure.splits)
    then show ?thesis using work_run_trans one_store_op [OF store_op.discard] by blast
  qed
qed (simp add: work_run.stop)

lemma repair_abandoned_run:
  assumes "repair_abandoned_inputs notice sha content admit failure process d now = Inr d'"
    and "\<forall>x f. admit x = Some f \<longrightarrow> quiet_publisher f"
  shows "work_run d d'"
  by (rule repair_prepared_run [OF assms(1) [unfolded repair_abandoned_inputs_def]])
    (use assms(2) in \<open>auto simp: prepare_abandoned_def split: if_splits option.splits\<close>)

section \<open>Leases are left alone\<close>

lemma lease_quiet_same:
  "conversations d' = conversations d \<Longrightarrow> scopes d' = scopes d \<Longrightarrow> children d' = children d \<Longrightarrow>
    lease_quiet d d'"
  by (simp add: lease_quiet_def)

lemma lease_quiet_refl [simp]: "lease_quiet d d"
  by (simp add: lease_quiet_def)

lemma lease_quiet_trans: "lease_quiet d d' \<Longrightarrow> lease_quiet d' d'' \<Longrightarrow> lease_quiet d d''"
  unfolding lease_quiet_def using claims_kept_trans tables_stay_trans by auto

lemma revoke_stays [simp]: "claim_stays c (revoke_child c)" "scope_stays s (revoke_scope g s)"
  by (simp_all add: claim_stays_def scope_stays_def revoke_child_def drop_child_def revoke_scope_def
      drop_scope_def)

lemma revoked_owner [simp]: "ch_owner (revoke_child c) = None" "sc_owner (revoke_scope g s) = None"
  by (simp_all add: revoke_child_def drop_child_def revoke_scope_def drop_scope_def)

lemma stop_owned_quiet: "lease_quiet d (stop_owned_execution d now i reason)"
  by (auto simp: stop_owned_execution_def Let_def lease_quiet_def set_update_where
      intro: claims_kept_update tables_stay_update)

lemma record_exit_quiet: "lease_quiet d (record_exit d l now i x detail)"
  by (auto simp: record_exit_def intro: lease_quiet_same split: option.split)

lemma close_waits_quiet: "lease_quiet d (close_waits d now i)"
  by (simp add: close_waits_def lease_quiet_same)

lemma notify_parent_quiet: "lease_quiet d (notify_parent d now row)"
  by (auto simp: notify_parent_def intro: lease_quiet_same split: option.split)

lemma after_state_quiet: "lease_quiet d (after_state d now l i s reason goal detail row)"
  unfolding after_state_def Let_def
  using stop_owned_quiet record_exit_quiet close_waits_quiet notify_parent_quiet
  by (smt (verit, best) lease_quiet_refl lease_quiet_trans)

lemma commit_state_quiet:
  assumes "commit_state d now l i st revision reason goal x detail = Inr (row, d')"
  shows "lease_quiet d d'"
proof -
  obtain d1 s where "d' = after_state d1 now l i s reason goal detail row" "lease_quiet d d1"
    using assms by (auto simp: commit_state_def Let_def lease_quiet_def split: option.splits)
  then show ?thesis using after_state_quiet lease_quiet_trans by blast
qed

lemma charge_quiet: "charge d i m t = Inr d' \<Longrightarrow> lease_quiet d d'"
  by (elim charge_cases) (simp_all add: lease_quiet_same)

lemma accept_quiet: "accept_in_session d now l a = Inr (row, d') \<Longrightarrow> lease_quiet d d'"
  by (auto simp: accept_in_session_def admit_row_def insert_work_def lease_quiet_def
      split: if_splits sum.splits option.splits)

lemma resume_work_quiet: "resume_work d now q = Inr d' \<Longrightarrow> lease_quiet d d'"
  by (auto simp: resume_work_def lease_quiet_def split: if_splits)

lemma enqueue_commit_quiet:
  assumes "enqueue_commit process d now q = Inr (k, d')"
  shows "lease_quiet d d'"
proof -
  let ?d1 = "d\<lparr>inputs := insert_ignore in_source_key (eq_row process d now q) (inputs d)\<rparr>"
  have "d' = ?d1 \<or> resume_work ?d1 now q = Inr d'"
    using assms unfolding enqueue_commit_def Let_def
    by (auto split: sum.splits option.splits if_splits)
  moreover have "lease_quiet d ?d1" by (simp add: lease_quiet_same)
  ultimately show ?thesis
    using resume_work_quiet lease_quiet_trans by blast
qed

lemma enqueue_quiet: "enqueue process seen d now q = Inr (k, d') \<Longrightarrow> lease_quiet d d'"
  by (auto simp: enqueue_def split: if_splits option.splits intro: enqueue_commit_quiet)

lemma checkpoint_quiet:
  assumes "checkpoint d now l i p m t n = Inr d'"
  shows "lease_quiet d d'"
proof -
  obtain d1 f where d1: "(if m \<noteq> 0 \<or> t \<noteq> 0 then charge d i m t else Inr d) = Inr d1"
    and d': "d' = d1\<lparr>works := f\<rparr>"
    using assms by (auto simp: checkpoint_def split: if_splits sum.splits)
  then have "lease_quiet d d1" using charge_quiet by (auto split: if_splits)
  then show ?thesis using d' by (simp add: lease_quiet_def)
qed

lemma prepare_quiet:
  assumes "prepare_input sha seen d now k payload publish = Inr (b, d')"
    and "\<forall>f x y. publish = Some f \<longrightarrow> f x k = Inr y \<longrightarrow> lease_quiet x y"
  shows "lease_quiet d d'"
proof -
  have hook: "publish_hook publish k x = Inr y \<Longrightarrow> lease_quiet x y" for x y
    using assms(2) by (auto simp: publish_hook_def split: option.splits)
  have mark: "lease_quiet d (mark_prepared d k prep)" for prep
    by (simp add: mark_prepared_def lease_quiet_same)
  have media: "add_media owner blobs x = Inr y \<Longrightarrow> lease_quiet x y" for owner blobs x y
    by (auto simp: add_media_def lease_quiet_same split: if_splits option.splits)
  have wake: "lease_quiet x (wake_prepared x now k)" for x
    by (simp add: wake_prepared_def lease_quiet_same)
  show ?thesis
    using assms(1)
  proof (cases rule: prepare_input_cases)
    case (published prep blobs owner d1 d2)
    then show ?thesis
      using mark hook media wake lease_quiet_trans by metis
  qed (use hook in simp_all)
qed

lemma admit_dispatch_quiet:
  assumes "admit_dispatch seen d now l i key c = Inr (b, d')"
  shows "lease_quiet d d'"
proof -
  obtain original s where "d' = d \<or> dispatch_commit d now l i key c original s = Inr (b, d')"
    using assms unfolding admit_dispatch_def
    by (auto split: option.splits if_splits json.splits)
  then show ?thesis
  proof
    assume c: "dispatch_commit d now l i key c original s = Inr (b, d')"
    let ?d1 = "d\<lparr>effects := update_where (dispatch_guard original i key)
      (\<lambda>e. e\<lparr>ef_receipt := s, ef_updated := now\<rparr>) (effects d)\<rparr>"
    consider "d' = d" | "d' = ?d1" | d2 f where "charge ?d1 i 0 1 = Inr d2" "d' = d2\<lparr>works := f\<rparr>"
      using c unfolding dispatch_commit_def Let_def
      by (auto split: sum.splits if_splits)
    then show ?thesis
    proof cases
      case (3 d2 f)
      then have "lease_quiet ?d1 d2" by (simp add: charge_quiet)
      then show ?thesis using 3(2) by (simp add: lease_quiet_def)
    qed (simp_all add: lease_quiet_same)
  qed simp
qed

lemma route_quiet: "route_child_completion hint seen d now rid = Inr d' \<Longrightarrow> lease_quiet d d'"
  by (auto simp: route_child_completion_def route_to_parent_def Let_def
      intro: lease_quiet_same split: option.splits if_splits)

lemma confirm_quiet: "confirm_child_completion seen d now rid = (b, d') \<Longrightarrow> lease_quiet d d'"
  by (auto simp: confirm_child_completion_def confirm_commit_def Let_def
      intro!: lease_quiet_same split: option.splits if_splits)

lemma reserve_quiet: "reserve d now l cur key kind payload cnt = Inr d' \<Longrightarrow> lease_quiet d d'"
  by (elim reserve_cases) (simp_all add: lease_quiet_same count_sent_def)

lemma obsolete_quiet: "acquire_worker d now h wid = (None, d') \<Longrightarrow> lease_quiet d d'"
  by (auto simp: acquire_worker_def intro: lease_quiet_same split: option.splits if_splits)

lemma cancel_scope_quiet: "lease_quiet d (cancel_scope d now conv g)"
  by (auto simp: cancel_scope_def Let_def lease_quiet_def set_update_where
      intro: claims_kept_update tables_stay_update)

lemma outcome_quiet:
  assumes "record_attempt legacy original hook key st rc media seen d now privacy = Inr (b, d')"
    and "\<And>x i y. hook x i = Inr y \<Longrightarrow> lease_quiet x y"
  shows "lease_quiet d d'"
  by (rule record_attempt_step [OF assms(1), of lease_quiet])
    (use assms(2) lease_quiet_trans in \<open>auto intro: lease_quiet_same\<close>)

lemma resolve_fold_quiet: "lease_quiet d (fold (resolve_one now l i) page d)"
proof (induction page arbitrary: d)
  case (Cons p page)
  have "lease_quiet d (resolve_one now l i p d)" by (simp add: resolve_one_def lease_quiet_same)
  then show ?case using Cons lease_quiet_trans by (metis fold_simps(2))
qed simp

lemma boundary_quiet:
  assumes "publish_code_boundary refs loads hook seen d now sr privacy l i pk n cm child b side = Inr d'"
    and "\<And>x y. hook x = Inr y \<Longrightarrow> lease_quiet x y"
  shows "lease_quiet d d'"
  using assms(1)
proof (cases rule: publish_boundary_cases)
  case (1 original c d2)
  have "lease_quiet d d2"
    using 1(2) by (auto simp: insert_child_def boundary_update_def intro: lease_quiet_same split: if_splits)
  then show ?thesis using assms(2) [OF 1(3)] by (rule lease_quiet_trans)
qed

lemma claims_kept_append: "ch_owner c = None \<Longrightarrow> claims_kept cs (cs @ [c])"
  unfolding claims_kept_def by (metis Un_iff empty_iff list.set(1) list.simps(15) insert_iff same_claim_refl set_append)

lemma claims_stay_append: "claims_stay cs (cs @ xs)"
  by (auto simp: claims_stay_def intro: stays_refl)

lemma insert_child_quiet: "insert_child_row c d = Inr d' \<Longrightarrow> ch_owner c = None \<Longrightarrow> lease_quiet d d'"
  by (simp add: insert_child_row_def lease_quiet_def claims_kept_append split: if_splits)
    (auto simp: claims_kept_append claims_stay_append)

lemma spawn_quiet:
  assumes "subagent_start enabled seen d now l parent key brief i = Inr (k, d')"
  shows "lease_quiet d d'"
proof -
  obtain goal snapshot where "start_commit enabled d now l parent key brief goal i snapshot = Inr (k, d')"
    using subagent_start_commit [OF assms] .
  then show ?thesis
  proof (cases rule: start_commit_cases)
    case (fresh row d1)
    show ?thesis
      by (rule lease_quiet_trans [OF accept_quiet [OF fresh(2)] insert_child_quiet [OF fresh(3)]])
        (simp add: new_child_row_def)
  qed simp
qed

lemma mail_quiet: "subagent_message seen d now l parent i key body ask rt tp = Inr (b, d') \<Longrightarrow> lease_quiet d d'"
  by (rule lease_quiet_same) (auto simp: subagent_message_def mail_commit_def deliver_mail_def Let_def returns
      close_waits_def split: if_splits option.splits)

lemma resume_quiet: "subagent_resume seen d now l parent i key instruction = Inr d' \<Longrightarrow> lease_quiet d d'"
proof (cases "truthy_str instruction")
  case False
  assume "subagent_resume seen d now l parent i key instruction = Inr d'"
  then have "conversations d' = conversations d \<and> scopes d' = scopes d \<and> children d' = children d"
    using False by (simp add: subagent_resume_def returns Let_def close_waits_def split: if_splits option.splits)
      auto
  then show ?thesis by (simp add: lease_quiet_same)
qed (auto simp: subagent_resume_def returns dest: mail_quiet)

lemma stop_work_quiet: "lease_quiet d (stop_work d now w revision st why)"
proof -
  let ?d1 = "stop_owned_execution d now (w_id w) (Some why)"
  have "lease_quiet ?d1 (stop_work d now w revision st why)"
    by (rule lease_quiet_same) (simp_all add: stop_work_def tell_parent_def Let_def split: option.split)
  then show ?thesis using stop_owned_quiet lease_quiet_trans by blast
qed

lemma manage_quiet:
  assumes "manage_work uuid d now i revision action why = Inr (r, st, d')"
  shows "lease_quiet d d'"
proof -
  obtain w where w: "lookup_by w_id i (works d) = Some w"
    using assms by (auto simp: manage_work_def split: if_splits option.splits)
  consider (stop) st' y where "d' = stop_work d now w revision st' y"
    | (resume) f where "d' = (close_waits d now i)\<lparr>works := f\<rparr>"
    using assms w by (auto simp: manage_work_def Let_def split: if_splits option.splits)
  then show ?thesis
  proof cases
    case resume
    then show ?thesis by (simp add: lease_quiet_same close_waits_def)
  qed (simp add: stop_work_quiet)
qed

lemma cancel_child_quiet: "subagent_cancel uuid seen d now l parent i = Inr d' \<Longrightarrow> lease_quiet d d'"
  by (auto simp: subagent_cancel_def split: sum.splits option.splits dest: manage_quiet)

lemma publish_row_claim:
  assumes "publishable d now p c"
  shows "same_claim c (publish_row py_str p c) \<or>
    ch_notified_revision c < ch_notified_revision (publish_row py_str p c)"
  using assms
  by (auto simp: publish_row_def same_claim_def publishable_def publish_claim_def split: option.splits)

lemma publish_quiet:
  assumes "finish_results py_str detail d now ps = Inr (ids, d')"
  shows "lease_published d d'"
proof -
  have "\<exists>c'\<in>set (publish_rows py_str d now ps). ch_work_id c' = ch_work_id c \<and>
      (same_claim c c' \<or> ch_notified_revision c < ch_notified_revision c')" if c: "c \<in> set (children d)" for c
  proof (cases "List.find (\<lambda>p. publishable d now p c) ps")
    case None
    then have "c \<in> set (publish_rows py_str d now ps)"
      using c unfolding publish_rows_def by force
    then show ?thesis using same_claim_refl by blast
  next
    case (Some p)
    then have "publish_row py_str p c \<in> set (publish_rows py_str d now ps)"
      using c unfolding publish_rows_def by force
    moreover have "publishable d now p c" using Some by (auto simp: find_Some_iff)
    moreover have "ch_work_id (publish_row py_str p c) = ch_work_id c" by (simp add: publish_row_def)
    ultimately show ?thesis using publish_row_claim by blast
  qed
  note rows = this
  have "claims_kept (children d) (publish_rows py_str d now ps)"
    unfolding publish_rows_def
    by (rule claims_kept_map) (auto simp: publish_row_def same_claim_def split: option.split)
  moreover have same: "conversations (fold (result_notice py_str detail now) ns x) = conversations x \<and>
      scopes (fold (result_notice py_str detail now) ns x) = scopes x \<and>
      children (fold (result_notice py_str detail now) ns x) = children x" for ns x
    by (induction ns arbitrary: x) (simp_all add: result_notice_def)
  ultimately show ?thesis
    using assms rows by (auto simp: finish_results_def Let_def wake_parents_def lease_published_def split: if_splits)
qed

lemma wait_step_quiet: "wait_step d d' \<Longrightarrow> lease_quiet d d'"
  by (simp add: wait_step_def wait_frame_def lease_quiet_same)

lemma event_quiet:
  assumes "apply_event events hook kind e prepared d now = Inr (k, d')"
    and "\<And>f x i y. hook = Some f \<Longrightarrow> f x i = Inr y \<Longrightarrow> lease_quiet x y"
  shows "lease_quiet d d'"
proof (rule apply_event_parts [OF assms(1)])
  fix d1 delivered
  assume "wait_step d d1" "delivery_hook hook delivered d1 = Inr d'"
  then show ?thesis
    using assms(2) wait_step_quiet lease_quiet_trans by (fastforce simp: delivery_hook_def split: option.splits)
qed (simp add: lease_quiet_same)

lemma derive_quiet:
  assumes "derive enabled seen started d now l parent key goal i = Inr (r, d')"
  shows "lease_quiet d d'"
  using assms
proof (cases rule: derive_cases)
  case worker
  then show ?thesis by (rule spawn_quiet)
next
  case business
  then show ?thesis by (rule accept_quiet)
qed

lemma store_op_quiet: "store_op d d' \<Longrightarrow> lease_quiet d d' \<or> lease_published d d'"
proof (induction rule: store_op.induct)
  case (prepare sha seen d now k payload publish b d')
  then show ?case using prepare_quiet [OF prepare(1)] by blast
next
  case (control d now l i c row d')
  then show ?case
    by (auto simp: accept_control_def set_accepted_control_def intro: lease_quiet_same
        split: sum.splits option.splits)
next
  case (discard d now k)
  show ?case by (auto simp: discard_input_def Let_def intro!: lease_quiet_same split: option.split)
next
  case (stage d now l ids attempt d')
  then show ?case by (auto simp: stage_def intro: lease_quiet_same split: if_splits sum.splits)
next
  case (consume d now l attempt d')
  then show ?case by (auto simp: consume_def intro: lease_quiet_same split: sum.splits)
next
  case (reclaim d seen)
  show ?case by (simp add: reclaim_unreferenced_media_def Let_def lease_quiet_same)
next
  case (intent d now l i key kind oc iv cm b d')
  then show ?case by (auto simp: prepare_effect_def intro: lease_quiet_same split: sum.splits if_splits)
next
  case (bind d now i key ref d')
  then show ?case by (auto simp: bind_domain_receipt_def intro: lease_quiet_same split: if_splits)
next
  case outcome
  then show ?case using outcome_quiet [OF outcome(1)] by blast
next
  case settle
  then show ?case using resolve_fold_quiet by (auto simp: resolve_page_def returns)
next
  case boundary
  then show ?case using boundary_quiet [OF boundary(1)] by blast
next
  case (receipt d now key st rcpt)
  show ?case by (simp add: record_delivery_def lease_quiet_same)
next
  case event
  then show ?case using event_quiet [OF event(1)] by blast
next
  case register
  then show ?case using register_wait_step wait_step_quiet by blast
next
  case unwait
  then show ?case using cancel_wait_step wait_step_quiet by blast
next
  case due
  then show ?case using deliver_due_step wait_step_quiet by blast
next
  case reply
  then show ?case using match_user_reply_step wait_step_quiet by blast
next
  case derive
  then show ?case by (intro disjI1) (rule derive_quiet)
next
  case context_note
  show ?case by (simp add: patch_note_works [OF context_note] lease_quiet_same)
next
  case attention
  show ?case using wait_step_quiet [OF action_step] by blast
qed (auto intro: spawn_quiet mail_quiet resume_quiet manage_quiet cancel_child_quiet publish_quiet
    obsolete_quiet cancel_scope_quiet accept_quiet commit_state_quiet stop_owned_quiet
    checkpoint_quiet enqueue_quiet route_quiet confirm_quiet admit_dispatch_quiet reserve_quiet)

lemma lease_quiet_frame:
  assumes "lease_quiet d d' \<or> lease_published d d'" "wf_store d'"
  shows "lease_frame d d'"
  unfolding lease_frame_def
proof (intro conjI ballI)
  show "unique_key sc_conversation (scopes d')" "unique_key ch_work_id (children d')"
    using assms(2) by (auto simp: wf_store_def wf_scopes_def wf_children_def)
  show "sc_owner s = None \<or> s \<in> set (scopes d)" if "s \<in> set (scopes d')" for s
    using that assms(1) by (auto simp: lease_quiet_def lease_published_def)
  fix c' assume "c' \<in> set (children d')"
  then show "ch_owner c' = None \<or> (\<exists>c\<in>set (children d). ch_work_id c = ch_work_id c' \<and>
      ch_owner c = ch_owner c' \<and> ch_fence c = ch_fence c' \<and> ch_lease_until c = ch_lease_until c' \<and>
      ch_cancel_epoch c = ch_cancel_epoch c' \<and> (ch_archived_at c' = None \<longrightarrow> ch_archived_at c = None))"
    using assms(1) unfolding lease_quiet_def lease_published_def claims_kept_def same_claim_def by blast
qed

end
