(* ===== verification/Work_Properties.thy ===== *)
theory Work_Properties
  imports Work_Protocol
begin

text \<open>
  Properties of the Work runtime: well-formedness over all runs, the compare-and-set of the state
  writer, and what settling a Work guarantees (nothing stranded, subtree stopped, parent told).
\<close>

section \<open>Facts about the state writer\<close>

lemma commit_state_row:
  assumes "commit_state d now l i st revision reason goal x detail = Inr (row, d')"
  obtains w s where "s = settle_state d now i st reason goal x"
    "w \<in> set (works d)" "state_guard l i revision w" "row = state_row d now s revision goal w"
    "d' = after_state (d\<lparr>works := update_where (state_guard l i revision)
        (state_row d now s revision goal) (works d)\<rparr>) now l i s reason goal detail row"
proof -
  let ?s = "settle_state d now i st reason goal x"
  obtain w where w: "List.find (state_guard l i revision) (works d) = Some w"
    and r: "row = state_row d now ?s revision goal w"
    and d': "d' = after_state (d\<lparr>works := update_where (state_guard l i revision)
        (state_row d now ?s revision goal) (works d)\<rparr>) now l i ?s reason goal detail row"
    using assms by (auto simp: commit_state_def Let_def split: option.splits)
  have "w \<in> set (works d)" "state_guard l i revision w"
    using w by (auto simp: find_Some_iff)
  then show ?thesis using that r d' by blast
qed

lemma state_row_simps [simp]:
  "w_id (state_row d now s revision goal w) = w_id w"
  "w_state (state_row d now s revision goal w) = se_state s"
  "w_reason (state_row d now s revision goal w) = se_reason s"
  "w_parent (state_row d now s revision goal w) = w_parent w"
  "w_conversation (state_row d now s revision goal w) = w_conversation w"
  "w_revision (state_row d now s revision goal w) =
     (case revision of None \<Rightarrow> w_revision w + 1 | Some r \<Rightarrow> r + 1)"
  by (simp_all add: state_row_def)

lemma after_state_steps:
  "\<exists>d1 d2 d3. (d1 = d \<or> d1 = stop_owned_execution d now i reason) \<and>
     d2 = record_exit d1 l now i (se_exit s) detail \<and> (d3 = d2 \<or> d3 = close_waits d2 now i) \<and>
     (after_state d now l i s reason goal detail row = d3 \<or>
      after_state d now l i s reason goal detail row = notify_parent d3 now row)"
  unfolding after_state_def Let_def by (auto split: if_splits)

lemma in_update: "r \<in> set rows \<Longrightarrow> p r \<Longrightarrow> f r \<in> set (update_where p f rows)"
  by (force simp: set_update_where)

lemma commit_state_successor:
  assumes "commit_state d now l i st revision reason goal x detail = Inr (row, d')" "wf_store d"
  shows "\<exists>w'. lookup_by w_id i (works d') = Some w' \<and> work_le row w' \<and> w_id row = i"
proof -
  from assms(1) obtain w s where w: "w \<in> set (works d)" "state_guard l i revision w"
    and row: "row = state_row d now s revision goal w"
    and d': "d' = after_state (d\<lparr>works := update_where (state_guard l i revision)
        (state_row d now s revision goal) (works d)\<rparr>) now l i s reason goal detail row"
    by (rule commit_state_row)
  let ?d1 = "d\<lparr>works := update_where (state_guard l i revision) (state_row d now s revision goal) (works d)\<rparr>"
  have "evolves d ?d1" by (auto simp: evolves_def intro!: table_updates)
  from this assms(2) have "wf_store ?d1" by (rule evolves_wf)
  then have wf: "wf_works (works ?d1)" by (simp add: wf_store_def)
  have "row \<in> set (works ?d1)"
    using w row by (simp add: in_update)
  moreover have "table_ok wf_works work_le (works ?d1) (works d')"
    unfolding d' by (rule evolves_tables(1) [OF after_state_evolves])
  moreover have "w_id row = i" using w row by (simp add: state_guard_def)
  ultimately show ?thesis
    using works.ok_lookup wf by blast
qed

section \<open>Well-formedness over all runs\<close>

text \<open>
  C21: Every run keeps all tables well formed: keys stay unique, and the Works stay a forest in
  which every Work has a lineage that ends at a root, so the budget of every Work is defined.
\<close>

theorem runs_keep_store_well_formed:
  assumes "wf_store d" "work_run d d'"
  shows "wf_store d' \<and>
    (\<forall>w\<in>set (works d'). rooted (lineage d' (w_id w)) \<and>
       budget_root_id d' (w_id w) = Inr (w_id (last (lineage d' (w_id w)))))"
proof -
  have wf: "wf_store d'" by (rule work_run_wf [OF assms(2,1)])
  then have "wf_tree d'" by (simp add: wf_store_def wf_works_def wf_tree_def)
  then show ?thesis
    using wf lineage_rooted budget_root_id_wf by blast
qed

section \<open>Compare and set\<close>

text \<open>
  C3: No update is lost. A transition raises the revision by one, and after it no later
  transition of the same Work against the old revision can succeed, whatever happened in
  between: the second writer gets a conflict or loses its lease.
\<close>

theorem transition_is_compare_and_set:
  assumes "wf_store d" "transition d now l i revision st reason goal x = Inr (row, d1)"
    and "work_run d1 d2"
  shows "w_revision row = revision + 1 \<and>
    (\<exists>w\<in>set (works d). w_id w = i \<and> w_revision w = revision) \<and>
    (\<forall>now' l' st' reason' goal' x' r. transition d2 now' l' i revision st' reason' goal' x' \<noteq> Inr r)"
proof -
  obtain s where c: "commit_state d now l i s (Some revision) reason goal x None = Inr (row, d1)"
    using assms(2) by (auto simp: transition_def split: option.splits if_splits sum.splits)
  from c obtain w s' where w: "w \<in> set (works d)" "state_guard l i (Some revision) w"
    and row: "row = state_row d now s' (Some revision) goal w"
    by (rule commit_state_row)
  have rv: "w_revision row = revision + 1" using row by simp
  have wf1: "wf_store d1"
    using transition_evolves [OF assms(2)] evolves_wf assms(1) by blast
  have no: "w_revision v \<noteq> revision" if v: "v \<in> set (works d2)" "w_id v = i" for v
  proof -
    obtain w1 where w1: "lookup_by w_id i (works d1) = Some w1" "work_le row w1"
      using commit_state_successor [OF c assms(1)] by blast
    have "table_ok wf_works work_le (works d1) (works d2)"
      using work_run_evolves [OF assms(3) wf1] by (simp add: evolves_def)
    then obtain w2 where w2: "lookup_by w_id (w_id w1) (works d2) = Some w2" "work_le w1 w2"
      using works.ok_lookup wf1 lookup_by_Some_set [OF w1(1)] by (metis wf_store_def)
    have "v = w2"
    proof (rule unique_keyD [of w_id "works d2"])
      show "unique_key w_id (works d2)"
        using work_run_wf [OF assms(3) wf1] by (simp add: wf_store_def wf_works_def)
    qed (use v w2 w1 lookup_by_Some_set in \<open>metis+\<close>)
    then show ?thesis
      using w1(2) w2(2) rv by (simp add: work_le_def)
  qed
  have "transition d2 now' l' i revision st' reason' goal' x' \<noteq> Inr r" for now' l' st' reason' goal' x' r
  proof
    assume "transition d2 now' l' i revision st' reason' goal' x' = Inr r"
    then obtain s2 where "commit_state d2 now' l' i s2 (Some revision) reason' goal' x' None = Inr (fst r, snd r)"
      by (auto simp: transition_def split: option.splits if_splits sum.splits)
    then obtain v where "v \<in> set (works d2)" "state_guard l' i (Some revision) v"
      by (rule commit_state_row)
    then show False using no by (auto simp: state_guard_def)
  qed
  then show ?thesis
    using rv w by (auto simp: state_guard_def)
qed

section \<open>What settling a Work guarantees\<close>

lemma mailbox_None:
  assumes "mailbox d i reason = None" "x \<in> set (inputs d)" "in_work_id x = Some i" "open_input x"
  shows "\<not> business_input x"
proof
  assume bus: "business_input x"
  let ?rows = "filter (\<lambda>x. in_work_id x = Some i \<and> open_input x \<and>
      (reason = Some ''work_input_preparing'' \<or> business_input x)) (inputs d)"
  have "sort_key in_id ?rows = []"
    using assms(1) unfolding mailbox_def by (cases "sort_key in_id ?rows") simp_all
  then have "set (sort_key in_id ?rows) = {}" by simp
  then have "set ?rows = {}" by (simp only: set_sort)
  moreover have "x \<in> set ?rows" using assms(2-4) bus by simp
  ultimately show False by simp
qed

lemma replace_exit_simps [simp]:
  "se_state (replace_exit x s) = se_state s" "se_reason (replace_exit x s) = se_reason s"
  "se_business (replace_exit x s) = se_business s" "se_draining (replace_exit x s) = se_draining s"
  by (simp_all add: replace_exit_def)

lemma settle_mailbox_cases:
  "(se_state (settle_mailbox d i s) \<in> {Queued, Waiting_external} \<and> se_business (settle_mailbox d i s)) \<or>
   se_state (settle_mailbox d i s) = Queued \<and> \<not> se_business s \<and> \<not> se_business (settle_mailbox d i s) \<or>
   settle_mailbox d i s = s"
  if "\<not> se_business s"
  using that by (auto simp: settle_mailbox_def split: option.split)

lemma settle_completed:
  assumes "se_state (settle_state d now i st reason goal x) = Completed"
  shows "mailbox d i reason = None \<and> \<not> owned_execution d now i \<and>
    \<not> keeps_control (settle_state d now i st reason goal x) \<and>
    \<not> se_business (settle_state d now i st reason goal x)"
proof -
  let ?s0 = "\<lparr>se_state = st, se_reason = reason, se_exit = x, se_business = False, se_draining = False\<rparr>"
  let ?s1 = "settle_mailbox d i ?s0"
  have sig: "se_state (settle_owned d now i ?s1) = Completed"
    and same: "settle_state d now i st reason goal x = settle_owned d now i ?s1"
    using assms by (auto simp: settle_state_def settle_signal_def split: if_splits)
  have own: "settle_owned d now i ?s1 = ?s1" "\<not> owned_execution d now i" "se_state ?s1 = Completed"
    using sig by (auto simp: settle_owned_def split: if_splits)
  have "?s1 = ?s0"
    using settle_mailbox_cases [of ?s0 d i] own(3) by auto
  moreover from this have "st = Completed" using own(3) by simp
  moreover have "mailbox d i reason = None \<and> reason \<noteq> Some ''work_input_preparing''"
    using own(3) \<open>st = Completed\<close> by (auto simp: settle_mailbox_def split: option.splits if_splits)
  ultimately show ?thesis
    using same own by (simp add: keeps_control_def)
qed

lemma settle_stopped:
  assumes "se_state (settle_state d now i st reason goal x) \<in> {Failed, Cancelled}"
  shows "\<not> se_business (settle_state d now i st reason goal x)"
proof -
  let ?s0 = "\<lparr>se_state = st, se_reason = reason, se_exit = x, se_business = False, se_draining = False\<rparr>"
  let ?s1 = "settle_mailbox d i ?s0"
  have "settle_state d now i st reason goal x = ?s1" "se_state ?s1 \<in> {Failed, Cancelled}"
    using assms by (auto simp: settle_state_def settle_signal_def settle_owned_def split: if_splits)
  then show ?thesis using settle_mailbox_cases [of ?s0 d i] by auto
qed

lemma settled_checkpoint:
  assumes "\<not> keeps_control s" "se_state s \<noteq> Waiting_external"
  shows "json_get ''accepted_control'' (settle_checkpoint d s goal w) = None"
  using assms by (auto simp: settle_checkpoint_def Let_def split: option.split)

lemma notify_parent_inputs:
  "y \<in> set (inputs (notify_parent d now row)) \<Longrightarrow> y \<in> set (inputs d) \<or> in_kind y = ''completion''"
  by (auto simp: notify_parent_def insert_ignore_def result_input_def split: option.splits if_splits)

lemma record_exit_frame [simp]:
  "inputs (record_exit d l now i x detail) = inputs d"
  "waits (record_exit d l now i x detail) = waits d"
  "works (record_exit d l now i x detail) = works d"
  "children (record_exit d l now i x detail) = children d"
  by (simp_all add: record_exit_def split: option.split)

lemma close_waits_frame [simp]:
  "inputs (close_waits d now i) = inputs d" "works (close_waits d now i) = works d"
  "children (close_waits d now i) = children d"
  by (simp_all add: close_waits_def)

lemma notify_parent_frame [simp]:
  "waits (notify_parent d now row) = waits d" "children (notify_parent d now row) = children d"
  by (simp_all add: notify_parent_def split: option.split)

lemma close_waits_closed:
  assumes "y \<in> set (waits (close_waits d now i))"
  shows "wa_work_id y = i \<longrightarrow> wa_status y \<noteq> Active"
proof -
  have "y \<in> set (update_where (\<lambda>y. wa_work_id y = i \<and> wa_status y = Active)
      (close_wait Wait_cancelled now) (waits d))"
    using assms by (simp add: close_waits_def)
  then show ?thesis by (rule update_where_all) (auto simp: close_wait_def)
qed

text \<open>
  C4: Completion strands nothing. When the state writer leaves a Work completed, no business
  input of it is still pending or staged, it owned no live worker or sandbox run, none of its
  waits is active, and its accepted decision has been settled.
\<close>

theorem completion_strands_nothing:
  assumes "commit_state d now l i st revision reason goal x detail = Inr (row, d')"
    and "w_state row = Completed"
  shows "(\<forall>y\<in>set (inputs d'). in_work_id y = Some i \<and> open_input y \<longrightarrow> \<not> business_input y) \<and>
    \<not> owned_execution d now i \<and> \<not> active_wait d' i \<and>
    json_get ''accepted_control'' (w_checkpoint row) = None"
proof -
  from assms(1) obtain w s where s: "s = settle_state d now i st reason goal x"
    and row: "row = state_row d now s revision goal w"
    and d': "d' = after_state (d\<lparr>works := update_where (state_guard l i revision)
        (state_row d now s revision goal) (works d)\<rparr>) now l i s reason goal detail row"
    by (rule commit_state_row)
  let ?d1 = "d\<lparr>works := update_where (state_guard l i revision) (state_row d now s revision goal) (works d)\<rparr>"
  let ?d2 = "record_exit ?d1 l now i (se_exit s) detail"
  have st: "se_state s = Completed" using assms(2) row by simp
  note c = settle_completed [OF st [unfolded s], folded s]
  have d3: "d' = notify_parent (close_waits ?d2 now i) now row"
    using d' assms(2) by (simp add: after_state_def terminal_def)
  have "\<not> business_input y" if y: "y \<in> set (inputs d')" "in_work_id y = Some i" "open_input y" for y
  proof -
    have "y \<in> set (inputs d) \<or> in_kind y = ''completion''"
      using notify_parent_inputs [of y "close_waits ?d2 now i" now row] y(1) d3 by simp
    then show ?thesis
      using mailbox_None c y by (auto simp: business_input_def)
  qed
  moreover have "\<not> active_wait d' i"
    using close_waits_closed [of _ ?d2 now i] unfolding d3 active_wait_def list_ex_iff
    by simp
  moreover have "json_get ''accepted_control'' (w_checkpoint row) = None"
    using settled_checkpoint c st row by (simp add: state_row_def)
  ultimately show ?thesis using c by blast
qed

lemma subtree_fuel_update:
  assumes "\<And>w. w_id (f w) = w_id w" "\<And>w. w_parent (f w) = w_parent w"
  shows "subtree_fuel n (update_where p f rows) ids = subtree_fuel n rows ids"
proof -
  have "map w_id (filter (\<lambda>w. \<exists>q\<in>set ids. w_parent w = Some q) (update_where p f rows)) =
      map w_id (filter (\<lambda>w. \<exists>q\<in>set ids. w_parent w = Some q) rows)" for ids
    by (induction rows) (simp_all add: assms)
  then show ?thesis
    by (induction n arbitrary: ids) simp_all
qed

lemma descendants_update:
  assumes "\<And>w. w_id (f w) = w_id w" "\<And>w. w_parent (f w) = w_parent w"
  shows "descendant_ids (d\<lparr>works := update_where p f (works d)\<rparr>) b i = descendant_ids d b i"
proof -
  have "map w_id (filter (\<lambda>w. w_id w = i) (update_where p f rows)) =
      map w_id (filter (\<lambda>w. w_id w = i) rows)" for rows
    by (induction rows) (simp_all add: assms)
  then show ?thesis
    by (simp add: descendant_ids_def descendants_def subtree_fuel_update assms)
qed

lemma stop_owned_effect:
  fixes d now i reason
  defines "tree \<equiv> set (descendant_ids d True i)"
  shows "w \<in> set (works (stop_owned_execution d now i reason)) \<Longrightarrow> w_id w \<in> tree \<Longrightarrow> w_id w \<noteq> i \<Longrightarrow>
      terminal (w_state w)"
    and "c \<in> set (children (stop_owned_execution d now i reason)) \<Longrightarrow> ch_work_id c \<in> tree \<Longrightarrow>
      ch_owner c = None"
    and "y \<in> set (waits (stop_owned_execution d now i reason)) \<Longrightarrow> wa_work_id y \<in> tree \<Longrightarrow>
      wa_status y \<noteq> Active"
    and "z \<in> set (inputs (stop_owned_execution d now i reason)) \<Longrightarrow>
      \<exists>j\<in>tree. in_work_id z = Some j \<Longrightarrow> \<not> open_input z"
  unfolding tree_def stop_owned_execution_def Let_def
  by (auto simp: set_update_where cancel_row_def terminal_def revoke_child_def drop_child_def
      close_wait_def withdraw_input_def open_input_def split: if_splits)

text \<open>
  C5: Failure and cancellation stop the subtree. When the state writer leaves a Work failed or
  cancelled, every Work below it is terminal, no worker of the subtree owns a lease and no wait
  of the subtree is active.
\<close>

theorem stopping_stops_subtree:
  assumes "wf_store d"
    and "commit_state d now l i st revision reason goal x detail = Inr (row, d')"
    and "w_state row \<in> {Failed, Cancelled}"
  shows "\<forall>j\<in>set (descendant_ids d True i).
    (\<forall>w\<in>set (works d'). w_id w = j \<longrightarrow> terminal (w_state w)) \<and>
    (\<forall>c\<in>set (children d'). ch_work_id c = j \<longrightarrow> ch_owner c = None) \<and>
    (\<forall>y\<in>set (waits d'). wa_work_id y = j \<longrightarrow> wa_status y \<noteq> Active)"
proof -
  from assms(2) obtain v s where s: "s = settle_state d now i st reason goal x"
    and v: "v \<in> set (works d)" "state_guard l i revision v"
    and row: "row = state_row d now s revision goal v"
    and d': "d' = after_state (d\<lparr>works := update_where (state_guard l i revision)
        (state_row d now s revision goal) (works d)\<rparr>) now l i s reason goal detail row"
    by (rule commit_state_row)
  let ?d1 = "d\<lparr>works := update_where (state_guard l i revision) (state_row d now s revision goal) (works d)\<rparr>"
  let ?d2 = "stop_owned_execution ?d1 now i reason"
  let ?d3 = "close_waits (record_exit ?d2 l now i (se_exit s) detail) now i"
  have st: "se_state s \<in> {Failed, Cancelled}" and tm: "terminal (w_state row)"
    using assms(3) row by (auto simp: terminal_def)
  have "\<not> se_business s" using settle_stopped st s by blast
  then have d3: "d' = notify_parent ?d3 now row"
    using d' assms(3) tm by (simp add: after_state_def)
  have tree: "descendant_ids ?d1 True i = descendant_ids d True i"
    by (rule descendants_update) (simp_all add: state_row_def)
  have self: "terminal (w_state w)" if "w \<in> set (works ?d1)" "w_id w = i" for w
  proof -
    from that(1) have w: "w \<in> set (update_where (state_guard l i revision) (state_row d now s revision goal) (works d))"
      by simp
    show ?thesis
    proof (cases "w \<in> set (works d) \<and> \<not> state_guard l i revision w")
      case True
      then have "w = v"
        using v that(2) assms(1) unique_keyD [of w_id "works d" w v]
        by (auto simp: wf_store_def wf_works_def state_guard_def)
      then show ?thesis using True v by simp
    next
      case False
      then obtain u where "w = state_row d now s revision goal u"
        using w by (auto simp: set_update_where split: if_splits)
      then show ?thesis using st by (auto simp: terminal_def)
    qed
  qed
  have works2: "terminal (w_state w)" if "w \<in> set (works ?d2)" "w_id w \<in> set (descendant_ids d True i)" for w
  proof (cases "w_id w = i")
    case True
    have "w \<in> set (works ?d1) \<or> (\<exists>u. w = cancel_row reason now u)"
      using that(1) by (auto simp: stop_owned_execution_def Let_def set_update_where)
    then show ?thesis
      using self True by (auto simp: cancel_row_def terminal_def)
  next
    case False
    then show ?thesis using stop_owned_effect(1) that tree by metis
  qed
  have "terminal (w_state w)" if w: "w \<in> set (works d')" "w_id w \<in> set (descendant_ids d True i)" for w
  proof -
    have "w \<in> set (works ?d2) \<or> (\<exists>u\<in>set (works ?d2). w_state u = Waiting_external \<and> w_id w = w_id u)"
      using w(1) unfolding d3 notify_parent_def
      by (auto simp: set_update_where wake_parent_def split: option.splits if_splits)
    moreover have "\<not> terminal Waiting_external" by (simp add: terminal_def)
    ultimately show ?thesis
      using works2 w(2) by metis
  qed
  moreover have "ch_owner c = None" if "c \<in> set (children d')" "ch_work_id c \<in> set (descendant_ids d True i)" for c
    using stop_owned_effect(2) [of c ?d1 now i reason] that tree by (simp add: d3)
  moreover have "wa_status y \<noteq> Active" if "y \<in> set (waits d')" "wa_work_id y \<in> set (descendant_ids d True i)" for y
  proof -
    have "y \<in> set (waits ?d2) \<or> (\<exists>z. y = close_wait Wait_cancelled now z)"
      using that(1) by (auto simp: d3 close_waits_def set_update_where)
    then show ?thesis
      using stop_owned_effect(3) [of y ?d1 now i reason] that(2) tree
      by (auto simp: close_wait_def)
  qed
  ultimately show ?thesis by blast
qed

text \<open>
  C6: The end of a plain business child reaches its parent. When the state writer ends a Work
  that has a parent and is not a worker, the parent's inbox holds the result input of that
  revision (a ready completion for the parent, unless that key was already there), and the parent
  is not left waiting unless one of its own waits is active.
\<close>

theorem child_result_reaches_parent:
  assumes "commit_state d now l i st revision reason goal x detail = Inr (row, d')"
    and "terminal (w_state row)" "w_parent row = Some pid" "w_id row \<notin> ch_work_id ` set (children d)"
  defines "key \<equiv> ''work-result:'' @ w_id row @ '':'' @ show_int (w_revision row)"
  shows "(\<exists>y\<in>set (inputs d'). in_source_key y = key \<and>
       (key \<notin> in_source_key ` set (inputs d) \<longrightarrow>
          in_work_id y = Some pid \<and> in_kind y = ''completion'' \<and> in_state y = Pending \<and> in_ready y)) \<and>
    (\<forall>w\<in>set (works d'). w_id w = pid \<and> w_state w = Waiting_external \<longrightarrow> active_wait d' pid)"
proof -
  from assms(1) obtain v s where row: "row = state_row d now s revision goal v"
    and d': "d' = after_state (d\<lparr>works := update_where (state_guard l i revision)
        (state_row d now s revision goal) (works d)\<rparr>) now l i s reason goal detail row"
    by (rule commit_state_row)
  let ?d1 = "d\<lparr>works := update_where (state_guard l i revision) (state_row d now s revision goal) (works d)\<rparr>"
  obtain d2 where d2: "d2 = ?d1 \<or> d2 = stop_owned_execution ?d1 now i reason"
    and n: "d' = notify_parent (close_waits (record_exit d2 l now i (se_exit s) detail) now i) now row"
    using d' assms(2) unfolding after_state_def Let_def by (auto split: if_splits)
  let ?d3 = "close_waits (record_exit d2 l now i (se_exit s) detail) now i"
  have ids: "map ch_work_id (children ?d3) = map ch_work_id (children d)"
    using d2 by (auto simp: stop_owned_execution_def Let_def revoke_child_def drop_child_def
        intro!: map_update_where_same)
  have keys: "map in_source_key (inputs ?d3) = map in_source_key (inputs d)"
    using d2 by (auto simp: stop_owned_execution_def Let_def withdraw_input_def
        intro!: map_update_where_same)
  have "w_id row \<notin> set (map ch_work_id (children ?d3))"
    using assms(4) unfolding ids by simp
  then have d3: "d' = ?d3\<lparr>inputs := insert_ignore in_source_key (result_input ?d3 now row pid) (inputs ?d3),
      works := update_where (\<lambda>w. w_id w = pid \<and> w_state w = Waiting_external \<and> \<not> active_wait ?d3 pid)
        (wake_parent now) (works ?d3)\<rparr>"
    using n assms(3) by (simp add: notify_parent_def)
  have key: "in_source_key (result_input ?d3 now row pid) = key"
    by (simp add: result_input_def key_def)
  have "\<exists>y\<in>set (inputs d'). in_source_key y = key \<and>
      (key \<notin> in_source_key ` set (inputs d) \<longrightarrow>
         in_work_id y = Some pid \<and> in_kind y = ''completion'' \<and> in_state y = Pending \<and> in_ready y)"
  proof (cases "key \<in> set (map in_source_key (inputs ?d3))")
    case True
    then obtain y where "y \<in> set (inputs ?d3)" "in_source_key y = key" by auto
    moreover have "key \<in> in_source_key ` set (inputs d)" using True unfolding keys by simp
    ultimately show ?thesis
      using key True by (auto simp: d3 insert_ignore_def)
  next
    case False
    then have "result_input ?d3 now row pid \<in> set (inputs d')"
      using key by (simp add: d3 insert_ignore_def)
    then show ?thesis
      using key by (intro bexI) (auto simp: result_input_def)
  qed
  moreover have "active_wait d' pid"
    if w: "w \<in> set (works d')" "w_id w = pid" "w_state w = Waiting_external" for w
  proof -
    have same: "active_wait d' pid = active_wait ?d3 pid"
      by (simp add: d3 active_wait_def)
    have "w \<in> set (update_where (\<lambda>w. w_id w = pid \<and> w_state w = Waiting_external \<and> \<not> active_wait ?d3 pid)
        (wake_parent now) (works ?d3))"
      using w(1) by (simp add: d3)
    then have "w_id w = pid \<and> w_state w = Waiting_external \<longrightarrow> active_wait ?d3 pid"
      by (rule update_where_all) (auto simp: wake_parent_def)
    then show ?thesis using w same by simp
  qed
  ultimately show ?thesis by blast
qed

end
