(* ===== verification/Work_Effects_Properties.thy ===== *)
theory Work_Effects_Properties
  imports Work_Properties
begin

text \<open>
  Single admission of a source, at-most-once dispatch of an effect, delivery without replay, and the
  agreement of the SQL and Python readings of a receipt.
\<close>

section \<open>Single admission\<close>

lemma accept_cases:
  assumes "accept_in_session d now l a = Inr (row, d')"
  obtains d1 where "insert_work d (new_work l now (ad_identity a) (ad_source_key a)
      (encode_json (ad_source a)) (ad_goal a) (ad_parent a) (admitted_state a)) = Inr d1"
    "lookup_by w_source_key (ad_source_key a) (works d1) = Some row"
    "admit_row d1 l now a row = Inr (row, d')"
proof -
  obtain d1 r where 1: "insert_work d (new_work l now (ad_identity a) (ad_source_key a)
      (encode_json (ad_source a)) (ad_goal a) (ad_parent a) (admitted_state a)) = Inr d1"
    "lookup_by w_source_key (ad_source_key a) (works d1) = Some r"
    "admit_row d1 l now a r = Inr (row, d')"
    using assms by (auto simp: accept_in_session_def split: if_splits sum.splits option.splits)
  moreover have "r = row"
    using 1(3) by (auto simp: admit_row_def split: if_splits option.splits)
  ultimately show ?thesis using that by blast
qed

lemma work_by_source_later:
  assumes "evolves d d'" "wf_store d" "w \<in> set (works d)"
  shows "\<exists>w'. lookup_by w_source_key (w_source_key w) (works d') = Some w' \<and> work_le w w'"
proof -
  obtain w' where w': "w' \<in> set (works d')" "work_le w w'"
    using evolves_tables(1) [OF assms(1)] assms(2,3)
    by (auto simp: wf_store_def table_ok_def table_le_def)
  moreover have "unique_key w_source_key (works d')"
    using evolves_wf [OF assms(1,2)] by (simp add: wf_store_def wf_works_def)
  moreover have "w_source_key w' = w_source_key w" using w'(2) by (simp add: work_le_def)
  ultimately show ?thesis using lookup_by_unique [of w_source_key "works d'" w'] by auto
qed

text \<open>
  C16: A source is admitted at most once. After an admission, any later admission of the same
  source key, under whatever lease and with whatever proposed id, that is not itself a handoff
  returns the same Work and leaves the store as it is; it never creates a second Work.
  (The run between them erases nothing: after a privacy purge the source could be admitted anew.)
\<close>

theorem source_admitted_once:
  assumes "wf_store d" "accept_in_session d now l a = Inr (row, d1)" "work_run d1 d2"
    and "accept_in_session d2 now' l' b = Inr (row', d3)"
    and "ad_source_key b = ad_source_key a" "ad_handoff b = None"
  shows "w_id row' = w_id row \<and> d3 = d2 \<and> w_source row' = w_source row"
proof -
  have wf1: "wf_store d1"
    using accept_evolves [OF assms(2,1)] evolves_wf assms(1) by blast
  from assms(2) obtain e where e: "insert_work d (new_work l now (ad_identity a) (ad_source_key a)
      (encode_json (ad_source a)) (ad_goal a) (ad_parent a) (admitted_state a)) = Inr e"
    and look: "lookup_by w_source_key (ad_source_key a) (works e) = Some row"
    and adm: "admit_row e l now a row = Inr (row, d1)" by (rule accept_cases)
  have wfe: "wf_store e"
  proof -
    obtain u where "admission_authority d l (ad_source_key a) (ad_source a) (ad_parent a) = Inr u"
      using assms(2) by (auto simp: accept_in_session_def split: if_splits sum.splits)
    then have "evolves d e"
      using insert_work_evolves [OF e] assms(1) admission_parent by (simp add: new_work_def)
    then show ?thesis using evolves_wf assms(1) by blast
  qed
  have row: "row \<in> set (works e)" "w_source_key row = ad_source_key a"
    using lookup_by_Some_set [OF look] by auto
  have "evolves e d2"
    using admit_row_evolves [OF adm] work_run_evolves [OF assms(3) wf1] evolves_trans by blast
  then obtain w where w: "lookup_by w_source_key (ad_source_key b) (works d2) = Some w" "work_le row w"
    using work_by_source_later wfe row assms(5) by metis
  from assms(4) obtain f where f: "insert_work d2 (new_work l' now' (ad_identity b) (ad_source_key b)
      (encode_json (ad_source b)) (ad_goal b) (ad_parent b) (admitted_state b)) = Inr f"
    and look': "lookup_by w_source_key (ad_source_key b) (works f) = Some row'"
    and adm': "admit_row f l' now' b row' = Inr (row', d3)" by (rule accept_cases)
  have "ad_source_key b \<in> w_source_key ` set (works d2)"
    using lookup_by_Some_set [OF w(1)] by (metis image_eqI)
  then have "f = d2"
    using f by (simp add: insert_work_def new_work_def)
  moreover have "d3 = f"
    using adm' assms(6) by (simp add: admit_row_def split: if_splits)
  ultimately show ?thesis
    using w look' by (simp add: work_le_def)
qed

section \<open>At-most-once dispatch\<close>

text \<open>
  A run in which the keys of the dispatches that were admitted are recorded, latest first. Each
  admission may have read an arbitrary older store.
\<close>

inductive dispatch_run :: "db \<Rightarrow> string list \<Rightarrow> db \<Rightarrow> bool" where
  start: "dispatch_run d [] d"
| other: "dispatch_run d ks d1 \<Longrightarrow> work_step d1 d2 \<Longrightarrow> dispatch_run d ks d2"
| admitted: "dispatch_run d ks d1 \<Longrightarrow> admit_dispatch seen d1 now l i key c = Inr (True, d2) \<Longrightarrow>
    dispatch_run d (key # ks) d2"

lemma admit_dispatch_marks:
  assumes "admit_dispatch seen d now l i key c = Inr (True, d')" "wf_store d"
  shows "\<exists>e e'. lookup_by ef_key key (effects d) = Some e \<and> \<not> invocation_started e \<and>
    lookup_by ef_key key (effects d') = Some e' \<and> invocation_started e'"
proof -
  obtain original where o: "find_effect seen i key = Some original"
    using assms(1) by (auto simp: admit_dispatch_def split: option.splits)
  then obtain m where m: "json_get ''invocation'' (ef_receipt original) = Some m" "is_object (Some m)"
    using assms(1) by (auto simp: admit_dispatch_def split: option.splits if_splits)
  let ?s = "\<lambda>n. encode_json (json_set ''invocation'' (started_invocation c n m) (ef_receipt original))"
  have "\<exists>n. \<not> truthy_opt (json_get ''dispatch_started'' m) \<and>
      dispatch_commit d now l i key c original (?s n) = Inr (True, d')"
    using assms(1) o m unfolding admit_dispatch_def
    by (auto split: option.splits if_splits json.splits)
  then obtain n where old: "\<not> truthy_opt (json_get ''dispatch_started'' m)"
    and dc: "dispatch_commit d now l i key c original (?s n) = Inr (True, d')" by blast
  let ?d1 = "d\<lparr>effects := update_where (dispatch_guard original i key)
      (\<lambda>e. e\<lparr>ef_receipt := ?s n, ef_updated := now\<rparr>) (effects d)\<rparr>"
  have guard: "list_ex (dispatch_guard original i key) (effects d)" and eff: "effects d' = effects ?d1"
  proof -
    consider "list_ex (dispatch_guard original i key) (effects d)" "d' = ?d1"
      | d2 f where "list_ex (dispatch_guard original i key) (effects d)"
        "charge ?d1 i 0 1 = Inr d2" "d' = d2\<lparr>works := f\<rparr>"
      using dc unfolding dispatch_commit_def Let_def by (auto split: sum.splits if_splits)
    note cs = this
    then show "list_ex (dispatch_guard original i key) (effects d)" by cases
    from cs show "effects d' = effects ?d1"
    proof cases
      case (2 d2 f)
      have "effects d2 = effects ?d1" using 2(2) by (elim charge_cases) simp_all
      then show ?thesis using 2(3) by simp
    qed simp
  qed
  obtain e where e: "e \<in> set (effects d)" "dispatch_guard original i key e"
    using guard by (auto simp: list_ex_iff)
  have look: "lookup_by ef_key key (effects d) = Some e"
    using e assms(2) lookup_by_unique [of ef_key "effects d" e]
    by (simp add: wf_store_def wf_effects_def dispatch_guard_def)
  have "\<not> invocation_started e"
    using e(2) m old by (auto simp: invocation_started_def dispatch_guard_def json_extract_def truthy_opt_def
        split: json.splits option.splits)
  moreover have "lookup_by ef_key key (effects d') = Some (e\<lparr>ef_receipt := ?s n, ef_updated := now\<rparr>)"
    using look e(2) by (simp add: eff lookup_by_update_where)
  ultimately show ?thesis
    using look invocation_started_dispatch [OF m] by blast
qed

lemma invocation_stays:
  assumes "evolves d d'" "wf_store d" "lookup_by ef_key key (effects d) = Some e" "invocation_started e"
  shows "\<exists>e'. lookup_by ef_key key (effects d') = Some e' \<and> invocation_started e'"
proof -
  have wf: "wf_effects (effects d)" using assms(2) by (simp add: wf_store_def)
  have mem: "e \<in> set (effects d)" "ef_key e = key" using lookup_by_Some_set [OF assms(3)] by auto
  from effects.ok_lookup [OF evolves_tables(3) [OF assms(1)] wf mem(1)] show ?thesis
    using mem(2) assms(4) by (auto simp: effect_le_def)
qed

lemma dispatch_run_marked:
  assumes "dispatch_run d ks d'" "wf_store d"
  shows "wf_store d' \<and> distinct ks \<and> (\<forall>k\<in>set ks. \<exists>e. lookup_by ef_key k (effects d') = Some e \<and> invocation_started e)"
  using assms
proof (induction rule: dispatch_run.induct)
  case (other d ks d1 d2)
  then have "evolves d1 d2" using work_step_evolves by blast
  then show ?case
    using other evolves_wf invocation_stays by blast
next
  case (admitted d ks d1 seen now l i key c d2)
  have ev: "evolves d1 d2" by (rule admit_dispatch_evolves [OF admitted(2)])
  have wf1: "wf_store d1" using admitted by blast
  from admit_dispatch_marks [OF admitted(2) wf1] obtain e e' where
    e: "lookup_by ef_key key (effects d1) = Some e" "\<not> invocation_started e"
    and e': "lookup_by ef_key key (effects d2) = Some e'" "invocation_started e'" by blast
  have "key \<notin> set ks" using admitted e by fastforce
  then show ?case
    using admitted e' ev wf1 evolves_wf invocation_stays [OF ev wf1] by auto
qed simp

text \<open>
  C14: An effect is dispatched at most once: over every run of the Work operations, with any
  number of activations calling \<open>admit_dispatch\<close> on any stale reads, no key is admitted twice.
  (These runs erase no row; an archive or a purge forgets a key together with its Work.)
\<close>

theorem effect_dispatched_at_most_once:
  assumes "wf_store d" "dispatch_run d ks d'"
  shows "distinct ks \<and> (\<forall>key\<in>set ks. \<exists>e\<in>set (effects d'). ef_key e = key \<and> invocation_started e)"
  using dispatch_run_marked [OF assms(2,1)] lookup_by_Some_set by fastforce

section \<open>Delivery\<close>

text \<open>
  C17: A delivery that was accepted is never sent again: over every later run its row stays as
  it is, and every \<open>reserve\<close> of its key by an activation with a current Work is refused. An
  uncertain delivery is not sent again either, unless a receipt proves it accepted.
  (The run erases no row; a privacy purge deletes the deliveries of its conversation.)
\<close>

theorem accepted_delivery_never_replayed:
  assumes "wf_store d" "work_run d d'" "lookup_by dl_id key (deliveries d) = Some r"
    and "dl_state r \<in> {''accepted'', ''unknown''}"
  shows "(\<exists>r'. lookup_by dl_id key (deliveries d') = Some r' \<and>
      (r' = r \<or> dl_state r = ''unknown'' \<and> dl_state r' = ''accepted'')) \<and>
    (\<forall>now l i kind payload n x. reserve d' now l (Some i) key kind payload n \<noteq> Inr x)"
proof -
  have "table_ok wf_deliveries delivery_le (deliveries d) (deliveries d')"
    by (rule evolves_tables(4) [OF work_run_evolves [OF assms(2,1)]])
  then obtain r' where "lookup_by dl_id (dl_id r) (deliveries d') = Some r'" and le: "delivery_le r r'"
    using deliveries.ok_lookup assms(1) lookup_by_Some_set [OF assms(3)] by (metis wf_store_def)
  then have r': "lookup_by dl_id key (deliveries d') = Some r'"
    using lookup_by_Some_set [OF assms(3)] by simp
  have st: "dl_state r' \<in> {''accepted'', ''unknown''}"
    and same: "r' = r \<or> dl_state r = ''unknown'' \<and> dl_state r' = ''accepted''"
    using le assms(4) by (auto simp: delivery_le_def)
  have "reserve d' now l (Some i) key kind payload n \<noteq> Inr x" for now l i kind payload n x
  proof
    assume "reserve d' now l (Some i) key kind payload n = Inr x"
    then show False
      using r' st unfolding reserve_def
      by (cases "assert_lease d' now l") (simp_all split: if_splits)
  qed
  then show ?thesis using r' same by blast
qed

section \<open>Two readings of one receipt\<close>

lemma json_type_iff:
  "json_type v = ''missing'' \<longleftrightarrow> v = None" "json_type v = ''null'' \<longleftrightarrow> v = Some JNull"
  "json_type v = ''true'' \<longleftrightarrow> v = Some (JBool True)" "json_type v = ''false'' \<longleftrightarrow> v = Some (JBool False)"
  "json_type v = ''text'' \<longleftrightarrow> is_text v" "json_type v = ''object'' \<longleftrightarrow> is_object v"
  by (cases v; (case_tac "the v")?; auto)+

lemma is_text_eq [simp]:
  "is_text v \<and> v = Some (JStr s) \<longleftrightarrow> v = Some (JStr s)"
  "is_text v \<and> v = Some (JStr s) \<and> P \<longleftrightarrow> v = Some (JStr s) \<and> P"
  by auto

lemma get_default_iff:
  "get_default k (JBool b) r = JBool b \<longleftrightarrow> json_get k r = None \<or> json_get k r = Some (JBool b)"
  by (auto simp: get_default_def split: option.splits)

lemma known_native_final_iff:
  "known_native_final e = native_final (ef_kind e) (ef_state e) (ef_receipt e)"
proof -
  have path: "json_path [k] r = json_get k r" for k r
    by (simp split: option.split)
  have ext: "json_extract [''error''] r = Some (JStr s) \<longleftrightarrow> json_get ''error'' r = Some (JStr s)" for r s
    by (auto simp: json_extract_def split: option.splits json.splits)
  show ?thesis
    unfolding known_native_final_def native_final_def native_accepted_def native_refused_def
      field_type_def path ext insert_iff empty_iff json_type_iff
    by (simp add: get_default_iff)
qed

lemma outcome_path:
  "json_get ''outcome'' r = Some (JObj kvs) \<Longrightarrow> json_path [''outcome'', k] r = json_get k (JObj kvs)"
  by (simp split: option.split)

lemma ex_bool_eq: "(\<exists>b. v = Some (JBool b)) \<longleftrightarrow> v = Some (JBool True) \<or> v = Some (JBool False)"
  by (metis (full_types))

lemma unknown_historical_iff:
  assumes "json_get ''outcome'' (ef_receipt e) = Some (JObj kvs)" "kvs \<noteq> []"
  shows "unknown_historical e = (\<not> evidence_valid (json_get ''outcome'' (ef_receipt e)))"
proof -
  have ft: "field_type ''outcome'' e = ''object''"
    using assms by (simp add: field_type_def)
  have "\<not> known_native_final e"
    using ft by (simp add: known_native_final_def)
  moreover have absent: "\<not> outcome_absent e"
    using ft assms by (simp add: outcome_absent_def json_extract_def)
  moreover have ot: "outcome_type k e = json_type (map_of kvs k)" for k
    using outcome_path [OF assms(1), of k] by (simp add: outcome_type_def)
  have "outcome_malformed e = (\<not> evidence_valid (Some (JObj kvs)))"
    unfolding outcome_malformed_def evidence_valid_def ot ft insert_iff empty_iff json_type_iff
    by (simp add: absent ex_bool_eq Let_def) argo
  ultimately show ?thesis
    by (simp add: unknown_historical_def assms(1))
qed

text \<open>
  The SQL clauses and the Python reader of effect receipts agree. A row is a known native
  final for the query exactly when \<open>historical_evidence\<close> recognises its final transport
  receipt, and a receipt with a non-empty outcome object is unknown for the query exactly when
  the reader finds the outcome invalid.
\<close>

theorem receipt_readings_agree:
  "known_native_final e = native_final (ef_kind e) (ef_state e) (ef_receipt e) \<and>
   (\<forall>kvs. json_get ''outcome'' (ef_receipt e) = Some (JObj kvs) \<and> kvs \<noteq> [] \<longrightarrow>
      unknown_historical e = (\<not> evidence_valid (json_get ''outcome'' (ef_receipt e))))"
  using known_native_final_iff unknown_historical_iff by blast

end
