(* ===== verification/Invocation_Service.thy ===== *)
theory Invocation_Service
  imports Work_Effects_Properties
begin

text \<open>
  One tool call of the model as a durable operation: its identity and metadata
  (\<open>capabilities/invocation.py\<close>) and \<open>InvocationService.invoke\<close>
  (\<open>services/invocation_service.py\<close>), which prepares the intent (T1), admits the dispatch (T2),
  executes the tool and records the outcome (T3).

  \<open>invoke_step\<close> is the coroutine between two awaits that touch the store: a function of the
  program point, the store and what the environment answers at that moment. Many invocations
  and every other writer of the Work runtime interleave in \<open>service_step\<close>; an invocation may
  vanish at any point, as it does when the process dies. Readers and writers that the code puts
  in different sessions are different points, so the stale snapshots are those of real runs.

  Parameters: \<open>sha\<close> (SHA-256), \<open>dumps\<close> and \<open>canon\<close> (the JSON text of a value, the latter
  \<open>None\<close> for a value that has none), the parsed arguments of a call, the typed outcome and evidence a tool publishes, and the result that
  \<open>effect_result\<close> reads back from a stored receipt (\<open>Replayed\<close>).
\<close>

section \<open>Identity\<close>

record invocation_identity =
  id_operation :: string
  id_owner :: string
  id_chain :: string
  id_sequence :: int
  id_call :: string
  id_parent :: "string option"
  id_ordinal :: "int option"
  id_engine_call :: "string option"
  id_feed :: "int option"

text \<open>The length of the UTF-8 encoding of a text.\<close>

definition utf8_length :: "string \<Rightarrow> nat" where
  "utf8_length s = sum_list (map (\<lambda>c. if of_char c < (128::nat) then 1 else 2) s)"

definition direct_operation_id ::
  "(string \<Rightarrow> string) \<Rightarrow> (json \<Rightarrow> string) \<Rightarrow> string \<Rightarrow> int \<Rightarrow> string \<Rightarrow> string" where
  "direct_operation_id sha dumps chain_id request_sequence provider_call_id =
     (let legacy = chain_id @ '':'' @ show_int request_sequence @ '':'' @ provider_call_id
      in if utf8_length legacy \<le> 256 then legacy
         else ''invocation:v1:'' @ sha (dumps (JArr [JStr ''yuki.invocation.direct.v1'', JStr chain_id,
                JInt request_sequence, JStr provider_call_id])))"

definition child_operation_id ::
  "(string \<Rightarrow> string) \<Rightarrow> (json \<Rightarrow> string) \<Rightarrow> string \<Rightarrow> int \<Rightarrow> string" where
  "child_operation_id sha dumps parent_operation_id child_ordinal =
     (let candidate = parent_operation_id @ ''/c'' @ show_int child_ordinal
      in if utf8_length candidate \<le> 256 then candidate
         else ''invocation:child:v1:'' @ sha (dumps (JArr [JStr ''yuki.invocation.child.v1'',
                JStr parent_operation_id, JInt child_ordinal])))"

definition opt_meta :: "('a \<Rightarrow> json) \<Rightarrow> 'a option \<Rightarrow> json" where
  "opt_meta f v = (case v of None \<Rightarrow> JNull | Some x \<Rightarrow> f x)"

definition durable_metadata ::
  "(string \<Rightarrow> string) \<Rightarrow> (json \<Rightarrow> string option) \<Rightarrow> invocation_identity \<Rightarrow> string \<Rightarrow> json option \<Rightarrow>
   string \<Rightarrow> string \<Rightarrow> (string \<times> json) list" where
  "durable_metadata sha canon ident name parsed arguments manifest_revision =
     [(''version'', JInt 1), (''operation_id'', JStr (id_operation ident)),
      (''owner_execution_id'', JStr (id_owner ident)), (''chain_id'', JStr (id_chain ident)),
      (''request_sequence'', JInt (id_sequence ident)), (''provider_call_id'', JStr (id_call ident)),
      (''child_ordinal'', opt_meta JInt (id_ordinal ident)),
      (''engine_call_id'', opt_meta JStr (id_engine_call ident)),
      (''feed_index'', opt_meta JInt (id_feed ident)),
      (''parent_effect_key'', opt_meta JStr (id_parent ident)), (''tool_id'', JStr name)] @
     (if name = ''external_agent'' \<and> is_object parsed
      then [(''action'', optional_json (json_get ''action'' (optional_json parsed)))] else []) @
     [(''arguments_digest'', JStr (sha (case parsed of
         None \<Rightarrow> arguments
       | Some j \<Rightarrow> (case canon j of None \<Rightarrow> arguments | Some s \<Rightarrow> s)))),
      (''manifest_revision'', JStr manifest_revision), (''dispatch_started'', JBool False),
      (''budget_admitted'', JBool False), (''revision'', JInt 0)]"

definition counts_toward_business_limit :: "string \<Rightarrow> bool" where
  "counts_toward_business_limit name \<longleftrightarrow> name \<noteq> ''read_tool_artifact''"

definition work_control_names :: "string list" where
  "work_control_names = [''task_control'', ''subagent_start'', ''subagent_control'']"

section \<open>The invocation and its program points\<close>

record invocation =
  iv_identity :: invocation_identity
  iv_expected :: string
  iv_work :: string
  iv_lease :: work_lease
  iv_name :: string
  iv_meta :: "(string \<times> json) list"
  iv_side_effecting :: bool
  iv_signature :: json

text \<open>
  \<open>iv_expected\<close> is the operation id that the journal or the parent gives the call, \<open>iv_work\<close>
  the current Work of the control.
\<close>

datatype outcome = Replayed | Refused | Value string | Raised

datatype after_record = Then_return string | Then_raise | Then_resolve string json

text \<open>
  What \<open>execute\<close> does: it returns a payload, with or without having published a typed outcome
  (evidence, artifact handle, reference to published images, whether the outcome is a core one),
  or it raises before or after that.
\<close>

record typed_outcome =
  ty_evidence :: json
  ty_handle :: json
  ty_media :: "json option"
  ty_core :: bool
  ty_uncertain :: bool

datatype answer =
    Returns string "typed_outcome option"
  | Breaks bool string "typed_outcome option"

text \<open>\<open>Breaks ordinary fallback t\<close>: \<open>ordinary\<close> says that the exception is an \<open>Exception\<close>.\<close>

text \<open>The conversation, its generation and the privacy generation that media results belong to.\<close>

type_synonym source = "string \<times> int \<times> int"

datatype point =
    Begin
  | Validated
  | Send_known bool
  | Gate
  | Valid_control
  | Prepare
  | Conflict
  | Conflict_intent
  | Admit
  | Admit_write db
  | Read_privacy
  | Execute source
  | Record_read effect_state "(string \<times> json) list" "source option" after_record
  | Record_write db effect_state "(string \<times> json) list" "source option" after_record
  | Resolve string json
  | Resolve_write "(effect_row \<times> json) list list" string
  | Ended outcome

record moment =
  mo_now :: clock
  mo_privacy :: int
  mo_control_valid :: bool
  mo_answer :: answer
  mo_publish :: "db \<Rightarrow> string \<Rightarrow> work_error + db"

definition invocation_ok :: "invocation \<Rightarrow> bool" where
  "invocation_ok iv \<longleftrightarrow> iv_expected iv = id_operation (iv_identity iv)"

definition iv_key :: "invocation \<Rightarrow> string" where
  "iv_key iv = id_operation (iv_identity iv)"

definition allow_pending :: "invocation \<Rightarrow> bool" where
  "allow_pending iv \<longleftrightarrow> iv_name iv \<in> set work_control_names \<or>
     iv_name iv = ''send'' \<and> id_parent (iv_identity iv) = None"

definition charged :: "invocation \<Rightarrow> bool" where
  "charged iv \<longleftrightarrow> iv_name iv \<notin> set work_control_names \<and> counts_toward_business_limit (iv_name iv)"

definition intent_outcome :: "invocation \<Rightarrow> json" where
  "intent_outcome iv = JObj ([(''tool'', JStr (iv_name iv)),
     (''side_effecting'', JBool (iv_side_effecting iv)), (''ok'', JBool False), (''pending'', JBool False),
     (''uncertain'', JBool False), (''executed'', JBool False)] @
     (if iv_side_effecting iv then [] else [(''readonly_call_signature'', iv_signature iv)]))"

definition exhausted_receipt :: "(string \<times> json) list" where
  "exhausted_receipt = [(''result'', JStr
     ''{\"ok\": false, \"executed\": false, \"error\": \"work_total_budget_exhausted\"}'')]"

definition interrupted_receipt :: "invocation \<Rightarrow> (string \<times> json) list" where
  "interrupted_receipt iv = [(''error'', JStr ''execution_interrupted''),
     (''outcome'', JObj [(''tool'', JStr (iv_name iv)), (''side_effecting'', JBool (iv_side_effecting iv)),
        (''uncertain'', JBool True), (''delivered_message'', JBool False)])]"

definition typed_receipt :: "string \<Rightarrow> typed_outcome \<Rightarrow> (string \<times> json) list" where
  "typed_receipt result t = [(''result'', JStr result), (''outcome'', ty_evidence t),
     (''artifact_handle'', ty_handle t)] @ opt_field ''media_result_ref'' (ty_media t)"

definition readback_names :: "string list" where
  "readback_names = [''get_code_run'', ''terminal_read'', ''cancel_code_run'', ''terminal_control'']"

definition after_execute :: "invocation \<Rightarrow> string \<Rightarrow> typed_outcome \<Rightarrow> after_record" where
  "after_execute iv result t =
     (case json_get ''run_id'' (ty_evidence t) of
        Some (JStr run_id) \<Rightarrow>
          if ty_core t \<and> iv_name iv \<in> set readback_names \<and> execution_finished (ty_evidence t)
          then Then_resolve result (ty_evidence t) else Then_return result
      | _ \<Rightarrow> Then_return result)"

text \<open>
  Where the coroutine goes on after \<open>execute\<close>. The journal passes the source on only for a result
  with images. An error while the handler of an exception records is noted on that exception, which
  is raised, so it ends the invocation in the same way as any other error of the recording.
\<close>

definition media_source :: "source \<Rightarrow> typed_outcome \<Rightarrow> source option" where
  "media_source s t = (if ty_media t = None then None else Some s)"

definition after_answer :: "invocation \<Rightarrow> source \<Rightarrow> answer \<Rightarrow> point" where
  "after_answer iv s a =
     (case a of
        Returns result (Some t) \<Rightarrow>
          Record_read Accepted (typed_receipt result t) (media_source s t) (after_execute iv result t)
      | Returns result None \<Rightarrow> Ended Raised
      | Breaks ordinary fallback None \<Rightarrow> Record_read Unknown (interrupted_receipt iv) None Then_raise
      | Breaks ordinary fallback (Some t) \<Rightarrow>
          Record_read Accepted (typed_receipt fallback t) (media_source s t)
            (if ordinary \<and> \<not> ty_uncertain t then Then_return fallback else Then_raise))"

definition after_recorded :: "after_record \<Rightarrow> point" where
  "after_recorded k = (case k of Then_return v \<Rightarrow> Ended (Value v) | Then_raise \<Rightarrow> Ended Raised
     | Then_resolve v e \<Rightarrow> Resolve v e)"

section \<open>The steps of an invocation\<close>

definition invoke_step ::
  "(json \<Rightarrow> json option) \<Rightarrow> (json \<Rightarrow> json \<Rightarrow> work_error + json) \<Rightarrow> invocation \<Rightarrow> moment \<Rightarrow> db \<Rightarrow> point \<Rightarrow>
   point \<times> db" where
  "invoke_step legacy original iv m d p =
     (let key = iv_key iv; l = iv_lease iv; i = iv_work iv; now = mo_now m in
      case p of
        Begin \<Rightarrow>
          if \<not> invocation_ok iv \<or> id_owner (iv_identity iv) \<noteq> i then (Ended Raised, d)
          else (case validate_invocation d key (iv_meta iv) of Inl _ \<Rightarrow> (Ended Raised, d) | Inr _ \<Rightarrow> (Validated, d))
      | Validated \<Rightarrow>
          if iv_name iv = ''send'' then (Send_known (undispatched_intent d i key), d) else (Gate, d)
      | Send_known intent \<Rightarrow>
          if \<not> intent \<and> lookup_by ef_key key (effects d) \<noteq> None
          then (if lease_valid d now l then (Ended Replayed, d) else (Ended Raised, d))
          else (Gate, d)
      | Gate \<Rightarrow>
          if allow_pending iv then (Prepare, d)
          else (case has_pending_business_inputs d now l i None of
                  Inl _ \<Rightarrow> (Ended Raised, d)
                | Inr pending \<Rightarrow> if pending then (Ended Refused, d) else (Valid_control, d))
      | Valid_control \<Rightarrow> if mo_control_valid m then (Prepare, d) else (Ended Raised, d)
      | Prepare \<Rightarrow>
          (case prepare_effect d now l i key ''tool'' (Some (intent_outcome iv)) (Some (JObj (iv_meta iv))) None of
             Inl _ \<Rightarrow> (Ended Raised, d)
           | Inr (fresh, d') \<Rightarrow> (if fresh then Admit else Conflict, d'))
      | Conflict \<Rightarrow>
          (case validate_invocation d key (iv_meta iv) of Inl _ \<Rightarrow> (Ended Raised, d) | Inr _ \<Rightarrow> (Conflict_intent, d))
      | Conflict_intent \<Rightarrow> if undispatched_intent d i key then (Admit, d) else (Ended Replayed, d)
      | Admit \<Rightarrow> (Admit_write d, d)
      | Admit_write seen \<Rightarrow>
          (case admit_dispatch seen d now l i key (charged iv) of
             Inl (Budget_exceeded _) \<Rightarrow> (Record_read Accepted exhausted_receipt None Then_raise, d)
           | Inl _ \<Rightarrow> (Ended Raised, d)
           | Inr (admitted, d') \<Rightarrow> (if admitted then Read_privacy else Ended Replayed, d'))
      | Read_privacy \<Rightarrow> (Execute (l_conversation l, l_generation l, mo_privacy m), d)
      | Execute s \<Rightarrow> (after_answer iv s (mo_answer m), d)
      | Record_read st receipt media k \<Rightarrow> (Record_write d st receipt media k, d)
      | Record_write seen st receipt media k \<Rightarrow>
          (case record_attempt legacy original (mo_publish m) key st receipt media seen d now (mo_privacy m) of
             Inl _ \<Rightarrow> (Ended Raised, d)
           | Inr (written, d') \<Rightarrow>
               (if written then after_recorded k else Record_read st receipt media k, d'))
      | Resolve v e \<Rightarrow>
          (case resolve_prepare d now l i (case json_get ''run_id'' e of Some (JStr r) \<Rightarrow> r | _ \<Rightarrow> [])
                  e None None of
             Inl _ \<Rightarrow> (Ended Raised, d)
           | Inr prepared \<Rightarrow> (Resolve_write (pages_of 127 prepared) v, d))
      | Resolve_write pages v \<Rightarrow>
          (case pages of
             [] \<Rightarrow> (Ended (Value v), d)
           | page # rest \<Rightarrow>
               (case resolve_page d now l i page of
                  Inl _ \<Rightarrow> (Ended Raised, d) | Inr d' \<Rightarrow> (Resolve_write rest v, d')))
      | Ended r \<Rightarrow> (Ended r, d))"


section \<open>Many invocations\<close>

record service =
  sv_db :: db
  sv_calls :: "nat \<rightharpoonup> invocation \<times> point"
  sv_log :: "string list"

text \<open>\<open>sv_log\<close> records the operations whose tool was called, the latest first.\<close>

fun calls_tool :: "point \<Rightarrow> bool" where
  "calls_tool (Execute s) = True"
| "calls_tool _ = False"

definition quiet_hook :: "(db \<Rightarrow> string \<Rightarrow> work_error + db) \<Rightarrow> bool" where
  "quiet_hook hook \<longleftrightarrow> (\<forall>x i y. hook x i = Inr y \<longrightarrow> evolves x y \<and> lease_quiet x y)"

inductive service_step ::
  "(json \<Rightarrow> json option) \<Rightarrow> (json \<Rightarrow> json \<Rightarrow> work_error + json) \<Rightarrow> service \<Rightarrow> service \<Rightarrow> bool"
  for legacy original where
  other: "work_step (sv_db s) d \<Longrightarrow> service_step legacy original s (s\<lparr>sv_db := d\<rparr>)"
| arrive: "sv_calls s n = None \<Longrightarrow>
    service_step legacy original s (s\<lparr>sv_calls := (sv_calls s)(n \<mapsto> (iv, Begin))\<rparr>)"
| vanish: "service_step legacy original s (s\<lparr>sv_calls := (sv_calls s)(n := None)\<rparr>)"
| advance: "sv_calls s n = Some (iv, p) \<Longrightarrow> quiet_hook (mo_publish m) \<Longrightarrow>
    invoke_step legacy original iv m (sv_db s) p = (p', d) \<Longrightarrow>
    service_step legacy original s (s\<lparr>sv_db := d, sv_calls := (sv_calls s)(n \<mapsto> (iv, p')),
      sv_log := (if calls_tool p then iv_key iv # sv_log s else sv_log s)\<rparr>)"

inductive service_run ::
  "(json \<Rightarrow> json option) \<Rightarrow> (json \<Rightarrow> json \<Rightarrow> work_error + json) \<Rightarrow> service \<Rightarrow> service \<Rightarrow> bool"
  for legacy original where
  stop: "service_run legacy original s s"
| step: "service_run legacy original s t \<Longrightarrow> service_step legacy original t u \<Longrightarrow>
    service_run legacy original s u"

section \<open>A step of an invocation is a step of the Work runtime\<close>

definition started :: "string \<Rightarrow> db \<Rightarrow> bool" where
  "started key d \<longleftrightarrow> (\<exists>e. lookup_by ef_key key (effects d) = Some e \<and> invocation_started e)"

definition accepted :: "string \<Rightarrow> db \<Rightarrow> bool" where
  "accepted key d \<longleftrightarrow> (\<exists>e\<in>set (effects d). ef_key e = key \<and> ef_state e = Accepted)"

lemma started_stays: "started key d \<Longrightarrow> evolves d d' \<Longrightarrow> wf_store d \<Longrightarrow> started key d'"
  using invocation_stays by (auto simp: started_def)

lemma accepted_stays:
  assumes "accepted key d" "evolves d d'" "wf_effects (effects d)"
  shows "accepted key d'"
proof -
  obtain e where e: "e \<in> set (effects d)" "ef_key e = key" "ef_state e = Accepted"
    using assms(1) by (auto simp: accepted_def)
  then obtain e' where "e' \<in> set (effects d')" "effect_le e e'"
    using evolves_tables(3) [OF assms(2)] assms(3) by (auto simp: table_ok_def table_le_def)
  then show ?thesis using e by (auto simp: accepted_def effect_le_def)
qed

text \<open>What a point promises about the store and about the tools that were called.\<close>

definition prepared_pages :: "(effect_row \<times> json) list list \<Rightarrow> bool" where
  "prepared_pages pages \<longleftrightarrow>
     (\<forall>page\<in>set pages. \<exists>run_id outcome key request_id. prepared_page run_id outcome key request_id page)"

definition record_ok :: "string \<Rightarrow> string list \<Rightarrow> effect_state \<Rightarrow> after_record \<Rightarrow> bool" where
  "record_ok key done_log st k \<longleftrightarrow> (k \<noteq> Then_raise \<longrightarrow> st = Accepted \<and> key \<in> set done_log)"

fun point_ok :: "string \<Rightarrow> db \<Rightarrow> string list \<Rightarrow> point \<Rightarrow> bool" where
  "point_ok key d ks Read_privacy = (started key d \<and> key \<notin> set ks)"
| "point_ok key d ks (Execute s) = (started key d \<and> key \<notin> set ks)"
| "point_ok key d ks (Record_read st r m k) = record_ok key ks st k"
| "point_ok key d ks (Record_write seen st r m k) = (record_ok key ks st k \<and> evolves seen d \<and> wf_store seen)"
| "point_ok key d ks (Resolve v e) = (accepted key d \<and> key \<in> set ks)"
| "point_ok key d ks (Resolve_write pages v) = (accepted key d \<and> key \<in> set ks \<and> prepared_pages pages)"
| "point_ok key d ks (Ended (Value v)) = (accepted key d \<and> key \<in> set ks)"
| "point_ok key d ks p = True"

lemma pages_of_subset: "page \<in> set (pages_of n xs) \<Longrightarrow> set page \<subseteq> set xs"
proof (induction n xs rule: pages_of.induct)
  case (2 n x xs)
  then show ?case by (auto dest: in_set_takeD in_set_dropD)
qed simp

lemma prepared_pages_of:
  "resolve_prepare d now l i run_id outcome key request_id = Inr prepared \<Longrightarrow>
    prepared_pages (pages_of n prepared)"
  using resolve_prepare_page pages_of_subset
  by (fastforce simp: prepared_pages_def prepared_page_def)

lemma work_step_op: "store_op d d' \<Longrightarrow> work_step d d'"
  by (simp add: work_step_def)

lemma invoke_step_store:
  assumes "invoke_step legacy original iv m d p = (p', d')" "quiet_hook (mo_publish m)"
    and "point_ok key d ks p"
  shows "d' = d \<or> work_step d d'"
proof (cases p)
  case Prepare
  then show ?thesis using assms(1)
    by (auto simp: invoke_step_def Let_def split: sum.splits intro!: work_step_op elim: store_op.intent)
next
  case (Admit_write seen)
  then show ?thesis using assms(1)
    by (auto simp: invoke_step_def Let_def split: sum.splits work_error.splits intro!: work_step_op
        elim: store_op.dispatch)
next
  case (Record_write seen st r media k)
  then show ?thesis using assms(1,2)
    by (auto simp: invoke_step_def Let_def quiet_hook_def split: sum.splits intro!: work_step_op
        elim: store_op.outcome)
next
  case (Resolve_write pages v)
  show ?thesis
  proof (cases pages)
    case (Cons page rest)
    have "\<exists>a b c e. prepared_page a b c e page"
      using assms(3) Resolve_write Cons by (auto simp: prepared_pages_def)
    then show ?thesis using assms(1) Resolve_write Cons
      by (auto simp: invoke_step_def Let_def split: sum.splits intro!: work_step_op elim: store_op.settle)
  qed (use assms(1) Resolve_write in \<open>simp add: invoke_step_def\<close>)
qed (use assms(1) in \<open>auto simp: invoke_step_def Let_def split: sum.splits if_splits\<close>)


section \<open>The invariant of the service\<close>

fun about_to_call :: "point \<Rightarrow> bool" where
  "about_to_call Read_privacy = True"
| "about_to_call (Execute s) = True"
| "about_to_call _ = False"

lemma point_ok_stays:
  assumes "point_ok key d ks p" "evolves d d'" "wf_store d" "set ks \<subseteq> set ks'"
    and "about_to_call p \<Longrightarrow> key \<notin> set ks'"
  shows "point_ok key d' ks' p"
proof (cases p)
  case (Record_write seen st r m k)
  then show ?thesis using assms evolves_trans by (auto simp: record_ok_def)
next
  case (Ended r)
  then show ?thesis using assms accepted_stays by (cases r) (auto simp: wf_store_def)
qed (use assms started_stays accepted_stays in \<open>auto simp: record_ok_def wf_store_def\<close>)

lemma record_accepted:
  assumes "record_attempt legacy original publish key Accepted receipt media seen d now privacy = Inr (True, d')"
    and "quiet_hook publish" "evolves seen d" "wf_store seen" "wf_store d"
  shows "accepted key d'"
proof -
  obtain ex where ex: "lookup_by ef_key key (effects seen) = Some ex"
    using assms(1) by (auto simp: record_attempt_def split: if_splits option.splits)
  consider "ef_state ex = Accepted" "d' = d"
    | c where "record_commit publish d now privacy Accepted ex c media = Inr (True, d')"
    using assms(1) ex
    by (auto simp: record_attempt_def Let_def returns settle_verdict_def split: if_splits effect_state.splits)
  then show ?thesis
  proof cases
    case 1
    then have "accepted key seen" using lookup_by_Some_set [OF ex] by (auto simp: accepted_def)
    then show ?thesis using 1(2) accepted_stays [OF _ assms(3)] assms(4) by (simp add: wf_store_def)
  next
    case (2 c)
    let ?d1 = "d\<lparr>effects := update_where (record_guard ex)
        (\<lambda>e. e\<lparr>ef_state := Accepted, ef_receipt := encode_json c, ef_updated := now\<rparr>) (effects d)\<rparr>"
    obtain e where e: "e \<in> set (effects d)" "record_guard ex e"
      and p: "publish ?d1 (ef_work_id ex) = Inr d'"
      using 2 by (auto simp: record_commit_def returns list_ex_iff split: if_splits)
    have "accepted key ?d1"
      unfolding accepted_def
    proof (rule bexI)
      let ?e = "e\<lparr>ef_state := Accepted, ef_receipt := encode_json c, ef_updated := now\<rparr>"
      show "ef_key ?e = key \<and> ef_state ?e = Accepted"
        using e(2) lookup_by_Some_set [OF ex] by (simp add: record_guard_def)
      show "?e \<in> set (effects ?d1)"
        using e by (auto simp: set_update_where image_iff intro!: bexI [of _ e])
    qed
    moreover have "wf_effects (effects ?d1)"
      using assms(5) by (simp add: wf_store_def wf_effects_def unique_key_update_on)
    moreover have "evolves ?d1 d'" using assms(2) p by (auto simp: quiet_hook_def)
    ultimately show ?thesis using accepted_stays by blast
  qed
qed

text \<open>The points of one invocation.\<close>

lemma invoke_step_point:
  assumes "invoke_step legacy original iv m d p = (p', d')" "quiet_hook (mo_publish m)"
    and "point_ok (iv_key iv) d ks p" "wf_store d" "\<forall>k\<in>set ks. started k d"
  shows "point_ok (iv_key iv) d' (if calls_tool p then iv_key iv # ks else ks) p'"
proof (cases p)
  case (Admit_write seen)
  then show ?thesis
  proof (cases "admit_dispatch seen d (mo_now m) (iv_lease iv) (iv_work iv) (iv_key iv) (charged iv)")
    case (Inl e)
    then show ?thesis using assms(1) Admit_write
      by (cases e) (auto simp: invoke_step_def Let_def record_ok_def)
  next
    case (Inr r)
    obtain b d1 where r: "r = (b, d1)" by (cases r)
    show ?thesis
    proof (cases b)
      case True
      then have pt: "p' = Read_privacy" "d' = d1" using assms(1) Admit_write Inr r
        by (auto simp: invoke_step_def Let_def)
      have adm: "admit_dispatch seen d (mo_now m) (iv_lease iv) (iv_work iv) (iv_key iv) (charged iv) =
          Inr (True, d1)" using Inr r True by simp
      obtain e e' where "lookup_by ef_key (iv_key iv) (effects d) = Some e" "\<not> invocation_started e"
        "lookup_by ef_key (iv_key iv) (effects d1) = Some e'" "invocation_started e'"
        using admit_dispatch_marks [OF adm assms(4)] by blast
      then show ?thesis using assms(5) pt Admit_write by (auto simp: started_def)
    qed (use assms(1) Admit_write Inr r in \<open>auto simp: invoke_step_def Let_def\<close>)
  qed
next
  case (Execute s)
  then show ?thesis using assms(1)
    by (auto simp: invoke_step_def Let_def after_answer_def record_ok_def split: answer.split option.split)
next
  case (Record_write seen st r media k)
  show ?thesis
  proof (cases "record_attempt legacy original (mo_publish m) (iv_key iv) st r media seen d (mo_now m) (mo_privacy m)")
    case (Inr x)
    obtain b d1 where x: "x = (b, d1)" by (cases x)
    have ok: "record_ok (iv_key iv) ks st k" and seen: "evolves seen d" "wf_store seen"
      using assms(3) Record_write by simp_all
    show ?thesis
    proof (cases b)
      case True
      then have pt: "p' = after_recorded k" "d' = d1" using assms(1) Record_write Inr x
        by (auto simp: invoke_step_def Let_def)
      show ?thesis
      proof (cases "k = Then_raise")
        case False
        then have "st = Accepted" "iv_key iv \<in> set ks" using ok by (auto simp: record_ok_def)
        have "accepted (iv_key iv) d1"
          by (rule record_accepted [OF _ assms(2) seen assms(4)])
            (use Inr x True \<open>st = Accepted\<close> in simp)
        then show ?thesis using pt False \<open>iv_key iv \<in> set ks\<close> Record_write
          by (cases k) (simp_all add: after_recorded_def)
      qed (simp add: pt after_recorded_def)
    qed (use assms(1) Record_write Inr x ok in \<open>auto simp: invoke_step_def Let_def\<close>)
  qed (use assms(1) Record_write in \<open>auto simp: invoke_step_def Let_def\<close>)
next
  case (Resolve v e)
  then show ?thesis using assms(1,3) prepared_pages_of
    by (auto simp: invoke_step_def Let_def split: sum.splits)
next
  case (Resolve_write pages v)
  have ev: "evolves d d'"
    using invoke_step_store [OF assms(1-3)] work_step_evolves assms(4) by auto
  then have "accepted (iv_key iv) d'"
    using assms(3,4) Resolve_write accepted_stays by (auto simp: wf_store_def)
  then show ?thesis using assms(1,3) Resolve_write
    by (cases pages) (auto simp: invoke_step_def Let_def prepared_pages_def split: sum.splits)
next
  case (Ended r)
  then show ?thesis using assms(1,3) by (auto simp: invoke_step_def)
qed (use assms(1,3,4) in \<open>auto simp: invoke_step_def Let_def record_ok_def split: sum.splits if_splits\<close>)

lemma invoke_step_about:
  assumes "invoke_step legacy original iv m d p = (p', d')" "about_to_call p'" "wf_store d"
    and "\<not> about_to_call p"
  shows "\<not> started (iv_key iv) d"
proof (cases p)
  case (Admit_write seen)
  then have "admit_dispatch seen d (mo_now m) (iv_lease iv) (iv_work iv) (iv_key iv) (charged iv) = Inr (True, d')"
    using assms(1,2) by (auto simp: invoke_step_def Let_def split: sum.splits work_error.splits if_splits)
  from admit_dispatch_marks [OF this assms(3)] show ?thesis by (auto simp: started_def)
next
  case (Record_write seen st r media k)
  then show ?thesis using assms(1,2)
    by (cases k) (auto simp: invoke_step_def Let_def after_recorded_def split: sum.splits if_splits)
next
  case (Resolve_write pages v)
  then show ?thesis using assms(1,2)
    by (cases pages) (auto simp: invoke_step_def Let_def split: sum.splits)
qed (use assms in \<open>auto simp: invoke_step_def Let_def split: sum.splits if_splits\<close>)


definition service_inv :: "service \<Rightarrow> bool" where
  "service_inv s \<longleftrightarrow> wf_store (sv_db s) \<and> distinct (sv_log s) \<and>
     (\<forall>k\<in>set (sv_log s). started k (sv_db s)) \<and>
     (\<forall>n iv p. sv_calls s n = Some (iv, p) \<longrightarrow> point_ok (iv_key iv) (sv_db s) (sv_log s) p) \<and>
     (\<forall>n n' iv iv' p p'. sv_calls s n = Some (iv, p) \<longrightarrow> sv_calls s n' = Some (iv', p') \<longrightarrow>
        about_to_call p \<longrightarrow> about_to_call p' \<longrightarrow> iv_key iv = iv_key iv' \<longrightarrow> n = n')"

lemma service_invD:
  assumes "service_inv s"
  shows "wf_store (sv_db s)" "distinct (sv_log s)" "\<And>k. k \<in> set (sv_log s) \<Longrightarrow> started k (sv_db s)"
    "\<And>n iv p. sv_calls s n = Some (iv, p) \<Longrightarrow> point_ok (iv_key iv) (sv_db s) (sv_log s) p"
    "\<And>n n' iv iv' p p'. sv_calls s n = Some (iv, p) \<Longrightarrow> sv_calls s n' = Some (iv', p') \<Longrightarrow>
        about_to_call p \<Longrightarrow> about_to_call p' \<Longrightarrow> iv_key iv = iv_key iv' \<Longrightarrow> n = n'"
  using assms unfolding service_inv_def by blast+

lemma service_invI:
  assumes "wf_store (sv_db s)" "distinct (sv_log s)" "\<And>k. k \<in> set (sv_log s) \<Longrightarrow> started k (sv_db s)"
    "\<And>n iv p. sv_calls s n = Some (iv, p) \<Longrightarrow> point_ok (iv_key iv) (sv_db s) (sv_log s) p"
    "\<And>n n' iv iv' p p'. sv_calls s n = Some (iv, p) \<Longrightarrow> sv_calls s n' = Some (iv', p') \<Longrightarrow>
        about_to_call p \<Longrightarrow> about_to_call p' \<Longrightarrow> iv_key iv = iv_key iv' \<Longrightarrow> n = n'"
  shows "service_inv s"
  using assms unfolding service_inv_def by blast

text \<open>A change of the store by anybody keeps the promises of every invocation.\<close>

lemma service_inv_evolves:
  assumes "service_inv s" "evolves (sv_db s) d"
  shows "service_inv (s\<lparr>sv_db := d\<rparr>)"
proof -
  note inv = service_invD [OF assms(1)]
  have "point_ok (iv_key iv) d (sv_log s) p" if "sv_calls s n = Some (iv, p)" for n iv p
  proof (rule point_ok_stays [OF inv(4) [OF that] assms(2) inv(1)])
    show "iv_key iv \<notin> set (sv_log s)" if "about_to_call p"
      using that inv(4) [OF \<open>sv_calls s n = Some (iv, p)\<close>] by (cases p) auto
  qed simp
  then show ?thesis
    using assms inv evolves_wf started_stays unfolding service_inv_def by simp blast
qed

lemma about_not_logged:
  "point_ok key d ks p \<Longrightarrow> about_to_call p \<Longrightarrow> key \<notin> set ks \<and> started key d"
  by (cases p) auto

lemma calls_about: "calls_tool p \<Longrightarrow> about_to_call p"
  by (cases p) auto

lemma service_step_inv:
  assumes "service_step legacy original s t" "service_inv s"
  shows "service_inv t"
  using assms(1)
proof cases
  case (other d)
  then show ?thesis using service_inv_evolves [OF assms(2)] work_step_evolves service_invD(1) [OF assms(2)] by blast
next
  case (arrive n iv)
  note inv = service_invD [OF assms(2)]
  show ?thesis unfolding service_inv_def arrive(1)
    using inv by (auto split: if_splits)
next
  case (vanish n)
  note inv = service_invD [OF assms(2)]
  show ?thesis unfolding service_inv_def vanish(1)
    using inv by (auto split: if_splits)
next
  case (advance n iv p m p' d)
  note inv = service_invD [OF assms(2)]
  let ?key = "iv_key iv" and ?log = "if calls_tool p then iv_key iv # sv_log s else sv_log s"
  have ok: "point_ok ?key (sv_db s) (sv_log s) p" by (rule inv(4) [OF advance(2)])
  have ev: "evolves (sv_db s) d"
    using invoke_step_store [OF advance(4,3) ok] work_step_evolves inv(1) by auto
  have log: "distinct ?log" "\<forall>k\<in>set ?log. started k d" "set (sv_log s) \<subseteq> set ?log"
    using inv(2,3) about_not_logged [OF ok] calls_about started_stays [OF _ ev inv(1)] by auto
  have mine: "point_ok ?key d ?log p'"
    using invoke_step_point [OF advance(4,3) ok inv(1)] inv(3) by simp
  have others: "point_ok (iv_key iv') d ?log q"
    if c: "sv_calls s n' = Some (iv', q)" "n' \<noteq> n" for n' iv' q
  proof (rule point_ok_stays [OF inv(4) [OF c(1)] ev inv(1) log(3)])
    assume a: "about_to_call q"
    then have "iv_key iv' \<notin> set (sv_log s)" using about_not_logged inv(4) [OF c(1)] by blast
    moreover have "calls_tool p \<Longrightarrow> iv_key iv' \<noteq> iv_key iv"
      using inv(5) [OF c(1) advance(2) a calls_about] c(2) by auto
    ultimately show "iv_key iv' \<notin> set ?log" by auto
  qed
  have alone: "iv_key iv' \<noteq> ?key"
    if c: "sv_calls s n' = Some (iv', q)" "n' \<noteq> n" "about_to_call q" "about_to_call p'" for n' iv' q
  proof (cases "about_to_call p")
    case True
    then show ?thesis using inv(5) [OF c(1) advance(2) c(3)] c(2) by auto
  next
    case False
    from invoke_step_about [OF advance(4) c(4) inv(1) this] about_not_logged [OF inv(4) [OF c(1)] c(3)]
    show ?thesis by auto
  qed
  have excl: "n1 = n2" if c: "((sv_calls s)(n \<mapsto> (iv, p'))) n1 = Some (iv1, p1)"
      "((sv_calls s)(n \<mapsto> (iv, p'))) n2 = Some (iv2, p2)" "about_to_call p1" "about_to_call p2"
      "iv_key iv1 = iv_key iv2" for n1 n2 iv1 iv2 p1 p2
  proof (cases "n1 = n"; cases "n2 = n")
    assume "n1 = n" "n2 \<noteq> n"
    then show ?thesis using c alone [of n2 iv2 p2] by simp
  next
    assume "n1 \<noteq> n" "n2 = n"
    then show ?thesis using c alone [of n1 iv1 p1] by simp
  next
    assume "n1 \<noteq> n" "n2 \<noteq> n"
    then show ?thesis using c inv(5) by simp
  qed simp
  have pts: "point_ok (iv_key iv') d ?log q" if "((sv_calls s)(n \<mapsto> (iv, p'))) n' = Some (iv', q)" for n' iv' q
    using that mine others by (cases "n' = n") auto
  let ?t = "s\<lparr>sv_db := d, sv_calls := (sv_calls s)(n \<mapsto> (iv, p')), sv_log := ?log\<rparr>"
  have fields: "sv_db ?t = d" "sv_calls ?t = (sv_calls s)(n \<mapsto> (iv, p'))" "sv_log ?t = ?log"
    by simp_all
  have "service_inv ?t"
  proof (rule service_invI, unfold fields)
    show "wf_store d" by (rule evolves_wf [OF ev inv(1)])
    show "distinct ?log" by (rule log(1))
    show "started k d" if "k \<in> set ?log" for k using log(2) that by blast
  qed (fact pts, fact excl)
  then show ?thesis unfolding advance(1) .
qed

lemma service_run_inv:
  "service_run legacy original s t \<Longrightarrow> service_inv s \<Longrightarrow> service_inv t"
  by (induction rule: service_run.induct) (auto dest: service_step_inv)

section \<open>Properties\<close>

text \<open>
  C7: A tool call takes effect at most once. Over every execution with any number of concurrent
  invocations, repeated under the same operation id after crashes, refused leases or new inputs,
  and interleaved with every other writer of the store, no tool is called twice for one operation;
  before it is called the dispatch marker is in the store and stays there; and an invocation that
  returns the result of the tool has called it and finds its effect recorded as accepted.
\<close>

theorem tool_call_executes_once:
  assumes "wf_store d" "service_run legacy original \<lparr>sv_db = d, sv_calls = Map.empty, sv_log = []\<rparr> s"
  shows "distinct (sv_log s) \<and>
    (\<forall>key\<in>set (sv_log s). started key (sv_db s)) \<and>
    (\<forall>n iv source. sv_calls s n = Some (iv, Execute source) \<longrightarrow>
       started (iv_key iv) (sv_db s) \<and> iv_key iv \<notin> set (sv_log s)) \<and>
    (\<forall>n iv v. sv_calls s n = Some (iv, Ended (Value v)) \<longrightarrow>
       iv_key iv \<in> set (sv_log s) \<and> accepted (iv_key iv) (sv_db s))"
proof -
  have "service_inv \<lparr>sv_db = d, sv_calls = Map.empty, sv_log = []\<rparr>"
    using assms(1) by (simp add: service_inv_def)
  note inv = service_invD [OF service_run_inv [OF assms(2) this]]
  show ?thesis using inv(2,3) inv(4) [of _ _ "Execute _"] inv(4) [of _ _ "Ended (Value _)"] by auto
qed

end
