(* ===== verification/Work_Examples.thy ===== *)
theory Work_Examples
  imports Work_Effects_Properties
begin

text \<open>
  Concrete stores on which the properties of the Work runtime are applied: a conversation with
  a leased scope, a root Work, a child, inputs, an effect intent and a delivery.
\<close>

definition ex_lease :: work_lease where
  "ex_lease = \<lparr>l_conversation = ''c'', l_generation = 0, l_cancel_epoch = 0, l_fence = 1,
     l_owner = ''h'', l_work_id = None\<rparr>"

definition ex_input :: "int \<Rightarrow> input_state \<Rightarrow> input_row" where
  "ex_input n st = \<lparr>in_id = n, in_conversation = ''c'', in_generation = 0,
     in_source_key = ''in'', in_event_id = None, in_work_id = Some ''r'', in_kind = ''message'',
     in_state = st, in_attempt = Some ''a'', in_ready = True, in_prepare_owner = None,
     in_payload = JObj [], in_created = 0\<rparr>"

definition ex_effect :: effect_row where
  "ex_effect = \<lparr>ef_key = ''e'', ef_work_id = ''r'', ef_kind = ''tool'', ef_state = Prepared,
     ef_receipt = JObj [(''invocation'', JObj [(''version'', JInt 1),
       (''dispatch_started'', JBool False), (''revision'', JInt 1)])], ef_created = 0,
     ef_updated = 0\<rparr>"

definition ex_delivery :: delivery_row where
  "ex_delivery = \<lparr>dl_id = ''m'', dl_work_id = ''r'', dl_kind = ''final'', dl_count = 1,
     dl_state = ''accepted'', dl_payload = JObj [], dl_receipt = JObj [], dl_created = 0,
     dl_updated = 0\<rparr>"

definition ex_db :: "work_state \<Rightarrow> input_state \<Rightarrow> db" where
  "ex_db child_state st = empty_db\<lparr>
     conversations := [\<lparr>cv_id = ''c'', cv_generation = 0\<rparr>],
     scopes := [\<lparr>sc_conversation = ''c'', sc_generation = 0, sc_cancel_epoch = 0, sc_fence = 1,
                 sc_owner = Some ''h'', sc_lease_until = 100\<rparr>],
     works := [demo_work ''r'' None Waiting_external, demo_work ''s'' (Some ''r'') child_state],
     inputs := [ex_input 1 st], effects := [ex_effect], deliveries := [ex_delivery]\<rparr>"

lemmas ex_defs = ex_lease_def ex_input_def ex_effect_def ex_delivery_def ex_db_def demo_work_def
  empty_db_def

lemma ex_wf: "wf_store (ex_db c st)"
  by (simp add: wf_store_def wf_works_def wf_inputs_def wf_effects_def wf_children_def wf_waits_def
      wf_deliveries_def wf_scopes_def wf_recoveries_def wf_budgets_def unique_key_def ex_defs)

lemma ex_lease_valid: "assert_lease (ex_db c st) 10 ex_lease = Inr ()"
  by (simp add: assert_lease_def lease_valid_def worker_lease_def truthy_str_def scope_fence_def ex_defs)

lemma one_step: "store_op d d' \<Longrightarrow> work_run d d'"
  using work_run.step [OF work_run.stop] by (simp add: work_step_def)

lemma ex_cancel: "work_run (ex_db c st) (cancel_scope (ex_db c st) 10 ''c'' None)"
  by (rule one_step) (rule store_op.cancel)

lemma ex_consume: "work_run (ex_db Running Staged) (ex_db Running Consumed)"
proof (rule one_step, rule store_op.consume)
  show "consume (ex_db Running Staged) 10 ex_lease ''a'' = Inr (ex_db Running Consumed)"
    by (simp add: consume_def ex_lease_valid) (simp add: consumable_def ex_defs)
qed

theorem runs_keep_store_well_formed_witness:
  "wf_store (ex_db Running Consumed) \<and>
   budget_root_id (ex_db Running Consumed) ''s'' = Inr ''r''"
proof -
  have "demo_work ''s'' (Some ''r'') Running \<in> set (works (ex_db Running Consumed))"
    by (simp add: ex_db_def)
  with runs_keep_store_well_formed [OF ex_wf ex_consume] show ?thesis
    by (force simp: ex_defs lineage_def lookup_by_def)
qed

lemmas commit_defs = commit_state_def settle_state_def settle_mailbox_def settle_owned_def
  settle_signal_def mailbox_def state_guard_def owned_execution_def descendant_ids_def
  descendants_def business_input_def open_input_def terminal_def Let_def

lemma ex_commit:
  "\<exists>row d'. commit_state (ex_db Running Pending) 10 ex_lease ''s'' Completed (Some 1) None None
     (Some ''completed'') None = Inr (row, d') \<and> w_state row = Completed \<and> w_id row = ''s'' \<and>
     w_parent row = Some ''r''"
  by (simp add: commit_defs state_row_def ex_defs)

theorem transition_is_compare_and_set_witness:
  "\<exists>row d1. transition (ex_db Running Pending) 10 ex_lease ''s'' 1 ''completed'' None None
       (Some ''completed'') = Inr (row, d1) \<and>
     (\<forall>r. transition d1 11 ex_lease ''s'' 1 ''failed'' None None None \<noteq> Inr r)"
proof -
  have p: "parse_work_state ''completed'' = Some Completed"
    using parse_work_state_name [of Completed] by (simp add: work_state_name_def)
  obtain row d1 where c: "commit_state (ex_db Running Pending) 10 ex_lease ''s'' Completed (Some 1)
      None None (Some ''completed'') None = Inr (row, d1)" using ex_commit by blast
  have t: "transition (ex_db Running Pending) 10 ex_lease ''s'' 1 ''completed'' None None
      (Some ''completed'') = Inr (row, d1)"
    by (simp add: transition_def p ex_lease_valid c)
  from transition_is_compare_and_set [OF ex_wf t work_run.stop] t show ?thesis by blast
qed

theorem completion_strands_nothing_witness:
  "\<exists>row d'. commit_state (ex_db Running Pending) 10 ex_lease ''s'' Completed (Some 1) None None
       (Some ''completed'') None = Inr (row, d') \<and> \<not> active_wait d' ''s''"
proof -
  obtain row d1 where c: "commit_state (ex_db Running Pending) 10 ex_lease ''s'' Completed (Some 1)
      None None (Some ''completed'') None = Inr (row, d1)" "w_state row = Completed"
    using ex_commit by blast
  from completion_strands_nothing [OF c] c show ?thesis by blast
qed

theorem child_result_reaches_parent_witness:
  "\<exists>row d'. commit_state (ex_db Running Pending) 10 ex_lease ''s'' Completed (Some 1) None None
       (Some ''completed'') None = Inr (row, d') \<and>
     (\<exists>y\<in>set (inputs d'). in_work_id y = Some ''r'' \<and> in_kind y = ''completion'')"
proof -
  obtain row d1 where c: "commit_state (ex_db Running Pending) 10 ex_lease ''s'' Completed (Some 1)
      None None (Some ''completed'') None = Inr (row, d1)"
    and row: "w_state row = Completed" "w_id row = ''s''" "w_parent row = Some ''r''"
    using ex_commit by blast
  have t: "terminal (w_state row)" using row by (simp add: terminal_def)
  have nc: "w_id row \<notin> ch_work_id ` set (children (ex_db Running Pending))" by (simp add: ex_defs)
  have "''work-result:'' @ w_id row @ x \<notin> in_source_key ` set (inputs (ex_db Running Pending))" for x
    by (simp add: ex_defs)
  note fresh = this
  obtain y where "y \<in> set (inputs d1)" "in_work_id y = Some ''r''" "in_kind y = ''completion''"
    using conjunct1 [OF child_result_reaches_parent [OF c t row(3) nc]] fresh by metis
  with c show ?thesis by metis
qed

theorem stopping_stops_subtree_witness:
  "\<exists>row d'. commit_state (ex_db Running Consumed) 10 ex_lease ''r'' Failed None None None None None
       = Inr (row, d') \<and>
     ''s'' \<notin> w_id ` {w \<in> set (works d'). \<not> terminal (w_state w)}"
proof -
  have "\<exists>row d'. commit_state (ex_db Running Consumed) 10 ex_lease ''r'' Failed None None None None None
       = Inr (row, d') \<and> w_state row = Failed"
    by (simp add: commit_defs state_row_def ex_defs)
  then obtain row d' where c: "commit_state (ex_db Running Consumed) 10 ex_lease ''r'' Failed None None
      None None None = Inr (row, d')" "w_state row \<in> {Failed, Cancelled}" by blast
  have "''s'' \<in> set (descendant_ids (ex_db Running Consumed) True ''r'')"
    by (simp add: descendant_ids_def descendants_def ex_defs)
  from bspec [OF stopping_stops_subtree [OF ex_wf c] this]
  have "''s'' \<notin> w_id ` {w \<in> set (works d'). \<not> terminal (w_state w)}" by auto
  with c(1) show ?thesis by metis
qed

lemmas lease_defs = assert_lease_def lease_valid_def worker_lease_def truthy_str_def scope_fence_def

definition ex_admission :: "string \<Rightarrow> admission" where
  "ex_admission i = \<lparr>ad_source_key = ''q'', ad_source = JObj [], ad_goal = ''g'', ad_parent = None,
     ad_identity = i, ad_handoff = None, ad_initial = ''running''\<rparr>"

lemma ex_not_blank: "\<not> blank ''g''"
  by (simp add: blank_def py_space_def)

lemmas accept_defs = accept_in_session_def ex_admission_def ex_not_blank admission_authority_def
  self_automation_origin_def insert_work_def new_work_def admit_row_def

lemma ex_accept: "\<exists>row d1. accept_in_session (ex_db Running Pending) 10 ex_lease (ex_admission i) =
    Inr (row, d1) \<and> w_id row = i" if "i \<notin> {''r'', ''s''}"
  using that by (simp add: accept_defs lease_defs ex_defs lookup_by_def terminal_def
      admitted_state_def)

lemma ex_accept_again:
  assumes "accept_in_session (ex_db Running Pending) 10 ex_lease (ex_admission ''t'') = Inr (row, d1)"
  shows "\<exists>row' d3. accept_in_session d1 11 ex_lease (ex_admission ''u'') = Inr (row', d3)"
proof -
  have d1: "d1 = (ex_db Running Pending)\<lparr>works := works (ex_db Running Pending) @
      [new_work ex_lease 10 ''t'' ''q'' (JObj []) ''g'' None Running]\<rparr>"
    using assms by (auto simp: accept_defs lease_defs lookup_by_def admitted_state_def
        terminal_def ex_defs split: if_splits)
  have "assert_lease d1 11 ex_lease = Inr ()"
    by (simp add: d1 lease_defs ex_defs)
  then show ?thesis
    by (simp add: accept_defs d1 lookup_by_def lease_defs terminal_def admitted_state_def ex_defs)
qed

theorem source_admitted_once_witness:
  "\<exists>row d1 row'. accept_in_session (ex_db Running Pending) 10 ex_lease (ex_admission ''t'') = Inr (row, d1) \<and>
     accept_in_session d1 11 ex_lease (ex_admission ''u'') = Inr (row', d1) \<and> w_id row' = ''t''"
proof -
  obtain row d1 where a: "accept_in_session (ex_db Running Pending) 10 ex_lease (ex_admission ''t'') =
      Inr (row, d1)" "w_id row = ''t''" using ex_accept [of "''t''"] by auto
  obtain row' d3 where b: "accept_in_session d1 11 ex_lease (ex_admission ''u'') = Inr (row', d3)"
    using ex_accept_again [OF a(1)] by blast
  have "w_id row' = w_id row \<and> d3 = d1 \<and> w_source row' = w_source row"
    by (rule source_admitted_once [OF ex_wf a(1) work_run.stop b]) (simp_all add: ex_admission_def)
  with a b show ?thesis by metis
qed

lemma ex_dispatch:
  "\<exists>d'. admit_dispatch (ex_db Running Pending) (ex_db Running Pending) 10 ex_lease ''r'' ''e'' False =
     Inr (True, d')"
  by (simp add: admit_dispatch_def find_effect_def dispatch_commit_def lease_defs
      dispatch_guard_def Let_def ex_defs truthy_opt_def)

theorem effect_dispatched_at_most_once_witness:
  "\<exists>d'. dispatch_run (ex_db Running Pending) [''e''] d' \<and>
     (\<exists>e\<in>set (effects d'). ef_key e = ''e'' \<and> invocation_started e)"
proof -
  obtain d' where "dispatch_run (ex_db Running Pending) [''e''] d'"
    using ex_dispatch dispatch_run.admitted [OF dispatch_run.start] by blast
  with effect_dispatched_at_most_once [OF ex_wf this] show ?thesis by auto
qed

theorem accepted_delivery_never_replayed_witness:
  "lookup_by dl_id ''m'' (deliveries (ex_db Running Consumed)) = Some ex_delivery \<and>
   (\<forall>x. reserve (ex_db Running Consumed) 10 ex_lease (Some ''r'') ''m'' ''final'' (JObj []) 1 \<noteq> Inr x)"
proof -
  have "lookup_by dl_id ''m'' (deliveries (ex_db Running Staged)) = Some ex_delivery"
    by (simp add: ex_db_def ex_delivery_def)
  from accepted_delivery_never_replayed [OF ex_wf ex_consume this] show ?thesis
    by (auto simp: ex_delivery_def)
qed

theorem receipt_readings_agree_witness:
  "\<not> unknown_historical (ex_effect\<lparr>ef_receipt := JObj [(''outcome'', JObj [(''ok'', JBool True)])]\<rparr>)"
proof -
  let ?e = "ex_effect\<lparr>ef_receipt := JObj [(''outcome'', JObj [(''ok'', JBool True)])]\<rparr>"
  have "json_get ''outcome'' (ef_receipt ?e) = Some (JObj [(''ok'', JBool True)])" by simp
  then have "unknown_historical ?e = (\<not> evidence_valid (json_get ''outcome'' (ef_receipt ?e)))"
    using receipt_readings_agree [of ?e] by blast
  then show ?thesis by (auto simp: evidence_valid_def)
qed

end
