(* ===== verification/Invocation_Examples.thy ===== *)
theory Invocation_Examples
  imports Invocation_Service Work_Examples
begin

text \<open>A tool call on the store of \<open>Work_Examples\<close>, from its admission to its recorded result.\<close>

section \<open>A concrete call\<close>

text \<open>One invocation that nobody interrupts.\<close>

fun solo ::
  "(json \<Rightarrow> json option) \<Rightarrow> (json \<Rightarrow> json \<Rightarrow> work_error + json) \<Rightarrow> invocation \<Rightarrow> moment \<Rightarrow> db \<Rightarrow> nat \<Rightarrow>
   point \<times> db \<times> string list" where
  "solo legacy original iv m d 0 = (Begin, d, [])"
| "solo legacy original iv m d (Suc k) =
     (case solo legacy original iv m d k of
        (p, d1, ks) \<Rightarrow> (case invoke_step legacy original iv m d1 p of
          (p', d2) \<Rightarrow> (p', d2, if calls_tool p then iv_key iv # ks else ks)))"

lemma solo_run:
  assumes "quiet_hook (mo_publish m)" "solo legacy original iv m d k = (p, d', ks)"
  shows "service_run legacy original \<lparr>sv_db = d, sv_calls = Map.empty, sv_log = []\<rparr>
    \<lparr>sv_db = d', sv_calls = [0 \<mapsto> (iv, p)], sv_log = ks\<rparr>"
  using assms(2)
proof (induction k arbitrary: p d' ks)
  case 0
  have "service_step legacy original \<lparr>sv_db = d, sv_calls = Map.empty, sv_log = []\<rparr>
      \<lparr>sv_db = d, sv_calls = [0 \<mapsto> (iv, Begin)], sv_log = []\<rparr>"
    using service_step.arrive [of "\<lparr>sv_db = d, sv_calls = Map.empty, sv_log = []\<rparr>" 0] by simp
  then show ?case using 0 service_run.step [OF service_run.stop] by (simp only: solo.simps prod.inject)
next
  case (Suc k)
  obtain q d1 ks1 where 1: "solo legacy original iv m d k = (q, d1, ks1)" by (metis prod_cases3)
  then have 2: "invoke_step legacy original iv m d1 q = (p, d')" "ks = (if calls_tool q then iv_key iv # ks1 else ks1)"
    using Suc.prems by (auto split: prod.splits)
  have "service_step legacy original \<lparr>sv_db = d1, sv_calls = [0 \<mapsto> (iv, q)], sv_log = ks1\<rparr>
      \<lparr>sv_db = d', sv_calls = [0 \<mapsto> (iv, p)], sv_log = ks\<rparr>"
    using service_step.advance [of "\<lparr>sv_db = d1, sv_calls = [0 \<mapsto> (iv, q)], sv_log = ks1\<rparr>" 0 iv q m legacy original p d'] assms(1) 2
    by (cases "calls_tool q") simp_all
  then show ?case using Suc.IH [OF 1] service_run.step by blast
qed

definition ex_identity :: invocation_identity where
  "ex_identity = \<lparr>id_operation = ''k'', id_owner = ''r'', id_chain = ''h'', id_sequence = 0, id_call = ''1'',
     id_parent = None, id_ordinal = None, id_engine_call = None, id_feed = None\<rparr>"

definition ex_invocation :: invocation where
  "ex_invocation = \<lparr>iv_identity = ex_identity, iv_expected = ''k'', iv_work = ''r'', iv_lease = ex_lease,
     iv_name = ''search'', iv_meta = durable_metadata (\<lambda>s. s) (\<lambda>j. None) ex_identity ''search'' None [] [],
     iv_side_effecting = False, iv_signature = JNull\<rparr>"

definition ex_typed :: typed_outcome where
  "ex_typed = \<lparr>ty_evidence = JObj [(''ok'', JBool True)], ty_handle = JNull, ty_media = None,
     ty_core = False, ty_uncertain = False\<rparr>"

definition ex_moment :: moment where
  "ex_moment = \<lparr>mo_now = 10, mo_privacy = 0, mo_control_valid = True,
     mo_answer = Returns ''found'' (Some ex_typed), mo_publish = (\<lambda>x i. Inr x)\<rparr>"

definition ex_solo :: "nat \<Rightarrow> point \<times> db \<times> string list" where
  "ex_solo = solo (\<lambda>j. None) (\<lambda>r e. Inr r) ex_invocation ex_moment (ex_db Running Consumed)"

lemma ex_solo_ends:
  "fst (ex_solo 11) = Ended (Value ''found'') \<and> snd (snd (ex_solo 11)) = [''k'']"
  by code_simp

theorem tool_call_executes_once_witness:
  "\<exists>d. ex_solo 11 = (Ended (Value ''found''), d, [''k'']) \<and> started ''k'' d \<and> accepted ''k'' d"
proof -
  obtain d where d: "ex_solo 11 = (Ended (Value ''found''), d, [''k''])"
    using ex_solo_ends by (metis prod.collapse)
  have "quiet_hook (mo_publish ex_moment)" by (simp add: quiet_hook_def ex_moment_def)
  note once = tool_call_executes_once [OF ex_wf solo_run [OF this d [unfolded ex_solo_def]]]
  have k: "iv_key ex_invocation = ''k''" by (simp add: iv_key_def ex_invocation_def ex_identity_def)
  have "started ''k'' d" using conjunct1 [OF conjunct2 [OF once]] by simp
  moreover have "accepted ''k'' d"
    using conjunct2 [OF conjunct2 [OF conjunct2 [OF once]], rule_format, of 0 ex_invocation "''found''"] k by simp
  ultimately show ?thesis using d by blast
qed

end
