(* ===== verification/Subagent_Archive.thy ===== *)
theory Subagent_Archive
  imports Subagent_Steps
begin

text \<open>
  The maintenance of child executions (\<open>SubagentRepository.maintain\<close>): the repair of results
  that a crash left unpublished, page by page, and the archive of trees that ended more than a
  week ago. The archive reads its candidates in one session (\<open>seen\<close>), releases external
  resources and checks every condition again in the writer. Which sixteen rows the candidate
  query returns is SQLite's choice (\<open>page\<close>); the sandbox resources are parameters. The table of
  protocol references, whose rows of the archived Works are deleted too, is not part of the store.
\<close>

section \<open>Repair, page by page\<close>

text \<open>
  The loop of \<open>maintain\<close> with no other writer between its sessions: every page is published and
  what of it was not published is read again. A unit of fuel is one page.
\<close>

fun repair_changed ::
  "nat \<Rightarrow> (json \<Rightarrow> string) \<Rightarrow> string \<Rightarrow> db \<Rightarrow> clock \<Rightarrow> work_row list \<Rightarrow> (work_error + db) option" where
  "repair_changed 0 py_str detail d now page = None"
| "repair_changed (Suc n) py_str detail d now page =
     (if page = [] then Some (Inr d)
      else case repair_page py_str detail d now page of
        Inl e \<Rightarrow> Some (Inl e)
      | Inr (ids, d') \<Rightarrow>
          if filter (\<lambda>w. w_id w \<notin> set ids) page = [] then Some (Inr d')
          else repair_changed n py_str detail d' now (changed_page d' now ids page))"

fun repair_pass ::
  "nat \<Rightarrow> (json \<Rightarrow> string) \<Rightarrow> string \<Rightarrow> db \<Rightarrow> clock \<Rightarrow> (string \<times> int) option \<Rightarrow> (work_error + db) option" where
  "repair_pass 0 py_str detail d now after = None"
| "repair_pass (Suc n) py_str detail d now after =
     (let page = missed_page d now after
      in if page = [] then Some (Inr d)
         else case repair_changed (Suc n) py_str detail d now page of
           Some (Inr d') \<Rightarrow>
             repair_pass n py_str detail d' now (Some (w_id (last page), w_revision (last page)))
         | r \<Rightarrow> r)"

section \<open>The archive of finished trees\<close>

definition archive_age :: clock where
  "archive_age = 7 * 86400"

definition rooted_tree :: "db \<Rightarrow> string list \<Rightarrow> (string \<times> string) list" where
  "rooted_tree d roots = concat (map (\<lambda>r. map (\<lambda>j. (j, r)) (descendants d r)) roots)"

definition idle_child :: "db \<Rightarrow> clock \<Rightarrow> string \<Rightarrow> bool" where
  "idle_child d now i =
     list_ex (\<lambda>c. ch_work_id c = i \<and> ch_archived_at c = None \<and> ch_lease_until c \<le> now) (children d)"

definition ended_work :: "db \<Rightarrow> string \<Rightarrow> bool" where
  "ended_work d i = list_ex (\<lambda>w. w_id w = i \<and> terminal (w_state w)) (works d)"

definition open_work :: "db \<Rightarrow> string \<Rightarrow> bool" where
  "open_work d i = list_ex (\<lambda>w. w_id w = i \<and> \<not> terminal (w_state w)) (works d)"

definition old_work :: "db \<Rightarrow> clock \<Rightarrow> string \<Rightarrow> bool" where
  "old_work d now i =
     list_ex (\<lambda>w. w_id w = i \<and> terminal (w_state w) \<and> w_updated w < now - archive_age) (works d)"

definition old_root :: "db \<Rightarrow> clock \<Rightarrow> string \<Rightarrow> bool" where
  "old_root d now i = list_ex (\<lambda>w. w_id w = i \<and> w_parent w = None \<and> terminal (w_state w) \<and>
     w_updated w < now - archive_age) (works d)"

text \<open>The roots above the children that are idle and not archived, or the given ones.\<close>

definition archive_roots :: "db \<Rightarrow> clock \<Rightarrow> string list option \<Rightarrow> string list" where
  "archive_roots d now given =
     (case given of
        Some ids \<Rightarrow> map w_id (filter (\<lambda>w. w_id w \<in> set ids) (works d))
      | None \<Rightarrow> remdups (List.map_filter
          (\<lambda>c. map_option w_id (List.find (\<lambda>w. w_parent w = None) (lineage d (ch_work_id c))))
          (filter (\<lambda>c. ch_archived_at c = None \<and> ch_lease_until c \<le> now) (children d))))"

definition expired_rows :: "db \<Rightarrow> clock \<Rightarrow> string list option \<Rightarrow> (string \<times> string) list" where
  "expired_rows d now given =
     (let tree = rooted_tree d (filter (old_root d now) (archive_roots d now given));
          retained = map snd (filter (\<lambda>(j, r). open_work d j) tree)
      in filter (\<lambda>(j, r). idle_child d now j \<and> ended_work d j \<and> r \<notin> set retained) tree)"

definition roots_for_archive :: "db \<Rightarrow> clock \<Rightarrow> string list \<Rightarrow> string list \<Rightarrow> string list" where
  "roots_for_archive d now expired root_ids =
     (let tree = rooted_tree d (map w_id (filter (\<lambda>w. w_id w \<in> set root_ids) (works d)));
          kept = map snd (filter (\<lambda>(j, r). list_ex (\<lambda>c. ch_work_id c = j \<and> ch_archived_at c = None \<and>
            j \<notin> set expired) (children d)) tree)
      in remdups (map snd (filter (\<lambda>(j, r). j \<in> set expired \<and> r \<notin> set kept \<and> old_work d now r) tree)))"

definition archive_child :: "clock \<Rightarrow> child_row \<Rightarrow> child_row" where
  "archive_child now c =
     c\<lparr>ch_archived_at := Some now, ch_brief := JObj [], ch_owner := None, ch_lease_until := 0\<rparr>"

definition archive_work :: "work_row \<Rightarrow> work_row" where
  "archive_work w = w\<lparr>w_checkpoint := JObj [], w_source := JObj []\<rparr>"

definition archive_write :: "db \<Rightarrow> clock \<Rightarrow> string list \<Rightarrow> string list \<Rightarrow> db" where
  "archive_write d now expired gone =
     (let hashes = map snd (filter (\<lambda>r. fst r \<in> set gone) (media_refs d));
          refs = filter (\<lambda>r. fst r \<notin> set gone) (media_refs d)
      in d\<lparr>children := update_where (\<lambda>c. ch_work_id c \<in> set expired) (archive_child now) (children d),
           works := update_where (\<lambda>w. w_id w \<in> set expired) archive_work (works d),
           journals := filter (\<lambda>j. jn_work_id j \<notin> set gone) (journals d),
           effects := filter (\<lambda>e. ef_work_id e \<notin> set gone) (effects d),
           inputs := filter (\<lambda>x. case in_work_id x of None \<Rightarrow> True | Some i \<Rightarrow> i \<notin> set gone) (inputs d),
           media_refs := refs,
           media_blobs := filter (\<lambda>b. \<not> (fst b \<in> set hashes \<and> fst b \<notin> snd ` set refs)) (media_blobs d)\<rparr>)"

fun comma_list :: "string list \<Rightarrow> string" where
  "comma_list [] = []"
| "comma_list [i] = i"
| "comma_list (i # ids) = i @ '','' @ comma_list ids"

text \<open>
  \<open>now\<close> is read once after the repair; \<open>later\<close> is the time stamped in the writer. \<open>validate\<close> is
  the check in the writer that the external resources are still the ones that were released.
\<close>

definition archive_commit ::
  "(db \<Rightarrow> string list \<Rightarrow> work_error + unit) \<Rightarrow> db \<Rightarrow> clock \<Rightarrow> clock \<Rightarrow> string list \<Rightarrow> string list \<Rightarrow>
   string list \<Rightarrow> work_error + db" where
  "archive_commit validate d now later original original_ids root_ids =
     (let expired = filter (\<lambda>i. i \<in> set original) (map fst (expired_rows d now (Some root_ids)));
          gone = expired @ roots_for_archive d now expired root_ids
      in if expired = [] then Inr d
         else if set gone \<noteq> set original_ids
         then Inl (Value_error ''external_agent_cleanup_source_changed'')
         else ebind (validate d original_ids) (\<lambda>_. Inr (archive_write d later expired gone)))"

text \<open>
  \<open>external\<close> says whether resources of these Works live outside, \<open>client\<close> is the client that
  releases them under a key.
\<close>

definition release_external ::
  "(string list \<Rightarrow> bool) \<Rightarrow> (string list \<Rightarrow> string \<Rightarrow> work_error + unit) option \<Rightarrow> string list \<Rightarrow>
   work_error + unit" where
  "release_external external client ids =
     (if \<not> external ids then Inr ()
      else case client of
        None \<Rightarrow> Inl (Value_error ''external_agent_cleanup_unconfirmed'')
      | Some cleanup \<Rightarrow> cleanup ids (''work-archive:'' @ comma_list ids))"

definition archive_expired ::
  "((string \<times> string) list \<Rightarrow> (string \<times> string) list) \<Rightarrow> (string list \<Rightarrow> bool) \<Rightarrow>
   (string list \<Rightarrow> string \<Rightarrow> work_error + unit) option \<Rightarrow> (db \<Rightarrow> string list \<Rightarrow> work_error + unit) \<Rightarrow>
   db \<Rightarrow> db \<Rightarrow> clock \<Rightarrow> clock \<Rightarrow> work_error + db" where
  "archive_expired page external client validate seen d now later =
     (let candidates = page (expired_rows seen now None);
          root_ids = remdups (map snd candidates);
          original = map fst candidates;
          original_ids = sort (remdups (original @ roots_for_archive seen now original root_ids))
      in if candidates = [] then Inr d
         else ebind (release_external external client original_ids)
           (\<lambda>_. archive_commit validate d now later original original_ids root_ids))"

end
