(* ===== verification/Subagent_Properties.thy ===== *)
theory Subagent_Properties
  imports Subagent_Archive Work_Effects_Properties
begin

text \<open>
  The properties of child executions: a child is started once, an uninterrupted repair publishes
  every result that was missed, stopping a Work from outside stops its subtree, and the archive
  touches only trees that have ended.
\<close>

section \<open>The repair of missed results\<close>

definition children_owned :: "db \<Rightarrow> bool" where
  "children_owned d \<longleftrightarrow> (\<forall>c\<in>set (children d). \<forall>w\<in>set (works d). w_id w = ch_work_id c \<longrightarrow> w_parent w \<noteq> None)"

definition repair_of :: "work_row \<Rightarrow> prepared_result" where
  "repair_of w = \<lparr>pr_work = w, pr_lease = None\<rparr>"

definition result_key :: "work_row \<Rightarrow> string" where
  "result_key w = ''worker-result:'' @ w_id w @ '':'' @ show_int (w_revision w)"

lemma repair_of_simps [simp]:
  "pr_work (repair_of w) = w" "pr_lease (repair_of w) = None"
  "pr_conversation (repair_of w) = w_conversation w" "pr_generation (repair_of w) = w_generation w"
  by (simp_all add: repair_of_def pr_conversation_def pr_generation_def)

lemma repair_page_of: "repair_page py_str detail d now page = finish_results py_str detail d now (map repair_of page)"
  by (simp add: repair_page_def repair_of_def [abs_def])

lemma missed_same_result:
  assumes "missed_result d now w" "w_parent w \<noteq> None"
  shows "same_result (repair_of w) w"
  using assms by (auto simp: same_result_def missed_result_def result_leaf_def result_states_def terminal_def)

lemma missed_publishable:
  assumes "missed_result d now w" "w \<in> set (works d)" "children_owned d"
  obtains c where "c \<in> set (children d)" "publishable d now (repair_of w) c"
proof -
  obtain c where c: "c \<in> set (children d)" "ch_work_id c = w_id w" "ch_archived_at c = None"
      "ch_lease_until c \<le> now" "ch_notified_revision c < w_revision w"
    and v: "list_ex (\<lambda>v. cv_id v = w_conversation w \<and> cv_generation v = w_generation w) (conversations d)"
    using assms(1) by (auto simp: missed_result_def list_ex_iff)
  have "w_parent w \<noteq> None" using assms(2,3) c by (auto simp: children_owned_def)
  then have "list_ex (same_result (repair_of w)) (works d)"
    using missed_same_result [OF assms(1)] assms(2) by (auto simp: list_ex_iff)
  then have "publishable d now (repair_of w) c"
    using c v by (simp add: publishable_def publish_claim_def)
  then show ?thesis using that c by blast
qed

lemma publishable_repair:
  "publishable d now (repair_of w) c \<Longrightarrow> ch_work_id c = w_id w \<and> ch_archived_at c = None \<and> ch_lease_until c \<le> now"
  by (simp add: publishable_def publish_claim_def)

lemma fold_notice_frame:
  "works (fold (result_notice py_str detail now) ns x) = works x"
  "children (fold (result_notice py_str detail now) ns x) = children x"
  "waits (fold (result_notice py_str detail now) ns x) = waits x"
  "conversations (fold (result_notice py_str detail now) ns x) = conversations x"
  by (induction ns arbitrary: x) (simp_all add: result_notice_def)

lemma fold_notice_inputs:
  "set (inputs x) \<subseteq> set (inputs (fold (result_notice py_str detail now) ns x))"
proof (induction ns arbitrary: x)
  case (Cons n ns)
  have "set (inputs x) \<subseteq> set (inputs (result_notice py_str detail now n x))"
    by (simp add: result_notice_def set_insert_ignore)
  then show ?case using Cons by fastforce
qed simp

text \<open>The notice of a result: there already, or new, pending and ready for the parent.\<close>

definition noticed :: "db \<Rightarrow> db \<Rightarrow> work_row \<Rightarrow> bool" where
  "noticed d d' w \<longleftrightarrow> (\<exists>x\<in>set (inputs d'). in_source_key x = result_key w \<and>
     (result_key w \<notin> in_source_key ` set (inputs d) \<longrightarrow>
       in_work_id x = w_parent w \<and> in_kind x = ''subagent'' \<and> in_state x = Pending \<and> in_ready x))"

definition well_noticed :: "db \<Rightarrow> work_row \<Rightarrow> bool" where
  "well_noticed d w \<longleftrightarrow> (\<exists>x\<in>set (inputs d). in_source_key x = result_key w \<and>
     in_work_id x = w_parent w \<and> in_kind x = ''subagent'' \<and> in_state x = Pending \<and> in_ready x)"

lemma notice_one:
  assumes "result_key w \<notin> in_source_key ` set (inputs x)"
  shows "well_noticed (result_notice py_str detail now (repair_of w) x) w"
  using assms
  by (simp add: well_noticed_def result_notice_def insert_ignore_def mail_input_def result_key_def)

lemma notice_keys:
  "in_source_key ` set (inputs (result_notice py_str detail now (repair_of w) x)) =
     insert (result_key w) (in_source_key ` set (inputs x))"
  by (auto simp: result_notice_def insert_ignore_def result_key_def)

lemma no_colon: "CHR '':'' \<notin> set (show_int n)"
proof -
  have digit: "CHR '':'' \<noteq> digit_char k" if "k < 10" for k
  proof
    assume "CHR '':'' = digit_char k"
    then have "of_char (CHR '':'') = (of_char (digit_char k) :: nat)" by simp
    then show False using that by (simp add: digit_char_def)
  qed
  have "CHR '':'' \<notin> set (show_nat k)" for k
  proof (induction k rule: show_nat.induct)
    case (1 n)
    then show ?case using digit [of n] digit [of "n mod 10"] by (subst show_nat.simps) auto
  qed
  then show ?thesis by (simp add: show_int_def)
qed

lemma colon_split:
  assumes "CHR '':'' \<notin> set s" "CHR '':'' \<notin> set s'" "i @ '':'' @ s = i' @ '':'' @ s'"
  shows "i = i'"
proof -
  have "dropWhile (\<lambda>x. x \<noteq> CHR '':'') (rev (i @ '':'' @ s)) = CHR '':'' # rev i" if "CHR '':'' \<notin> set s" for i s :: string
  proof -
    have "dropWhile (\<lambda>x. x \<noteq> CHR '':'') (rev s @ CHR '':'' # rev i) =
        dropWhile (\<lambda>x. x \<noteq> CHR '':'') (CHR '':'' # rev i)"
      by (rule dropWhile_append2) (use that in auto)
    then show ?thesis by simp
  qed
  from trans [OF sym [OF this [OF assms(1), of i, unfolded assms(3)]] this [OF assms(2), of i']]
  show ?thesis by simp
qed

lemma result_key_id: "result_key w = result_key u \<Longrightarrow> w_id w = w_id u"
  using colon_split [OF no_colon no_colon] by (simp add: result_key_def)

lemma notices_all:
  assumes "distinct (map w_id page)" "w \<in> set page"
  shows "\<exists>y\<in>set (inputs (fold (result_notice py_str detail now) (map repair_of page) x)).
    in_source_key y = result_key w \<and> (result_key w \<notin> in_source_key ` set (inputs x) \<longrightarrow>
      in_work_id y = w_parent w \<and> in_kind y = ''subagent'' \<and> in_state y = Pending \<and> in_ready y)"
  using assms
proof (induction page arbitrary: x)
  case (Cons u page)
  let ?x1 = "result_notice py_str detail now (repair_of u) x"
  let ?f = "fold (result_notice py_str detail now) (map repair_of page)"
  show ?case
  proof (cases "w = u")
    case True
    have key: "result_key w \<in> in_source_key ` set (inputs ?x1)" using notice_keys True by simp
    obtain y where y: "y \<in> set (inputs ?x1)" "in_source_key y = result_key w"
      "result_key w \<notin> in_source_key ` set (inputs x) \<longrightarrow>
        in_work_id y = w_parent w \<and> in_kind y = ''subagent'' \<and> in_state y = Pending \<and> in_ready y"
    proof (cases "result_key w \<in> in_source_key ` set (inputs x)")
      case True
      then show ?thesis using key that by auto
    next
      case False
      then have "well_noticed ?x1 w" using notice_one \<open>w = u\<close> by simp
      then show ?thesis using that by (auto simp: well_noticed_def)
    qed
    have "y \<in> set (inputs (?f ?x1))" using y(1) fold_notice_inputs by blast
    then show ?thesis using y(2,3) by auto
  next
    case False
    then have w: "w \<in> set page" "distinct (map w_id page)" using Cons.prems by auto
    have "w_id w \<noteq> w_id u" using Cons.prems(1) w(1) by (metis distinct.simps(2) image_eqI list.simps(9) set_map)
    then have "result_key w \<noteq> result_key u" using result_key_id by blast
    then show ?thesis using Cons.IH [OF w(2,1), of ?x1] by (simp add: notice_keys)
  qed
qed simp


text \<open>One page of missed results, published with no other writer in between.\<close>

definition missed_batch :: "db \<Rightarrow> clock \<Rightarrow> work_row list \<Rightarrow> bool" where
  "missed_batch d now page \<longleftrightarrow> wf_store d \<and> children_owned d \<and> distinct (map w_id page) \<and>
     (\<forall>w\<in>set page. w \<in> set (works d) \<and> missed_result d now w)"

definition told :: "(json \<Rightarrow> string) \<Rightarrow> string \<Rightarrow> db \<Rightarrow> clock \<Rightarrow> work_row list \<Rightarrow> db" where
  "told py_str detail d now page =
     wake_parents (fold (result_notice py_str detail now) (map repair_of page)
       (d\<lparr>children := publish_rows py_str d now (map repair_of page)\<rparr>)) now (map repair_of page)"

lemma missed_batchD:
  assumes "missed_batch d now page"
  shows "wf_store d" "children_owned d" "distinct (map w_id page)"
    "w \<in> set page \<Longrightarrow> w \<in> set (works d)" "w \<in> set page \<Longrightarrow> missed_result d now w"
  using assms by (auto simp: missed_batch_def)

lemma same_work_row:
  "wf_store d \<Longrightarrow> w \<in> set (works d) \<Longrightarrow> u \<in> set (works d) \<Longrightarrow> w_id w = w_id u \<Longrightarrow> w = u"
  using unique_keyD [of w_id "works d" w u] by (simp add: wf_store_def wf_works_def)

lemma same_child_row:
  "wf_store d \<Longrightarrow> c \<in> set (children d) \<Longrightarrow> b \<in> set (children d) \<Longrightarrow> ch_work_id c = ch_work_id b \<Longrightarrow> c = b"
  using unique_keyD [of ch_work_id "children d" c b] by (simp add: wf_store_def wf_children_def)

lemma batch_publishable:
  assumes "missed_batch d now page" "w \<in> set page"
  obtains c where "c \<in> set (children d)" "publishable d now (repair_of w) c"
  using missed_publishable missed_batchD(5) [OF assms] missed_batchD(4) [OF assms]
    missed_batchD(2) [OF assms(1)] by blast

lemma all_published:
  assumes "missed_batch d now page"
  shows "published d now (map repair_of page) = map repair_of page"
proof -
  have "list_ex (publishable d now p) (children d)" if p: "p \<in> set (map repair_of page)" for p
  proof -
    obtain w where w: "p = repair_of w" "w \<in> set page" using p by auto
    from batch_publishable [OF assms w(2)]
    obtain c where "c \<in> set (children d)" "publishable d now (repair_of w) c" .
    then show ?thesis using w(1) by (auto simp: list_ex_iff)
  qed
  then show ?thesis by (simp add: published_def filter_True)
qed

lemma repair_page_told:
  assumes "missed_batch d now page"
  shows "repair_page py_str detail d now page = Inr (map w_id page, told py_str detail d now page)"
proof -
  have "filter (\<lambda>p. w_state (pr_work p) \<in> set result_states) (map repair_of page) = map repair_of page"
    using missed_batchD(5) [OF assms] by (auto simp: filter_id_conv missed_result_def)
  then show ?thesis
    by (simp add: repair_page_of finish_results_def Let_def all_published [OF assms] told_def list_ex_iff comp_def)
qed

lemma told_frame:
  "children (told py_str detail d now page) = publish_rows py_str d now (map repair_of page)"
  "waits (told py_str detail d now page) = waits d"
  "conversations (told py_str detail d now page) = conversations d"
  by (simp_all add: told_def wake_parents_def fold_notice_frame)

lemma published_row:
  assumes "missed_batch d now page" "c \<in> set (children d)" "w \<in> set page" "ch_work_id c = w_id w"
  shows "List.find (\<lambda>p. publishable d now p c) (map repair_of page) = Some (repair_of w)"
proof -
  note wf = missed_batchD(1) [OF assms(1)]
  obtain b where b: "b \<in> set (children d)" "publishable d now (repair_of w) b"
    by (rule batch_publishable [OF assms(1,3)])
  then have "b = c" using same_child_row [OF wf b(1) assms(2)] publishable_repair assms(4) by simp
  then have "List.find (\<lambda>p. publishable d now p c) (map repair_of page) \<noteq> None"
    using b(2) assms(3) by (auto simp: find_None_iff)
  then obtain p where p: "List.find (\<lambda>p. publishable d now p c) (map repair_of page) = Some p" by blast
  then obtain u where u: "u \<in> set page" "p = repair_of u" "w_id u = ch_work_id c"
    using publishable_repair by (fastforce simp: find_Some_iff in_set_conv_nth)
  then have "u = w"
    using same_work_row [OF wf] missed_batchD(4) [OF assms(1)] assms(3,4) by simp
  then show ?thesis using p u(2) by simp
qed

lemma unpublished_row:
  assumes "ch_work_id c \<notin> w_id ` set page"
  shows "List.find (\<lambda>p. publishable d now p c) (map repair_of page) = None"
  using assms publishable_repair by (fastforce simp: find_None_iff)

lemma told_children:
  assumes "missed_batch d now page"
  shows "c' \<in> set (children (told py_str detail d now page)) \<longleftrightarrow>
    (\<exists>c\<in>set (children d). (ch_work_id c \<notin> w_id ` set page \<and> c' = c) \<or>
       (\<exists>w\<in>set page. ch_work_id c = w_id w \<and> c' = publish_row py_str (repair_of w) c))"
proof -
  let ?f = "\<lambda>c. case List.find (\<lambda>p. publishable d now p c) (map repair_of page) of
      None \<Rightarrow> c | Some p \<Rightarrow> publish_row py_str p c"
  have row: "c' = ?f c \<longleftrightarrow> (ch_work_id c \<notin> w_id ` set page \<and> c' = c) \<or>
       (\<exists>w\<in>set page. ch_work_id c = w_id w \<and> c' = publish_row py_str (repair_of w) c)"
    if c: "c \<in> set (children d)" for c
  proof (cases "ch_work_id c \<in> w_id ` set page")
    case True
    then obtain w where w: "w \<in> set page" "ch_work_id c = w_id w" by auto
    have "u = w" if "u \<in> set page" "ch_work_id c = w_id u" for u
      using same_work_row missed_batchD [OF assms] that w by metis
    then show ?thesis using published_row [OF assms c w] w by auto
  next
    case False
    then show ?thesis using unpublished_row by (simp add: image_iff)
  qed
  show ?thesis unfolding told_frame publish_rows_def set_map image_iff [of c'] by (simp only: row cong: bex_cong)
qed


lemma told_works:
  "works (told py_str detail d now page) = update_where
     (\<lambda>w. (\<exists>u\<in>set page. w_parent u = Some (w_id w)) \<and> w_state w = Waiting_external \<and> \<not> active_wait d (w_id w))
     (wake_parent now) (works d)"
  by (simp add: told_def wake_parents_def fold_notice_frame list_ex_iff active_wait_def)

lemma told_work:
  assumes "w' \<in> set (works (told py_str detail d now page))"
  obtains (same) "w' \<in> set (works d)" "(\<exists>u\<in>set page. w_parent u = Some (w_id w')) \<Longrightarrow>
      w_state w' = Waiting_external \<Longrightarrow> active_wait d (w_id w')"
    | (woken) w where "w \<in> set (works d)" "w' = wake_parent now w" "w_state w = Waiting_external"
  using assms by (auto simp: told_works set_update_where)

lemma wake_not_missed [simp]: "\<not> missed_result d now (wake_parent now w)"
  by (simp add: missed_result_def wake_parent_def result_states_def)

lemma told_missed:
  assumes "missed_batch d now page"
  shows "w' \<in> set (works (told py_str detail d now page)) \<and> missed_result (told py_str detail d now page) now w' \<longleftrightarrow>
    w' \<in> set (works d) \<and> missed_result d now w' \<and> w' \<notin> set page"
    (is "?l \<longleftrightarrow> ?r")
proof
  note wf = missed_batchD(1) [OF assms]
  let ?d = "told py_str detail d now page"
  assume l: ?l
  then have w': "w' \<in> set (works d)"
    by (cases rule: told_work [OF conjunct1 [OF l]]) auto
  obtain c' where c': "c' \<in> set (children ?d)" "ch_work_id c' = w_id w'" "ch_archived_at c' = None"
      "ch_lease_until c' \<le> now" "ch_notified_revision c' < w_revision w'"
    and st: "w_state w' \<in> set result_states"
      "list_ex (\<lambda>v. cv_id v = w_conversation w' \<and> cv_generation v = w_generation w') (conversations d)"
    using l by (auto simp: missed_result_def list_ex_iff told_frame)
  from c'(1) obtain c where c: "c \<in> set (children d)"
      "(ch_work_id c \<notin> w_id ` set page \<and> c' = c) \<or>
       (\<exists>w\<in>set page. ch_work_id c = w_id w \<and> c' = publish_row py_str (repair_of w) c)"
    unfolding told_children [OF assms] by blast
  from c(2) show ?r
  proof (elim disjE conjE bexE)
    assume n: "ch_work_id c \<notin> w_id ` set page" "c' = c"
    then have "w' \<notin> set page" using c'(2) by auto
    then show ?thesis using w' st c' c(1) n(2) by (auto simp: missed_result_def list_ex_iff)
  next
    fix w assume w: "w \<in> set page" "ch_work_id c = w_id w" "c' = publish_row py_str (repair_of w) c"
    then have "w = w'"
      using same_work_row [OF wf missed_batchD(4) [OF assms w(1)] w'] c'(2) by (simp add: publish_row_def)
    then show ?thesis using c'(5) w(3) by (simp add: publish_row_def)
  qed
next
  let ?d = "told py_str detail d now page"
  assume r: ?r
  then have "w_state w' \<noteq> Waiting_external" by (auto simp: missed_result_def result_states_def)
  then have in': "w' \<in> set (works ?d)" using r by (auto simp: told_works set_update_where)
  obtain c where c: "c \<in> set (children d)" "ch_work_id c = w_id w'" "ch_archived_at c = None"
      "ch_lease_until c \<le> now" "ch_notified_revision c < w_revision w'"
    using r by (auto simp: missed_result_def list_ex_iff)
  have "ch_work_id c \<notin> w_id ` set page"
    using r c(2) same_work_row [OF missed_batchD(1) [OF assms]] missed_batchD(4) [OF assms] by (metis imageE)
  then have "c \<in> set (children ?d)" using c(1) told_children [OF assms] by blast
  then have "missed_result ?d now w'"
    using r c by (auto simp: missed_result_def list_ex_iff told_frame(3))
  then show ?l using in' by blast
qed

lemma told_keeps:
  assumes "missed_batch d now page"
  shows "wf_store (told py_str detail d now page)" "children_owned (told py_str detail d now page)"
proof -
  let ?d = "told py_str detail d now page"
  show "wf_store ?d"
    using finish_results_evolves [OF repair_page_told [OF assms, unfolded repair_page_def]]
      evolves_wf missed_batchD(1) [OF assms] by blast
  have "\<exists>w0\<in>set (works d). w_id w0 = w_id w \<and> w_parent w0 = w_parent w" if "w \<in> set (works ?d)" for w
    using that by (cases rule: told_work) (auto simp: wake_parent_def)
  moreover have "\<exists>c0\<in>set (children d). ch_work_id c0 = ch_work_id c" if "c \<in> set (children ?d)" for c
    using that told_children [OF assms] by (auto simp: publish_row_def)
  ultimately show "children_owned ?d"
    using missed_batchD(2) [OF assms] unfolding children_owned_def by metis
qed

text \<open>What a published result leaves behind, and that later pages keep it.\<close>

definition published_child :: "(json \<Rightarrow> string) \<Rightarrow> db \<Rightarrow> work_row \<Rightarrow> bool" where
  "published_child py_str d w \<longleftrightarrow> (\<exists>c\<in>set (children d). ch_work_id c = w_id w \<and>
     ch_notified_revision c = w_revision w \<and> ch_owner c = None \<and>
     ch_result c = encode_json (JObj (result_receipt py_str w)))"

definition parent_served :: "db \<Rightarrow> work_row \<Rightarrow> bool" where
  "parent_served d w \<longleftrightarrow> (\<forall>v\<in>set (works d). w_parent w = Some (w_id v) \<longrightarrow>
     w_state v = Waiting_external \<longrightarrow> active_wait d (w_id v))"

lemma told_published:
  assumes "missed_batch d now page" "w \<in> set page"
  shows "published_child py_str (told py_str detail d now page) w"
    "parent_served (told py_str detail d now page) w"
    "noticed d (told py_str detail d now page) w"
proof -
  let ?d = "told py_str detail d now page"
  obtain c where c: "c \<in> set (children d)" "ch_work_id c = w_id w"
    using missed_batchD(5) [OF assms] by (auto simp: missed_result_def list_ex_iff)
  then have "publish_row py_str (repair_of w) c \<in> set (children ?d)"
    using told_children [OF assms(1)] assms(2) by blast
  then show "published_child py_str ?d w"
    using c(2) unfolding published_child_def by (intro bexI) (auto simp: publish_row_def)
  have wait: "active_wait ?d i = active_wait d i" for i by (simp add: active_wait_def told_frame)
  show "parent_served ?d w"
    unfolding parent_served_def wait
  proof (intro ballI impI)
    fix v assume v: "v \<in> set (works ?d)" "w_parent w = Some (w_id v)" "w_state v = Waiting_external"
    from v(1) show "active_wait d (w_id v)"
      by (cases rule: told_work) (use v assms(2) in \<open>auto simp: wake_parent_def\<close>)
  qed
  show "noticed d ?d w"
    using notices_all [OF missed_batchD(3) [OF assms(1)] assms(2),
        of py_str detail now "d\<lparr>children := publish_rows py_str d now (map repair_of page)\<rparr>"]
    by (simp add: noticed_def told_def wake_parents_def)
qed

lemma told_inputs: "set (inputs d) \<subseteq> set (inputs (told py_str detail d now page))"
  using fold_notice_inputs [of "d\<lparr>children := publish_rows py_str d now (map repair_of page)\<rparr>"]
  by (simp add: told_def wake_parents_def)

lemma told_keys:
  "in_source_key ` set (inputs (told py_str detail d now page)) =
     in_source_key ` set (inputs d) \<union> result_key ` set page"
proof -
  have "in_source_key ` set (inputs (fold (result_notice py_str detail now) (map repair_of us) x)) =
      in_source_key ` set (inputs x) \<union> result_key ` set us" for us x
    by (induction us arbitrary: x) (auto simp: notice_keys)
  then show ?thesis by (simp add: told_def wake_parents_def)
qed

lemma told_preserves:
  assumes "missed_batch d now page"
  shows "published_child py_str d w \<Longrightarrow> w_id w \<notin> w_id ` set page \<Longrightarrow>
      published_child py_str (told py_str detail d now page) w"
    and "parent_served d w \<Longrightarrow> parent_served (told py_str detail d now page) w"
proof -
  let ?d = "told py_str detail d now page"
  show "published_child py_str ?d w" if "published_child py_str d w" "w_id w \<notin> w_id ` set page"
    using that told_children [OF assms] unfolding published_child_def by metis
  have wait: "active_wait ?d i = active_wait d i" for i by (simp add: active_wait_def told_frame)
  show "parent_served ?d w" if s: "parent_served d w"
    unfolding parent_served_def wait
  proof (intro ballI impI)
    fix v assume v: "v \<in> set (works ?d)" "w_parent w = Some (w_id v)" "w_state v = Waiting_external"
    from v(1) show "active_wait d (w_id v)"
      by (cases rule: told_work) (use v s in \<open>auto simp: wake_parent_def parent_served_def\<close>)
  qed
qed


text \<open>The pass over all pages.\<close>

definition missed_works :: "db \<Rightarrow> clock \<Rightarrow> work_row set" where
  "missed_works d now = {w \<in> set (works d). missed_result d now w}"

definition beyond :: "db \<Rightarrow> clock \<Rightarrow> (string \<times> int) option \<Rightarrow> bool" where
  "beyond d now after \<longleftrightarrow> (\<forall>w\<in>missed_works d now. case after of None \<Rightarrow> True | Some (k, r) \<Rightarrow> k < w_id w)"

lemma missed_page_split:
  assumes "wf_store d" "beyond d now after"
  defines "page \<equiv> missed_page d now after"
  shows "set page \<subseteq> missed_works d now" "distinct (map w_id page)"
    "page = [] \<longleftrightarrow> missed_works d now = {}"
    "page \<noteq> [] \<Longrightarrow> w \<in> missed_works d now \<Longrightarrow> w \<notin> set page \<Longrightarrow> w_id (last page) < w_id w"
proof -
  let ?rows = "filter (missed_result d now) (works d)"
  let ?all = "sort_key w_id ?rows"
  have cond: "filter (\<lambda>w. missed_result d now w \<and>
      (case after of None \<Rightarrow> True | Some (k, r) \<Rightarrow> w_id w > k \<or> w_id w = k \<and> w_revision w > r)) (works d) = ?rows"
    by (rule filter_cong) (use assms(2) in \<open>auto simp: missed_works_def beyond_def split: option.splits\<close>)
  then have page: "page = take 16 ?all" by (simp add: page_def missed_page_def)
  have all: "set ?all = missed_works d now" by (auto simp: missed_works_def)
  have "unique_key w_id (works d)" using assms(1) by (simp add: wf_store_def wf_works_def)
  then have d: "distinct (map w_id ?all)" by (auto simp: unique_key_def distinct_map inj_on_def)
  have s: "sorted (map w_id ?all)" by simp
  show "set page \<subseteq> missed_works d now" using all set_take_subset page by metis
  show "distinct (map w_id page)" using d by (simp add: page take_map [symmetric] distinct_take)
  have "page = [] \<longleftrightarrow> ?all = []" by (simp only: page take_eq_Nil) simp
  then show "page = [] \<longleftrightarrow> missed_works d now = {}" by (metis all set_empty)
  assume "page \<noteq> []" and w: "w \<in> missed_works d now" "w \<notin> set page"
  then have l: "w_id (last page) \<in> set (take 16 (map w_id ?all))" by (simp add: page take_map)
  have "w \<in> set ?all" using w(1) all by simp
  then have "w \<in> set (drop 16 ?all)" using w(2) unfolding page by (metis Un_iff append_take_drop_id set_append)
  then have r: "w_id w \<in> set (drop 16 (map w_id ?all))" by (simp add: drop_map)
  have "map w_id ?all = take 16 (map w_id ?all) @ drop 16 (map w_id ?all)" by simp
  with s d have "\<forall>x\<in>set (take 16 (map w_id ?all)). \<forall>y\<in>set (drop 16 (map w_id ?all)). x \<le> y"
      "set (take 16 (map w_id ?all)) \<inter> set (drop 16 (map w_id ?all)) = {}"
    by (metis sorted_append, metis distinct_append)
  then show "w_id (last page) < w_id w" using l r by (metis disjoint_iff order_le_less)
qed

lemma repair_batch:
  assumes "missed_batch d now page" "page \<noteq> []"
  shows "repair_changed (Suc n) py_str detail d now page = Some (Inr (told py_str detail d now page))"
  using assms(2) by (simp add: repair_page_told [OF assms(1)] filter_False)

definition repaired :: "(json \<Rightarrow> string) \<Rightarrow> db \<Rightarrow> db \<Rightarrow> clock \<Rightarrow> bool" where
  "repaired py_str d d' now \<longleftrightarrow> set (inputs d) \<subseteq> set (inputs d') \<and>
    (\<forall>w\<in>missed_works d now. published_child py_str d' w \<and> noticed d d' w \<and> parent_served d' w) \<and>
    (\<forall>w. published_child py_str d w \<longrightarrow> w_id w \<notin> w_id ` missed_works d now \<longrightarrow> published_child py_str d' w) \<and>
    (\<forall>w. parent_served d w \<longrightarrow> parent_served d' w)"

lemma noticed_later:
  assumes "noticed (told py_str detail d now page) d' w" "result_key w \<notin> result_key ` set page"
  shows "noticed d d' w"
proof -
  have "result_key w \<notin> in_source_key ` set (inputs (told py_str detail d now page))"
    if "result_key w \<notin> in_source_key ` set (inputs d)"
    using that assms(2) by (simp add: told_keys)
  then show ?thesis using assms(1) unfolding noticed_def by blast
qed

lemma repaired_step:
  assumes batch: "missed_batch d now page"
    and rest: "repaired py_str (told py_str detail d now page) d' now"
  shows "repaired py_str d d' now"
proof -
  let ?d = "told py_str detail d now page"
  have sub: "set page \<subseteq> missed_works d now" using batch by (auto simp: missed_batch_def missed_works_def)
  have missed: "missed_works ?d now = missed_works d now - set page"
    using told_missed [OF batch] by (auto simp: missed_works_def)
  have ids: "w_id w \<notin> w_id ` set page" if "w \<in> missed_works d now" "w \<notin> set page" for w
    using same_work_row [OF missed_batchD(1) [OF batch]] that sub unfolding missed_works_def by blast
  have page_ids: "w_id w \<notin> w_id ` missed_works ?d now" if "w \<in> set page" for w
    using ids that unfolding missed by (metis Diff_iff image_iff)
  have ins: "set (inputs ?d) \<subseteq> set (inputs d')" and keep: "\<And>w. published_child py_str ?d w \<Longrightarrow>
      w_id w \<notin> w_id ` missed_works ?d now \<Longrightarrow> published_child py_str d' w"
    and serve: "\<And>w. parent_served ?d w \<Longrightarrow> parent_served d' w"
    and now_done: "\<And>w. w \<in> missed_works ?d now \<Longrightarrow>
      published_child py_str d' w \<and> noticed ?d d' w \<and> parent_served d' w"
    using rest by (auto simp: repaired_def)
  have each: "published_child py_str d' w \<and> noticed d d' w \<and> parent_served d' w"
    if w: "w \<in> missed_works d now" for w
  proof (cases "w \<in> set page")
    case True
    have "noticed d d' w"
      using told_published(3) [OF batch True] ins unfolding noticed_def by blast
    then show ?thesis
      using keep [OF told_published(1) [OF batch True] page_ids [OF True]]
        serve [OF told_published(2) [OF batch True]] by simp
  next
    case False
    have "result_key w \<notin> result_key ` set page" using ids [OF w False] result_key_id by blast
    then show ?thesis using now_done [of w] noticed_later w False missed by blast
  qed
  have old: "published_child py_str d' w"
    if "published_child py_str d w" "w_id w \<notin> w_id ` missed_works d now" for w
  proof -
    have "w_id w \<notin> w_id ` set page" "w_id w \<notin> w_id ` missed_works ?d now" using that(2) sub missed by auto
    then show ?thesis using keep told_preserves(1) [OF batch that(1)] by blast
  qed
  have "set (inputs d) \<subseteq> set (inputs d')" using told_inputs ins by (rule subset_trans)
  then show ?thesis
    unfolding repaired_def using each old serve told_preserves(2) [OF batch] by blast
qed

lemma repair_pass_all:
  assumes "wf_store d" "children_owned d" "card (missed_works d now) < n"
    and "beyond d now after"
  shows "\<exists>d'. repair_pass n py_str detail d now after = Some (Inr d') \<and> missed_works d' now = {} \<and>
    repaired py_str d d' now"
  using assms
proof (induction n arbitrary: d after)
  case (Suc n)
  define page where "page = missed_page d now after"
  note split = missed_page_split [where d = d and now = now and after = after,
      OF Suc.prems(1,4), folded page_def]
  show ?case
  proof (cases "page = []")
    case True
    then have none: "missed_works d now = {}" using split(3) by simp
    then have "repaired py_str d d now" by (simp add: repaired_def)
    then show ?thesis using True none by (simp add: page_def [symmetric])
  next
    case False
    have rows: "w \<in> set (works d) \<and> missed_result d now w" if "w \<in> set page" for w
      using subsetD [OF split(1) that] by (simp add: missed_works_def)
    then have batch: "missed_batch d now page"
      using Suc.prems(1,2) split(2) by (simp add: missed_batch_def)
    let ?d = "told py_str detail d now page"
    have missed: "missed_works ?d now = missed_works d now - set page"
      unfolding missed_works_def using told_missed [OF batch] by blast
    have fin: "finite (missed_works d now)" by (simp add: missed_works_def)
    obtain w where "w \<in> set page" using False by (cases page) auto
    then have "missed_works ?d now \<subset> missed_works d now" using missed split(1) by blast
    then have "card (missed_works ?d now) < card (missed_works d now)" by (rule psubset_card_mono [OF fin])
    then have less: "card (missed_works ?d now) < n" using Suc.prems(3) by simp
    have later: "beyond ?d now (Some (w_id (last page), w_revision (last page)))"
      using split(4) [OF False] missed by (simp add: beyond_def)
    have "\<exists>d'. repair_pass n py_str detail ?d now (Some (w_id (last page), w_revision (last page))) = Some (Inr d') \<and>
        missed_works d' now = {} \<and> repaired py_str ?d d' now"
      by (rule Suc.IH [OF told_keeps(1) [OF batch] told_keeps(2) [OF batch] less later])
    then obtain d' where d': "repair_pass n py_str detail ?d now (Some (w_id (last page), w_revision (last page))) = Some (Inr d')"
      "missed_works d' now = {}" "repaired py_str ?d d' now" by (elim exE conjE)
    have "repair_pass (Suc n) py_str detail d now after =
        repair_pass n py_str detail ?d now (Some (w_id (last page), w_revision (last page)))"
      unfolding repair_pass.simps Let_def page_def [symmetric] repair_batch [OF batch False] using False by simp
    then have "repair_pass (Suc n) py_str detail d now after = Some (Inr d')" using d'(1) by (rule trans)
    then show ?thesis using d'(2) repaired_step [OF batch d'(3)] by blast
  qed
qed simp


text \<open>
  C8: Maintenance tells every parent. If every child has a parent and no other writer runs in
  between, the repair of \<open>maintain\<close> ends with one page of fuel per Work to spare; then no result is
  missed any more, and each one that was is recorded with its revision on its child (whose stale
  owner is cleared), has its notice in the parent's inbox, ready and pending unless that key was
  there before, and its parent is not left waiting for it unless a wait of its own is active.
\<close>

theorem repair_publishes_every_result:
  assumes "wf_store d" "children_owned d"
  shows "\<exists>d'. repair_pass (Suc (length (works d))) py_str detail d now None = Some (Inr d') \<and>
    (\<forall>w\<in>set (works d'). \<not> missed_result d' now w) \<and>
    (\<forall>w\<in>set (works d). missed_result d now w \<longrightarrow>
       published_child py_str d' w \<and> noticed d d' w \<and> parent_served d' w)"
proof -
  have "card (missed_works d now) \<le> card (set (works d))"
    by (rule card_mono) (auto simp: missed_works_def)
  also have "\<dots> \<le> length (works d)" by (rule card_length)
  finally have "card (missed_works d now) < Suc (length (works d))" by simp
  from repair_pass_all [OF assms this, of None py_str detail]
  obtain d' where d': "repair_pass (Suc (length (works d))) py_str detail d now None = Some (Inr d')"
      "missed_works d' now = {}" "repaired py_str d d' now"
    by (auto simp: beyond_def)
  from d'(2) have "\<forall>w\<in>set (works d'). \<not> missed_result d' now w" by (auto simp: missed_works_def)
  moreover from d'(3) have "\<forall>w\<in>set (works d). missed_result d now w \<longrightarrow>
       published_child py_str d' w \<and> noticed d d' w \<and> parent_served d' w"
    by (auto simp: repaired_def missed_works_def)
  ultimately show ?thesis using d'(1) by blast
qed

section \<open>A child is started once\<close>

text \<open>A child row with its Work, as a start leaves them.\<close>

definition started_child :: "db \<Rightarrow> string \<Rightarrow> string \<Rightarrow> string \<Rightarrow> json \<Rightarrow> bool" where
  "started_child d parent key k brief \<longleftrightarrow>
     (\<exists>c\<in>set (children d). ch_source_key c = key \<and> ch_work_id c = k \<and> ch_brief c = brief) \<and>
     (\<exists>w\<in>set (works d). w_id w = k \<and> w_parent w = Some parent)"

lemma accepted_new:
  assumes "accept_in_session d now l a = Inr (row, d1)"
    and "ad_source_key a \<notin> w_source_key ` set (works d)" "ad_handoff a = None"
  shows "\<exists>w\<in>set (works d1). w_id w = ad_identity a \<and> w_parent w = ad_parent a"
proof -
  from assms(1) obtain e where e: "insert_work d (new_work l now (ad_identity a) (ad_source_key a)
      (encode_json (ad_source a)) (ad_goal a) (ad_parent a) (admitted_state a)) = Inr e"
    and adm: "admit_row e l now a row = Inr (row, d1)" by (rule accept_cases)
  have "d1 = e" using adm assms(3) by (simp add: admit_row_def split: if_splits)
  then show ?thesis using e assms(2) by (auto simp: insert_work_def new_work_def split: if_splits)
qed

lemma start_leaves_child:
  assumes "subagent_start enabled seen d now l parent key brief i = Inr (k, d')"
    and "''worker:'' @ i \<notin> w_source_key ` set (works d)"
  shows "started_child d' parent key k (encode_json brief)"
proof -
  obtain goal snapshot where sc: "start_commit enabled d now l parent key brief goal i snapshot = Inr (k, d')"
    using subagent_start_commit [OF assms(1)] .
  then show ?thesis
  proof (cases rule: start_commit_cases)
    case (known c w)
    then show ?thesis
      using lookup_by_Some_set [OF known(1)] lookup_by_Some_set [OF known(2)]
      by (auto simp: started_child_def)
  next
    case (fresh row d1)
    have "\<exists>w\<in>set (works d1). w_id w = i \<and> w_parent w = Some parent"
      using accepted_new [OF fresh(2)] assms(2) by (simp add: start_admission_def)
    moreover have "works d' = works d1" "children d' = children d1 @ [new_child_row i key (encode_json brief)]"
      using fresh(3) by (auto simp: insert_child_row_def split: if_splits)
    ultimately show ?thesis using fresh(4) by (auto simp: started_child_def new_child_row_def)
  qed
qed

lemma started_child_later:
  assumes "started_child d parent key k brief" "evolves d d'" "wf_store d"
  shows "started_child d' parent key k brief"
proof -
  obtain c w where c: "c \<in> set (children d)" "ch_source_key c = key" "ch_work_id c = k" "ch_brief c = brief"
    and w: "w \<in> set (works d)" "w_id w = k" "w_parent w = Some parent"
    using assms(1) by (auto simp: started_child_def)
  have "table_ok wf_children child_le (children d) (children d')" "wf_children (children d)"
    using assms(2,3) by (simp_all add: evolves_def wf_store_def)
  then obtain c' where "c' \<in> set (children d')" "child_le c c'"
    using c(1) by (auto simp: table_ok_def table_le_def)
  moreover obtain w' where "w' \<in> set (works d')" "work_le w w'"
    using evolves_tables(1) [OF assms(2)] assms(3) w(1) by (auto simp: table_ok_def table_le_def wf_store_def)
  ultimately show ?thesis using c w by (auto simp: started_child_def child_le_def work_le_def)
qed

lemma start_known:
  assumes "subagent_start enabled seen d now l parent key brief i = Inr (k, d')" "wf_store d"
    and "started_child d parent0 key k0 brief0"
  shows "k = k0 \<and> d' = d \<and> parent = parent0 \<and> encode_json brief = brief0"
proof -
  obtain goal snapshot where sc: "start_commit enabled d now l parent key brief goal i snapshot = Inr (k, d')"
    using subagent_start_commit [OF assms(1)] .
  obtain c w where c: "c \<in> set (children d)" "ch_source_key c = key" "ch_work_id c = k0" "ch_brief c = brief0"
    and w: "w \<in> set (works d)" "w_id w = k0" "w_parent w = Some parent0"
    using assms(3) by (auto simp: started_child_def)
  have lc: "lookup_by ch_source_key key (children d) = Some c"
    using lookup_by_unique [of ch_source_key "children d" c] assms(2) c(1,2)
    by (simp add: wf_store_def wf_children_def)
  have lw: "lookup_by w_id k0 (works d) = Some w"
    using lookup_by_unique [of w_id "works d" w] assms(2) w(1,2) by (simp add: wf_store_def wf_works_def)
  from sc show ?thesis
    by (cases rule: start_commit_cases) (use lc lw c(3,4) w(3) in auto)
qed

text \<open>
  C9: A child is started at most once per key. After a start under a key (with a fresh id), any
  later start under it, by whatever lease and with whatever new id, raises or returns the same
  child and leaves the store as it is; it returns only for the same parent and the same brief.
\<close>

theorem child_started_once:
  assumes "wf_store d" "''worker:'' @ i \<notin> w_source_key ` set (works d)"
    and "subagent_start enabled seen d now l parent key brief i = Inr (k, d1)" "work_run d1 d2"
    and "subagent_start enabled' seen' d2 now' l' parent' key brief' i' = Inr (k', d3)"
  shows "k' = k \<and> d3 = d2 \<and> parent' = parent \<and> encode_json brief' = encode_json brief"
proof -
  have wf1: "wf_store d1" using subagent_start_evolves [OF assms(3,1)] evolves_wf assms(1) by blast
  have "started_child d2 parent key k (encode_json brief)"
    by (rule started_child_later [OF start_leaves_child [OF assms(3,2)] work_run_evolves [OF assms(4) wf1] wf1])
  then show ?thesis using start_known [OF assms(5) work_run_wf [OF assms(4) wf1]] by blast
qed

end
