(* ===== verification/Archive_Properties.thy ===== *)
theory Archive_Properties
  imports Subagent_Properties
begin

text \<open>
  What the archive of ended trees may touch: it is safe against every change between its reading
  session and its writer, and against any choice of the candidates.
\<close>

section \<open>The archive\<close>

definition touched :: "db \<Rightarrow> db \<Rightarrow> string \<Rightarrow> bool" where
  "touched d d' i \<longleftrightarrow> (\<exists>w\<in>set (works d). w_id w = i \<and> w \<notin> set (works d')) \<or>
     (\<exists>c\<in>set (children d). ch_work_id c = i \<and> c \<notin> set (children d')) \<or>
     (\<exists>j\<in>set (journals d). jn_work_id j = i \<and> j \<notin> set (journals d')) \<or>
     (\<exists>e\<in>set (effects d). ef_work_id e = i \<and> e \<notin> set (effects d')) \<or>
     (\<exists>x\<in>set (inputs d). in_work_id x = Some i \<and> x \<notin> set (inputs d')) \<or>
     (\<exists>r\<in>set (media_refs d). fst r = i \<and> r \<notin> set (media_refs d'))"

lemma touched_gone:
  assumes "touched d (archive_write d now expired gone) i" "set expired \<subseteq> set gone"
  shows "i \<in> set gone"
  using assms
  by (auto simp: touched_def archive_write_def Let_def set_update_where split: option.splits)

lemma lineage_fuel_sub: "set (lineage_fuel n rows i) \<subseteq> set rows"
proof (induction n rows i rule: lineage_fuel.induct)
  case (2 n rows i)
  show ?case
  proof (cases "lookup_by w_id i rows")
    case (Some w)
    then show ?thesis
      using 2 [OF Some] lookup_by_Some_set [OF Some] by (cases "w_parent w") auto
  qed simp
qed simp

lemma descendants_works: "j \<in> set (descendants d r) \<Longrightarrow> j \<in> w_id ` set (works d)"
  using subtree_parent [of j "length (works d)" "works d" "map w_id (filter (\<lambda>w. w_id w = r) (works d))"]
  by (auto simp: descendants_def)

text \<open>A Work without a parent that has a descendant is the last of its lineage.\<close>

lemma root_unique:
  assumes "wf_store d" "j \<in> set (descendants d r)" "w \<in> set (works d)" "w_id w = r" "w_parent w = None"
  shows "r = w_id (last (lineage d j))"
proof -
  have u: "unique_key w_id (works d)" and tree: "wf_tree d"
    using assms(1) by (auto simp: wf_store_def wf_works_def wf_tree_def)
  obtain x where x: "x \<in> set (lineage d j)" "w_id x = r"
    using assms(2) unfolding descendants_iff [OF u] by auto
  have "x \<in> set (works d)" using x(1) lineage_fuel_sub by (auto simp: lineage_def)
  then have "x = w" using same_work_row [OF assms(1) _ assms(3)] x(2) assms(4) by simp
  obtain v where v: "v \<in> set (works d)" "w_id v = j" using descendants_works [OF assms(2)] by auto
  have "rooted (lineage d j)" using lineage_rooted [OF tree v(1)] v(2) by simp
  then have "x \<notin> set (butlast (lineage d j))" "lineage d j \<noteq> []"
    using \<open>x = w\<close> assms(5) by (auto simp: rooted_def)
  then have "x = last (lineage d j)"
    using x(1) by (metis append_butlast_last_id in_set_conv_decomp last_snoc set_ConsD Un_iff set_append empty_iff list.set(1))
  then show ?thesis using x(2) by simp
qed

lemma self_descendant:
  assumes "wf_store d" "w \<in> set (works d)"
  shows "w_id w \<in> set (descendants d (w_id w))"
proof -
  have u: "unique_key w_id (works d)" "wf_tree d"
    using assms(1) by (auto simp: wf_store_def wf_works_def wf_tree_def)
  then have "hd (lineage d (w_id w)) = w" "lineage d (w_id w) \<noteq> []"
    using lineage_rooted [OF u(2) assms(2)] by (auto simp: rooted_def)
  then have "w \<in> set (lineage d (w_id w))" by (metis hd_in_set)
  then show ?thesis by (simp add: descendants_iff [OF u(1)])
qed

lemma rooted_tree_iff: "(j, r) \<in> set (rooted_tree d roots) \<longleftrightarrow> r \<in> set roots \<and> j \<in> set (descendants d r)"
  by (auto simp: rooted_tree_def)

definition dead_tree :: "db \<Rightarrow> clock \<Rightarrow> string \<Rightarrow> bool" where
  "dead_tree d now r \<longleftrightarrow> old_root d now r \<and> (\<forall>j\<in>set (descendants d r). ended_work d j)"

lemma expired_rows_dead:
  assumes "(j, r) \<in> set (expired_rows d now given)"
  shows "dead_tree d now r" "j \<in> set (descendants d r)" "idle_child d now j"
proof -
  let ?tree = "rooted_tree d (filter (old_root d now) (archive_roots d now given))"
  have t: "(j, r) \<in> set ?tree" and idle: "idle_child d now j"
    and ret: "r \<notin> set (map snd (filter (\<lambda>(j, r). open_work d j) ?tree))"
    using assms by (auto simp: expired_rows_def Let_def)
  show "j \<in> set (descendants d r)" "idle_child d now j" using t idle by (auto simp: rooted_tree_iff)
  have r: "old_root d now r" "r \<in> set (filter (old_root d now) (archive_roots d now given))"
    using t by (auto simp: rooted_tree_iff)
  have "ended_work d k" if k: "k \<in> set (descendants d r)" for k
  proof -
    have "(k, r) \<in> set ?tree" using r(2) k by (simp add: rooted_tree_iff)
    then have "\<not> open_work d k" using ret by force
    then show ?thesis using descendants_works [OF k] by (auto simp: open_work_def ended_work_def list_ex_iff)
  qed
  then show "dead_tree d now r" using r(1) by (simp add: dead_tree_def)
qed

lemma old_root_later:
  assumes "old_root d now r" "evolves d d'" "wf_store d"
  obtains w where "w \<in> set (works d')" "w_id w = r" "w_parent w = None"
proof -
  obtain w where w: "w \<in> set (works d)" "w_id w = r" "w_parent w = None"
    using assms(1) by (auto simp: old_root_def list_ex_iff)
  then obtain w' where "w' \<in> set (works d')" "work_le w w'"
    using evolves_tables(1) [OF assms(2)] assms(3) by (auto simp: table_ok_def table_le_def wf_store_def)
  then show ?thesis using that w(2,3) by (auto simp: work_le_def)
qed

lemma roots_for_archive_dead:
  assumes "r \<in> set (roots_for_archive d now expired root_ids)" "wf_store d"
    and "\<And>r. r \<in> set root_ids \<Longrightarrow> \<exists>w\<in>set (works d). w_id w = r \<and> w_parent w = None"
    and "\<And>j. j \<in> set expired \<Longrightarrow> \<exists>r. dead_tree d now r \<and> j \<in> set (descendants d r)"
  shows "dead_tree d now r"
    "c \<in> set (children d) \<Longrightarrow> ch_work_id c = r \<Longrightarrow> ch_archived_at c = None \<Longrightarrow> r \<in> set expired"
proof -
  let ?roots = "map w_id (filter (\<lambda>w. w_id w \<in> set root_ids) (works d))"
  let ?tree = "rooted_tree d ?roots"
  obtain j where j: "(j, r) \<in> set ?tree" "j \<in> set expired" "old_work d now r"
    and kept: "r \<notin> set (map snd (filter (\<lambda>(j, r). list_ex (\<lambda>c. ch_work_id c = j \<and>
        ch_archived_at c = None \<and> j \<notin> set expired) (children d)) ?tree))"
    using assms(1) by (auto simp: roots_for_archive_def Let_def)
  have r: "r \<in> set root_ids" "j \<in> set (descendants d r)" using j(1) by (auto simp: rooted_tree_iff)
  obtain w where w: "w \<in> set (works d)" "w_id w = r" "w_parent w = None" using assms(3) [OF r(1)] by blast
  obtain r' where r': "dead_tree d now r'" "j \<in> set (descendants d r')" using assms(4) [OF j(2)] by blast
  then obtain v where v: "v \<in> set (works d)" "w_id v = r'" "w_parent v = None"
    by (auto simp: dead_tree_def old_root_def list_ex_iff)
  have "r = r'"
    using root_unique [OF assms(2) r(2) w] root_unique [OF assms(2) r'(2) v] by simp
  then show "dead_tree d now r" using r'(1) by simp
  assume c: "c \<in> set (children d)" "ch_work_id c = r" "ch_archived_at c = None"
  have "r \<in> set (descendants d r)" using self_descendant [OF assms(2) w(1)] w(2) by simp
  then have "(r, r) \<in> set ?tree" using j(1) by (simp add: rooted_tree_iff)
  then show "r \<in> set expired" using kept c by (force simp: list_ex_iff)
qed

lemma idle_children:
  assumes "idle_child d now i" "wf_store d" "c \<in> set (children d)" "ch_work_id c = i"
  shows "ch_lease_until c \<le> now"
proof -
  obtain b where b: "b \<in> set (children d)" "ch_work_id b = i" "ch_lease_until b \<le> now"
    using assms(1) by (auto simp: idle_child_def list_ex_iff)
  then have "b = c" using same_child_row [OF assms(2) b(1) assms(3)] assms(4) by simp
  then show ?thesis using b(3) by simp
qed

lemma archive_commit_cases:
  assumes "archive_commit validate d now later original original_ids root_ids = Inr d'"
  obtains (idle) "d' = d"
    | (wrote) expired where
      "expired = filter (\<lambda>i. i \<in> set original) (map fst (expired_rows d now (Some root_ids)))"
      "d' = archive_write d later expired (expired @ roots_for_archive d now expired root_ids)"
proof -
  define expired where "expired = filter (\<lambda>i. i \<in> set original) (map fst (expired_rows d now (Some root_ids)))"
  define gone where "gone = expired @ roots_for_archive d now expired root_ids"
  have c: "(if expired = [] then Inr d
      else if set gone \<noteq> set original_ids then Inl (Value_error ''external_agent_cleanup_source_changed'')
      else ebind (validate d original_ids) (\<lambda>_. Inr (archive_write d later expired gone))) = Inr d'"
    using assms unfolding archive_commit_def Let_def expired_def gone_def .
  show ?thesis
  proof (cases "expired = []")
    case True
    then show ?thesis using c idle by simp
  next
    case False
    then have "archive_write d later expired gone = d'"
      using c by (simp add: ebind_returns split: if_splits)
    then show ?thesis using wrote [OF expired_def] by (simp add: gone_def)
  qed
qed

lemma archive_expired_cases:
  assumes "archive_expired page external client validate seen d now later = Inr d'"
  obtains (idle) "d' = d"
    | (wrote) root_ids expired where
      "root_ids = remdups (map snd (page (expired_rows seen now None)))"
      "set expired \<subseteq> fst ` set (expired_rows d now (Some root_ids))"
      "d' = archive_write d later expired (expired @ roots_for_archive d now expired root_ids)"
proof (cases "page (expired_rows seen now None) = []")
  case True
  then show ?thesis using assms idle by (simp add: archive_expired_def Let_def)
next
  case False
  define root_ids where "root_ids = remdups (map snd (page (expired_rows seen now None)))"
  obtain original original_ids where "archive_commit validate d now later original original_ids root_ids = Inr d'"
    using assms False by (simp add: archive_expired_def Let_def returns root_ids_def) blast
  then show ?thesis
  proof (cases rule: archive_commit_cases)
    case (wrote expired)
    have "set expired \<subseteq> fst ` set (expired_rows d now (Some root_ids))" by (auto simp: wrote(1))
    then show ?thesis using that(2) root_ids_def wrote(2) by blast
  qed (rule idle)
qed

text \<open>
  C10: The archive touches only trees that have ended. Whatever happened between the reading of
  the candidates and the writer, and whichever candidates the query returned, a row changed or
  deleted by the archive belongs to a Work of a tree whose root ended more than a week ago and all of
  whose Works have ended, and which is not a child somebody holds a lease of. Every Work keeps its
  identity, state, revision and counters, and every child its published result.
\<close>

theorem archive_spares_live_trees:
  assumes "wf_store seen" "evolves seen d" "\<And>xs. set (page xs) \<subseteq> set xs"
    and "archive_expired page external client validate seen d now later = Inr d'"
  shows "(\<forall>i. touched d d' i \<longrightarrow> (\<exists>r. i \<in> set (descendants d r) \<and> dead_tree d now r) \<and>
      (\<forall>c\<in>set (children d). ch_work_id c = i \<longrightarrow> ch_archived_at c = None \<longrightarrow> ch_lease_until c \<le> now)) \<and>
    (\<forall>w\<in>set (works d). \<exists>w'\<in>set (works d'). w' = w \<or> w' = w\<lparr>w_checkpoint := JObj [], w_source := JObj []\<rparr>) \<and>
    (\<forall>c\<in>set (children d). \<exists>c'\<in>set (children d'). ch_work_id c' = ch_work_id c \<and>
      ch_result c' = ch_result c \<and> ch_notified_revision c' = ch_notified_revision c)"
  using assms(4)
proof (cases rule: archive_expired_cases)
  case idle
  then show ?thesis by (auto simp: touched_def)
next
  case (wrote root_ids expired)
  have wf: "wf_store d" by (rule evolves_wf [OF assms(2,1)])
  have roots: "\<exists>w\<in>set (works d). w_id w = r \<and> w_parent w = None" if r: "r \<in> set root_ids" for r
  proof -
    obtain j where "(j, r) \<in> set (page (expired_rows seen now None))"
      using r wrote(1) by auto
    then have "(j, r) \<in> set (expired_rows seen now None)" by (rule subsetD [OF assms(3)])
    then have "old_root seen now r" using expired_rows_dead by (simp add: dead_tree_def)
    then show ?thesis by (rule old_root_later [OF _ assms(2,1)]) blast
  qed
  have exp: "\<exists>r. dead_tree d now r \<and> j \<in> set (descendants d r)" "idle_child d now j" if "j \<in> set expired" for j
  proof -
    obtain r where "(j, r) \<in> set (expired_rows d now (Some root_ids))" using \<open>j \<in> set expired\<close> wrote(2) by auto
    note e = expired_rows_dead [OF this]
    show "\<exists>r. dead_tree d now r \<and> j \<in> set (descendants d r)" using e(1,2) by blast
    show "idle_child d now j" by (rule e(3))
  qed
  let ?roots = "roots_for_archive d now expired root_ids"
  have t: "(\<exists>r. i \<in> set (descendants d r) \<and> dead_tree d now r) \<and>
      (\<forall>c\<in>set (children d). ch_work_id c = i \<longrightarrow> ch_archived_at c = None \<longrightarrow> ch_lease_until c \<le> now)"
    if i: "touched d d' i" for i
  proof (cases "i \<in> set expired")
    case True
    then show ?thesis using exp idle_children [OF _ wf] by blast
  next
    case False
    have "i \<in> set (expired @ ?roots)" by (rule touched_gone [OF i [unfolded wrote(3)]]) auto
    then have r: "i \<in> set ?roots" using False by simp
    note dead = roots_for_archive_dead [OF r wf roots exp(1)]
    have "i \<in> set (descendants d i)"
      using dead(1) self_descendant [OF wf] by (auto simp: dead_tree_def old_root_def list_ex_iff)
    then show ?thesis using dead False by blast
  qed
  moreover have "\<forall>w\<in>set (works d). \<exists>w'\<in>set (works d'). w' = w \<or> w' = w\<lparr>w_checkpoint := JObj [], w_source := JObj []\<rparr>"
    unfolding wrote(3) by (auto simp: archive_write_def Let_def set_update_where archive_work_def)
  moreover have "\<forall>c\<in>set (children d). \<exists>c'\<in>set (children d'). ch_work_id c' = ch_work_id c \<and>
      ch_result c' = ch_result c \<and> ch_notified_revision c' = ch_notified_revision c"
  proof
    fix c assume c: "c \<in> set (children d)"
    let ?c = "if ch_work_id c \<in> set expired then archive_child later c else c"
    have "?c \<in> set (children d')"
      using c unfolding wrote(3) by (simp add: archive_write_def Let_def set_update_where)
    moreover have "ch_work_id ?c = ch_work_id c \<and> ch_result ?c = ch_result c \<and>
        ch_notified_revision ?c = ch_notified_revision c" by (simp add: archive_child_def)
    ultimately show "\<exists>c'\<in>set (children d'). ch_work_id c' = ch_work_id c \<and>
        ch_result c' = ch_result c \<and> ch_notified_revision c' = ch_notified_revision c" by blast
  qed
  ultimately show ?thesis by blast
qed

end
