(* ===== verification/Subagent_Examples.thy ===== *)
theory Subagent_Examples
  imports Archive_Properties Work_Examples
begin

text \<open>
  Concrete stores on which the properties of child executions are applied: a root Work with a
  worker below it whose result was never published, or that ended long ago.
\<close>

definition sub_work :: "work_state \<Rightarrow> work_row" where
  "sub_work st = (demo_work ''s'' (Some ''r'') st)\<lparr>w_checkpoint := JObj [(''sync_result'', JStr ''42'')]\<rparr>"

definition sub_db :: "work_state \<Rightarrow> work_state \<Rightarrow> db" where
  "sub_db root_state child_state = empty_db\<lparr>
     conversations := [\<lparr>cv_id = ''c'', cv_generation = 0\<rparr>],
     scopes := [\<lparr>sc_conversation = ''c'', sc_generation = 0, sc_cancel_epoch = 0, sc_fence = 1,
                 sc_owner = Some ''h'', sc_lease_until = 100\<rparr>],
     works := [demo_work ''r'' None root_state, sub_work child_state],
     children := [new_child_row ''s'' ''k0'' (JObj [])]\<rparr>"

lemmas sub_defs = sub_work_def sub_db_def new_child_row_def demo_work_def empty_db_def

lemma sub_wf: "wf_store (sub_db a b)"
  by (simp add: wf_store_def wf_works_def wf_inputs_def wf_effects_def wf_children_def wf_waits_def
      wf_deliveries_def wf_scopes_def wf_recoveries_def wf_budgets_def unique_key_def sub_defs)

lemma sub_owned: "children_owned (sub_db a b)"
  by (simp add: children_owned_def sub_defs)

definition leaf_text :: "json \<Rightarrow> string" where
  "leaf_text j = (case j of JStr s \<Rightarrow> s | _ \<Rightarrow> ''?'')"

theorem repair_publishes_every_result_witness:
  "missed_result (sub_db Waiting_external Completed) 10 (sub_work Completed) \<and>
   (\<exists>d'. repair_pass 3 leaf_text ''d'' (sub_db Waiting_external Completed) 10 None = Some (Inr d') \<and>
      published_child leaf_text d' (sub_work Completed) \<and>
      noticed (sub_db Waiting_external Completed) d' (sub_work Completed) \<and>
      parent_served d' (sub_work Completed))"
proof -
  let ?d = "sub_db Waiting_external Completed"
  have m: "missed_result ?d 10 (sub_work Completed)"
    by (simp add: missed_result_def result_states_def sub_defs)
  have w: "sub_work Completed \<in> set (works ?d)" "length (works ?d) = 2" by (simp_all add: sub_db_def)
  then show ?thesis
    using repair_publishes_every_result [OF sub_wf sub_owned, of Waiting_external Completed leaf_text "''d''" 10] m
    by (auto simp: numeral_3_eq_3)
qed

definition start_brief :: json where
  "start_brief = JObj [(''goal'', JStr ''look it up'')]"

lemma ex_start:
  "case subagent_start True (ex_db Running Pending) (ex_db Running Pending) 10 ex_lease ''r'' ''k'' start_brief ''n'' of
     Inl _ \<Rightarrow> False
   | Inr (k, d1) \<Rightarrow> k = ''n'' \<and> (case subagent_start True d1 d1 11 ex_lease ''r'' ''k'' start_brief ''m'' of
       Inl _ \<Rightarrow> False | Inr _ \<Rightarrow> True)"
  by code_simp

theorem child_started_once_witness:
  "\<exists>d1. subagent_start True (ex_db Running Pending) (ex_db Running Pending) 10 ex_lease ''r'' ''k'' start_brief ''n'' =
      Inr (''n'', d1) \<and>
    subagent_start True d1 d1 11 ex_lease ''r'' ''k'' start_brief ''m'' = Inr (''n'', d1)"
proof -
  obtain d1 where s: "subagent_start True (ex_db Running Pending) (ex_db Running Pending) 10 ex_lease
      ''r'' ''k'' start_brief ''n'' = Inr (''n'', d1)"
    and again: "case subagent_start True d1 d1 11 ex_lease ''r'' ''k'' start_brief ''m'' of
       Inl _ \<Rightarrow> False | Inr _ \<Rightarrow> True"
    using ex_start
    by (cases "subagent_start True (ex_db Running Pending) (ex_db Running Pending) 10 ex_lease
      ''r'' ''k'' start_brief ''n''") auto
  obtain k' d3 where t: "subagent_start True d1 d1 11 ex_lease ''r'' ''k'' start_brief ''m'' = Inr (k', d3)"
    using again by (cases "subagent_start True d1 d1 11 ex_lease ''r'' ''k'' start_brief ''m''") auto
  have "''worker:'' @ ''n'' \<notin> w_source_key ` set (works (ex_db Running Pending))"
    by (simp add: ex_defs)
  from child_started_once [OF ex_wf this s work_run.stop t] s t show ?thesis by auto
qed

definition old_db :: db where
  "old_db = sub_db Completed Completed"

lemma ex_archive:
  "case archive_expired (\<lambda>xs. take 16 xs) (\<lambda>_. False) None (\<lambda>_ _. Inr ()) old_db old_db 1000000 1000001 of
     Inl _ \<Rightarrow> False
   | Inr d' \<Rightarrow> map w_source (works d') = [JObj [], JObj []] \<and> map ch_archived_at (children d') = [Some 1000001]"
  by code_simp

theorem archive_spares_live_trees_witness:
  "\<exists>d'. archive_expired (\<lambda>xs. take 16 xs) (\<lambda>_. False) None (\<lambda>_ _. Inr ()) old_db old_db 1000000 1000001 = Inr d' \<and>
     touched old_db d' ''s'' \<and> (\<exists>r. ''s'' \<in> set (descendants old_db r) \<and> dead_tree old_db 1000000 r)"
proof -
  obtain d' where d': "archive_expired (\<lambda>xs. take 16 xs) (\<lambda>_. False) None (\<lambda>_ _. Inr ()) old_db old_db 1000000 1000001 = Inr d'"
    and c: "map ch_archived_at (children d') = [Some 1000001]"
    using ex_archive by (auto split: sum.splits)
  have "new_child_row ''s'' ''k0'' (JObj []) \<notin> set (children d')"
  proof
    assume "new_child_row ''s'' ''k0'' (JObj []) \<in> set (children d')"
    then have "None \<in> set (map ch_archived_at (children d'))"
      by (force simp: new_child_row_def)
    then show False using c by simp
  qed
  then have t: "touched old_db d' ''s''"
    by (simp add: touched_def old_db_def sub_defs)
  have wf: "wf_store old_db" by (simp add: old_db_def sub_wf)
  have "set (take 16 xs) \<subseteq> set xs" for xs :: "(string \<times> string) list" by (rule set_take_subset)
  from archive_spares_live_trees [OF wf evolves_refl this d'] t d' show ?thesis by blast
qed

end
