(* ===== verification/Work_Erasure.thy ===== *)
theory Work_Erasure
  imports Archive_Properties
begin

text \<open>
  The writers that take a row back or erase it, and runs with every writer. After a restart,
  \<open>recovered_inputs\<close> (\<open>runtime/work_journal.py\<close>) puts the staged inputs that the restored transcript
  does not contain back to pending; the archive of \<open>Subagent_Archive\<close> deletes the rows of trees that
  ended long ago and clears the checkpoint and the source of their Works; the privacy purge deletes
  a conversation. \<open>full_run\<close> is an execution of these and of the steps of \<open>work_run\<close>.
\<close>

section \<open>Recovery of staged inputs\<close>

definition restorable :: "work_lease \<Rightarrow> string \<Rightarrow> input_row \<Rightarrow> bool" where
  "restorable l i x \<longleftrightarrow> in_conversation x = l_conversation l \<and> in_generation x = l_generation l \<and>
     in_work_id x = Some i \<and> in_state x = Staged"

definition recovered_inputs :: "db \<Rightarrow> clock \<Rightarrow> work_lease \<Rightarrow> int list \<Rightarrow> string \<Rightarrow> work_error + db" where
  "recovered_inputs d now l included i =
     ebind (assert_lease d now l) (\<lambda>_.
       let consumed = update_where (\<lambda>x. restorable l i x \<and> in_id x \<in> set included)
             (\<lambda>x. x\<lparr>in_state := Consumed\<rparr>) (inputs d)
       in Inr (d\<lparr>inputs := update_where (\<lambda>x. restorable l i x \<and> in_id x \<notin> set included)
             (\<lambda>x. x\<lparr>in_state := Pending, in_attempt := None\<rparr>) consumed\<rparr>))"

section \<open>The foreign keys of a purge\<close>

text \<open>
  SQLite refuses to delete a Work that a row outside the conversation still refers to: a child Work
  or an input of another conversation (\<open>ON DELETE RESTRICT\<close>). The purge then raises and its
  transaction is rolled back.
\<close>

definition works_of :: "db \<Rightarrow> string \<Rightarrow> string set" where
  "works_of d conv = w_id ` {w \<in> set (works d). w_conversation w = conv}"

definition purge_allowed :: "db \<Rightarrow> string \<Rightarrow> bool" where
  "purge_allowed d conv \<longleftrightarrow>
     (let gone = map w_id (filter (\<lambda>w. w_conversation w = conv) (works d))
      in list_all (\<lambda>w. w_conversation w = conv \<or> w_parent w \<notin> Some ` set gone) (works d) \<and>
         list_all (\<lambda>x. in_conversation x = conv \<or> in_work_id x \<notin> Some ` set gone) (inputs d))"

lemma gone_works: "set (map w_id (filter (\<lambda>w. w_conversation w = conv) (works d))) = works_of d conv"
  by (auto simp: works_of_def)

section \<open>Runs with every writer\<close>

text \<open>What the archive read before its writer, and which candidates it chose, is arbitrary.\<close>

definition archives :: "db \<Rightarrow> db \<Rightarrow> bool" where
  "archives d d' \<longleftrightarrow> (\<exists>page external client validate seen now later.
     archive_expired page external client validate seen d now later = Inr d')"

inductive erase_op :: "db \<Rightarrow> db \<Rightarrow> bool" where
  recover: "recovered_inputs d now l included i = Inr d' \<Longrightarrow> erase_op d d'"
| archive: "archives d d' \<Longrightarrow> erase_op d d'"
| purge: "purge_allowed d conv \<Longrightarrow> erase_op d (purge_scope d conv)"

definition full_step :: "db \<Rightarrow> db \<Rightarrow> bool" where
  "full_step d d' \<longleftrightarrow> work_step d d' \<or> erase_op d d'"

inductive full_run :: "db \<Rightarrow> db \<Rightarrow> bool" for d where
  full_stop: "full_run d d"
| full_more: "full_run d d' \<Longrightarrow> full_step d' d'' \<Longrightarrow> full_run d d''"

lemma work_run_full: "work_run d d' \<Longrightarrow> full_run d d'"
  by (induction rule: work_run.induct) (auto intro: full_run.intros simp: full_step_def)

section \<open>What each writer does to the rows\<close>

lemma archives_cases:
  assumes "archives d d'"
  obtains (idle) "d' = d"
    | (wrote) now later expired gone where "d' = archive_write d later expired gone"
        "\<And>i. i \<in> set gone \<Longrightarrow> ended_work d i" "set expired \<subseteq> set gone"
        "\<And>i. i \<in> set expired \<Longrightarrow> idle_child d now i"
proof -
  obtain page external client validate seen now later where
    a: "archive_expired page external client validate seen d now later = Inr d'"
    using assms by (auto simp: archives_def)
  then show ?thesis
  proof (cases rule: archive_expired_cases)
    case (wrote root_ids expired)
    let ?gone = "expired @ roots_for_archive d now expired root_ids"
    have e: "ended_work d i \<and> idle_child d now i" if i: "i \<in> set expired" for i
      using subsetD [OF wrote(2) i] by (auto simp: expired_rows_def Let_def)
    have "ended_work d i" if "i \<in> set (roots_for_archive d now expired root_ids)" for i
    proof -
      have "old_work d now i" using that by (auto simp: roots_for_archive_def Let_def)
      then show ?thesis by (auto simp: old_work_def ended_work_def list_ex_iff)
    qed
    then have "ended_work d i" if "i \<in> set ?gone" for i using that e by auto
    then show ?thesis using that(2) [OF wrote(3)] e by auto
  qed (rule idle)
qed

lemma parents_first_filter:
  assumes "parents_first seen ws" "\<forall>w\<in>set ws. \<not> p w \<longrightarrow> w_id w \<in> gone"
    and "\<forall>w\<in>set ws. p w \<longrightarrow> w_parent w \<notin> Some ` gone" "seen - gone \<subseteq> seen'"
  shows "parents_first seen' (filter p ws)"
  using assms
proof (induction ws arbitrary: seen seen')
  case (Cons w ws)
  show ?case
  proof (cases "p w")
    case True
    have "parents_first (insert (w_id w) seen') (filter p ws)"
      by (rule Cons.IH [of "insert (w_id w) seen"]) (use Cons.prems in auto)
    moreover have "case w_parent w of None \<Rightarrow> True | Some q \<Rightarrow> q \<in> seen'"
      using Cons.prems True by (cases "w_parent w") auto
    ultimately show ?thesis using True by (auto split: option.splits)
  next
    case False
    have "parents_first seen' (filter p ws)"
      by (rule Cons.IH [of "insert (w_id w) seen"]) (use Cons.prems False in auto)
    then show ?thesis using False by simp
  qed
qed simp

lemma purge_wf:
  assumes "wf_store d" "purge_allowed d conv"
  shows "wf_store (purge_scope d conv)"
proof -
  have "parents_first {} (filter (\<lambda>w. w_conversation w \<noteq> conv) (works d))"
  proof (rule parents_first_filter [of "{}" _ _ "works_of d conv"])
    show "\<forall>w\<in>set (works d). w_conversation w \<noteq> conv \<longrightarrow> w_parent w \<notin> Some ` works_of d conv"
      using assms(2) unfolding purge_allowed_def Let_def gone_works list_all_iff by blast
  qed (use assms(1) in \<open>auto simp: wf_store_def wf_works_def works_of_def\<close>)
  then show ?thesis
    using assms(1) unfolding wf_store_def purge_scope_def Let_def
    by (simp add: wf_works_def wf_inputs_def wf_effects_def wf_children_def wf_waits_def
        wf_deliveries_def wf_scopes_def wf_recoveries_def wf_budgets_def unique_key_filter)
qed

lemma archive_write_wf:
  assumes "wf_store d"
  shows "wf_store (archive_write d later expired gone)"
proof -
  have "wf_works (update_where (\<lambda>w. w_id w \<in> set expired) archive_work (works d))"
    using assms by (simp add: wf_store_def wf_works_def unique_key_update_on parents_first_update_on
        archive_work_def)
  moreover have "wf_children (update_where (\<lambda>c. ch_work_id c \<in> set expired) (archive_child later) (children d))"
    using assms by (simp add: wf_store_def wf_children_def unique_key_update_on archive_child_def)
  ultimately show ?thesis
    using assms unfolding wf_store_def archive_write_def Let_def
    by (simp add: wf_inputs_def wf_effects_def unique_key_filter)
qed

lemma archives_wf: "archives d d' \<Longrightarrow> wf_store d \<Longrightarrow> wf_store d'"
  by (elim archives_cases) (auto intro: archive_write_wf)

lemma recovered_cases:
  assumes "recovered_inputs d now l included i = Inr d'"
  shows "d' = d\<lparr>inputs := map (\<lambda>x. if restorable l i x
      then if in_id x \<in> set included then x\<lparr>in_state := Consumed\<rparr> else x\<lparr>in_state := Pending, in_attempt := None\<rparr>
      else x) (inputs d)\<rparr>"
  using assms
  by (auto simp: recovered_inputs_def returns Let_def update_where_def restorable_def)

lemma recovered_wf:
  assumes "recovered_inputs d now l included i = Inr d'" "wf_store d"
  shows "wf_store d'"
proof -
  have keys: "map in_id (inputs d') = map in_id (inputs d)" "map in_source_key (inputs d') = map in_source_key (inputs d)"
    using recovered_cases [OF assms(1)] by simp_all
  have "wf_inputs (inputs d')"
    using assms(2) unfolding wf_store_def wf_inputs_def unique_key_def keys by simp
  then show ?thesis
    using assms(2) recovered_cases [OF assms(1)] by (simp add: wf_store_def)
qed

lemma erase_op_wf: "erase_op d d' \<Longrightarrow> wf_store d \<Longrightarrow> wf_store d'"
  by (induction rule: erase_op.induct) (auto intro: recovered_wf archives_wf purge_wf)

lemma full_step_wf: "full_step d d' \<Longrightarrow> wf_store d \<Longrightarrow> wf_store d'"
  using work_step_evolves [THEN evolves_wf] erase_op_wf unfolding full_step_def by blast

lemma full_run_wf: "full_run d d' \<Longrightarrow> wf_store d \<Longrightarrow> wf_store d'"
  by (induction rule: full_run.induct) (auto intro: full_step_wf)

section \<open>What happened in between\<close>

text \<open>
  A run passed a purge of the conversation of Work \<open>i\<close>, a purge of a conversation, an archive at
  which Work \<open>i\<close> had ended, a recovery that put input \<open>x\<close> of Work \<open>i\<close> back.
\<close>

definition work_purged :: "string \<Rightarrow> db \<Rightarrow> db \<Rightarrow> bool" where
  "work_purged i d d' \<longleftrightarrow> (\<exists>d1 conv. full_run d d1 \<and> i \<in> works_of d1 conv \<and> purge_allowed d1 conv \<and>
     full_run (purge_scope d1 conv) d')"

definition conversation_purged :: "string \<Rightarrow> db \<Rightarrow> db \<Rightarrow> bool" where
  "conversation_purged conv d d' \<longleftrightarrow> (\<exists>d1. full_run d d1 \<and> purge_allowed d1 conv \<and>
     full_run (purge_scope d1 conv) d')"

definition work_archived :: "string \<Rightarrow> db \<Rightarrow> db \<Rightarrow> bool" where
  "work_archived i d d' \<longleftrightarrow> (\<exists>d1 d2. full_run d d1 \<and> ended_work d1 i \<and> archives d1 d2 \<and> full_run d2 d')"

definition input_restored :: "int \<Rightarrow> string option \<Rightarrow> db \<Rightarrow> db \<Rightarrow> bool" where
  "input_restored x i d d' \<longleftrightarrow> (\<exists>d1 d2 now l included j. full_run d d1 \<and> i = Some j \<and> x \<notin> set included \<and>
     recovered_inputs d1 now l included j = Inr d2 \<and> full_run d2 d')"

lemma between_more:
  assumes "full_step d' d''"
  shows "work_purged i d d' \<Longrightarrow> work_purged i d d''"
    "conversation_purged conv d d' \<Longrightarrow> conversation_purged conv d d''"
    "work_archived i d d' \<Longrightarrow> work_archived i d d''"
    "input_restored x j d d' \<Longrightarrow> input_restored x j d d''"
  unfolding work_purged_def conversation_purged_def work_archived_def input_restored_def
  using full_run.full_more [OF _ assms] by blast+

lemma work_purged_now:
  "full_run d d1 \<Longrightarrow> purge_allowed d1 conv \<Longrightarrow> i \<in> works_of d1 conv \<Longrightarrow> work_purged i d (purge_scope d1 conv)"
  unfolding work_purged_def by (intro exI [of _ d1] exI [of _ conv]) (simp add: full_run.full_stop)

lemma conversation_purged_now:
  "full_run d d1 \<Longrightarrow> purge_allowed d1 conv \<Longrightarrow> conversation_purged conv d (purge_scope d1 conv)"
  unfolding conversation_purged_def by (intro exI [of _ d1]) (simp add: full_run.full_stop)

lemma work_archived_now:
  "full_run d d1 \<Longrightarrow> archives d1 d2 \<Longrightarrow> ended_work d1 i \<Longrightarrow> work_archived i d d2"
  unfolding work_archived_def by (intro exI [of _ d1] exI [of _ d2]) (simp add: full_run.full_stop)

lemma input_restored_now:
  "full_run d d1 \<Longrightarrow> recovered_inputs d1 now l included j = Inr d2 \<Longrightarrow> x \<notin> set included \<Longrightarrow>
    input_restored x (Some j) d d2"
  unfolding input_restored_def
  by (intro exI [of _ d1] exI [of _ d2] exI [of _ now] exI [of _ l] exI [of _ included] exI [of _ j])
    (simp add: full_run.full_stop)

text \<open>
  A fact about one row of a store that every step keeps, unless the row is erased, holds at the end
  of every run or the row was erased.
\<close>

lemma full_run_row:
  assumes "full_run d d'" "wf_store d" "p d"
    and "\<And>x y. wf_store x \<Longrightarrow> full_run d x \<Longrightarrow> p x \<Longrightarrow> full_step x y \<Longrightarrow> p y \<or> gone y"
    and "\<And>x y. full_step x y \<Longrightarrow> gone x \<Longrightarrow> gone y"
  shows "p d' \<or> gone d'"
  using assms(1,2,3)
proof (induction rule: full_run.induct)
  case (full_more d1 d2)
  have wf: "wf_store d1" by (rule full_run_wf [OF full_more(1,4)])
  from full_more(3) [OF full_more(4,5)] show ?case
  proof
    assume p: "p d1"
    show ?thesis by (rule assms(4) [OF wf full_more(1) p full_more(2)])
  next
    assume g: "gone d1"
    have "gone d2" by (rule assms(5) [OF full_more(2) g])
    then show ?thesis by (rule disjI2)
  qed
qed simp

text \<open>The row of a Work, an effect or an input after one erasing writer.\<close>

lemma lookup_key:
  assumes "unique_key key rows" "r \<in> set rows"
  shows "lookup_by key (key r) rows = Some r"
  using lookup_by_unique assms by metis

lemma erase_work:
  assumes "erase_op d d'" "wf_store d" "w \<in> set (works d)"
  obtains (same) "w \<in> set (works d')"
    | (archived) "archive_work w \<in> set (works d')" "archives d d'" "ended_work d (w_id w)"
    | (purged) conv where "purge_allowed d conv" "d' = purge_scope d conv" "w_id w \<in> works_of d conv"
  using assms(1)
proof (cases rule: erase_op.cases)
  case (recover now l included i)
  then show ?thesis using recovered_cases [OF recover] assms(3) same by simp
next
  case archive
  then show ?thesis
  proof (cases rule: archives_cases)
    case (wrote now later expired gone)
    let ?w = "if w_id w \<in> set expired then archive_work w else w"
    have "?w \<in> set (works d')"
      using assms(3) wrote(1) by (simp add: archive_write_def Let_def set_update_where)
    then show ?thesis
    proof (cases "w_id w \<in> set expired")
      case True
      then have "ended_work d (w_id w)" using wrote(2,3) by blast
      then show ?thesis using archived archive True \<open>?w \<in> set (works d')\<close> by simp
    next
      case False
      then show ?thesis using same \<open>?w \<in> set (works d')\<close> by simp
    qed
  qed (use assms(3) same in simp)
next
  case (purge conv)
  show ?thesis
  proof (cases "w_conversation w = conv")
    case True
    then have "w_id w \<in> works_of d conv" using assms(3) by (auto simp: works_of_def)
    then show ?thesis by (rule purged [OF purge(2,1)])
  next
    case False
    then have "w \<in> set (works d')" using assms(3) purge by (simp add: purge_scope_def Let_def)
    then show ?thesis by (rule same)
  qed
qed

lemma erase_effect:
  assumes "erase_op d d'" "wf_store d" "e \<in> set (effects d)"
  obtains (same) "e \<in> set (effects d')"
    | (archived) "archives d d'" "ended_work d (ef_work_id e)"
    | (purged) conv where "purge_allowed d conv" "d' = purge_scope d conv" "ef_work_id e \<in> works_of d conv"
  using assms(1)
proof (cases rule: erase_op.cases)
  case (recover now l included i)
  then show ?thesis using recovered_cases [OF recover] assms(3) same by simp
next
  case archive
  then show ?thesis
  proof (cases rule: archives_cases)
    case (wrote now later expired gone)
    show ?thesis
    proof (cases "ef_work_id e \<in> set gone")
      case True
      show ?thesis by (rule archived [OF archive wrote(2) [OF True]])
    next
      case False
      then have "e \<in> set (effects d')" using assms(3) wrote(1) by (simp add: archive_write_def Let_def)
      then show ?thesis by (rule same)
    qed
  qed (use assms(3) same in simp)
next
  case (purge conv)
  show ?thesis
  proof (cases "ef_work_id e \<in> works_of d conv")
    case True
    show ?thesis by (rule purged [OF purge(2,1) True])
  next
    case False
    then have "e \<in> set (effects (purge_scope d conv))"
      using assms(3) unfolding purge_scope_def Let_def gone_works by simp
    then show ?thesis using same purge(1) by simp
  qed
qed

lemma erase_input:
  assumes "erase_op d d'" "wf_store d" "x \<in> set (inputs d)"
  obtains (same) "x \<in> set (inputs d')"
    | (consumed) "in_state x = Staged" "x\<lparr>in_state := Consumed\<rparr> \<in> set (inputs d')"
    | (restored) now l included i where "recovered_inputs d now l included i = Inr d'"
        "in_id x \<notin> set included" "in_work_id x = Some i" "in_state x = Staged"
        "x\<lparr>in_state := Pending, in_attempt := None\<rparr> \<in> set (inputs d')"
    | (archived) i where "archives d d'" "ended_work d i" "in_work_id x = Some i"
    | (purged) "purge_allowed d (in_conversation x)" "d' = purge_scope d (in_conversation x)"
  using assms(1)
proof (cases rule: erase_op.cases)
  case (recover now l included i)
  have "(if restorable l i x then if in_id x \<in> set included then x\<lparr>in_state := Consumed\<rparr>
      else x\<lparr>in_state := Pending, in_attempt := None\<rparr> else x) \<in> set (inputs d')"
    using recovered_cases [OF recover] assms(3) by auto
  note row = this
  show ?thesis
  proof (cases "restorable l i x")
    case True
    then have st: "in_state x = Staged" "in_work_id x = Some i" by (simp_all add: restorable_def)
    show ?thesis
    proof (cases "in_id x \<in> set included")
      case i: True
      show ?thesis by (rule consumed [OF st(1)]) (use row True i in simp)
    next
      case i: False
      show ?thesis by (rule restored [OF recover i st(2,1)]) (use row True i in simp)
    qed
  next
    case False
    then show ?thesis using row by (intro same) simp
  qed
next
  case archive
  then show ?thesis
  proof (cases rule: archives_cases)
    case (wrote now later expired gone)
    show ?thesis
    proof (cases "\<exists>i. in_work_id x = Some i \<and> i \<in> set gone")
      case True
      then obtain i where i: "in_work_id x = Some i" "i \<in> set gone" by blast
      show ?thesis by (rule archived [OF archive wrote(2) [OF i(2)] i(1)])
    next
      case False
      then have "x \<in> set (inputs d')"
        using assms(3) wrote(1) by (auto simp: archive_write_def Let_def split: option.splits)
      then show ?thesis by (rule same)
    qed
  qed (use assms(3) same in simp)
next
  case (purge conv)
  show ?thesis
  proof (cases "in_conversation x = conv")
    case True
    then show ?thesis using purge by (intro purged) simp_all
  next
    case False
    then have "x \<in> set (inputs (purge_scope d conv))" using assms(3) by (simp add: purge_scope_def Let_def)
    then show ?thesis using same purge(1) by simp
  qed
qed

section \<open>Leases\<close>

text \<open>An erasing writer gives no row an owner either.\<close>

lemma erase_lease_frame:
  assumes "erase_op d d'" "wf_store d"
  shows "lease_frame d d' \<and> conversations d' = conversations d"
proof -
  have u: "unique_key sc_conversation (scopes d')" "unique_key ch_work_id (children d')"
    using erase_op_wf [OF assms] by (simp_all add: wf_store_def wf_scopes_def wf_children_def)
  have "(\<forall>s'\<in>set (scopes d'). s' \<in> set (scopes d)) \<and> conversations d' = conversations d \<and>
      (\<forall>c'\<in>set (children d'). ch_owner c' = None \<or> c' \<in> set (children d))"
    using assms(1)
  proof (cases rule: erase_op.cases)
    case (recover now l included i)
    then show ?thesis using recovered_cases [OF recover] by simp
  next
    case archive
    then show ?thesis
      by (elim archives_cases) (auto simp: archive_write_def Let_def set_update_where archive_child_def)
  qed (auto simp: purge_scope_def Let_def)
  then show ?thesis using u unfolding lease_frame_def by blast
qed

end
