(* ===== verification/Erasure_Properties.thy ===== *)
theory Erasure_Properties
  imports Work_Erasure Work_Examples
begin

text \<open>
  What stays of a row over runs with every writer, the archive, the recovery of inputs and the
  privacy purge included: a row keeps what is final about it until one of the named erasing events
  took it. The writers as steps of the lease protocol, and what a purge erases and what it spares.
  The last section applies the properties to the stores of \<open>Work_Examples\<close>.
\<close>

section \<open>Works\<close>










section \<open>Inputs\<close>





section \<open>Effects\<close>


section \<open>The lease protocol\<close>

lemma scopes_after:
  assumes "lease_quiet d d' \<or> lease_published d d'" "r \<in> set (scopes d)"
  shows "r \<in> set (scopes d') \<or>
    (\<exists>r'\<in>set (scopes d'). sc_conversation r' = sc_conversation r \<and> sc_cancel_epoch r < sc_cancel_epoch r')"
  using assms(1)
proof
  assume "lease_quiet d d'"
  then obtain r' where "r' \<in> set (scopes d')" "scope_stays r r'"
    using assms(2) by (auto simp: lease_quiet_def scopes_stay_def)
  then show ?thesis unfolding scope_stays_def by (metis order_le_less)
qed (use assms(2) in \<open>simp add: lease_published_def\<close>)

lemma claims_after:
  assumes "lease_quiet d d' \<or> lease_published d d'" "c \<in> set (children d)" "ch_owner c \<noteq> None"
  shows "\<exists>c'\<in>set (children d'). ch_work_id c' = ch_work_id c \<and>
    (ch_owner c' = ch_owner c \<and> ch_fence c' = ch_fence c \<and> ch_lease_until c' = ch_lease_until c \<and>
       ch_cancel_epoch c' = ch_cancel_epoch c \<or>
     ch_cancel_epoch c < ch_cancel_epoch c' \<or> ch_notified_revision c < ch_notified_revision c')"
  using assms(1)
proof
  assume "lease_quiet d d'"
  then obtain c' where c': "c' \<in> set (children d')" "claim_stays c c'"
    using assms(2) by (auto simp: lease_quiet_def claims_stay_def)
  note D = claim_staysD [OF c'(2)]
  show ?thesis
  proof (cases "ch_cancel_epoch c' = ch_cancel_epoch c")
    case True
    then have "same_claim c c'" using D(3) assms(3) by blast
    then show ?thesis using c'(1) unfolding same_claim_def by metis
  next
    case False
    then show ?thesis using c'(1) D(1,2) by force
  qed
next
  assume "lease_published d d'"
  then obtain c' where "c' \<in> set (children d')" "ch_work_id c' = ch_work_id c"
    "same_claim c c' \<or> ch_notified_revision c < ch_notified_revision c'"
    using assms(2) unfolding lease_published_def by blast
  then show ?thesis unfolding same_claim_def by metis
qed

lemma erase_scope:
  assumes "erase_op d d'" "r \<in> set (scopes d)"
  shows "r \<in> set (scopes d') \<or> d' = purge_scope d (sc_conversation r)"
  using assms(1)
proof (cases rule: erase_op.cases)
  case (recover now l included i)
  then show ?thesis using recovered_cases [OF recover] assms(2) by simp
next
  case archive
  then show ?thesis
    using assms(2) by (elim archives_cases) (simp_all add: archive_write_def Let_def)
next
  case (purge conv)
  then show ?thesis
    using assms(2) by (cases "sc_conversation r = conv") (simp_all add: purge_scope_def Let_def)
qed

lemma erase_child:
  assumes "erase_op d d'" "c \<in> set (children d)"
  shows "(\<exists>c'\<in>set (children d'). ch_work_id c' = ch_work_id c \<and>
    (ch_owner c' = ch_owner c \<and> ch_fence c' = ch_fence c \<and> ch_lease_until c' = ch_lease_until c \<and>
       ch_cancel_epoch c' = ch_cancel_epoch c \<or>
     ch_archived_at c' \<noteq> None \<and> ended_work d (ch_work_id c))) \<or>
   (\<exists>conv. ch_work_id c \<in> works_of d conv \<and> d' = purge_scope d conv)"
proof -
  have same: ?thesis if "c \<in> set (children d')" using that by blast
  show ?thesis
    using assms(1)
  proof (cases rule: erase_op.cases)
    case (recover now l included i)
    then show ?thesis using recovered_cases [OF recover] assms(2) same by simp
  next
    case archive
    then show ?thesis
    proof (cases rule: archives_cases)
      case (wrote now later expired gone)
      let ?c = "if ch_work_id c \<in> set expired then archive_child later c else c"
      have c: "?c \<in> set (children d')"
        using assms(2) wrote(1) by (simp add: archive_write_def Let_def set_update_where)
      show ?thesis
      proof (cases "ch_work_id c \<in> set expired")
        case True
        then have "archive_child later c \<in> set (children d')" using c by simp
        moreover have "ch_work_id (archive_child later c) = ch_work_id c \<and>
            ch_archived_at (archive_child later c) \<noteq> None" by (simp add: archive_child_def)
        ultimately show ?thesis using wrote(2,3) True by blast
      qed (use c same in simp)
    qed (use assms(2) same in simp)
  next
    case (purge conv)
    show ?thesis
    proof (cases "ch_work_id c \<in> works_of d conv")
      case True
      then show ?thesis using purge(1) by blast
    next
      case False
      then have "c \<in> set (children d')"
        using assms(2) unfolding purge(1) purge_scope_def Let_def gone_works by simp
      then show ?thesis by (rule same)
    qed
  qed
qed

text \<open>
  C22: Every writer of the Work runtime that does not grant or extend leases is a step of the lease
  protocol (so C1 and C2 hold for executions of the whole runtime), and it takes a lease away only in
  one of the ways the code knows. A scope row stays exactly as it is, unless its cancel epoch
  is raised or its conversation is purged. The lease of a child (owner, fence, expiry, epoch)
  stays, unless its cancel epoch is raised, a newer result is published on the row, the child is
  archived after its Work has ended, or its Work is purged.
\<close>

theorem operations_refine_lease_protocol:
  assumes "wf_store (store s)" "unique_key cv_id (conversations (store s))"
    and "store_op (store s) d' \<or> erase_op (store s) d'"
  shows "lease_step s (s\<lparr>store := d'\<rparr>) \<and> wf_store d' \<and> unique_key cv_id (conversations d') \<and>
    (\<forall>r\<in>set (scopes (store s)). r \<in> set (scopes d') \<or>
       (\<exists>r'\<in>set (scopes d'). sc_conversation r' = sc_conversation r \<and> sc_cancel_epoch r < sc_cancel_epoch r') \<or>
       d' = purge_scope (store s) (sc_conversation r)) \<and>
    (\<forall>c\<in>set (children (store s)). ch_owner c \<noteq> None \<longrightarrow>
       (\<exists>c'\<in>set (children d'). ch_work_id c' = ch_work_id c \<and>
          (ch_owner c' = ch_owner c \<and> ch_fence c' = ch_fence c \<and> ch_lease_until c' = ch_lease_until c \<and>
             ch_cancel_epoch c' = ch_cancel_epoch c \<or>
           ch_cancel_epoch c < ch_cancel_epoch c' \<or> ch_notified_revision c < ch_notified_revision c' \<or>
           ch_archived_at c' \<noteq> None \<and> ended_work (store s) (ch_work_id c))) \<or>
       (\<exists>conv. ch_work_id c \<in> works_of (store s) conv \<and> d' = purge_scope (store s) conv))"
  using assms(3)
proof
  assume op: "store_op (store s) d'"
  have wf: "wf_store d'" by (rule evolves_wf [OF store_op_evolves [OF op assms(1)] assms(1)])
  have q: "lease_quiet (store s) d' \<or> lease_published (store s) d'" by (rule store_op_quiet [OF op])
  then have cv: "conversations d' = conversations (store s)"
    by (auto simp: lease_quiet_def lease_published_def)
  have "lease_step s (s\<lparr>store := d'\<rparr>)"
    using lease_quiet_frame [OF q wf] assms(2)
    by (intro lease_step.other) (auto simp: conversations_advance_def cv)
  moreover have "r \<in> set (scopes d') \<or>
      (\<exists>r'\<in>set (scopes d'). sc_conversation r' = sc_conversation r \<and> sc_cancel_epoch r < sc_cancel_epoch r')"
    if "r \<in> set (scopes (store s))" for r
    using scopes_after [OF q that] .
  moreover have "\<exists>c'\<in>set (children d'). ch_work_id c' = ch_work_id c \<and>
      (ch_owner c' = ch_owner c \<and> ch_fence c' = ch_fence c \<and> ch_lease_until c' = ch_lease_until c \<and>
         ch_cancel_epoch c' = ch_cancel_epoch c \<or>
       ch_cancel_epoch c < ch_cancel_epoch c' \<or> ch_notified_revision c < ch_notified_revision c')"
    if "c \<in> set (children (store s))" "ch_owner c \<noteq> None" for c
    using claims_after [OF q that] .
  ultimately show ?thesis using wf cv assms(2) by metis
next
  assume op: "erase_op (store s) d'"
  have wf: "wf_store d'" by (rule erase_op_wf [OF op assms(1)])
  note f = erase_lease_frame [OF op assms(1)]
  have "lease_step s (s\<lparr>store := d'\<rparr>)"
    using f assms(2) by (intro lease_step.other) (auto simp: conversations_advance_def)
  moreover have "r \<in> set (scopes d') \<or> d' = purge_scope (store s) (sc_conversation r)"
    if "r \<in> set (scopes (store s))" for r
    using erase_scope [OF op that] .
  moreover have "(\<exists>c'\<in>set (children d'). ch_work_id c' = ch_work_id c \<and>
      (ch_owner c' = ch_owner c \<and> ch_fence c' = ch_fence c \<and> ch_lease_until c' = ch_lease_until c \<and>
         ch_cancel_epoch c' = ch_cancel_epoch c \<or>
       ch_archived_at c' \<noteq> None \<and> ended_work (store s) (ch_work_id c))) \<or>
     (\<exists>conv. ch_work_id c \<in> works_of (store s) conv \<and> d' = purge_scope (store s) conv)"
    if "c \<in> set (children (store s))" for c
    using erase_child [OF op that] .
  ultimately show ?thesis using wf f assms(2) by metis
qed

section \<open>Privacy purge\<close>

text \<open>The rows that hang on a Work, table by table, and the media it references.\<close>

definition rows_of :: "db \<Rightarrow> string \<Rightarrow> journal_row list \<times> effect_row list \<times> wait_row list \<times>
    child_row list \<times> recovery_row list \<times> delivery_row list \<times> budget_row list \<times>
    (string \<times> string) list \<times> (string \<times> string) list" where
  "rows_of d i = (filter (\<lambda>j. jn_work_id j = i) (journals d), filter (\<lambda>e. ef_work_id e = i) (effects d),
     filter (\<lambda>y. wa_work_id y = i) (waits d), filter (\<lambda>c. ch_work_id c = i) (children d),
     filter (\<lambda>r. rc_work_id r = i) (recoveries d), filter (\<lambda>r. dl_work_id r = i) (deliveries d),
     filter (\<lambda>b. bg_root b = i) (budgets d), filter (\<lambda>r. fst r = i) (media_refs d),
     filter (\<lambda>b. (i, fst b) \<in> set (media_refs d)) (media_blobs d))"

lemma filter_twice: "(\<And>x. x \<in> set xs \<Longrightarrow> p x \<Longrightarrow> q x) \<Longrightarrow> filter p (filter q xs) = filter p xs"
  by (induction xs) auto

lemma filter_away: "i \<notin> gone \<Longrightarrow> filter (\<lambda>x. f x = i) (filter (\<lambda>x. f x \<notin> gone) xs) = filter (\<lambda>x. f x = i) xs"
  by (rule filter_twice) simp

lemma purge_tables:
  "journals (purge_scope d conv) = filter (\<lambda>j. jn_work_id j \<notin> works_of d conv) (journals d)"
  "effects (purge_scope d conv) = filter (\<lambda>e. ef_work_id e \<notin> works_of d conv) (effects d)"
  "waits (purge_scope d conv) = filter (\<lambda>y. wa_work_id y \<notin> works_of d conv) (waits d)"
  "children (purge_scope d conv) = filter (\<lambda>c. ch_work_id c \<notin> works_of d conv) (children d)"
  "recoveries (purge_scope d conv) = filter (\<lambda>r. rc_work_id r \<notin> works_of d conv) (recoveries d)"
  "deliveries (purge_scope d conv) = filter (\<lambda>r. dl_work_id r \<notin> works_of d conv) (deliveries d)"
  "budgets (purge_scope d conv) = filter (\<lambda>b. bg_root b \<notin> works_of d conv) (budgets d)"
  "media_refs (purge_scope d conv) = filter (\<lambda>r. fst r \<notin> works_of d conv) (media_refs d)"
  "media_blobs (purge_scope d conv) = filter (\<lambda>kv. fst kv \<in> snd ` set (media_refs (purge_scope d conv))) (media_blobs d)"
  unfolding purge_scope_def Let_def gone_works by simp_all

lemma purge_rows_of:
  assumes "i \<notin> works_of d conv"
  shows "rows_of (purge_scope d conv) i = rows_of d i"
proof -
  have refs: "(i, h) \<in> set (media_refs (purge_scope d conv)) \<longleftrightarrow> (i, h) \<in> set (media_refs d)" for h
    using assms by (simp add: purge_tables)
  have "filter (\<lambda>b. (i, fst b) \<in> set (media_refs d))
      (filter (\<lambda>kv. fst kv \<in> snd ` set (media_refs (purge_scope d conv))) (media_blobs d)) =
    filter (\<lambda>b. (i, fst b) \<in> set (media_refs d)) (media_blobs d)"
    by (rule filter_twice) (metis refs image_eqI snd_conv)
  then show ?thesis
    unfolding rows_of_def refs
    by (simp only: purge_tables(1-7,9) refs filter_away [OF assms])
      (simp only: purge_tables(8) filter_away [OF assms])
qed

text \<open>
  C23: The purge of a conversation leaves none of its Works, inputs or scope, no row of any
  table that referred to one of its Works and no media that nothing references any more. It touches
  nothing else: the Works, inputs and scopes of the other conversations stay, every Work of another
  conversation keeps all its rows (journal, effects, waits, child row, recovery, deliveries, budget,
  media references) and the media it references, and the tables of other components are unchanged. When
  the foreign keys admit the purge, the store stays well formed.
\<close>

theorem purge_erases_conversation:
  assumes "wf_store d" "d' = purge_scope d conv"
  shows "(\<forall>w\<in>set (works d'). w_conversation w \<noteq> conv) \<and> (\<forall>x\<in>set (inputs d'). in_conversation x \<noteq> conv) \<and>
    (\<forall>s\<in>set (scopes d'). sc_conversation s \<noteq> conv) \<and>
    (w_id ` set (works d') \<union> ch_work_id ` set (children d') \<union> jn_work_id ` set (journals d') \<union>
      ef_work_id ` set (effects d') \<union> wa_work_id ` set (waits d') \<union> rc_work_id ` set (recoveries d') \<union>
      dl_work_id ` set (deliveries d') \<union> bg_root ` set (budgets d') \<union>
      fst ` set (media_refs d')) \<inter> works_of d conv = {} \<and>
    fst ` set (media_blobs d') \<subseteq> snd ` set (media_refs d') \<and>
    (\<forall>w\<in>set (works d). w_conversation w \<noteq> conv \<longrightarrow> w \<in> set (works d') \<and> rows_of d' (w_id w) = rows_of d (w_id w)) \<and>
    filter (\<lambda>x. in_conversation x \<noteq> conv) (inputs d) = inputs d' \<and>
    filter (\<lambda>s. sc_conversation s \<noteq> conv) (scopes d) = scopes d' \<and>
    conversations d' = conversations d \<and> sandbox_runs d' = sandbox_runs d \<and>
    continuations d' = continuations d \<and> automations d' = automations d \<and>
    automation_runs d' = automation_runs d \<and> initiative_runs d' = initiative_runs d \<and>
    (purge_allowed d conv \<longrightarrow> wf_store d')"
proof -
  have "unique_key w_id (works d)" using assms(1) by (simp add: wf_store_def wf_works_def)
  then have keep: "w_id w \<notin> works_of d conv" if "w \<in> set (works d)" "w_conversation w \<noteq> conv" for w
    using that unique_keyD by (fastforce simp: works_of_def)
  have rows: "\<forall>w\<in>set (works d). w_conversation w \<noteq> conv \<longrightarrow>
      w \<in> set (works d') \<and> rows_of d' (w_id w) = rows_of d (w_id w)"
    unfolding assms(2) using keep purge_rows_of by (simp add: purge_scope_def Let_def)
  have gone: "(w_id ` set (works d') \<union> ch_work_id ` set (children d') \<union> jn_work_id ` set (journals d') \<union>
      ef_work_id ` set (effects d') \<union> wa_work_id ` set (waits d') \<union> rc_work_id ` set (recoveries d') \<union>
      dl_work_id ` set (deliveries d') \<union> bg_root ` set (budgets d') \<union>
      fst ` set (media_refs d')) \<inter> works_of d conv = {}"
    unfolding assms(2) purge_scope_def Let_def gone_works using keep by auto
  have "purge_allowed d conv \<longrightarrow> wf_store d'" using purge_wf [OF assms(1)] assms(2) by simp
  then show ?thesis
    using rows gone unfolding assms(2) by (simp add: purge_scope_def Let_def image_subset_iff)
qed

section \<open>Examples\<close>








text \<open>The scope lease of the example stays when its staged input is consumed.\<close>

definition ex_sys :: lease_sys where
  "ex_sys = \<lparr>clk = 10, store = ex_db Running Staged, granted = [ex_lease]\<rparr>"

theorem operations_refine_lease_protocol_witness:
  "lease_step ex_sys (ex_sys\<lparr>store := ex_db Running Consumed\<rparr>)"
proof -
  have "store_op (store ex_sys) (ex_db Running Consumed)"
  proof (rule store_op.consume)
    show "consume (store ex_sys) 10 ex_lease ''a'' = Inr (ex_db Running Consumed)"
      by (simp add: ex_sys_def consume_def ex_lease_valid) (simp add: consumable_def ex_defs)
  qed
  moreover have "wf_store (store ex_sys)" "unique_key cv_id (conversations (store ex_sys))"
    by (simp_all add: ex_sys_def ex_wf) (simp add: ex_defs unique_key_def)
  ultimately show ?thesis using operations_refine_lease_protocol by blast
qed

text \<open>A second conversation with a Work and an effect, which the purge of the first leaves alone.\<close>

definition ex_two :: db where
  "ex_two = (ex_db Running Pending)\<lparr>
     works := works (ex_db Running Pending) @ [(demo_work ''o'' None Running)\<lparr>w_conversation := ''d''\<rparr>],
     effects := [ex_effect, ex_effect\<lparr>ef_key := ''f'', ef_work_id := ''o''\<rparr>]\<rparr>"

theorem purge_erases_conversation_witness:
  "works_of ex_two ''c'' = {''r'', ''s''} \<and> works_of (purge_scope ex_two ''c'') ''c'' = {} \<and>
   filter (\<lambda>e. ef_work_id e = ''o'') (effects (purge_scope ex_two ''c'')) =
     [ex_effect\<lparr>ef_key := ''f'', ef_work_id := ''o''\<rparr>]"
proof -
  have wf: "wf_store ex_two"
    by (simp add: ex_two_def wf_store_def wf_works_def wf_inputs_def wf_effects_def wf_children_def
        wf_waits_def wf_deliveries_def wf_scopes_def wf_recoveries_def wf_budgets_def unique_key_def ex_defs)
  note p = purge_erases_conversation [OF wf refl, of "''c''"]
  have o: "(demo_work ''o'' None Running)\<lparr>w_conversation := ''d''\<rparr> \<in> set (works ex_two)"
    by (simp add: ex_two_def)
  have "rows_of (purge_scope ex_two ''c'') ''o'' = rows_of ex_two ''o''"
    using p o by (auto simp: demo_work_def)
  moreover have "filter (\<lambda>e. ef_work_id e = ''o'') (effects ex_two) = [ex_effect\<lparr>ef_key := ''f'', ef_work_id := ''o''\<rparr>]"
    by (simp add: ex_two_def ex_effect_def)
  moreover have "works_of ex_two ''c'' = {''r'', ''s''}"
    unfolding gone_works [symmetric] by (simp add: ex_two_def ex_defs)
  moreover have "works_of (purge_scope ex_two ''c'') ''c'' = {}"
    using p by (auto simp: works_of_def)
  ultimately show ?thesis by (simp add: rows_of_def)
qed

end
