(* ===== verification/Work_Wait_Reads.thy ===== *)
theory Work_Wait_Reads
  imports Work_Wait_Steps
begin

text \<open>
  The read phase of the periodic check of waits. The pages of \<open>deliver_due\<close> and the dictionaries it
  fills from them are reduced to one list: the waits, in order, that have something to report when
  each is looked at with the runs it asks for; the check takes the first 128 of them. The runs it
  then compares before it writes are exactly those of the selected waits, so an unchanged store
  passes the comparison.
\<close>

text \<open>What the database guarantees: the unique index on active waits and on the run ids.\<close>

definition one_active_wait :: "db \<Rightarrow> bool" where
  "one_active_wait d \<longleftrightarrow> distinct (map wa_work_id (filter (\<lambda>y. wa_status y = Active) (waits d)))"

definition run_ids_unique :: "db \<Rightarrow> bool" where
  "run_ids_unique d \<longleftrightarrow> distinct (List.map_filter sr_run_id (sandbox_runs d))"

text \<open>The states of the runs a wait asks for, and the waits that have something to report.\<close>

definition own_states :: "db \<Rightarrow> wait_row \<Rightarrow> string \<Rightarrow> string \<Rightarrow> (string \<times> json) list option" where
  "own_states d y = run_state (runs_for d [y])"

definition reports :: "db \<Rightarrow> clock \<Rightarrow> wait_row \<Rightarrow> bool" where
  "reports d now y \<longleftrightarrow> observe_due (due_row d y) (conditions_of y) (own_states d y) now \<noteq> None"

definition reported :: "db \<Rightarrow> clock \<Rightarrow> wait_row list \<Rightarrow> wait_row list" where
  "reported d now rows = filter (reports d now) rows"

section \<open>One wait looks only at its own runs\<close>

lemma due_match_cong: "(\<And>run. s i run = s' i run) \<Longrightarrow> due_match s i now c = due_match s' i now c"
  by (cases "run_of c") (simp_all add: due_match_def)

lemma observe_due_cong:
  assumes "\<And>run. s (wa_work_id (fst r)) run = s' (wa_work_id (fst r)) run"
  shows "observe_due r raw s now = observe_due r raw s' now"
proof (cases r)
  case (Pair y v)
  have m: "due_match s (wa_work_id y) now = due_match s' (wa_work_id y) now"
    by (intro ext due_match_cong) (use assms Pair in simp)
  have o: "due_one s (wa_work_id y) now = due_one s' (wa_work_id y) now"
    by (intro ext) (simp add: due_one_def m)
  show ?thesis unfolding observe_due_def Pair prod.case Let_def m o by (rule refl)
qed

lemma concat_if: "concat (map (\<lambda>p. if q p then f p else []) ps) = concat (map f (filter q ps))"
  by (induction ps) simp_all

lemma owned_one_owner:
  "r \<in> set (owned_work_runs d p) \<Longrightarrow> or_owner r = fst p \<and> or_run r = snd p \<and> \<not> or_sandbox r"
  "r \<in> set (owned_sandbox_runs d p) \<Longrightarrow> or_owner r = fst p \<and> or_run r = snd p \<and> or_sandbox r"
  by (auto simp: owned_work_runs_def owned_sandbox_runs_def split: prod.splits)

lemma filter_all: "(\<And>x. x \<in> set xs \<Longrightarrow> q x = b) \<Longrightarrow> filter q xs = (if b then xs else [])"
  by (simp add: filter_id_conv filter_empty_conv)

lemma filter_owner_one:
  "filter (\<lambda>r. or_owner r = i) (owned_work_runs d p) = (if fst p = i then owned_work_runs d p else [])"
  "filter (\<lambda>r. or_owner r = i) (owned_sandbox_runs d p) = (if fst p = i then owned_sandbox_runs d p else [])"
  by (rule filter_all, simp add: owned_one_owner)+

lemma filter_owned_runs:
  "filter (\<lambda>r. or_owner r = i) (owned_runs d ps) = owned_runs d (filter (\<lambda>p. fst p = i) ps)"
  by (simp add: owned_runs_def filter_concat comp_def filter_owner_one concat_if)

definition asked :: "string \<times> json list \<Rightarrow> (string \<times> string) list" where
  "asked b = List.map_filter (\<lambda>c. if kind_is ''owned_run'' c \<and> unmatched c
     then map_option (Pair (fst b)) (run_of c) else None) (snd b)"

lemma requested_asked: "requested_runs bs = sort (remdups (concat (map asked bs)))"
  by (simp add: requested_runs_def asked_def [abs_def] split_def)

lemma asked_owner: "p \<in> set (asked b) \<Longrightarrow> fst p = fst b"
  by (auto simp: asked_def List.map_filter_def split: if_splits)

lemma filter_asked: "filter (\<lambda>p. fst p = i) (asked b) = (if fst b = i then asked b else [])"
  using asked_owner [of _ b] by (auto simp: filter_id_conv filter_empty_conv)

lemma filter_requested:
  "filter (\<lambda>p. fst p = i) (requested_runs bs) = requested_runs (filter (\<lambda>b. fst b = i) bs)"
  by (simp add: requested_asked filter_sort remdups_filter [symmetric] filter_concat comp_def filter_asked concat_if)

lemma filter_one: "distinct (map f xs) \<Longrightarrow> x \<in> set xs \<Longrightarrow> filter (\<lambda>y. f y = f x) xs = [x]"
proof (induction xs)
  case (Cons a xs)
  show ?case
  proof (cases "x = a")
    case True
    then have "f x \<notin> f ` set xs" using Cons.prems(1) by simp
    then have "\<forall>y\<in>set xs. f y \<noteq> f x" by (metis image_eqI)
    then show ?thesis using True by (simp add: filter_empty_conv)
  next
    case False
    then have "x \<in> set xs" using Cons.prems(2) by simp
    moreover from this have "f a \<noteq> f x" using Cons.prems(1) by (metis distinct.simps(2) image_eqI list.set_map list.simps(9))
    ultimately show ?thesis using Cons.IH Cons.prems(1) by simp
  qed
qed simp

lemma owner_runs:
  assumes "distinct (map wa_work_id ys)" "y \<in> set ys"
  shows "filter (\<lambda>r. or_owner r = wa_work_id y) (runs_for d ys) = runs_for d [y]"
proof -
  have "filter (\<lambda>b. fst b = wa_work_id y) (map (\<lambda>y. (wa_work_id y, conditions_of y)) ys) =
      map (\<lambda>y. (wa_work_id y, conditions_of y)) (filter (\<lambda>z. wa_work_id z = wa_work_id y) ys)"
    by (simp add: filter_map comp_def)
  also have "\<dots> = [(wa_work_id y, conditions_of y)]"
    unfolding filter_one [OF assms] by simp
  finally show ?thesis by (simp add: runs_for_def filter_owned_runs filter_requested)
qed

lemma run_owner: "r \<in> set (runs_for d [y]) \<Longrightarrow> or_owner r = wa_work_id y"
  using owner_runs [of "[y]" y d] by (metis (mono_tags, lifting) distinct_singleton list.simps(8) list.simps(9) list.set_intros(1) mem_Collect_eq set_filter)

lemma run_state_owner: "run_state rows i run = run_state (filter (\<lambda>r. or_owner r = i) rows) i run"
proof -
  have "filter (\<lambda>r. or_owner r = i \<and> or_run r = run) (filter (\<lambda>r. or_owner r = i) rows) =
      filter (\<lambda>r. or_owner r = i \<and> or_run r = run) rows"
    unfolding filter_filter by (rule filter_cong) auto
  then show ?thesis unfolding run_state_def Let_def by (simp only:)
qed

lemma page_states:
  assumes "distinct (map wa_work_id ys)" "y \<in> set ys"
  shows "run_state (runs_for d ys) (wa_work_id y) run = own_states d y (wa_work_id y) run"
  using run_state_owner [of "runs_for d ys" "wa_work_id y" run] owner_runs [OF assms] by (simp add: own_states_def)

section \<open>The pages\<close>

lemma observe_page_reported:
  assumes "distinct (map wa_work_id ys)"
  shows "fst (observe_page d now ys) = map (due_row d) (reported d now ys)"
proof -
  have "observe_due (due_row d y) (conditions_of y) (run_state (runs_for d ys)) now =
      observe_due (due_row d y) (conditions_of y) (own_states d y) now" if "y \<in> set ys" for y
    by (rule observe_due_cong) (simp add: due_row_def page_states [OF assms that])
  then have "filter (\<lambda>y. observe_due (due_row d y) (conditions_of y) (run_state (runs_for d ys)) now \<noteq> None) ys =
      reported d now ys"
    unfolding reported_def reports_def by (intro filter_cong) auto
  moreover have "fst (due_row d y) = y" for y by (simp add: due_row_def)
  ultimately show ?thesis
    by (simp add: observe_page_def Let_def filter_map comp_def)
qed

definition runs_of :: "db \<Rightarrow> wait_row list \<Rightarrow> owned_run list" where
  "runs_of d ys = concat (map (\<lambda>y. runs_for d [y]) ys)"

definition put_states :: "db \<Rightarrow> wait_row list \<Rightarrow> run_states \<Rightarrow> run_states" where
  "put_states d ys = fold (\<lambda>y. fold (put_state (runs_for d [y])) (runs_for d [y])) ys"

lemma runs_of_append: "runs_of d (xs @ ys) = runs_of d xs @ runs_of d ys"
  by (simp add: runs_of_def)

lemma page_put_state:
  assumes "distinct (map wa_work_id ys)" "y \<in> set ys" "r \<in> set (runs_for d [y])"
  shows "put_state (runs_for d ys) r = put_state (runs_for d [y]) r"
  using page_states [OF assms(1,2)] run_owner [OF assms(3)]
  by (intro ext) (simp add: put_state_def own_states_def)

lemma fold_concat_map: "fold f (concat (map g xs)) = fold (\<lambda>x. fold f (g x)) xs"
  by (induction xs) (simp_all add: fun_eq_iff)

lemma page_runs:
  assumes "distinct (map wa_work_id ys)" "set zs \<subseteq> set ys"
  shows "concat (map (\<lambda>r. filter (\<lambda>x. or_owner x = wa_work_id (fst r)) (runs_for d ys)) (map (due_row d) zs)) =
      runs_of d zs"
    and "fold (put_state (runs_for d ys)) (runs_of d zs) = put_states d zs"
proof -
  show "concat (map (\<lambda>r. filter (\<lambda>x. or_owner x = wa_work_id (fst r)) (runs_for d ys)) (map (due_row d) zs)) = runs_of d zs"
    using assms(2) by (induction zs) (simp_all add: runs_of_def due_row_def owner_runs [OF assms(1)])
  have inner: "fold (put_state (runs_for d ys)) (runs_for d [y]) = fold (put_state (runs_for d [y])) (runs_for d [y])"
    if "y \<in> set zs" for y
  proof
    fix sts
    have y: "y \<in> set ys" using that assms(2) by blast
    show "fold (put_state (runs_for d ys)) (runs_for d [y]) sts = fold (put_state (runs_for d [y])) (runs_for d [y]) sts"
      by (rule fold_cong [OF refl refl]) (rule page_put_state [OF assms(1) y])
  qed
  have "fold (\<lambda>y. fold (put_state (runs_for d ys)) (runs_for d [y])) zs =
      fold (\<lambda>y. fold (put_state (runs_for d [y])) (runs_for d [y])) zs"
    by (rule ext) (rule fold_cong [OF refl refl inner])
  then show "fold (put_state (runs_for d ys)) (runs_of d zs) = put_states d zs"
    by (simp add: runs_of_def put_states_def fold_concat_map)
qed

lemma observe_pages_reported:
  assumes "distinct (map wa_work_id rows)" "length hits \<le> 128"
  shows "observe_pages d now rows hits runs sts =
    (let new = take (128 - length hits) (reported d now rows)
     in (hits @ map (due_row d) new, fold put_run (runs_of d new) runs, put_states d new sts))"
  using assms
proof (induction d now rows hits runs sts rule: observe_pages.induct)
  case (1 d now rows hits runs sts)
  show ?case
  proof (cases "length hits \<ge> 128 \<or> rows = []")
    case True
    then show ?thesis
      by (subst observe_pages.simps) (auto simp: reported_def runs_of_def put_states_def)
  next
    case False
    let ?page = "take 128 rows" and ?k = "128 - length hits"
    let ?now = "take ?k (reported d now ?page)"
    let ?rest = "take (128 - length (hits @ map (due_row d) ?now)) (reported d now (drop 128 rows))"
    have dp: "distinct (map wa_work_id ?page)" "distinct (map wa_work_id (drop 128 rows))"
      using 1(2) by (simp_all flip: take_map drop_map)
    have page: "observe_page d now ?page = (map (due_row d) (reported d now ?page), runs_for d ?page)"
      using observe_page_reported [OF dp(1), of d now]
      by (simp add: prod_eq_iff) (simp add: observe_page_def Let_def)
    have sub: "set ?now \<subseteq> set ?page" by (auto simp: reported_def dest: in_set_takeD)
    have step: "observe_pages d now rows hits runs sts =
        observe_pages d now (drop 128 rows) (hits @ map (due_row d) ?now) (fold put_run (runs_of d ?now) runs)
          (put_states d ?now sts)"
      by (subst observe_pages.simps)
        (simp only: if_not_P [OF False] Let_def page prod.case take_map page_runs [OF dp(1) sub])
    have new: "take ?k (reported d now rows) = ?now @ ?rest"
    proof -
      have "reported d now rows = reported d now ?page @ reported d now (drop 128 rows)"
        unfolding reported_def by (metis append_take_drop_id filter_append)
      then show ?thesis by (simp add: min_def)
    qed
    have "observe_pages d now (drop 128 rows) (hits @ map (due_row d) ?now) (fold put_run (runs_of d ?now) runs)
          (put_states d ?now sts) =
        ((hits @ map (due_row d) ?now) @ map (due_row d) ?rest,
         fold put_run (runs_of d ?rest) (fold put_run (runs_of d ?now) runs), put_states d ?rest (put_states d ?now sts))"
    proof -
      have l: "length (hits @ take ?k (map (due_row d) (reported d now ?page))) \<le> 128" using 1(3) by simp
      from 1(1) [OF False refl refl page [symmetric] refl refl dp(2) l] show ?thesis
        unfolding take_map page_runs [OF dp(1) sub] Let_def .
    qed
    then show ?thesis
      unfolding step Let_def new by (simp add: runs_of_append put_states_def)
  qed
qed

section \<open>The selected runs are the current ones\<close>

definition run_key :: "owned_run \<Rightarrow> string \<times> string \<times> bool" where
  "run_key r = (or_owner r, or_run r, or_sandbox r)"

lemma run_key_iff:
  "run_key x = run_key r \<longleftrightarrow> or_owner x = or_owner r \<and> or_run x = or_run r \<and> or_sandbox x = or_sandbox r"
  by (simp add: run_key_def)

lemma fold_put_run:
  assumes "distinct (map run_key rs)" "run_key ` set rs \<inter> run_key ` set old = {}"
  shows "fold put_run rs old = old @ rs"
  using assms
proof (induction rs arbitrary: old)
  case (Cons r rs)
  have "\<not> list_ex (\<lambda>x. or_owner x = or_owner r \<and> or_run x = or_run r \<and> or_sandbox x = or_sandbox r) old"
    using Cons.prems(2) run_key_iff [of _ r] unfolding list_ex_iff by (metis Int_iff empty_iff image_eqI list.set_intros(1))
  then have "put_run r old = old @ [r]" by (simp add: put_run_def Let_def)
  moreover have "fold put_run rs (old @ [r]) = (old @ [r]) @ rs"
    by (rule Cons.IH) (use Cons.prems in auto)
  ultimately show ?case by simp
qed simp

lemma distinct_run_ids:
  assumes "distinct (List.map_filter f xs)"
  shows "length (filter (\<lambda>x. f x = Some k) xs) \<le> 1"
  using assms
proof (induction xs)
  case (Cons a xs)
  show ?case
  proof (cases "f a = Some k")
    case True
    then have "k \<notin> set (List.map_filter f xs)" using Cons.prems by (simp add: List.map_filter_def)
    then have "filter (\<lambda>x. f x = Some k) xs = []" by (force simp: List.map_filter_def filter_empty_conv)
    then show ?thesis by simp
  next
    case False
    then show ?thesis using Cons by (cases "f a") (auto simp: List.map_filter_def)
  qed
qed (simp add: List.map_filter_def)

lemma filter_conj_le: "length (filter (\<lambda>x. p x \<and> q x) xs) \<le> length (filter p xs)"
  by (induction xs) auto

lemma owned_one_single:
  assumes "wf_store d" "run_ids_unique d"
  shows "length (owned_work_runs d p) \<le> 1" "length (owned_sandbox_runs d p) \<le> 1"
proof -
  obtain owner run where p: "p = (owner, run)" by (cases p)
  have "distinct (map w_id (works d))" using assms(1) by (simp add: wf_store_def wf_works_def unique_key_def)
  then have "distinct (List.map_filter (\<lambda>w. Some (w_id w)) (works d))"
    by (simp add: List.map_filter_def comp_def)
  from distinct_run_ids [OF this, of run]
  have w: "length (filter (\<lambda>w. w_id w = run) (works d)) \<le> 1" by simp
  show "length (owned_work_runs d p) \<le> 1"
    unfolding owned_work_runs_def p Let_def prod.case length_map
    by (rule order_trans [OF filter_conj_le w])
  have t: "length (filter (\<lambda>t. sr_run_id t = Some run) (sandbox_runs d)) \<le> 1"
    using distinct_run_ids [OF assms(2) [unfolded run_ids_unique_def]] .
  show "length (owned_sandbox_runs d p) \<le> 1"
    unfolding owned_sandbox_runs_def p Let_def prod.case length_map
    by (rule order_trans [OF filter_conj_le t])
qed

lemma distinct_map_append:
  assumes "distinct (map f xs)" "distinct (map f ys)"
    and "\<And>x y. x \<in> set xs \<Longrightarrow> y \<in> set ys \<Longrightarrow> f x \<noteq> f y"
  shows "distinct (map f (xs @ ys))"
proof -
  have "f ` set xs \<inter> f ` set ys = {}" using assms(3) by blast
  then show ?thesis using assms(1,2) by simp
qed

lemma distinct_keys_concat:
  assumes "distinct ps" "\<And>p. p \<in> set ps \<Longrightarrow> length (f p) \<le> 1"
    and "\<And>p r. p \<in> set ps \<Longrightarrow> r \<in> set (f p) \<Longrightarrow> run_key r = (fst p, snd p, b)"
  shows "distinct (map run_key (concat (map f ps)))"
  using assms
proof (induction ps)
  case (Cons p ps)
  have "distinct (map run_key (f p))"
    using Cons.prems(2) [of p] by (cases "f p") auto
  moreover have "distinct (map run_key (concat (map f ps)))" using Cons by simp
  moreover have "run_key r \<noteq> run_key r'" if r: "r \<in> set (f p)" "r' \<in> set (concat (map f ps))" for r r'
  proof -
    obtain q where q: "q \<in> set ps" "r' \<in> set (f q)" using r(2) by auto
    have "run_key r = (fst p, snd p, b)" "run_key r' = (fst q, snd q, b)"
      using Cons.prems(3) r(1) q by simp_all
    moreover have "q \<noteq> p" using q(1) Cons.prems(1) by auto
    ultimately show ?thesis by (simp add: prod_eq_iff) metis
  qed
  ultimately have "distinct (map run_key (f p @ concat (map f ps)))" by (rule distinct_map_append)
  then show ?case by simp
qed simp

lemma owned_runs_distinct:
  assumes "wf_store d" "run_ids_unique d" "distinct ps"
  shows "distinct (map run_key (owned_runs d ps))"
proof -
  have "distinct (map run_key (concat (map (owned_work_runs d) ps)))"
    by (rule distinct_keys_concat [OF assms(3), where b = False])
      (use owned_one_single [OF assms(1,2)] owned_one_owner(1) in \<open>auto simp: run_key_def\<close>)
  moreover have "distinct (map run_key (concat (map (owned_sandbox_runs d) ps)))"
    by (rule distinct_keys_concat [OF assms(3), where b = True])
      (use owned_one_single [OF assms(1,2)] owned_one_owner(2) in \<open>auto simp: run_key_def\<close>)
  moreover have "run_key r \<noteq> run_key r'"
    if "r \<in> set (concat (map (owned_work_runs d) ps))" "r' \<in> set (concat (map (owned_sandbox_runs d) ps))" for r r'
  proof -
    have "\<not> or_sandbox r" "or_sandbox r'" using that owned_one_owner by auto
    then show ?thesis by (auto simp: run_key_iff)
  qed
  ultimately show ?thesis unfolding owned_runs_def by (rule distinct_map_append)
qed

lemma requested_distinct: "distinct (requested_runs bs)"
  by (simp add: requested_asked)

lemma runs_of_distinct:
  assumes "wf_store d" "run_ids_unique d" "distinct (map wa_work_id ys)"
  shows "distinct (map run_key (runs_of d ys))"
  using assms(3)
proof (induction ys)
  case (Cons y ys)
  have "distinct (map run_key (runs_for d [y]))"
    unfolding runs_for_def by (rule owned_runs_distinct [OF assms(1,2) requested_distinct])
  moreover have "distinct (map run_key (runs_of d ys))" using Cons by simp
  moreover have "run_key r \<noteq> run_key r'" if r: "r \<in> set (runs_for d [y])" "r' \<in> set (runs_of d ys)" for r r'
  proof -
    obtain z where z: "z \<in> set ys" "r' \<in> set (runs_for d [z])" using r(2) by (auto simp: runs_of_def)
    have "wa_work_id z \<noteq> wa_work_id y" using z(1) Cons.prems by (metis distinct.simps(2) image_eqI list.set_map list.simps(9))
    then show ?thesis using run_owner [OF r(1)] run_owner [OF z(2)] by (auto simp: run_key_iff)
  qed
  ultimately have "distinct (map run_key (runs_for d [y] @ runs_of d ys))" by (rule distinct_map_append)
  then show ?case by (simp add: runs_of_def)
qed (simp add: runs_of_def)

lemma set_owned_runs: "set (owned_runs d ps) = (\<Union>p\<in>set ps. set (owned_work_runs d p) \<union> set (owned_sandbox_runs d p))"
  by (auto simp: owned_runs_def)

lemma set_requested: "set (requested_runs bs) = (\<Union>b\<in>set bs. set (asked b))"
  by (simp add: requested_asked)

lemma set_runs_of:
  "set (runs_of d ys) = set (owned_runs d (requested_runs (map (\<lambda>y. (wa_work_id y, conditions_of y)) ys)))"
  by (simp add: runs_of_def runs_for_def set_owned_runs set_requested)

lemma matched_step:
  "length (concat (map (\<lambda>c. filter ((=) c) (x # page)) cur)) =
    length (filter ((=) x) cur) + length (concat (map (\<lambda>c. filter ((=) c) page) cur))"
  by (induction cur) auto

lemma matched_page:
  assumes "distinct cur" "set page \<subseteq> set cur"
  shows "length (concat (map (\<lambda>c. filter ((=) c) page) cur)) = length page"
  using assms(2)
proof (induction page)
  case Nil
  have "concat (map (\<lambda>c. filter ((=) c) []) cur) = []" by (induction cur) simp_all
  then show ?case by simp
next
  case (Cons x page)
  have "{r. x = r} \<inter> set cur = {x}" using Cons.prems by auto
  then have "length (filter ((=) x) cur) = 1" by (simp add: distinct_length_filter [OF assms(1)])
  then show ?case unfolding matched_step using Cons by simp
qed

lemma chunk_sub: "p \<in> set (chunks (Suc n) xs) \<Longrightarrow> set p \<subseteq> set xs"
proof (induction "Suc n" xs rule: chunks.induct)
  case (3 x xs)
  from 3(2) have "p = take (Suc n) (x # xs) \<or> p \<in> set (chunks (Suc n) (drop n xs))" by simp
  then show ?case
  proof
    assume "p = take (Suc n) (x # xs)"
    then show ?thesis by (auto dest: in_set_takeD)
  next
    assume "p \<in> set (chunks (Suc n) (drop n xs))"
    then show ?thesis using 3(1) by (auto dest: in_set_dropD)
  qed
qed simp

lemma selected_current:
  assumes "wf_store d" "run_ids_unique d" "distinct (map wa_work_id ys)"
  shows "owned_runs_current d (requested_runs (map (\<lambda>y. (wa_work_id y, conditions_of y)) ys)) (runs_of d ys)"
proof -
  let ?cur = "owned_runs d (requested_runs (map (\<lambda>y. (wa_work_id y, conditions_of y)) ys))"
  have c: "distinct ?cur"
    using owned_runs_distinct [OF assms(1,2) requested_distinct] by (simp add: distinct_map)
  have r: "distinct (runs_of d ys)" using runs_of_distinct [OF assms] by (simp add: distinct_map)
  have len: "length ?cur = length (runs_of d ys)"
    using set_runs_of [of d ys] distinct_card [OF c] distinct_card [OF r] by simp
  have "length (concat (map (\<lambda>c. filter ((=) c) page) ?cur)) = length page"
    if "page \<in> set (chunks 32 (runs_of d ys))" for page
  proof (rule matched_page [OF c])
    have "page \<in> set (chunks (Suc 31) (runs_of d ys))" using that by (simp add: eval_nat_numeral)
    then show "set page \<subseteq> set ?cur" using chunk_sub set_runs_of [of d ys] by blast
  qed
  then show ?thesis
    using len set_runs_of [of d ys] by (auto simp: owned_runs_current_def Let_def list_all_iff)
qed

section \<open>The states the writer looks at\<close>

lemma run_state_some:
  assumes "run_state rows i run = Some st"
  shows "\<exists>r\<in>set rows. or_owner r = i \<and> or_run r = run"
proof (rule ccontr)
  assume "\<not> ?thesis"
  then have "filter (\<lambda>r. or_owner r = i \<and> or_run r = run) rows = []" by (auto simp: filter_empty_conv)
  then show False using assms by (simp add: run_state_def)
qed

lemma put_states_one:
  "map_of (fold (put_state rows) rs sts) (i, run) =
    (if \<exists>r\<in>set rs. or_owner r = i \<and> or_run r = run
     then (case run_state rows i run of None \<Rightarrow> map_of sts (i, run) | Some st \<Rightarrow> Some st)
     else map_of sts (i, run))"
proof (induction rs arbitrary: sts)
  case (Cons r rs)
  have "map_of (put_state rows r sts) (i, run) =
      (if or_owner r = i \<and> or_run r = run
       then (case run_state rows i run of None \<Rightarrow> map_of sts (i, run) | Some st \<Rightarrow> Some st) else map_of sts (i, run))"
    by (auto simp: put_state_def update_conv split: option.split)
  then show ?case by (auto simp: Cons.IH split: option.split)
qed simp

lemma put_states_own:
  assumes "distinct (map wa_work_id ys)" "y \<in> set ys" "\<And>run. map_of sts (wa_work_id y, run) = None"
  shows "map_of (put_states d ys sts) (wa_work_id y, run) = own_states d y (wa_work_id y) run"
  using assms
proof (induction ys arbitrary: sts)
  case (Cons z ys)
  let ?sts = "fold (put_state (runs_for d [z])) (runs_for d [z]) sts"
  have step: "put_states d (z # ys) sts = put_states d ys ?sts" by (simp add: put_states_def)
  show ?case
  proof (cases "z = y")
    case True
    have own: "map_of ?sts (wa_work_id y, run) = own_states d y (wa_work_id y) run"
      using run_state_some [of "runs_for d [y]" "wa_work_id y" run] Cons.prems(3)
      by (auto simp: put_states_one True own_states_def split: option.split)
    have others: "wa_work_id x \<noteq> wa_work_id y" if "x \<in> set ys" for x
      using Cons.prems(1) True that by (metis distinct.simps(2) image_eqI list.set_map list.simps(9))
    have "map_of (put_states d xs sts') (wa_work_id y, run) = map_of sts' (wa_work_id y, run)"
      if "\<And>x. x \<in> set xs \<Longrightarrow> wa_work_id x \<noteq> wa_work_id y" for xs sts'
      using that
    proof (induction xs arbitrary: sts')
      case (Cons x xs)
      have "\<not> (\<exists>r\<in>set (runs_for d [x]). or_owner r = wa_work_id y \<and> or_run r = run)"
        using run_owner Cons.prems [of x] by auto
      then have "map_of (fold (put_state (runs_for d [x])) (runs_for d [x]) sts') (wa_work_id y, run) =
          map_of sts' (wa_work_id y, run)"
        unfolding put_states_one by (rule if_not_P)
      then show ?case using Cons by (simp add: put_states_def)
    qed (simp add: put_states_def)
    then show ?thesis unfolding step own [symmetric] using others by blast
  next
    case False
    then have y: "y \<in> set ys" using Cons.prems(2) by simp
    then have "wa_work_id z \<noteq> wa_work_id y"
      using Cons.prems(1) by (metis distinct.simps(2) image_eqI list.set_map list.simps(9))
    then have "map_of ?sts (wa_work_id y, q) = None" for q
      using run_owner Cons.prems(3) by (auto simp: put_states_one)
    then show ?thesis unfolding step using Cons.IH [of ?sts] Cons.prems(1) y by simp
  qed
qed simp

text \<open>The read phase as a whole: the waits that report, at most 128, in order.\<close>

definition selected :: "db \<Rightarrow> clock \<Rightarrow> wait_row list" where
  "selected d now = take 128 (reported d now (due_rows d (\<lambda>_. True)))"

lemma active_rows_distinct:
  assumes "one_active_wait d"
  shows "distinct (map wa_work_id (due_rows d p))"
proof -
  have "distinct (map wa_work_id (filter (\<lambda>y. wa_status y = Active \<and> p y) (waits d)))"
    using assms unfolding one_active_wait_def
    by (metis (no_types, lifting) distinct_map_filter filter_filter filter_cong)
  then show ?thesis by (simp add: due_rows_def distinct_map)
qed

lemma selected_sub: "set (selected d now) \<subseteq> set (due_rows d (\<lambda>_. True))"
  by (auto simp: selected_def reported_def dest: in_set_takeD)

lemma selected_distinct: "one_active_wait d \<Longrightarrow> distinct (map wa_work_id (selected d now))"
  unfolding selected_def reported_def take_map [symmetric]
  by (intro distinct_take distinct_map_filter active_rows_distinct)

lemma read_phase:
  assumes "wf_store d" "one_active_wait d" "run_ids_unique d"
  shows "observe_pages d now (due_rows d (\<lambda>_. True)) [] [] [] =
    (map (due_row d) (selected d now), runs_of d (selected d now), put_states d (selected d now) [])"
proof -
  have "fold put_run (runs_of d (selected d now)) [] = runs_of d (selected d now)"
    using fold_put_run [OF runs_of_distinct [OF assms(1,3) selected_distinct [OF assms(2)]], where old = "[]"] by simp
  then show ?thesis
    using observe_pages_reported [where rows = "due_rows d (\<lambda>_. True)" and hits = "[]" and d = d and now = now
        and runs = "[]" and sts = "[]"] active_rows_distinct [OF assms(2)]
    by (simp add: Let_def selected_def)
qed

end
