(* ===== verification/Work_Wait_Properties.thy ===== *)
theory Work_Wait_Properties
  imports Work_Examples Work_Wait_Reads
begin

text \<open>
  The properties of the wait service: a wait is signalled once, a registration is repeatable and
  leaves one active wait, an uninterrupted check signals every due wait. The last sections hold the
  stores on which they are applied and a wait that can never be signalled.
\<close>

section \<open>One signal per wait\<close>

lemma run_wait:
  assumes "wf_store d" "work_run d d'" "y \<in> set (waits d)"
  shows "\<exists>z. lookup_by wa_id (wa_id y) (waits d') = Some z \<and> wait_le y z"
proof -
  have "table_ok wf_waits wait_le (waits d) (waits d')"
    using work_run_evolves [OF assms(2,1)] by (simp add: evolves_def)
  then show ?thesis using waits.ok_lookup assms by (metis wf_store_def)
qed

lemma run_input:
  assumes "wf_store d" "work_run d d'" "x \<in> set (inputs d)"
  shows "\<exists>z. lookup_by in_id (in_id x) (inputs d') = Some z \<and> input_le x z"
proof -
  have "table_ok wf_inputs input_le (inputs d) (inputs d')"
    using work_run_evolves [OF assms(2,1)] by (simp add: evolves_def)
  then show ?thesis using inputs.ok_lookup assms by (metis wf_store_def)
qed

lemma filter_unique:
  "unique_key f rows \<Longrightarrow> r \<in> set rows \<Longrightarrow> filter (\<lambda>x. f x = f r) rows = [r]"
proof (induction rows)
  case (Cons a rows)
  then have a: "f a \<notin> f ` set rows" "unique_key f rows" by (auto simp: unique_key_def)
  show ?case
  proof (cases "a = r")
    case True
    have "filter (\<lambda>x. f x = f a) rows = []" using a(1) by (auto simp: filter_empty_conv) (metis image_eqI)
    then show ?thesis using True by simp
  next
    case False
    then have "r \<in> set rows" "f a \<noteq> f r" using Cons.prems a by auto
    then show ?thesis using Cons.IH a by simp
  qed
qed simp

lemma mark_closed: "\<not> list_ex (\<lambda>y. wa_id y = i \<and> wa_status y = Active) (waits d) \<Longrightarrow> mark_wait f i d = d"
  proof -
  assume "\<not> list_ex (\<lambda>y. wa_id y = i \<and> wa_status y = Active) (waits d)"
  then have "update_where (\<lambda>y. wa_id y = i \<and> wa_status y = Active) f (waits d) = waits d"
    unfolding update_where_def list_ex_iff by (intro map_idI) auto
  then show ?thesis by (simp add: mark_wait_def)
qed

lemma deliver_closed:
  assumes "\<not> list_ex (\<lambda>y. wa_id y = wb_id b \<and> wa_status y = Active) (waits d)"
  shows "deliver d now b cs reason e = (None, d)"
proof (cases rule: deliver_cases [of d now b cs reason e])
  case invalid
  then show ?thesis using mark_closed [OF assms] by simp
next
  case (sent x st v)
  then show ?thesis using assms by simp
qed

text \<open>The wait of a delivery that inserted its signal, right after it.\<close>

lemma deliver_sent:
  assumes "wf_store d" "deliver d now b cs reason e = (Some k, d1)"
  obtains y where "y \<in> set (waits d)" "wa_id y = wb_id b" "wa_status y = Active"
    "lookup_by wa_id (wb_id b) (waits d1) =
       Some (delivered_wait (if reason = ''deadline'' then Expired else Delivered) cs now y)"
    "k = next_input_id d" "''wait:'' @ wb_id b \<notin> in_source_key ` set (inputs d)"
    "signal_input d now b cs reason e \<in> set (inputs d1)"
    "\<forall>w\<in>set (works d1). w_id w = wb_work_id b \<longrightarrow> w_state w \<notin> {Waiting_external, Waiting_user}"
proof -
  have wf1: "wf_store d1" using deliver_evolves [OF assms(2)] evolves_wf assms(1) by blast
  let ?st = "if reason = ''deadline'' then Expired else Delivered"
  let ?x = "signal_input d now b cs reason e"
  have active: "list_ex (\<lambda>y. wa_id y = wb_id b \<and> wa_status y = Active) (waits d)"
    using assms(2) deliver_closed [of b d now cs reason e] by force
  then obtain y where y: "y \<in> set (waits d)" "wa_id y = wb_id b" "wa_status y = Active"
    by (auto simp: list_ex_iff)
  have dl: "k = in_id ?x" "in_source_key ?x \<notin> in_source_key ` set (inputs d)"
      "d1 = (mark_wait (delivered_wait ?st cs now) (wb_id b) d)
        \<lparr>inputs := insert_ignore in_source_key ?x (inputs d),
         works := update_where (\<lambda>w. w_id w = wb_work_id b \<and> w_state w \<in> {Waiting_external, Waiting_user})
           (signalled_row now) (works d)\<rparr>"
    using assms(2) active by (auto simp: deliver_def Let_def split: if_splits)
  have "delivered_wait ?st cs now y \<in> set (waits d1)"
    unfolding dl(3) mark_wait_def using y by (simp add: in_update)
  then have "lookup_by wa_id (wa_id (delivered_wait ?st cs now y)) (waits d1) = Some (delivered_wait ?st cs now y)"
    using wf1 by (intro lookup_by_unique) (simp_all add: wf_store_def wf_waits_def)
  moreover have "wa_id (delivered_wait ?st cs now y) = wb_id b" using y by (simp add: delivered_wait_def)
  moreover have "?x \<in> set (inputs d1)" using dl(2) by (simp add: dl(3) insert_ignore_def)
  moreover have "\<forall>w\<in>set (works d1). w_id w = wb_work_id b \<longrightarrow> w_state w \<notin> {Waiting_external, Waiting_user}"
    by (auto simp: dl(3) set_update_where signalled_row_def)
  moreover have "k = next_input_id d" "''wait:'' @ wb_id b \<notin> in_source_key ` set (inputs d)"
    using dl(1,2) by simp_all
  ultimately show ?thesis using that y by metis
qed

text \<open>
  C11: A wait is signalled once. When a delivery inserts its signal the wait was active, no input
  carried its key before, and the Work is not left waiting; over every later run the wait keeps the
  outcome, the signal stays in the inbox of the Work as the only input under its key, and every later
  delivery of the wait, whatever it was read from, changes nothing.
\<close>

theorem wait_signalled_once:
  assumes "wf_store d" "deliver d now b cs reason e = (Some k, d1)" "work_run d1 d2"
  shows "list_ex (\<lambda>y. wa_id y = wb_id b \<and> wa_status y = Active) (waits d) \<and>
    ''wait:'' @ wb_id b \<notin> in_source_key ` set (inputs d) \<and>
    (\<forall>w\<in>set (works d1). w_id w = wb_work_id b \<longrightarrow> w_state w \<notin> {Waiting_external, Waiting_user}) \<and>
    (\<exists>z. lookup_by wa_id (wb_id b) (waits d1) = Some z \<and> lookup_by wa_id (wb_id b) (waits d2) = Some z \<and>
       wa_status z = (if reason = ''deadline'' then Expired else Delivered) \<and> wa_delivered z = Some now) \<and>
    (\<exists>x. filter (\<lambda>x. in_source_key x = ''wait:'' @ wb_id b) (inputs d2) = [x] \<and> in_id x = k \<and>
       in_work_id x = Some (wb_work_id b) \<and> in_payload x = signal_payload (wb_id b) reason cs now) \<and>
    (\<forall>now' b' cs' reason' e'. wb_id b' = wb_id b \<longrightarrow> deliver d2 now' b' cs' reason' e' = (None, d2))"
proof -
  let ?st = "if reason = ''deadline'' then Expired else Delivered"
  let ?x = "signal_input d now b cs reason e"
  from assms(1,2) obtain y where y: "y \<in> set (waits d)" "wa_id y = wb_id b" "wa_status y = Active"
    and z: "lookup_by wa_id (wb_id b) (waits d1) = Some (delivered_wait ?st cs now y)"
    and k: "k = next_input_id d" "''wait:'' @ wb_id b \<notin> in_source_key ` set (inputs d)"
    and x: "?x \<in> set (inputs d1)"
    and w: "\<forall>w\<in>set (works d1). w_id w = wb_work_id b \<longrightarrow> w_state w \<notin> {Waiting_external, Waiting_user}"
    by (rule deliver_sent)
  have wf1: "wf_store d1" using deliver_evolves [OF assms(2)] evolves_wf assms(1) by blast
  have wf2: "wf_store d2" by (rule work_run_wf [OF assms(3) wf1])
  let ?z = "delivered_wait ?st cs now y"
  have st: "wa_status ?z \<noteq> Active" "wa_status ?z = ?st" "wa_delivered ?z = Some now" "wa_id ?z = wb_id b"
    using y by (simp_all add: delivered_wait_def)
  have z2: "lookup_by wa_id (wb_id b) (waits d2) = Some ?z"
    using run_wait [OF wf1 assms(3), of ?z] z st lookup_by_Some_set by (fastforce simp: wait_le_def)
  have u: "unique_key wa_id (waits d2)" "unique_key in_source_key (inputs d2)"
    using wf2 by (simp_all add: wf_store_def wf_waits_def wf_inputs_def)
  have "wa_status v \<noteq> Active" if "v \<in> set (waits d2)" "wa_id v = wb_id b" for v
    using lookup_by_unique [OF u(1) that(1)] z2 st(1) that(2) by simp
  then have closed: "\<not> list_ex (\<lambda>v. wa_id v = wb_id b \<and> wa_status v = Active) (waits d2)"
    by (auto simp: list_ex_iff)
  obtain x2 where x2: "lookup_by in_id (in_id ?x) (inputs d2) = Some x2" "input_le ?x x2"
    using run_input [OF wf1 assms(3) x] by blast
  have "in_id ?x = k" "in_ready ?x" "in_work_id ?x = Some (wb_work_id b)"
      "in_payload ?x = signal_payload (wb_id b) reason cs now" "in_source_key ?x = ''wait:'' @ wb_id b"
    using k by (simp_all add: signal_input_def)
  then have x3: "in_id x2 = k" "in_source_key x2 = ''wait:'' @ wb_id b" "in_work_id x2 = Some (wb_work_id b)"
      "in_payload x2 = signal_payload (wb_id b) reason cs now"
    using x2(2) by (simp_all add: input_le_def)
  have "filter (\<lambda>x. in_source_key x = in_source_key x2) (inputs d2) = [x2]"
    by (rule filter_unique [OF u(2)]) (use lookup_by_Some_set [OF x2(1)] in simp)
  then have sig: "\<exists>x. filter (\<lambda>x. in_source_key x = ''wait:'' @ wb_id b) (inputs d2) = [x] \<and> in_id x = k \<and>
       in_work_id x = Some (wb_work_id b) \<and> in_payload x = signal_payload (wb_id b) reason cs now"
    using x3 by (intro exI [of _ x2]) simp
  have later: "\<forall>now' b' cs' reason' e'. wb_id b' = wb_id b \<longrightarrow> deliver d2 now' b' cs' reason' e' = (None, d2)"
    using closed deliver_closed by simp
  have act: "list_ex (\<lambda>y. wa_id y = wb_id b \<and> wa_status y = Active) (waits d)"
    using y by (auto simp: list_ex_iff)
  have row: "\<exists>z. lookup_by wa_id (wb_id b) (waits d1) = Some z \<and> lookup_by wa_id (wb_id b) (waits d2) = Some z \<and>
       wa_status z = ?st \<and> wa_delivered z = Some now"
    using z z2 st by (intro exI [of _ ?z]) simp
  show ?thesis by (intro conjI act k(2) w row sig later)
qed

section \<open>Registration\<close>

lemma closed_waits:
  "y \<in> set (waits (close_waits d now i)) \<Longrightarrow> wa_work_id y \<noteq> i \<or> wa_status y \<noteq> Active"
  using close_waits_closed by blast

lemma mark_old: "z \<in> set (waits (mark_wait f i d)) \<Longrightarrow> (\<And>y. wa_status y = Active \<Longrightarrow> wait_le y (f y)) \<Longrightarrow>
    \<exists>y\<in>set (waits d). wait_le y z"
  by (auto simp: mark_wait_def set_update_where wait_le_def)

definition old_waits :: "db \<Rightarrow> db \<Rightarrow> bool" where
  "old_waits d d' \<longleftrightarrow> (\<forall>z\<in>set (waits d'). \<exists>y\<in>set (waits d). wait_le y z)"

lemma wait_le_refl [simp]: "wait_le y y"
  by (simp add: wait_le_def)

lemma wait_le_trans: "wait_le x y \<Longrightarrow> wait_le y z \<Longrightarrow> wait_le x z"
  by (auto simp: wait_le_def)

lemma old_waits_refl [simp]: "old_waits d d" "waits d' = waits d \<Longrightarrow> old_waits d d'"
  by (auto simp: old_waits_def intro: wait_le_refl)

lemma old_waits_trans: "old_waits a b \<Longrightarrow> old_waits b c \<Longrightarrow> old_waits a c"
  unfolding old_waits_def by (meson wait_le_trans)

lemma deliver_old: "deliver d now b cs reason e = (k, d') \<Longrightarrow> old_waits d d'"
proof -
  assume k: "deliver d now b cs reason e = (k, d')"
  have m: "old_waits d (mark_wait (close_wait Invalidated now) (wb_id b) d)"
      "old_waits d (mark_wait (delivered_wait st cs now) (wb_id b) d)" for st
    unfolding old_waits_def by (intro ballI; erule mark_old; simp)+
  show ?thesis
  proof (cases rule: deliver_cases [of d now b cs reason e])
    case (sent x st v)
    then have "waits d' = waits (mark_wait (delivered_wait st cs now) (wb_id b) d)" using k by simp
    then show ?thesis using m(2) old_waits_refl(2) old_waits_trans by blast
  qed (use k m in auto)
qed

lemma action_old: "old_waits d (signal_external_action d now i run binding cs)"
proof -
  have "old_waits d (snd (deliver d now b cs ''requires_action'' None))" for b
    using deliver_old [of d now b cs] by (metis prod.collapse)
  then show ?thesis by (simp add: signal_external_action_def split: option.split)
qed

lemma fold_old:
  assumes "\<And>x s. old_waits s (f x s)"
  shows "old_waits s (fold f xs s)"
proof (induction xs arbitrary: s)
  case (Cons x xs)
  show ?case using old_waits_trans [OF assms Cons.IH] by simp
qed simp

text \<open>A new registration leaves its row as the only one of the Work that may be active.\<close>

lemma register_new_wait:
  assumes "register_new d started now l q y cs = Inr d'" "wf_store d" "wa_work_id y = wq_work_id q"
  shows "\<exists>z\<in>set (waits d'). wait_le y z"
    and "\<forall>v\<in>set (waits d'). wa_work_id v = wq_work_id q \<and> wa_status v = Active \<longrightarrow> wa_id v = wa_id y"
proof -
  from assms(1) obtain d1 d2 where s: "insert_wait y (close_waits d started (wq_work_id q)) = Inr d1"
      "set_wait_control d1 now l (wq_work_id q) (wa_id y) (wq_accepted q) = Inr d2"
      "d' = fold (\<lambda>run x. signal_external_action x now (wq_work_id q) run (Some (bare_binding y)) cs)
         (pending_runs d2 (wq_work_id q)) d2"
    unfolding register_new_def returns by blast
  have d1: "waits d1 = waits (close_waits d started (wq_work_id q)) @ [y]"
    using s(1) by (auto simp: insert_wait_def split: if_splits)
  have "wait_step d1 d'" unfolding s(3)
    by (rule wait_step_trans [OF set_wait_control_step [OF s(2)] fold_wait_step [where g = "\<lambda>x. x"]]) (rule action_step)
  then have "table_ok wf_waits wait_le (waits d1) (waits d')" by (simp add: wait_step_def evolves_def)
  moreover have "wf_store d1"
    using insert_wait_step [OF s(1)] close_waits_step evolves_wf assms(2) by (metis wait_step_def)
  ultimately show "\<exists>z\<in>set (waits d'). wait_le y z"
    using waits.ok_lookup [of "waits d1" "waits d'" y] lookup_by_Some_set d1 by (fastforce simp: wf_store_def)
  have "waits d2 = waits d1"
    using s(2) by (auto simp: set_wait_control_def set_accepted_control_def returns split: option.splits)
  then have old: "old_waits d1 d'"
    unfolding s(3) by (intro old_waits_trans [OF old_waits_refl(2) fold_old] action_old)
  show "\<forall>v\<in>set (waits d'). wa_work_id v = wq_work_id q \<and> wa_status v = Active \<longrightarrow> wa_id v = wa_id y"
  proof (intro ballI impI)
    fix v assume v: "v \<in> set (waits d')" "wa_work_id v = wq_work_id q \<and> wa_status v = Active"
    then obtain u where u: "u \<in> set (waits d1)" "wait_le u v" using old by (auto simp: old_waits_def)
    then have "wa_work_id u = wq_work_id q" "wa_status u = Active" using v(2) by (auto simp: wait_le_def)
    then have "u = y" using u(1) closed_waits by (auto simp: d1)
    then show "wa_id v = wa_id y" using u(2) by (simp add: wait_le_def)
  qed
qed

lemma new_wait_simps [simp]:
  "wa_id (new_wait now l q kind who cs deadline i) = i"
  "wa_work_id (new_wait now l q kind who cs deadline i) = wq_work_id q"
  "wa_call_key (new_wait now l q kind who cs deadline i) = wq_call_key q"
  "wa_request (new_wait now l q kind who cs deadline i) = wait_request_json q"
  by (simp_all add: new_wait_def)

lemma register_row:
  assumes "register_wait parse root_of may_wake newest d started now l q i = Inr (y, d')" "wf_store d"
  shows "(\<exists>z\<in>set (waits d'). wait_le y z) \<and> wa_call_key y = wq_call_key q \<and> wa_work_id y = wq_work_id q \<and>
    wa_request y = wait_request_json q"
    and "wq_call_key q \<in> wa_call_key ` set (waits d) \<Longrightarrow> d' = d \<and> y \<in> set (waits d) \<and> wa_status y = Active"
    and "wq_call_key q \<notin> wa_call_key ` set (waits d) \<Longrightarrow>
      \<forall>v\<in>set (waits d'). wa_work_id v = wq_work_id q \<and> wa_status v = Active \<longrightarrow> wa_id v = wa_id y"
proof -
  obtain cs deadline kind who where
    c: "register_commit root_of may_wake newest d started now l q kind who cs deadline i = Inr (y, d')"
    by (rule register_wait_commit [OF assms(1)])
  show "(\<exists>z\<in>set (waits d'). wait_le y z) \<and> wa_call_key y = wq_call_key q \<and> wa_work_id y = wq_work_id q \<and>
    wa_request y = wait_request_json q"
    using c
  proof (cases rule: register_commit_cases)
    case known
    then show ?thesis using lookup_by_Some_set [OF known(1)] wait_le_refl known(4,5) by blast
  next
    case (fresh w)
    show ?thesis using register_new_wait(1) [OF fresh(5) assms(2)] fresh(4) by simp
  qed
  show "d' = d \<and> y \<in> set (waits d) \<and> wa_status y = Active" if "wq_call_key q \<in> wa_call_key ` set (waits d)"
    using c
  proof (cases rule: register_commit_cases)
    case known
    then show ?thesis using lookup_by_Some_set [OF known(1)] by blast
  next
    case (fresh w)
    then show ?thesis using that lookup_by_None_iff by metis
  qed
  show "\<forall>v\<in>set (waits d'). wa_work_id v = wq_work_id q \<and> wa_status v = Active \<longrightarrow> wa_id v = wa_id y"
    if "wq_call_key q \<notin> wa_call_key ` set (waits d)"
    using c
  proof (cases rule: register_commit_cases)
    case known
    then show ?thesis using that lookup_by_Some_set [OF known(1)] by (metis image_eqI)
  next
    case (fresh w)
    show ?thesis using register_new_wait(2) [OF fresh(5) assms(2)] fresh(4) by simp
  qed
qed

text \<open>
  C13: A registration is repeatable and never revives a wait. After a registration returned, a later
  one under the same call key succeeds only for the same Work and the same request, while the wait is
  still active, and then returns that wait and changes nothing; the first registration leaves its
  wait as the only one of the Work that can be active.
\<close>

theorem wait_registered_once:
  assumes "wf_store d"
    and "register_wait parse root_of may_wake newest d started now l q i = Inr (y, d1)"
    and "work_run d1 d2"
    and "register_wait parse' root_of' may_wake' newest' d2 started' now' l' q' i' = Inr (z, d3)"
    and "wq_call_key q' = wq_call_key q"
  shows "d3 = d2 \<and> wa_id z = wa_id y \<and> wa_status z = Active \<and> wq_work_id q' = wq_work_id q \<and>
    wait_request_json q' = wait_request_json q \<and>
    (wq_call_key q \<notin> wa_call_key ` set (waits d) \<longrightarrow>
      (\<forall>v\<in>set (waits d1). wa_work_id v = wq_work_id q \<and> wa_status v = Active \<longrightarrow> wa_id v = wa_id y))"
proof -
  have wf1: "wf_store d1"
    using register_wait_step [OF assms(2)] evolves_wf assms(1) unfolding wait_step_def by blast
  have wf2: "wf_store d2" by (rule work_run_wf [OF assms(3) wf1])
  obtain u where u: "u \<in> set (waits d1)" "wait_le y u" using register_row(1) [OF assms(2,1)] by blast
  then obtain v where v: "lookup_by wa_id (wa_id u) (waits d2) = Some v" "wait_le u v"
    using run_wait [OF wf1 assms(3)] by blast
  note row = register_row(1) [OF assms(2,1)] and again = register_row(1) [OF assms(4) wf2]
  have v2: "v \<in> set (waits d2)" "wait_le y v" using lookup_by_Some_set [OF v(1)] wait_le_trans u(2) v(2) by blast+
  then have known: "wq_call_key q' \<in> wa_call_key ` set (waits d2)"
    using row assms(5) by (metis wait_le_def image_eqI)
  note z = register_row(2) [OF assms(4) wf2 known]
  have "z = v"
  proof (rule unique_keyD [of wa_call_key "waits d2"])
    show "unique_key wa_call_key (waits d2)" using wf2 by (simp add: wf_store_def wf_waits_def)
    show "wa_call_key z = wa_call_key v" using again row v2(2) assms(5) by (simp add: wait_le_def)
  qed (use z v2 in auto)
  then show ?thesis
    using z v2(2) row again register_row(3) [OF assms(2,1)] by (simp add: wait_le_def)
qed

section \<open>Due waits are signalled\<close>

text \<open>
  A wait has come due: its times and the ends of the runs it asks for satisfy its conditions, or its
  deadline is over.
\<close>

definition come_due :: "db \<Rightarrow> wait_row \<Rightarrow> clock \<Rightarrow> bool" where
  "come_due d y now \<longleftrightarrow>
     all_met (wa_mode y) (map (due_one (own_states d y) (wa_work_id y) now) (map strip_text (conditions_of y))) \<or>
     (\<exists>t. wa_deadline y = Some t \<and> t \<le> now)"

lemma due_match_Some: "due_match states i now c = Some m \<Longrightarrow> unmatched c \<and> m \<noteq> JNull"
  by (auto simp: due_match_def split: if_splits option.splits json.splits)

lemma unmatched_due_one [simp]: "unmatched (due_one states i now c) \<longleftrightarrow> unmatched c \<and> due_match states i now c = None"
proof (cases "due_match states i now c")
  case (Some m)
  then have "json_get ''matched'' (json_set ''matched'' m c) = Some m" "m \<noteq> JNull"
    using due_match_Some json_get_object by (fastforce simp: unmatched_def)+
  then show ?thesis using Some by (simp add: due_one_def unmatched_def)
qed (simp add: due_one_def)

lemma due_match_later:
  "now \<le> later \<Longrightarrow> due_match states i now c \<noteq> None \<Longrightarrow> due_match states i later c \<noteq> None"
  by (auto simp: due_match_def split: if_splits option.splits json.splits)

lemma all_met_later:
  assumes "now \<le> later" "all_met mode (map (due_one states i now) cs)"
  shows "all_met mode (map (due_one states i later) cs)"
proof -
  have "\<forall>c\<in>set cs. \<not> unmatched (due_one states i now c) \<longrightarrow> \<not> unmatched (due_one states i later c)"
    unfolding unmatched_due_one using due_match_later [OF assms(1)] by blast
  then show ?thesis
    using assms(2) unfolding all_met_def list_ex_iff list_all_iff set_map by (cases "mode = ''any''") (simp_all, blast+)
qed

lemma observe_come_due:
  assumes "come_due d y now" "now \<le> later" "live_view (wa_generation y) v"
  obtains cs reason where "observe_due (y, v) (conditions_of y) (own_states d y) later = Some (cs, reason)"
    "reason \<in> {''signal'', ''deadline''}"
proof -
  let ?cs = "map (due_one (own_states d y) (wa_work_id y) later) (map strip_text (conditions_of y))"
  have "all_met (wa_mode y) ?cs \<or> (\<exists>t. wa_deadline y = Some t \<and> t \<le> later)"
    using assms(1,2) all_met_later [OF assms(2)] unfolding come_due_def by (meson order_trans)
  then have "all_met (wa_mode y) ?cs \<or> (case wa_deadline y of None \<Rightarrow> False | Some t \<Rightarrow> t \<le> later)" by auto
  then have "\<exists>reason \<in> {''signal'', ''deadline''}. observe_due (y, v) (conditions_of y) (own_states d y) later = Some (?cs, reason)"
    using assms(3) by (auto simp: observe_due_def Let_def)
  then show ?thesis using that by blast
qed

lemma observe_dead:
  "\<not> live_view (wa_generation y) v \<Longrightarrow> observe_due (y, v) raw states now = Some ([], ''invalidated'')"
  by (simp add: observe_due_def Let_def)

section \<open>The writer\<close>

lemma settle_due_cases:
  obtains "settle_due now states prepared r (d, n) = (d, n)"
    | "settle_due now states prepared r (d, n) = (mark_wait (close_wait Invalidated now) (wa_id (fst r)) d, n)"
    | cs where "settle_due now states prepared r (d, n) = (mark_wait (note_conditions cs now) (wa_id (fst r)) d, n)"
    | cs reason k d' m where "deliver d now (binding_of r) cs reason None = (k, d')"
      "settle_due now states prepared r (d, n) = (d', m)"
proof (cases r)
  case (Pair y v)
  show ?thesis
  proof (cases "List.find (\<lambda>(z, u). wa_id z = wa_id y) prepared")
    case None
    then show ?thesis using that(1) Pair by (simp add: settle_due_def)
  next
    case (Some p)
    obtain z u where p: "p = (z, u)" by (cases p)
    show ?thesis
    proof (cases "settled_columns y \<noteq> settled_columns z \<or> observe_due r (conditions_of z) states now = None")
      case True
      then show ?thesis using that(1) Some p Pair by (auto simp: settle_due_def)
    next
      case False
      then obtain cs reason where o: "observe_due r (conditions_of z) states now = Some (cs, reason)" by auto
      obtain k d' where k: "deliver d now (binding_of r) cs reason None = (k, d')" by (metis prod.collapse)
      have s: "settle_due now states prepared r (d, n) =
        (if reason = ''invalidated'' then (mark_wait (close_wait Invalidated now) (wa_id (fst r)) d, n)
         else if reason = ''partial'' then (mark_wait (note_conditions cs now) (wa_id (fst r)) d, n)
         else (d', if truthy_opt (map_option JInt k) then n + 1 else n))"
        using Some p Pair False o k by (simp add: settle_due_def)
      consider "reason = ''invalidated''" | "reason = ''partial''" | "reason \<noteq> ''invalidated''" "reason \<noteq> ''partial''"
        by blast
      then show ?thesis
      proof cases
        case 1
        show ?thesis by (rule that(2)) (simp add: s 1)
      next
        case 2
        show ?thesis by (rule that(3) [of cs]) (simp add: s 2)
      next
        case 3
        show ?thesis by (rule that(4) [OF k]) (simp add: s 3)
      qed
    qed
  qed
qed

text \<open>Rows of other waits and inputs stay, and a Work that does not wait keeps not waiting.\<close>

definition settles :: "string \<Rightarrow> db \<Rightarrow> db \<Rightarrow> bool" where
  "settles i d d' \<longleftrightarrow> (\<forall>y\<in>set (waits d). wa_id y \<noteq> i \<longrightarrow> y \<in> set (waits d')) \<and> set (inputs d) \<subseteq> set (inputs d') \<and>
     (\<forall>x\<in>set (inputs d'). x \<in> set (inputs d) \<or> in_source_key x = ''wait:'' @ i) \<and>
     (\<forall>w'\<in>set (works d'). w_state w' \<in> {Waiting_external, Waiting_user} \<longrightarrow> w' \<in> set (works d))"

lemma mark_settles: "(\<And>y. wa_id (f y) = wa_id y) \<Longrightarrow> settles i d (mark_wait f i d)"
  by (auto simp: settles_def mark_wait_def set_update_where)

lemma deliver_settles: "deliver d now b cs reason e = (k, d') \<Longrightarrow> settles (wb_id b) d d'"
proof -
  assume k: "deliver d now b cs reason e = (k, d')"
  show ?thesis
  proof (cases rule: deliver_cases [of d now b cs reason e])
    case invalid
    then show ?thesis using k mark_settles [of "close_wait Invalidated now"] by (simp add: close_wait_def)
  next
    case closed
    then show ?thesis using k by (simp add: settles_def)
  next
    case (sent x st v)
    have key: "in_source_key x = ''wait:'' @ wb_id b" by (simp add: sent(1))
    have "settles (wb_id b) d ((mark_wait (delivered_wait st cs now) (wb_id b) d)
           \<lparr>inputs := insert_ignore in_source_key x (inputs d),
            works := update_where (\<lambda>w. w_id w = wb_work_id b \<and> w_state w \<in> {Waiting_external, Waiting_user})
              (signalled_row now) (works d)\<rparr>)"
      by (auto simp: settles_def mark_wait_def set_update_where insert_ignore_def signalled_row_def key)
    then show ?thesis using sent k by simp
  qed
qed

lemma settle_due_settles: "settles (wa_id (fst r)) (fst s) (fst (settle_due now states prepared r s))"
proof (cases s)
  case (Pair d n)
  show ?thesis
  proof (cases rule: settle_due_cases [of now states prepared r d n])
    case 1
    then show ?thesis by (simp add: Pair settles_def)
  next
    case 2
    then show ?thesis using mark_settles [of "close_wait Invalidated now"] by (simp add: Pair close_wait_def)
  next
    case (3 cs)
    then show ?thesis using mark_settles [of "note_conditions cs now"] by (simp add: Pair note_conditions_def)
  next
    case (4 cs reason k d' m)
    have "wb_id (binding_of r) = wa_id (fst r)" by (simp add: binding_of_def split: prod.split)
    then show ?thesis using deliver_settles [OF 4(1)] 4(2) by (simp add: Pair)
  qed
qed

definition untouched :: "wait_row \<Rightarrow> input_row list \<Rightarrow> db \<Rightarrow> bool" where
  "untouched y old d \<longleftrightarrow> y \<in> set (waits d) \<and>
     (\<forall>x\<in>set (inputs d). in_source_key x = ''wait:'' @ wa_id y \<longrightarrow> x \<in> set old)"

lemma untouched_step: "settles i d d' \<Longrightarrow> i \<noteq> wa_id y \<Longrightarrow> untouched y old d \<Longrightarrow> untouched y old d'"
  unfolding settles_def untouched_def by (metis append_same_eq same_append_eq)

lemma fold_untouched:
  assumes "\<forall>r\<in>set rs. wa_id (fst r) \<noteq> wa_id y" "untouched y old (fst s)"
  shows "untouched y old (fst (fold (settle_due now states prepared) rs s))"
  using assms
proof (induction rs arbitrary: s)
  case (Cons r rs)
  have "untouched y old (fst (settle_due now states prepared r s))"
    by (rule untouched_step [OF settle_due_settles]) (use Cons.prems in auto)
  then show ?case using Cons by simp
qed simp

text \<open>What a signalled wait leaves in the store.\<close>

definition wait_served :: "wait_row \<Rightarrow> input_row list \<Rightarrow> db \<Rightarrow> bool" where
  "wait_served y old d \<longleftrightarrow>
     (\<exists>z. lookup_by wa_id (wa_id y) (waits d) = Some z \<and> wa_status z \<in> {Delivered, Expired}) \<and>
     (\<exists>x\<in>set (inputs d). in_source_key x = ''wait:'' @ wa_id y \<and>
        (x \<in> set old \<or> in_work_id x = Some (wa_work_id y) \<and> in_state x = Pending \<and> in_ready x)) \<and>
     (\<forall>w\<in>set (works d). w_id w = wa_work_id y \<longrightarrow> w_state w \<notin> {Waiting_external, Waiting_user})"

lemma served_step:
  assumes "wait_served y old d" "wf_store d" "wait_step d d'" "settles i d d'"
  shows "wait_served y old d'"
proof -
  obtain z where z: "lookup_by wa_id (wa_id y) (waits d) = Some z" "wa_status z \<in> {Delivered, Expired}"
    using assms(1) by (auto simp: wait_served_def)
  have "table_ok wf_waits wait_le (waits d) (waits d')" using assms(3) by (simp add: wait_step_def evolves_def)
  then obtain z' where z': "lookup_by wa_id (wa_id z) (waits d') = Some z'" "wait_le z z'"
    using waits.ok_lookup assms(2) lookup_by_Some_set [OF z(1)] by (metis wf_store_def)
  have "z' = z" "wa_id z = wa_id y" using z z' lookup_by_Some_set [OF z(1)] by (auto simp: wait_le_def)
  then have "lookup_by wa_id (wa_id y) (waits d') = Some z" using z' by simp
  moreover have "\<exists>x\<in>set (inputs d'). in_source_key x = ''wait:'' @ wa_id y \<and>
      (x \<in> set old \<or> in_work_id x = Some (wa_work_id y) \<and> in_state x = Pending \<and> in_ready x)"
    using assms(1,4) unfolding wait_served_def settles_def by blast
  moreover have "\<forall>w\<in>set (works d'). w_id w = wa_work_id y \<longrightarrow> w_state w \<notin> {Waiting_external, Waiting_user}"
    using assms(1,4) unfolding wait_served_def settles_def by blast
  ultimately show ?thesis using z(2) unfolding wait_served_def by blast
qed

lemma fold_served:
  assumes "wait_served y old (fst s)" "wf_store (fst s)"
  shows "wait_served y old (fst (fold (settle_due now states prepared) rs s))"
  using assms
proof (induction rs arbitrary: s)
  case (Cons r rs)
  let ?s = "settle_due now states prepared r s"
  have "wait_step (fst s) (fst ?s)" by (rule settle_due_step)
  then have "wf_store (fst ?s)" "wait_served y old (fst ?s)"
    using Cons.prems served_step [OF Cons.prems _ settle_due_settles] evolves_wf by (auto simp: wait_step_def)
  then show ?case using Cons.IH by simp
qed simp

lemma deliver_serves:
  assumes "wf_store d" "y \<in> set (waits d)" "wa_status y = Active"
    "live_view (wa_generation y) v" "same_principal (binding_of (y, v)) v"
    "deliver d now (binding_of (y, v)) cs reason None = (k, d')"
    "\<And>x. x \<in> set (inputs d) \<Longrightarrow> in_source_key x = ''wait:'' @ wa_id y \<Longrightarrow> x \<in> set old"
  shows "wait_served y old d'"
proof -
  let ?b = "binding_of (y, v)"
  let ?st = "if reason = ''deadline'' then Expired else Delivered"
  let ?x = "signal_input d now ?b cs reason None"
  have b: "wb_id ?b = wa_id y" "wb_work_id ?b = wa_work_id y" "wb_generation ?b = wa_generation y" "wb_view ?b = Some v"
    by (simp_all add: binding_of_def)
  have active: "list_ex (\<lambda>z. wa_id z = wa_id y \<and> wa_status z = Active) (waits d)"
    using assms(2,3) by (auto simp: list_ex_iff)
  have wf': "wf_store d'" using deliver_evolves [OF assms(6)] evolves_wf assms(1) by blast
  have d': "d' = (mark_wait (delivered_wait ?st cs now) (wa_id y) d)
        \<lparr>inputs := insert_ignore in_source_key ?x (inputs d),
         works := update_where (\<lambda>w. w_id w = wa_work_id y \<and> w_state w \<in> {Waiting_external, Waiting_user})
           (signalled_row now) (works d)\<rparr>"
    using assms(4-6) active by (auto simp: deliver_def Let_def b)
  have "delivered_wait ?st cs now y \<in> set (waits d')"
    unfolding d' mark_wait_def using assms(2,3) by (simp add: in_update)
  then have "lookup_by wa_id (wa_id (delivered_wait ?st cs now y)) (waits d') = Some (delivered_wait ?st cs now y)"
    using wf' by (intro lookup_by_unique) (simp_all add: wf_store_def wf_waits_def)
  then have 1: "\<exists>z. lookup_by wa_id (wa_id y) (waits d') = Some z \<and> wa_status z \<in> {Delivered, Expired}"
    by (auto simp: delivered_wait_def)
  have x: "in_source_key ?x = ''wait:'' @ wa_id y" "in_work_id ?x = Some (wa_work_id y)" "in_state ?x = Pending" "in_ready ?x"
    by (simp_all add: signal_input_def b)
  have 2: "\<exists>x\<in>set (inputs d'). in_source_key x = ''wait:'' @ wa_id y \<and>
      (x \<in> set old \<or> in_work_id x = Some (wa_work_id y) \<and> in_state x = Pending \<and> in_ready x)"
  proof (cases "in_source_key ?x \<in> in_source_key ` set (inputs d)")
    case True
    then obtain z where "z \<in> set (inputs d)" "in_source_key z = ''wait:'' @ wa_id y" using x(1) by auto
    moreover from this have "z \<in> set (inputs d')" by (simp add: d' insert_ignore_def)
    ultimately show ?thesis using assms(7) by blast
  next
    case False
    then have "?x \<in> set (inputs d')" by (simp add: d' insert_ignore_def)
    then show ?thesis using x by blast
  qed
  have 3: "\<forall>w\<in>set (works d'). w_id w = wa_work_id y \<longrightarrow> w_state w \<notin> {Waiting_external, Waiting_user}"
    by (auto simp: d' set_update_where signalled_row_def)
  show ?thesis using 1 2 3 by (simp add: wait_served_def)
qed

lemma fold_steps: "wait_step (fst s) (fst (fold (settle_due now states prepared) rs s))"
  by (rule fold_wait_step [where g = fst]) (rule settle_due_step)

lemma fold_wf:
  assumes "fold (settle_due now states prepared) rs (d, n) = (d', m)" "wf_store d"
  shows "wf_store d'"
proof -
  have "wait_step d d'" using fold_steps [of "(d, n)" now states prepared rs] assms(1) by simp
  then show ?thesis using evolves_wf assms(2) unfolding wait_step_def by blast
qed

lemma find_sat: "List.find p xs = Some x \<Longrightarrow> x \<in> set xs \<and> p x"
  by (induction xs) (auto split: if_splits)

lemma find_exists: "x \<in> set xs \<Longrightarrow> p x \<Longrightarrow> \<exists>z. List.find p xs = Some z"
  by (induction xs) auto

lemma find_selected:
  assumes "unique_key wa_id (waits d)" "y \<in> set ys" "set ys \<subseteq> set (waits d)"
  shows "List.find (\<lambda>(z, u). wa_id z = wa_id y) (map (due_row d) ys) = Some (due_row d y)"
proof -
  define p' where "p' = (\<lambda>(z :: wait_row, u :: due_view). wa_id z = wa_id y)"
  have py: "p' (due_row d z) \<longleftrightarrow> wa_id z = wa_id y" for z by (simp add: due_row_def p'_def)
  have m: "due_row d y \<in> set (map (due_row d) ys)" and q0: "p' (due_row d y)"
    using assms(2) by (simp_all add: py)
  from find_exists [OF m, of p', OF q0] obtain q where q: "List.find p' (map (due_row d) ys) = Some q" by (elim exE)
  note s = find_sat [OF q]
  from conjunct1 [OF s] obtain z where z: "z \<in> set ys" "q = due_row d z" unfolding set_map by blast
  have "wa_id z = wa_id y" using s unfolding z(2) py by (rule conjunct2)
  moreover have "z \<in> set (waits d)" "y \<in> set (waits d)" using z(1) assms(2,3) by blast+
  ultimately have "z = y" using unique_keyD [OF assms(1)] by blast
  then show ?thesis using q z(2) unfolding p'_def by (simp only:)
qed

lemma settled_once:
  assumes "List.find (\<lambda>(z, u). wa_id z = wa_id y) prepared = Some (y, u)"
    "observe_due (y, v) (conditions_of y) states now = Some (cs, reason)" "reason \<in> {''signal'', ''deadline''}"
    "deliver d now (binding_of (y, v)) cs reason None = (k, d')" "r = (y, v)"
  shows "\<exists>m. settle_due now states prepared r (d, n) = (d', m)"
  using assms by (auto simp: settle_due_def)

lemma settled_dead:
  assumes "List.find (\<lambda>(z, u). wa_id z = wa_id y) prepared = Some (y, u)"
    "observe_due (y, v) (conditions_of y) states now = Some (cs, ''invalidated'')"
  shows "settle_due now states prepared (y, v) (d, n) = (mark_wait (close_wait Invalidated now) (wa_id y) d, n)"
  using assms by (simp add: settle_due_def)

lemma deliver_other:
  "\<not> same_principal (binding_of (y, v)) v \<Longrightarrow>
    deliver d now (binding_of (y, v)) cs reason e = (None, mark_wait (close_wait Invalidated now) (wa_id y) d)"
  by (simp add: deliver_def binding_of_def Let_def)

text \<open>A closed wait stays closed for the rest of the check.\<close>

lemma closed_row:
  assumes "wf_store d" "y \<in> set (waits d)" "wa_status y = Active"
  shows "\<exists>z. lookup_by wa_id (wa_id y) (waits (mark_wait (close_wait Invalidated now) (wa_id y) d)) = Some z \<and>
    wa_status z = Invalidated"
proof -
  let ?d = "mark_wait (close_wait Invalidated now) (wa_id y) d"
  have "close_wait Invalidated now y \<in> set (waits ?d)"
    unfolding mark_wait_def using assms(2,3) by (simp add: in_update)
  moreover have "unique_key wa_id (waits ?d)"
    using assms(1) by (simp add: mark_wait_def unique_key_update_on close_wait_def wf_store_def wf_waits_def)
  ultimately have "lookup_by wa_id (wa_id (close_wait Invalidated now y)) (waits ?d) = Some (close_wait Invalidated now y)"
    by (intro lookup_by_unique)
  then show ?thesis by (simp add: close_wait_def)
qed

lemma closed_stays:
  assumes "wf_store d" "lookup_by wa_id i (waits d) = Some z" "wa_status z = Invalidated"
    and "wait_step d d'"
  shows "lookup_by wa_id i (waits d') = Some z"
proof -
  have "evolves d d'" using assms(4) unfolding wait_step_def by blast
  then have "table_ok wf_waits wait_le (waits d) (waits d')" by (simp add: evolves_def)
  then obtain z' where z': "lookup_by wa_id (wa_id z) (waits d') = Some z'" "wait_le z z'"
    using waits.ok_lookup assms(1) lookup_by_Some_set [OF assms(2)] by (metis wf_store_def)
  have "z' = z" "wa_id z = i" using z' assms(3) lookup_by_Some_set [OF assms(2)] by (auto simp: wait_le_def)
  then show ?thesis using z' by simp
qed

text \<open>
  C12: A due wait is handled by the next check. Let an active wait have come due (its times and the
  runs it asks for, as the store has them, satisfy its conditions, or its deadline is over) and be
  among the first 128 waits, by creation, that have anything to report. If its Work is live and
  the principal of the wait is still the person of the Work, an uninterrupted check closes the wait as
  delivered or expired, leaves its signal in the inbox of the Work, ready unless the same signal was
  there before, and does not leave the Work waiting. Otherwise it closes the wait as invalidated. The
  store keeps the unique indexes of the active waits and of the run ids, and its clock does not run
  backwards during the check.
\<close>

theorem due_wait_signalled:
  assumes "wf_store d" "one_active_wait d" "run_ids_unique d" "observed \<le> now"
    and "y \<in> set (take 128 (filter (reports d observed) (due_rows d (\<lambda>_. True))))"
    and "come_due d y observed"
  shows "if live_view (wa_generation y) (snd (due_row d y)) \<and>
      same_principal (binding_of (due_row d y)) (snd (due_row d y))
    then wait_served y (inputs d) (snd (deliver_due d observed d now))
    else \<exists>z. lookup_by wa_id (wa_id y) (waits (snd (deliver_due d observed d now))) = Some z \<and>
      wa_status z = Invalidated"
proof -
  let ?sel = "selected d observed" and ?v = "snd (due_row d y)"
  have r: "due_row d y = (y, ?v)" by (simp add: due_row_def)
  have sel: "y \<in> set ?sel" using assms(5) by (simp add: selected_def reported_def)
  have y: "y \<in> set (waits d)" "wa_status y = Active" using sel selected_sub by (auto simp: due_rows_def)
  have sub: "set ?sel \<subseteq> set (waits d)" using selected_sub [of d observed] by (auto simp: due_rows_def)
  have u: "unique_key wa_id (waits d)" using assms(1) by (simp add: wf_store_def wf_waits_def)
  let ?ids = "map (wa_id \<circ> fst) (map (due_row d) ?sel)"
  let ?mine = "due_rows d (\<lambda>y. wa_id y \<in> set ?ids)"
  let ?states = "\<lambda>i run. map_of (put_states d ?sel []) (i, run)"
  let ?f = "settle_due now ?states (map (due_row d) ?sel)"
  have req: "map (\<lambda>r. (wa_work_id (fst r), conditions_of (fst r))) (map (due_row d) ?sel) =
      map (\<lambda>y. (wa_work_id y, conditions_of y)) ?sel" by (simp add: due_row_def comp_def)
  have due: "snd (deliver_due d observed d now) = fst (fold ?f (map (due_row d) ?mine) (d, 0))"
  proof -
    have "map (due_row d) ?sel \<noteq> []" using sel by auto
    moreover note selected_current [OF assms(1,3) selected_distinct [OF assms(2), of observed], folded req]
    ultimately show ?thesis
      unfolding deliver_due_def read_phase [OF assms(1-3)] Let_def prod.case
      by (simp add: split_def del: map_map)
  qed
  have "wa_id y \<in> set ?ids" using sel by (force simp: due_row_def)
  then have "y \<in> set ?mine" using y by (simp add: due_rows_def)
  then obtain xs zs where split: "?mine = xs @ y # zs" by (meson split_list)
  have dist: "distinct (map wa_id ?mine)"
    using unique_key_filter [OF u] by (simp add: due_rows_def unique_key_def distinct_map)
  have others: "\<forall>r\<in>set (map (due_row d) xs). wa_id (fst r) \<noteq> wa_id y"
  proof -
    have "wa_id y \<notin> wa_id ` set xs" using dist [unfolded split] by simp
    then have "wa_id z \<noteq> wa_id y" if "z \<in> set xs" for z using that by (metis image_eqI)
    then show ?thesis by (auto simp: due_row_def)
  qed
  obtain d1 n1 where s1: "fold ?f (map (due_row d) xs) (d, 0) = (d1, n1)" by (rule prod.exhaust)
  have "untouched y (inputs d) (fst (fold ?f (map (due_row d) xs) (d, 0)))"
    by (rule fold_untouched [OF others]) (simp add: untouched_def y(1))
  then have old: "untouched y (inputs d) d1" unfolding s1 fst_conv .
  then have y1: "y \<in> set (waits d1)" by (simp add: untouched_def)
  have wf1: "wf_store d1" by (rule fold_wf [OF s1 assms(1)])
  have find: "List.find (\<lambda>(z, u). wa_id z = wa_id y) (map (due_row d) ?sel) = Some (y, ?v)"
    unfolding r [symmetric] by (rule find_selected [OF u sel sub])
  have states: "observe_due (y, ?v) (conditions_of y) ?states now =
      observe_due (y, ?v) (conditions_of y) (own_states d y) now"
    by (rule observe_due_cong) (simp add: put_states_own [OF selected_distinct [OF assms(2)] sel])
  have rest: "fold ?f (map (due_row d) ?mine) (d, 0) = fold ?f (map (due_row d) zs) (?f (due_row d y) (d1, n1))"
    unfolding split map_append fold_append list.map fold_simps o_apply s1 by (rule refl)
  show ?thesis
  proof (cases "live_view (wa_generation y) ?v")
    case True
    obtain cs reason where o0: "observe_due (y, ?v) (conditions_of y) (own_states d y) now = Some (cs, reason)"
      and reason: "reason \<in> {''signal'', ''deadline''}"
      by (rule observe_come_due [OF assms(6,4) True])
    have o: "observe_due (y, ?v) (conditions_of y) ?states now = Some (cs, reason)"
      unfolding states by (rule o0)
    obtain k d2 where k: "deliver d1 now (binding_of (y, ?v)) cs reason None = (k, d2)" by (rule prod.exhaust)
    have "\<exists>n2. ?f (due_row d y) (d1, n1) = (d2, n2)" by (rule settled_once [OF find o reason k r])
    then obtain n2 where n2: "?f (due_row d y) (d1, n1) = (d2, n2)" by (elim exE)
    have wf2: "wf_store d2" by (rule evolves_wf [OF deliver_evolves [OF k] wf1])
    show ?thesis
    proof (cases "same_principal (binding_of (due_row d y)) ?v")
      case p: True
      have p': "same_principal (binding_of (y, ?v)) ?v" using p by (simp add: due_row_def)
      have served: "wait_served y (inputs d) d2"
        by (rule deliver_serves [OF wf1 y1 y(2) True p' k]) (use old in \<open>auto simp: untouched_def\<close>)
      have "wait_served y (inputs d) (fst (fold ?f (map (due_row d) zs) (d2, n2)))"
        by (rule fold_served) (simp_all only: fst_conv served wf2)
      then show ?thesis unfolding if_P [OF conjI [OF True p]] due rest n2 .
    next
      case p: False
      have p': "\<not> same_principal (binding_of (y, ?v)) ?v" using p by (simp add: due_row_def)
      have "d2 = mark_wait (close_wait Invalidated now) (wa_id y) d1"
        using k deliver_other [OF p', of d1 now cs reason None] by simp
      then obtain z where z: "lookup_by wa_id (wa_id y) (waits d2) = Some z" "wa_status z = Invalidated"
        using closed_row [OF wf1 y1 y(2)] by blast
      have "wait_step (fst (d2, n2)) (fst (fold ?f (map (due_row d) zs) (d2, n2)))" by (rule fold_steps)
      from closed_stays [OF wf2 z this [unfolded fst_conv]] z(2)
      have "\<exists>z. lookup_by wa_id (wa_id y) (waits (fst (fold ?f (map (due_row d) zs) (d2, n2)))) = Some z \<and>
          wa_status z = Invalidated" by blast
      moreover have c: "\<not> (live_view (wa_generation y) ?v \<and> same_principal (binding_of (due_row d y)) ?v)"
        using p by blast
      ultimately show ?thesis unfolding if_not_P [OF c] due rest n2 by (simp only:)
    qed
  next
    case False
    have n2: "?f (due_row d y) (d1, n1) = (mark_wait (close_wait Invalidated now) (wa_id y) d1, n1)"
      by (subst r) (rule settled_dead [OF find observe_dead [OF False]])
    let ?d2 = "mark_wait (close_wait Invalidated now) (wa_id y) d1"
    obtain z where z: "lookup_by wa_id (wa_id y) (waits ?d2) = Some z" "wa_status z = Invalidated"
      using closed_row [OF wf1 y1 y(2)] by blast
    have "wait_step (fst (d1, n1)) (fst (?f (due_row d y) (d1, n1)))" by (rule settle_due_step)
    then have wf2: "wf_store ?d2" unfolding n2 wait_step_def using evolves_wf wf1 by simp
    have "wait_step (fst (?d2, n1)) (fst (fold ?f (map (due_row d) zs) (?d2, n1)))" by (rule fold_steps)
    from closed_stays [OF wf2 z this [unfolded fst_conv]] z(2)
    have "\<exists>z. lookup_by wa_id (wa_id y) (waits (fst (fold ?f (map (due_row d) zs) (?d2, n1)))) = Some z \<and>
        wa_status z = Invalidated" by blast
    moreover have c: "\<not> (live_view (wa_generation y) ?v \<and> same_principal (binding_of (due_row d y)) ?v)"
      using False by blast
    ultimately show ?thesis unfolding if_not_P [OF c] due rest n2 by (simp only:)
  qed
qed

section \<open>A wait that is never signalled\<close>

text \<open>
  A registration accepts a principal that is the Work's person only by a merge, and stores the
  principal it was given. A delivery compares that with the person of the Work exactly: the wait is
  invalidated and the Work is never told.
\<close>

lemma merged_principal_never_signalled:
  assumes "register_wait parse root_of may_wake newest d started now l q i = Inr (y, d1)"
    and "wq_call_key q \<notin> wa_call_key ` set (waits d)"
    and "wait_principal (wq_source q) = Some (''person'', who)"
    and "json_extract [''actor_person_id''] (w_source w) \<noteq> Some (JStr who)"
  shows "same_principal (binding_of (y, v)) v = (dv_kind v = JStr ''person'' \<and> dv_person v = Some (JStr who))"
    and "dv_person v = json_extract [''actor_person_id''] (w_source w) \<Longrightarrow>
      deliver d2 later (binding_of (y, v)) cs reason e = (None, mark_wait (close_wait Invalidated later) (wa_id y) d2)"
proof -
  obtain cs' deadline kind p where c: "wait_principal (wq_source q) = Some (kind, p)"
    "register_commit root_of may_wake newest d started now l q kind p cs' deadline i = Inr (y, d1)"
    by (rule register_wait_commit [OF assms(1)])
  from c(2) have y: "wa_principal_kind y = kind \<and> wa_principal_id y = p"
  proof (cases rule: register_commit_cases)
    case known
    then show ?thesis using assms(2) lookup_by_Some_set [OF known(1)] by (metis image_eqI)
  qed (simp add: new_wait_def)
  have p: "kind = ''person''" "p = who" using c(1) assms(3) by auto
  show same: "same_principal (binding_of (y, v)) v = (dv_kind v = JStr ''person'' \<and> dv_person v = Some (JStr who))"
    using y p by (auto simp: same_principal_def binding_of_def)
  assume "dv_person v = json_extract [''actor_person_id''] (w_source w)"
  then have "\<not> same_principal (binding_of (y, v)) v" unfolding same using assms(4) by simp
  then show "deliver d2 later (binding_of (y, v)) cs reason e = (None, mark_wait (close_wait Invalidated later) (wa_id y) d2)"
    by (simp add: deliver_def binding_of_def Let_def)
qed

section \<open>Witnesses\<close>

definition wt_wait :: wait_row where
  "wt_wait = \<lparr>wa_id = ''w'', wa_work_id = ''r'', wa_conversation = ''c'', wa_generation = 0,
     wa_principal_kind = ''person'', wa_principal_id = ''p'', wa_call_key = ''k'', wa_request = JNull,
     wa_mode = ''all'', wa_conditions = JArr [time_condition 5], wa_status = Active, wa_deadline = None,
     wa_created = 0, wa_updated = 0, wa_delivered = None\<rparr>"

definition wt_db :: "wait_row list \<Rightarrow> db" where
  "wt_db ys = empty_db\<lparr>
     conversations := [\<lparr>cv_id = ''c'', cv_generation = 0\<rparr>],
     scopes := [\<lparr>sc_conversation = ''c'', sc_generation = 0, sc_cancel_epoch = 0, sc_fence = 1,
                 sc_owner = Some ''h'', sc_lease_until = 100\<rparr>],
     works := [(demo_work ''r'' None Waiting_external)\<lparr>w_source := JObj [(''actor_person_id'', JStr ''p'')]\<rparr>],
     waits := ys\<rparr>"

lemmas wt_defs = wt_wait_def wt_db_def demo_work_def empty_db_def

lemma wt_wf: "wf_store (wt_db [])" "wf_store (wt_db [wt_wait])"
  by (simp_all add: wf_store_def wf_works_def wf_inputs_def wf_effects_def wf_children_def wf_waits_def
      wf_deliveries_def wf_scopes_def wf_recoveries_def wf_budgets_def unique_key_def wt_defs)

lemma wt_view: "due_row (wt_db [wt_wait]) wt_wait = (wt_wait,
    \<lparr>dv_current = Some 0, dv_generation = Some 0, dv_state = Some Waiting_external, dv_kind = JStr ''person'',
     dv_person = Some (JStr ''p'')\<rparr>)"
  by (simp add: due_row_def view_of_def source_kind_def json_extract_def lookup_by_def wt_defs)

lemma wt_live:
  "live_view (wa_generation wt_wait) (snd (due_row (wt_db [wt_wait]) wt_wait))"
  "same_principal (binding_of (due_row (wt_db [wt_wait]) wt_wait)) (snd (due_row (wt_db [wt_wait]) wt_wait))"
  unfolding wt_view by (simp_all add: live_view_def same_principal_def binding_of_def terminal_def wt_wait_def)

theorem due_wait_signalled_witness:
  "wait_served wt_wait [] (snd (deliver_due (wt_db [wt_wait]) 7 (wt_db [wt_wait]) 8))"
proof -
  let ?d = "wt_db [wt_wait]"
  have rows: "due_rows ?d (\<lambda>_. True) = [wt_wait]" by (simp add: due_rows_def wt_defs)
  have due: "come_due ?d wt_wait 7"
    by (simp add: come_due_def all_met_def conditions_of_def wt_wait_def time_condition_def strip_text_def due_match_def due_one_def
        unmatched_def kind_is_def)
  obtain cs reason where "observe_due (wt_wait, snd (due_row ?d wt_wait)) (conditions_of wt_wait)
      (own_states ?d wt_wait) 7 = Some (cs, reason)"
    by (rule observe_come_due [OF due order_refl wt_live(1)])
  then have "reports ?d 7 wt_wait" by (simp add: reports_def due_row_def)
  then have "wt_wait \<in> set (take 128 (filter (reports ?d 7) (due_rows ?d (\<lambda>_. True))))" by (simp add: rows)
  moreover have "one_active_wait ?d" "run_ids_unique ?d"
    by (simp_all add: one_active_wait_def run_ids_unique_def List.map_filter_def wt_defs)
  moreover have "inputs ?d = []" by (simp add: wt_defs)
  ultimately show ?thesis
    using due_wait_signalled [OF wt_wf(2) _ _ _ _ due, of 8] wt_live by simp
qed

theorem wait_signalled_once_witness:
  "\<exists>d1 z. deliver (wt_db [wt_wait]) 8 (binding_of (due_row (wt_db [wt_wait]) wt_wait)) [] ''signal'' None = (Some 1, d1) \<and>
     lookup_by wa_id ''w'' (waits d1) = Some z \<and> wa_status z = Delivered \<and>
     deliver d1 9 (binding_of (due_row (wt_db [wt_wait]) wt_wait)) [] ''signal'' None = (None, d1)"
proof -
  let ?b = "binding_of (due_row (wt_db [wt_wait]) wt_wait)"
  have b: "wb_id ?b = ''w''" by (simp add: binding_of_def due_row_def wt_wait_def)
  have "case deliver (wt_db [wt_wait]) 8 ?b [] ''signal'' None of (k, d') \<Rightarrow> k = Some 1" by code_simp
  then obtain d1 where d1: "deliver (wt_db [wt_wait]) 8 ?b [] ''signal'' None = (Some 1, d1)"
    by (cases "deliver (wt_db [wt_wait]) 8 ?b [] ''signal'' None") auto
  from wait_signalled_once [OF wt_wf(2) this work_run.stop] b d1 show ?thesis by auto
qed

definition wt_lease :: work_lease where
  "wt_lease = \<lparr>l_conversation = ''c'', l_generation = 0, l_cancel_epoch = 0, l_fence = 1,
     l_owner = ''h'', l_work_id = None\<rparr>"

definition wt_request :: wait_request where
  "wt_request = \<lparr>wq_work_id = ''r'', wq_source = JObj [(''actor_person_id'', JStr ''p'')], wq_call_key = ''k'',
     wq_mode = ''any'', wq_conditions = JArr [JObj [(''kind'', JStr ''time_due''), (''after_seconds'', JInt 5)]],
     wq_deadline = None, wq_accepted = None\<rparr>"

lemma wt_register:
  "case register_wait (\<lambda>_. None) Some (\<lambda>_. False) 0 (wt_db []) 1 1 wt_lease wt_request ''x'' of
     Inl _ \<Rightarrow> False
   | Inr (y, d1) \<Rightarrow> (case register_wait (\<lambda>_. None) Some (\<lambda>_. False) 0 d1 2 2 wt_lease wt_request ''z'' of
       Inl _ \<Rightarrow> False | Inr (z, d2) \<Rightarrow> True)"
  by code_simp

theorem wait_registered_once_witness:
  "\<exists>y d1. register_wait (\<lambda>_. None) Some (\<lambda>_. False) 0 (wt_db []) 1 1 wt_lease wt_request ''x'' = Inr (y, d1) \<and>
    (\<exists>z. register_wait (\<lambda>_. None) Some (\<lambda>_. False) 0 d1 2 2 wt_lease wt_request ''z'' = Inr (z, d1) \<and> wa_id z = wa_id y)"
proof -
  obtain y d1 where s: "register_wait (\<lambda>_. None) Some (\<lambda>_. False) 0 (wt_db []) 1 1 wt_lease wt_request ''x'' = Inr (y, d1)"
    using wt_register by (auto split: sum.splits)
  obtain z d2 where t: "register_wait (\<lambda>_. None) Some (\<lambda>_. False) 0 d1 2 2 wt_lease wt_request ''z'' = Inr (z, d2)"
    using wt_register s by (auto split: sum.splits)
  from wait_registered_once [OF wt_wf(1) s work_run.stop t refl] s t show ?thesis by auto
qed

end
