(* ===== verification/Agent_Loop.thy ===== *)
theory Agent_Loop
  imports Yuki_Prelude
begin

text \<open>
  The model loop (\<open>agent_core/loop.py\<close>, \<open>types.py\<close>, \<open>model_boundary.py\<close>). The three owners the loop
  drives (model boundary, invocation boundary, turn settlement) are protocols, so they are the
  fields of a record of functions over a state of their own; the loop is generic in that state
  and in the value that ends an activation. The request budget makes the loop total; without a
  budget it is \<open>partial_function (option)\<close>, whose \<open>None\<close> is a loop that never returns.
\<close>

section \<open>Execution records\<close>

datatype stop_reason = Reason_Stop | Reason_Tool_Use | Reason_Length

datatype response_status = Complete | Incomplete

record chat_call =
  ca_id :: string
  ca_name :: string
  ca_arguments :: string

record chat_response =
  cr_text :: string
  cr_calls :: "chat_call list"
  cr_status :: response_status

definition stop_reason :: "chat_response \<Rightarrow> stop_reason" where
  "stop_reason r =
    (if cr_status r = Incomplete then Reason_Length
     else if cr_calls r \<noteq> [] then Reason_Tool_Use else Reason_Stop)"

record call_outcome =
  co_call :: chat_call
  co_result :: string
  co_executed :: bool

record batch_outcome =
  bo_outcomes :: "call_outcome list"
  bo_executed :: int
  bo_reused :: int
  bo_terminate :: bool

datatype 'v decision = Continue | is_End: End 'v | Stop

datatype 'v request_result = Response chat_response | Request_End 'v | Request_Stop

definition truncated_call_receipt :: string where
  "truncated_call_receipt = ''{\"ok\": false, \"error\": \"provider_response_incomplete\", \"executed\": false, \"mutation_committed\": false}''"

definition fail_truncated_calls :: "chat_response \<Rightarrow> call_outcome list" where
  "fail_truncated_calls r =
    map (\<lambda>c. \<lparr>co_call = c, co_result = truncated_call_receipt, co_executed = False\<rparr>) (cr_calls r)"

section \<open>Owners\<close>

record ('s, 'v) owners =
  begin_request :: "nat \<Rightarrow> 's \<Rightarrow> bool \<times> 's"
  steer :: "nat \<Rightarrow> 's \<Rightarrow> 'v option \<times> 's"
  request :: "nat \<Rightarrow> 's \<Rightarrow> 'v request_result \<times> 's"
  execute_tools :: "nat \<Rightarrow> chat_response \<Rightarrow> 's \<Rightarrow> batch_outcome \<times> 's"
  settle_truncated :: "nat \<Rightarrow> chat_response \<Rightarrow> call_outcome list \<Rightarrow> 's \<Rightarrow> 'v decision \<times> 's"
  settle_final :: "nat \<Rightarrow> chat_response \<Rightarrow> 's \<Rightarrow> 'v decision \<times> 's"
  finish_tool_turn :: "nat \<Rightarrow> chat_response \<Rightarrow> batch_outcome \<Rightarrow> 's \<Rightarrow> 'v decision \<times> 's"
  exhausted :: "'s \<Rightarrow> 'v \<times> 's"

text \<open>\<open>begin_request\<close> answers whether admission stopped (\<open>STOP\<close>).\<close>

section \<open>The loop\<close>

definition settle_turn :: "('s, 'v) owners \<Rightarrow> nat \<Rightarrow> chat_response \<Rightarrow> 's \<Rightarrow> 'v decision \<times> 's" where
  "settle_turn ow i r s =
    (case stop_reason r of
      Reason_Length \<Rightarrow> settle_truncated ow i r (fail_truncated_calls r) s
    | Reason_Stop \<Rightarrow> settle_final ow i r s
    | Reason_Tool_Use \<Rightarrow>
        (case execute_tools ow i r s of
          (batch, s1) \<Rightarrow>
            (case finish_tool_turn ow i r batch s1 of
              (d, s2) \<Rightarrow>
                (if bo_terminate batch \<and> \<not> is_End d then Stop else d, s2))))"

text \<open>One turn of the loop body; \<open>Stop\<close> is every \<open>break\<close>.\<close>

definition loop_turn :: "('s, 'v) owners \<Rightarrow> nat \<Rightarrow> 's \<Rightarrow> 'v decision \<times> 's" where
  "loop_turn ow i s =
    (case begin_request ow i s of
      (stopped, s1) \<Rightarrow>
        if stopped then (Stop, s1)
        else
          (case steer ow i s1 of
            (Some v, s2) \<Rightarrow> (End v, s2)
          | (None, s2) \<Rightarrow>
              (case request ow i s2 of
                (Request_Stop, s3) \<Rightarrow> (Stop, s3)
              | (Request_End v, s3) \<Rightarrow> (End v, s3)
              | (Response r, s3) \<Rightarrow> settle_turn ow i r s3)))"

partial_function (option) loop_from ::
    "int option \<Rightarrow> ('s, 'v) owners \<Rightarrow> nat \<Rightarrow> 's \<Rightarrow> ('v \<times> 's) option" where
  "loop_from max_requests ow i s =
    (if (case max_requests of None \<Rightarrow> False | Some n \<Rightarrow> int i \<ge> n) then Some (exhausted ow s)
     else
       (case loop_turn ow i s of
         (Stop, s') \<Rightarrow> Some (exhausted ow s')
       | (End v, s') \<Rightarrow> Some (v, s')
       | (Continue, s') \<Rightarrow> loop_from max_requests ow (Suc i) s'))"

definition run_agent_loop :: "int option \<Rightarrow> ('s, 'v) owners \<Rightarrow> 's \<Rightarrow> ('v \<times> 's) option" where
  "run_agent_loop max_requests ow s = loop_from max_requests ow 0 s"

section \<open>Termination\<close>

text \<open>The bounded loop as a structural recursion over the requests that are left.\<close>

fun loop_left :: "('s, 'v) owners \<Rightarrow> nat \<Rightarrow> nat \<Rightarrow> 's \<Rightarrow> 'v \<times> 's" where
  "loop_left ow 0 i s = exhausted ow s"
| "loop_left ow (Suc n) i s =
    (case loop_turn ow i s of
      (Stop, s') \<Rightarrow> exhausted ow s'
    | (End v, s') \<Rightarrow> (v, s')
    | (Continue, s') \<Rightarrow> loop_left ow n (Suc i) s')"

lemma loop_from_left: "loop_from (Some (int i + int n)) ow i s = Some (loop_left ow n i s)"
proof (induction n arbitrary: i s)
  case 0
  show ?case by (simp add: loop_from.simps)
next
  case (Suc n)
  have "loop_from (Some (int i + int (Suc n))) ow (Suc i) s' = Some (loop_left ow n (Suc i) s')" for s'
    using Suc.IH [of "Suc i" s'] by (simp add: algebra_simps)
  then show ?case
    by (subst loop_from.simps) (simp split: prod.split decision.split)
qed

lemma loop_budgeted:
  "run_agent_loop (Some n) ow s = Some (loop_left ow (nat n) 0 s)"
proof (cases "0 \<le> n")
  case True
  then show ?thesis using loop_from_left [of 0 "nat n" ow s] by (simp add: run_agent_loop_def)
next
  case False
  then show ?thesis by (simp add: run_agent_loop_def loop_from.simps)
qed


section \<open>What the owners see\<close>

text \<open>The same owners over a state that also records every call, in order.\<close>

datatype loop_event =
    Ev_Begin nat
  | Ev_Steer nat
  | is_Request: Ev_Request nat
  | Ev_Execute nat chat_response
  | Ev_Truncated nat chat_response "call_outcome list"
  | Ev_Final nat chat_response
  | Ev_Finish nat chat_response
  | Ev_Exhausted

definition noting :: "loop_event \<Rightarrow> ('s \<Rightarrow> 'a \<times> 's) \<Rightarrow> 's \<times> loop_event list \<Rightarrow> 'a \<times> ('s \<times> loop_event list)" where
  "noting e f p = (case f (fst p) of (a, s) \<Rightarrow> (a, (s, snd p @ [e])))"

definition traced :: "('s, 'v) owners \<Rightarrow> ('s \<times> loop_event list, 'v) owners" where
  "traced ow = \<lparr>
     begin_request = (\<lambda>i. noting (Ev_Begin i) (begin_request ow i)),
     steer = (\<lambda>i. noting (Ev_Steer i) (steer ow i)),
     request = (\<lambda>i. noting (Ev_Request i) (request ow i)),
     execute_tools = (\<lambda>i r. noting (Ev_Execute i r) (execute_tools ow i r)),
     settle_truncated = (\<lambda>i r os. noting (Ev_Truncated i r os) (settle_truncated ow i r os)),
     settle_final = (\<lambda>i r. noting (Ev_Final i r) (settle_final ow i r)),
     finish_tool_turn = (\<lambda>i r b. noting (Ev_Finish i r) (finish_tool_turn ow i r b)),
     exhausted = noting Ev_Exhausted (exhausted ow)\<rparr>"

text \<open>The protocol of one activation: \<open>settled\<close> is how one response is dealt with, \<open>loop_log i\<close>
  what the owners may see from turn \<open>i\<close> on.\<close>

inductive settled :: "nat \<Rightarrow> loop_event list \<Rightarrow> bool" for i where
  truncated: "cr_status r = Incomplete \<Longrightarrow> settled i [Ev_Truncated i r (fail_truncated_calls r)]"
| final: "cr_status r = Complete \<Longrightarrow> cr_calls r = [] \<Longrightarrow> settled i [Ev_Final i r]"
| tools: "cr_status r = Complete \<Longrightarrow> cr_calls r \<noteq> [] \<Longrightarrow> settled i [Ev_Execute i r, Ev_Finish i r]"

inductive loop_log :: "nat \<Rightarrow> loop_event list \<Rightarrow> bool" where
  spent: "loop_log i [Ev_Exhausted]"
| refused: "loop_log i [Ev_Begin i, Ev_Exhausted]"
| steered: "loop_log i [Ev_Begin i, Ev_Steer i]"
| ended: "loop_log i [Ev_Begin i, Ev_Steer i, Ev_Request i]"
| stopped: "loop_log i [Ev_Begin i, Ev_Steer i, Ev_Request i, Ev_Exhausted]"
| last_turn: "settled i es \<Longrightarrow> loop_log i ([Ev_Begin i, Ev_Steer i, Ev_Request i] @ es)"
| last_stop: "settled i es \<Longrightarrow>
    loop_log i ([Ev_Begin i, Ev_Steer i, Ev_Request i] @ es @ [Ev_Exhausted])"
| next_turn: "settled i es \<Longrightarrow> loop_log (Suc i) rest \<Longrightarrow>
    loop_log i ([Ev_Begin i, Ev_Steer i, Ev_Request i] @ es @ rest)"

definition requests :: "loop_event list \<Rightarrow> nat" where
  "requests es = length (filter is_Request es)"

text \<open>One turn of the traced loop is one turn of the loop, and its events are one of the shapes.\<close>

definition turn_shape :: "nat \<Rightarrow> 'v decision \<Rightarrow> loop_event list \<Rightarrow> bool" where
  "turn_shape i d es \<longleftrightarrow>
    (case d of
      Stop \<Rightarrow> loop_log i (es @ [Ev_Exhausted])
    | End v \<Rightarrow> loop_log i es
    | Continue \<Rightarrow> \<exists>fs. settled i fs \<and> es = [Ev_Begin i, Ev_Steer i, Ev_Request i] @ fs) \<and>
    requests es \<le> 1"

lemma requests_append [simp]: "requests (xs @ ys) = requests xs + requests ys"
  by (simp add: requests_def)

lemma requests_simps [simp]:
  "requests [] = 0" "requests (e # es) = (if is_Request e then Suc (requests es) else requests es)"
  by (simp_all add: requests_def)

lemma settled_requests: "settled i es \<Longrightarrow> requests es = 0"
  by (induction rule: settled.induct) simp_all

lemma settle_turn_traced:
  "\<exists>d s' fs. settle_turn ow i r s = (d, s') \<and>
    settle_turn (traced ow) i r (s, es) = (d, (s', es @ fs)) \<and> settled i fs"
proof (cases "stop_reason r")
  case Reason_Stop
  then have "settled i [Ev_Final i r]"
    by (cases "cr_status r") (auto simp: stop_reason_def intro: settled.final split: if_splits)
  then show ?thesis using Reason_Stop
    by (auto simp: settle_turn_def traced_def noting_def split: prod.split)
next
  case Reason_Length
  then have "settled i [Ev_Truncated i r (fail_truncated_calls r)]"
    by (auto simp: stop_reason_def intro: settled.truncated split: if_splits)
  then show ?thesis using Reason_Length
    by (auto simp: settle_turn_def traced_def noting_def split: prod.split)
next
  case Reason_Tool_Use
  then have "settled i [Ev_Execute i r, Ev_Finish i r]"
    by (cases "cr_status r") (auto simp: stop_reason_def intro: settled.tools split: if_splits)
  then show ?thesis using Reason_Tool_Use
    by (auto simp: settle_turn_def traced_def noting_def split: prod.split)
qed

lemma loop_turn_traced:
  "\<exists>d s' fs. loop_turn ow i s = (d, s') \<and> loop_turn (traced ow) i (s, es) = (d, (s', es @ fs)) \<and>
    turn_shape i d fs"
proof -
  obtain b s1 where 1: "begin_request ow i s = (b, s1)" by fastforce
  obtain sv s2 where 2: "steer ow i s1 = (sv, s2)" by fastforce
  obtain rr s3 where 3: "request ow i s2 = (rr, s3)" by fastforce
  have t: "begin_request (traced ow) i (s, es) = (b, (s1, es @ [Ev_Begin i]))"
    "steer (traced ow) i (s1, es') = (sv, (s2, es' @ [Ev_Steer i]))"
    "request (traced ow) i (s2, es') = (rr, (s3, es' @ [Ev_Request i]))" for es'
    using 1 2 3 by (simp_all add: traced_def noting_def)
  let ?es = "[Ev_Begin i, Ev_Steer i, Ev_Request i]"
  show ?thesis
  proof (cases "b \<or> sv \<noteq> None \<or> (\<forall>r. rr \<noteq> Response r)")
    case True
    then show ?thesis
      using 1 2 3 loop_log.refused [of i] loop_log.steered [of i] loop_log.ended [of i] loop_log.stopped [of i]
      by (cases sv; cases rr) (auto simp: loop_turn_def t turn_shape_def)
  next
    case False
    then obtain r where r: "rr = Response r" "\<not> b" "sv = None" by auto
    obtain d s' fs where st: "settle_turn ow i r s3 = (d, s')"
      "settle_turn (traced ow) i r (s3, es @ ?es) = (d, (s', (es @ ?es) @ fs))" "settled i fs"
      using settle_turn_traced [of ow i r s3 "es @ ?es"] by blast
    have "loop_turn ow i s = (d, s')" "loop_turn (traced ow) i (s, es) = (d, (s', es @ ?es @ fs))"
      using 1 2 3 r st by (simp_all add: loop_turn_def t)
    moreover have "turn_shape i d (?es @ fs)"
      using st(3) settled_requests [OF st(3)] loop_log.last_turn [OF st(3)] loop_log.last_stop [OF st(3)]
      by (cases d) (auto simp: turn_shape_def)
    ultimately show ?thesis by blast
  qed
qed

lemma loop_left_traced:
  "\<exists>v s' fs. loop_left ow n i s = (v, s') \<and> loop_left (traced ow) n i (s, es) = (v, (s', es @ fs)) \<and>
    loop_log i fs \<and> requests fs \<le> n"
proof (induction n arbitrary: i s es)
  case 0
  show ?case using loop_log.spent [of i] by (auto simp: traced_def noting_def split: prod.split)
next
  case (Suc n)
  obtain d s1 fs where t: "loop_turn ow i s = (d, s1)" "loop_turn (traced ow) i (s, es) = (d, (s1, es @ fs))"
    "turn_shape i d fs" using loop_turn_traced [of ow i s es] by blast
  show ?case
  proof (cases d)
    case Continue
    then obtain gs where gs: "settled i gs" "fs = [Ev_Begin i, Ev_Steer i, Ev_Request i] @ gs"
      using t(3) by (auto simp: turn_shape_def)
    obtain v s' hs where h: "loop_left ow n (Suc i) s1 = (v, s')"
      "loop_left (traced ow) n (Suc i) (s1, es @ fs) = (v, (s', (es @ fs) @ hs))"
      "loop_log (Suc i) hs" "requests hs \<le> n" using Suc.IH [of "Suc i" s1 "es @ fs"] by blast
    have "loop_log i (fs @ hs)" using loop_log.next_turn [OF gs(1) h(3)] gs(2) by simp
    then show ?thesis using t(1,2) h Continue settled_requests [OF gs(1)] gs(2) by auto
  next
    case (End v)
    then show ?thesis using t by (auto simp: turn_shape_def)
  next
    case Stop
    obtain v s2 where e: "exhausted ow s1 = (v, s2)" by fastforce
    then have "exhausted (traced ow) (s1, es @ fs) = (v, (s2, (es @ fs) @ [Ev_Exhausted]))"
      by (simp add: traced_def noting_def)
    then show ?thesis using t Stop e by (auto simp: turn_shape_def)
  qed
qed

text \<open>C30: Within a request budget the loop always returns, whatever its owners do. It sends at most
  \<open>max_requests\<close> requests, and what the owners see follows the protocol: admission, then waiting
  inputs, then one request per turn; truncated calls are settled with receipts and never executed;
  an executed batch is settled before anything else; and the exhausted settlement runs once, last,
  or not at all.\<close>

theorem budgeted_loop_returns:
  "\<exists>v s' es. run_agent_loop (Some n) ow s = Some (v, s') \<and>
    run_agent_loop (Some n) (traced ow) (s, []) = Some (v, (s', es)) \<and>
    loop_log 0 es \<and> requests es \<le> nat n"
  using loop_left_traced [of ow "nat n" 0 s "[]"] by (auto simp: loop_budgeted)

lemma loop_log_events:
  assumes "loop_log i es"
  shows "\<forall>j r. Ev_Execute j r \<in> set es \<longrightarrow> cr_status r = Complete \<and> cr_calls r \<noteq> []"
    "\<forall>j r os. Ev_Truncated j r os \<in> set es \<longrightarrow>
      map co_call os = cr_calls r \<and> co_executed ` set os \<subseteq> {False}"
  using assms by (induction rule: loop_log.induct) (auto elim!: settled.cases
      simp: fail_truncated_calls_def comp_def)

text \<open>C31: A truncated response never has a tool call executed: whatever the budget, every executed batch
  belongs to a complete response with calls, and every truncated response is settled with one
  unexecuted receipt for each of its calls, in call order.\<close>

theorem truncated_calls_never_executed:
  assumes "run_agent_loop (Some n) (traced ow) (s, []) = Some (v, (s', es))"
  shows "(Ev_Execute i r \<in> set es \<longrightarrow> cr_status r = Complete \<and> cr_calls r \<noteq> []) \<and>
    (Ev_Truncated i r os \<in> set es \<longrightarrow>
      map co_call os = cr_calls r \<and> co_executed ` set os \<subseteq> {False})"
proof -
  have "loop_log 0 es"
    using loop_left_traced [of ow "nat n" 0 s "[]"] assms by (auto simp: loop_budgeted)
  then show ?thesis using loop_log_events by blast
qed

text \<open>Without a budget: the result, if any, is that of every large enough budget.\<close>

lemma loop_left_step:
  assumes "loop_turn ow i s = (d, s')"
    "case d of Stop \<Rightarrow> exhausted ow s' = y | End v \<Rightarrow> (v, s') = y
       | Continue \<Rightarrow> (\<exists>N. \<forall>n\<ge>N. loop_left ow n (Suc i) s' = y)"
  shows "\<exists>N. \<forall>n\<ge>N. loop_left ow n i s = y"
proof -
  obtain N where N: "case d of Stop \<Rightarrow> exhausted ow s' = y | End v \<Rightarrow> (v, s') = y
       | Continue \<Rightarrow> (\<forall>n\<ge>N. loop_left ow n (Suc i) s' = y)"
    using assms(2) by (cases d) auto
  have "loop_left ow (Suc n) i s = y" if "n \<ge> N" for n
    using N assms(1) that by (cases d) auto
  then show ?thesis by (metis Suc_le_D Suc_le_mono)
qed

lemma loop_left_enough:
  assumes "loop_from budget ow i s = Some y"
  shows "budget = None \<longrightarrow> (\<exists>N. \<forall>n\<ge>N. loop_left ow n i s = y)"
proof (rule loop_from.raw_induct [OF _ assms], goal_cases)
  case (1 rec b ow i s y)
  note IH = 1(1) and body = 1(2)
  obtain d s' where t: "loop_turn ow i s = (d, s')" by fastforce
  show "b = None \<longrightarrow> (\<exists>N. \<forall>n\<ge>N. loop_left ow n i s = y)"
  proof
    assume "b = None"
    then show "\<exists>N. \<forall>n\<ge>N. loop_left ow n i s = y"
      using IH [of b ow "Suc i" s' y] body t
      by (intro loop_left_step [OF t]) (cases d; simp)
  qed
qed

text \<open>The budget changes nothing else: when the unbudgeted loop returns, every budget from some
  number of requests on gives the same result.\<close>

theorem unbudgeted_loop_agrees:
  assumes "run_agent_loop None ow s = Some y"
  shows "\<exists>N. \<forall>n\<ge>N. run_agent_loop (Some n) ow s = Some y"
proof -
  obtain N where N: "\<forall>n\<ge>N. loop_left ow n 0 s = y"
    using loop_left_enough [of None ow 0 s y] assms by (auto simp: run_agent_loop_def)
  have "\<forall>n\<ge>int N. run_agent_loop (Some n) ow s = Some y" using N by (auto simp: loop_budgeted)
  then show ?thesis by blast
qed

section \<open>A concrete activation\<close>

text \<open>The first response is cut off in the middle of a tool call, the second one is final.\<close>

definition ex_call :: chat_call where
  "ex_call = \<lparr>ca_id = ''c1'', ca_name = ''send'', ca_arguments = ''{''\<rparr>"

definition ex_response :: "nat \<Rightarrow> chat_response" where
  "ex_response i = (if i = 0 then \<lparr>cr_text = [], cr_calls = [ex_call], cr_status = Incomplete\<rparr>
     else \<lparr>cr_text = ''hi'', cr_calls = [], cr_status = Complete\<rparr>)"

definition ex_owners :: "(nat, string) owners" where
  "ex_owners = \<lparr>
     begin_request = (\<lambda>i s. (False, s)),
     steer = (\<lambda>i s. (None, s)),
     request = (\<lambda>i s. (Response (ex_response i), Suc s)),
     execute_tools = (\<lambda>i r s. (\<lparr>bo_outcomes = [], bo_executed = 0, bo_reused = 0, bo_terminate = False\<rparr>, s)),
     settle_truncated = (\<lambda>i r os s. (Continue, s)),
     settle_final = (\<lambda>i r s. (End (cr_text r), s)),
     finish_tool_turn = (\<lambda>i r b s. (Continue, s)),
     exhausted = (\<lambda>s. (''spent'', s))\<rparr>"

lemmas ex_loop_defs = loop_turn_def settle_turn_def stop_reason_def ex_owners_def ex_response_def

lemma ex_loop_traced: "run_agent_loop (Some 2) (traced ex_owners) (0, []) =
  Some (''hi'', (Suc (Suc 0), [Ev_Begin 0, Ev_Steer 0, Ev_Request 0,
    Ev_Truncated 0 (ex_response 0) (fail_truncated_calls (ex_response 0)),
    Ev_Begin (Suc 0), Ev_Steer (Suc 0), Ev_Request (Suc 0), Ev_Final (Suc 0) (ex_response (Suc 0))]))"
proof -
  have two: "nat 2 = Suc (Suc 0)" by simp
  have 1: "loop_turn (traced ex_owners) 0 (0, []) =
    (Continue, (Suc 0, [Ev_Begin 0, Ev_Steer 0, Ev_Request 0,
      Ev_Truncated 0 (ex_response 0) (fail_truncated_calls (ex_response 0))]))"
    by (simp add: traced_def noting_def ex_loop_defs)
  have 2: "loop_turn (traced ex_owners) (Suc 0) (Suc 0, es) = (End ''hi'', (Suc (Suc 0), es @
      [Ev_Begin (Suc 0), Ev_Steer (Suc 0), Ev_Request (Suc 0), Ev_Final (Suc 0) (ex_response (Suc 0))]))" for es
    by (simp add: traced_def noting_def ex_loop_defs)
  show ?thesis unfolding loop_budgeted two by (simp add: 1 2)
qed

lemma truncated_calls_never_executed_witness:
  "map co_call (fail_truncated_calls (ex_response 0)) = [ex_call]"
  using truncated_calls_never_executed [OF ex_loop_traced, of 0 "ex_response 0"
      "fail_truncated_calls (ex_response 0)"]
  by (simp add: ex_response_def)

lemma unbudgeted_loop_agrees_witness:
  "\<exists>n. run_agent_loop (Some n) ex_owners 0 = Some (''hi'', Suc (Suc 0))"
proof -
  have "loop_from None ex_owners (Suc 0) (Suc 0) = Some (''hi'', Suc (Suc 0))"
    by (subst loop_from.simps) (simp add: ex_loop_defs)
  then have "run_agent_loop None ex_owners 0 = Some (''hi'', Suc (Suc 0))"
    unfolding run_agent_loop_def by (subst loop_from.simps) (simp add: ex_loop_defs)
  then obtain N where "\<forall>n\<ge>N. run_agent_loop (Some n) ex_owners 0 = Some (''hi'', Suc (Suc 0))"
    using unbudgeted_loop_agrees [of ex_owners 0 "(''hi'', Suc (Suc 0))"] by auto
  then have "run_agent_loop (Some N) ex_owners 0 = Some (''hi'', Suc (Suc 0))" by auto
  then show ?thesis ..
qed

end
