(* ===== verification/Tool_Batch.thy ===== *)
theory Tool_Batch
  imports Agent_Loop Json Results "HOL-Library.Multiset"
begin

text \<open>
  One batch of tool calls (\<open>capabilities/coordinator.py\<close> and \<open>BatchPlan\<close> of
  \<open>services/invocation_service.py\<close>): calls are admitted in the model's order, read-safe
  stretches run concurrently under a semaphore, and every call gets one receipt.

  What the outside does is a parameter: \<open>an_gate\<close> is what \<open>before_execute\<close> answers for the
  call at a position and \<open>an_run\<close> what its invocation returns (the payload and the recorded
  evidence), \<open>Inl\<close> when it raises. The order in which the tasks of a stretch finish is a
  parameter as well; \<open>group_run\<close> says which orders the semaphore allows. The bodies of the
  receipts the host writes are constructors, the payloads of tools are texts.
\<close>

section \<open>Calls, receipts and the state of a batch\<close>

datatype receipt = Duplicate_id | Limited | Missing | Unavailable | Payload string

record backend =
  be_safe :: "string \<Rightarrow> bool"
  be_counts :: "string \<Rightarrow> bool"

record answers =
  an_gate :: "nat \<Rightarrow> unit + string option"
  an_run :: "nat \<Rightarrow> unit + string \<times> json option"

record batch_state =
  bt_results :: "string \<rightharpoonup> receipt"
  bt_facts :: "string \<rightharpoonup> json"
  bt_overflow :: "string set"
  bt_rejected :: "string set"
  bt_counted :: int

record batch_result =
  tr_calls :: "(chat_call \<times> receipt \<times> bool) list"
  tr_executed :: int
  tr_evidence :: "string \<rightharpoonup> json"

fun conflicting_ids :: "string set \<Rightarrow> chat_call list \<Rightarrow> string set" where
  "conflicting_ids seen [] = {}"
| "conflicting_ids seen (c # cs) =
     (if ca_id c \<in> seen then {ca_id c} else {}) \<union> conflicting_ids (insert (ca_id c) seen) cs"

section \<open>Admission and completion\<close>

definition admit_call ::
  "backend \<Rightarrow> string set \<Rightarrow> int option \<Rightarrow> unit + string option \<Rightarrow> chat_call \<Rightarrow> batch_state \<Rightarrow>
   unit + (bool \<times> batch_state)" where
  "admit_call be conflicts remaining gate c st =
     (if ca_id c \<in> conflicts
      then Inr (False, st\<lparr>bt_results := (bt_results st)(ca_id c \<mapsto> Duplicate_id),
                          bt_rejected := insert (ca_id c) (bt_rejected st)\<rparr>)
      else ebind gate (\<lambda>rejection.
        case rejection of
          Some tx \<Rightarrow> Inr (False, st\<lparr>bt_results := (bt_results st)(ca_id c \<mapsto> Payload tx),
                                     bt_rejected := insert (ca_id c) (bt_rejected st)\<rparr>)
        | None \<Rightarrow>
            if be_counts be (ca_name c) \<and> (case remaining of None \<Rightarrow> False | Some n \<Rightarrow> bt_counted st \<ge> n)
            then Inr (False, st\<lparr>bt_overflow := insert (ca_id c) (bt_overflow st)\<rparr>)
            else Inr (True, if be_counts be (ca_name c) then st\<lparr>bt_counted := bt_counted st + 1\<rparr> else st)))"

definition not_executed :: "json option \<Rightarrow> bool" where
  "not_executed evidence \<longleftrightarrow> (case evidence of None \<Rightarrow> False | Some f \<Rightarrow> json_get ''executed'' f = Some (JBool False))"

lemma not_executed_None [simp]: "\<not> not_executed None"
  by (simp add: not_executed_def)

definition finish_call :: "backend \<Rightarrow> chat_call \<Rightarrow> string \<times> json option \<Rightarrow> batch_state \<Rightarrow> batch_state" where
  "finish_call be c answer st =
     (let facts = (case snd answer of None \<Rightarrow> bt_facts st | Some f \<Rightarrow> (bt_facts st)(ca_id c \<mapsto> f));
          st1 = st\<lparr>bt_results := (bt_results st)(ca_id c \<mapsto> Payload (fst answer)), bt_facts := facts\<rparr>
      in if not_executed (facts (ca_id c))
         then st1\<lparr>bt_rejected := insert (ca_id c) (bt_rejected st1),
                  bt_counted := (if be_counts be (ca_name c) then bt_counted st1 - 1 else bt_counted st1)\<rparr>
         else st1)"

type_synonym placed = "nat \<times> chat_call"

fun admit_all ::
  "backend \<Rightarrow> string set \<Rightarrow> int option \<Rightarrow> answers \<Rightarrow> placed list \<Rightarrow> batch_state \<Rightarrow>
   unit + (placed list \<times> batch_state)" where
  "admit_all be conflicts remaining an [] st = Inr ([], st)"
| "admit_all be conflicts remaining an ((i, c) # cs) st =
     ebind (admit_call be conflicts remaining (an_gate an i) c st) (\<lambda>(ok, st1).
       ebind (admit_all be conflicts remaining an cs st1) (\<lambda>(admitted, st2).
         Inr (if ok then (i, c) # admitted else admitted, st2)))"

definition run_group :: "backend \<Rightarrow> answers \<Rightarrow> placed list \<Rightarrow> batch_state \<Rightarrow> unit + batch_state" where
  "run_group be an tasks st =
     efold (\<lambda>(i, c) st. ebind (an_run an i) (\<lambda>answer. Inr (finish_call be c answer st))) tasks st"

section \<open>The batch\<close>

definition parallel_safe :: "backend \<Rightarrow> placed \<Rightarrow> bool" where
  "parallel_safe be p \<longleftrightarrow> ca_name (snd p) \<noteq> ''send'' \<and> be_safe be (ca_name (snd p))"

text \<open>\<open>order i tasks\<close> is the order in which the tasks of the stretch at position \<open>i\<close> finish.\<close>

function run_batch ::
  "backend \<Rightarrow> string set \<Rightarrow> int option \<Rightarrow> answers \<Rightarrow> (nat \<Rightarrow> placed list \<Rightarrow> placed list) \<Rightarrow>
   placed list \<Rightarrow> batch_state \<Rightarrow> unit + batch_state" where
  "run_batch be conflicts remaining an order [] st = Inr st"
| "run_batch be conflicts remaining an order ((i, c) # cs) st =
     (if \<not> parallel_safe be (i, c)
      then ebind (admit_call be conflicts remaining (an_gate an i) c st) (\<lambda>(ok, st1).
             ebind (if ok then run_group be an [(i, c)] st1 else Inr st1)
               (run_batch be conflicts remaining an order cs))
      else ebind (admit_all be conflicts remaining an ((i, c) # takeWhile (parallel_safe be) cs) st)
             (\<lambda>(admitted, st1). ebind (run_group be an (order i admitted) st1)
               (run_batch be conflicts remaining an order (dropWhile (parallel_safe be) cs))))"
  by pat_completeness auto
termination
  by (relation "measure (\<lambda>(be, cf, re, an, ord, cs, st). length cs)")
    (auto simp: less_Suc_eq_le length_dropWhile_le)

definition attach :: "batch_state \<Rightarrow> chat_call \<Rightarrow> chat_call \<times> receipt \<times> bool" where
  "attach st c =
     (if ca_id c \<in> bt_overflow st then (c, Limited, False)
      else case bt_results st (ca_id c) of
        None \<Rightarrow> (c, Missing, False)
      | Some r \<Rightarrow> (c, r, ca_id c \<notin> bt_rejected st))"

definition start_batch :: batch_state where
  "start_batch = \<lparr>bt_results = Map.empty, bt_facts = Map.empty, bt_overflow = {}, bt_rejected = {},
     bt_counted = 0\<rparr>"

datatype batch_error = Bad_budget | Raised

definition execute_batch ::
  "backend option \<Rightarrow> int option \<Rightarrow> int \<Rightarrow> answers \<Rightarrow> (nat \<Rightarrow> placed list \<Rightarrow> placed list) \<Rightarrow>
   chat_call list \<Rightarrow> batch_error + batch_result" where
  "execute_batch backend remaining max_parallel an order calls =
     (if (case remaining of None \<Rightarrow> False | Some n \<Rightarrow> n < 0) \<or> max_parallel \<le> 0 then Inl Bad_budget
      else case backend of
        None \<Rightarrow> Inr \<lparr>tr_calls = map (\<lambda>c. (c, Unavailable, False)) calls, tr_executed = 0,
                     tr_evidence = Map.empty\<rparr>
      | Some be \<Rightarrow>
          (case run_batch be (conflicting_ids {} calls) remaining an order (enumerate 0 calls) start_batch of
             Inl _ \<Rightarrow> Inl Raised
           | Inr st \<Rightarrow> Inr \<lparr>tr_calls = map (attach st) calls, tr_executed = bt_counted st,
                           tr_evidence = bt_facts st\<rparr>))"

section \<open>Completion orders under the semaphore\<close>

text \<open>
  The tasks of a stretch wait for the semaphore in the order of their creation; at most
  \<open>n\<close> hold it.
\<close>

inductive group_step :: "int \<Rightarrow> 'a list \<times> 'a list \<times> 'a list \<Rightarrow> 'a list \<times> 'a list \<times> 'a list \<Rightarrow> bool"
  for n where
  start: "int (length running) < n \<Longrightarrow> group_step n (x # waiting, running, ended) (waiting, running @ [x], ended)"
| finish: "group_step n (waiting, before @ x # after, ended) (waiting, before @ after, ended @ [x])"

inductive group_run :: "int \<Rightarrow> 'a list \<times> 'a list \<times> 'a list \<Rightarrow> 'a list \<times> 'a list \<times> 'a list \<Rightarrow> bool"
  for n where
  stay: "group_run n s s"
| step: "group_run n s t \<Longrightarrow> group_step n t u \<Longrightarrow> group_run n s u"

definition possible_order :: "int \<Rightarrow> (nat \<Rightarrow> 'a list \<Rightarrow> 'a list) \<Rightarrow> bool" where
  "possible_order n order \<longleftrightarrow> (\<forall>i tasks. group_run n (tasks, [], []) ([], [], order i tasks))"

lemma group_step_mset:
  "group_step n s t \<Longrightarrow> mset (fst s) + mset (fst (snd s)) + mset (snd (snd s)) =
     mset (fst t) + mset (fst (snd t)) + mset (snd (snd t))"
  by (induction rule: group_step.induct) simp_all

lemma group_run_mset:
  "group_run n s t \<Longrightarrow> mset (fst s) + mset (fst (snd s)) + mset (snd (snd s)) =
     mset (fst t) + mset (fst (snd t)) + mset (snd (snd t))"
  by (induction rule: group_run.induct) (auto dest: group_step_mset)

lemma possible_order_mset: "possible_order n order \<Longrightarrow> mset (order i tasks) = mset tasks"
  using group_run_mset [of n "(tasks, [], [])" "([], [], order i tasks)"] by (simp add: possible_order_def)

lemma group_run_bounded:
  "group_run n s t \<Longrightarrow> int (length (fst (snd s))) \<le> n \<Longrightarrow> int (length (fst (snd t))) \<le> n"
proof (induction rule: group_run.induct)
  case (step s t u)
  then show ?case by (auto elim: group_step.cases)
qed simp

lemma group_run_trans: "group_run n t u \<Longrightarrow> group_run n s t \<Longrightarrow> group_run n s u"
  by (induction rule: group_run.induct) (auto intro: group_run.step)

text \<open>With a positive limit the tasks can always all finish, one after the other for instance.\<close>

lemma group_run_in_order: "0 < n \<Longrightarrow> group_run n (tasks, [], ended) ([], [], ended @ tasks)"
proof (induction tasks arbitrary: ended)
  case (Cons x tasks)
  have "group_step n (x # tasks, [], ended) (tasks, [x], ended)"
    using group_step.start [of "[]" n x tasks ended] Cons.prems by simp
  moreover have "group_step n (tasks, [x], ended) (tasks, [], ended @ [x])"
    using group_step.finish [of n tasks "[]" x "[]" ended] by simp
  ultimately have "group_run n (x # tasks, [], ended) (tasks, [], ended @ [x])"
    by (meson group_run.intros)
  then show ?case using group_run_trans Cons.IH [OF Cons.prems, of "ended @ [x]"] by fastforce
qed (simp add: group_run.stay)

lemma in_order_possible: "0 < n \<Longrightarrow> possible_order n (\<lambda>i tasks. tasks)"
  unfolding possible_order_def by (intro allI) (drule group_run_in_order [where ended = "[]"], simp)

text \<open>A stretch never gets stuck: while a task is left, some task can start or finish.\<close>

lemma group_never_stuck:
  assumes "0 < n" "int (length running) \<le> n" "waiting \<noteq> [] \<or> running \<noteq> []"
  shows "\<exists>t. group_step n (waiting, running, ended) t"
proof (cases running)
  case Nil
  then obtain x ws where "waiting = x # ws" using assms(3) by (cases waiting) auto
  then show ?thesis using Nil assms(1) group_step.start [of "[]" n x ws ended] by auto
next
  case (Cons x xs)
  then show ?thesis using group_step.finish [of n waiting "[]" x xs ended] by auto
qed


section \<open>Identities\<close>

lemma unconflicted_unseen:
  "c \<in> set cs \<Longrightarrow> ca_id c \<notin> conflicting_ids seen cs \<Longrightarrow> ca_id c \<notin> seen"
  by (induction cs arbitrary: seen) (auto split: if_splits)

lemma unconflicted_once:
  "i \<notin> conflicting_ids seen cs \<Longrightarrow> count (image_mset ca_id (mset cs)) i \<le> 1"
proof (induction cs arbitrary: seen)
  case (Cons c cs)
  then have i: "i \<notin> conflicting_ids (insert (ca_id c) seen) cs" by simp
  show ?case
  proof (cases "ca_id c = i")
    case True
    then have "i \<notin> ca_id ` set cs" using unconflicted_unseen i by (metis image_iff insertI1)
    then have "count (image_mset ca_id (mset cs)) i = 0"
      by (simp add: count_eq_zero_iff)
    then show ?thesis using True by simp
  next
    case False
    then show ?thesis using Cons.IH [OF i] by simp
  qed
qed simp

definition unique_ids :: "string set \<Rightarrow> chat_call multiset \<Rightarrow> bool" where
  "unique_ids K T \<longleftrightarrow> (\<forall>i. i \<notin> K \<longrightarrow> count (image_mset ca_id T) i \<le> 1)"

lemma unique_ids_apart:
  assumes "unique_ids K (X + add_mset c R)" "ca_id c \<notin> K"
  shows "ca_id c \<notin> ca_id ` set_mset X" "ca_id c \<notin> ca_id ` set_mset R"
proof -
  have "count (image_mset ca_id X) (ca_id c) + count (image_mset ca_id R) (ca_id c) = 0"
    using assms by (fastforce simp: unique_ids_def)
  then show "ca_id c \<notin> ca_id ` set_mset X" "ca_id c \<notin> ca_id ` set_mset R"
    by (auto simp: count_eq_zero_iff)
qed

lemma unique_ids_mono: "unique_ids K T \<Longrightarrow> S \<subseteq># T \<Longrightarrow> unique_ids K S"
  unfolding unique_ids_def by (meson image_mset_subseteq_mono mset_subset_eq_count order_trans)

section \<open>The invariant of a batch\<close>

text \<open>
  \<open>X\<close> are the calls that are settled and \<open>P\<close> those that are admitted and still to run. A call
  has used a slot of the budget when it counts and was not turned away.
\<close>

definition spent :: "backend \<Rightarrow> batch_state \<Rightarrow> chat_call \<Rightarrow> bool" where
  "spent be st c \<longleftrightarrow> be_counts be (ca_name c) \<and> ca_id c \<notin> bt_overflow st \<and> ca_id c \<notin> bt_rejected st"

definition batch_inv ::
  "backend \<Rightarrow> string set \<Rightarrow> int option \<Rightarrow> chat_call multiset \<Rightarrow> chat_call multiset \<Rightarrow> batch_state \<Rightarrow> bool" where
  "batch_inv be K remaining X P st \<longleftrightarrow>
     (\<forall>c\<in>#X. ca_id c \<in> bt_overflow st \<or> bt_results st (ca_id c) \<noteq> None) \<and>
     bt_overflow st \<union> dom (bt_results st) \<union> bt_rejected st \<union> dom (bt_facts st) \<subseteq> ca_id ` set_mset X \<and>
     (\<forall>c\<in>#X. ca_id c \<in> K \<longrightarrow> bt_results st (ca_id c) = Some Duplicate_id \<and> ca_id c \<in> bt_rejected st \<and>
        ca_id c \<notin> bt_overflow st) \<and>
     (\<forall>i r. bt_results st i = Some r \<longrightarrow> i \<in> K \<and> r = Duplicate_id \<or> i \<notin> K \<and> (\<exists>t. r = Payload t)) \<and>
     (\<forall>c\<in>#P. ca_id c \<notin> K) \<and>
     (\<forall>c\<in>#X. not_executed (bt_facts st (ca_id c)) \<longrightarrow> ca_id c \<in> bt_rejected st) \<and>
     bt_counted st = int (size (filter_mset (spent be st) X)) +
       int (size (filter_mset (\<lambda>c. be_counts be (ca_name c)) P)) \<and>
     (\<forall>n. remaining = Some n \<longrightarrow> bt_counted st \<le> n)"

lemma start_inv: "(\<forall>n. remaining = Some n \<longrightarrow> 0 \<le> n) \<Longrightarrow> batch_inv be K remaining {#} {#} start_batch"
  by (simp add: batch_inv_def start_batch_def)

text \<open>Turning away a call leaves the slots of the others alone.\<close>

lemma spent_cong:
  assumes "\<And>c. c \<in># X \<Longrightarrow> spent be st' c = spent be st c"
  shows "filter_mset (spent be st') X = filter_mset (spent be st) X"
  using assms by (rule filter_mset_cong0)

lemma admit_call_inv:
  assumes inv: "batch_inv be K remaining X P st"
    and u: "unique_ids K (X + add_mset c (P + R))"
    and adm: "admit_call be K remaining gate c st = Inr (ok, st')"
  shows "if ok then batch_inv be K remaining X (add_mset c P) st'
         else batch_inv be K remaining (add_mset c X) P st'"
proof (cases "ca_id c \<in> K")
  case True
  then have st': "\<not> ok" "st' = st\<lparr>bt_results := (bt_results st)(ca_id c \<mapsto> Duplicate_id),
      bt_rejected := insert (ca_id c) (bt_rejected st)\<rparr>"
    using adm by (auto simp: admit_call_def)
  have "filter_mset (spent be st') X = filter_mset (spent be st) X"
    using inv True st' by (intro spent_cong) (auto simp: batch_inv_def spent_def)
  moreover have "\<not> spent be st' c" using st' by (simp add: spent_def)
  moreover have "ca_id c \<notin> bt_overflow st"
    using inv True by (auto simp: batch_inv_def)
  ultimately show ?thesis using inv st' True by (auto simp: batch_inv_def)
next
  case False
  have fresh: "ca_id c \<notin> ca_id ` set_mset X" using unique_ids_apart(1) [OF u False] .
  then have new: "ca_id c \<notin> bt_overflow st" "bt_results st (ca_id c) = None" "ca_id c \<notin> bt_rejected st"
      "bt_facts st (ca_id c) = None"
    using inv by (auto simp: batch_inv_def)
  obtain rejection where g: "gate = Inr rejection" using adm False by (auto simp: admit_call_def returns)
  have apart: "ca_id x \<noteq> ca_id c" if "x \<in># X" for x using that fresh by (metis imageI)
  have other: "spent be (st\<lparr>bt_results := rs, bt_rejected := insert (ca_id c) (bt_rejected st)\<rparr>) x = spent be st x"
    "spent be (st\<lparr>bt_overflow := insert (ca_id c) (bt_overflow st)\<rparr>) x = spent be st x" if "x \<in># X" for x rs
    using apart [OF that] by (auto simp: spent_def)
  show ?thesis
  proof (cases rejection)
    case (Some tx)
    then have st': "\<not> ok" "st' = st\<lparr>bt_results := (bt_results st)(ca_id c \<mapsto> Payload tx),
        bt_rejected := insert (ca_id c) (bt_rejected st)\<rparr>"
      using adm False g by (auto simp: admit_call_def)
    have "filter_mset (spent be st') X = filter_mset (spent be st) X"
      using other st' by (intro spent_cong) simp
    moreover have "\<not> spent be st' c" using st' by (simp add: spent_def)
    ultimately show ?thesis using inv st' False fresh new by (auto simp: batch_inv_def)
  next
    case None
    show ?thesis
    proof (cases "be_counts be (ca_name c) \<and> (case remaining of None \<Rightarrow> False | Some n \<Rightarrow> bt_counted st \<ge> n)")
      case True
      then have st': "\<not> ok" "st' = st\<lparr>bt_overflow := insert (ca_id c) (bt_overflow st)\<rparr>"
        using adm False g None by (auto simp: admit_call_def)
      have "filter_mset (spent be st') X = filter_mset (spent be st) X"
        using other st' by (intro spent_cong) simp
      moreover have "\<not> spent be st' c" using st' by (simp add: spent_def)
      ultimately show ?thesis using inv st' False fresh new by (auto simp: batch_inv_def)
    next
      case room: False
      then have st': "ok" "st' = (if be_counts be (ca_name c) then st\<lparr>bt_counted := bt_counted st + 1\<rparr> else st)"
        using adm False g None by (auto simp: admit_call_def split: if_splits)
      have "spent be st' = spent be st" using st' by (auto simp: spent_def)
      then show ?thesis using inv st' False room by (auto simp: batch_inv_def split: option.splits)
    qed
  qed
qed

lemma admit_all_inv:
  assumes "batch_inv be K remaining X P st"
    and "unique_ids K (X + P + mset (map snd cs) + R)"
    and "admit_all be K remaining an cs st = Inr (admitted, st')"
  shows "\<exists>X'. mset cs = X' + mset admitted \<and>
    batch_inv be K remaining (X + image_mset snd X') (P + mset (map snd admitted)) st'"
  using assms
proof (induction cs arbitrary: X P st admitted)
  case (Cons p cs)
  obtain i c where p: "p = (i, c)" by (cases p)
  obtain ok st1 adm1 where a: "admit_call be K remaining (an_gate an i) c st = Inr (ok, st1)"
    and rest: "admit_all be K remaining an cs st1 = Inr (adm1, st')"
    and adm: "admitted = (if ok then (i, c) # adm1 else adm1)"
    using Cons.prems(3) p by (auto simp: returns)
  have u: "unique_ids K (X + add_mset c (P + (mset (map snd cs) + R)))"
    using Cons.prems(2) p by (simp add: ac_simps)
  note inv1 = admit_call_inv [OF Cons.prems(1) u a]
  show ?case
  proof (cases ok)
    case True
    have "unique_ids K (X + add_mset c P + mset (map snd cs) + R)" using u by (simp add: ac_simps)
    from Cons.IH [OF _ this rest] inv1 True obtain X' where "mset cs = X' + mset adm1"
      "batch_inv be K remaining (X + image_mset snd X') (add_mset c P + mset (map snd adm1)) st'" by auto
    then show ?thesis using True adm p by (intro exI [of _ X']) (simp add: ac_simps)
  next
    case False
    have "unique_ids K (add_mset c X + P + mset (map snd cs) + R)" using u by (simp add: ac_simps)
    from Cons.IH [OF _ this rest] inv1 False obtain X' where "mset cs = X' + mset adm1"
      "batch_inv be K remaining (add_mset c X + image_mset snd X') (P + mset (map snd adm1)) st'" by auto
    then show ?thesis using False adm p by (intro exI [of _ "add_mset (i, c) X'"]) (simp add: ac_simps)
  qed
qed (auto intro: exI [of _ "{#}"])

lemma finish_call_inv:
  assumes inv: "batch_inv be K remaining X (add_mset c P) st"
    and u: "unique_ids K (X + add_mset c P + R)"
  shows "batch_inv be K remaining (add_mset c X) P (finish_call be c answer st)"
proof -
  let ?st = "finish_call be c answer st"
  have k: "ca_id c \<notin> K" using inv by (simp add: batch_inv_def)
  have fresh: "ca_id c \<notin> ca_id ` set_mset X"
    using unique_ids_apart(1) [of K X c "P + R"] u k by (simp add: ac_simps)
  then have new: "ca_id c \<notin> bt_overflow st" "bt_results st (ca_id c) = None" "ca_id c \<notin> bt_rejected st"
      "bt_facts st (ca_id c) = None"
    using inv by (auto simp: batch_inv_def)
  have apart: "ca_id x \<noteq> ca_id c" if "x \<in># X" for x using that fresh by (metis imageI)
  have slots: "filter_mset (spent be ?st) X = filter_mset (spent be st) X"
    by (intro spent_cong) (auto simp: finish_call_def Let_def spent_def dest: apart)
  have me: "spent be ?st c \<longleftrightarrow> be_counts be (ca_name c) \<and> \<not> not_executed (bt_facts ?st (ca_id c))"
    using new by (auto simp: finish_call_def Let_def spent_def)
  show ?thesis
    using inv k fresh new slots me
    by (auto simp: batch_inv_def finish_call_def Let_def split: option.splits if_splits)
qed


lemma run_group_inv:
  assumes "batch_inv be K remaining X (mset (map snd tasks)) st"
    and "unique_ids K (X + mset (map snd tasks) + R)"
    and "run_group be an tasks st = Inr st'"
  shows "batch_inv be K remaining (X + mset (map snd tasks)) {#} st'"
  using assms
proof (induction tasks arbitrary: X st)
  case (Cons p tasks)
  obtain i c where p: "p = (i, c)" by (cases p)
  obtain answer where r: "run_group be an tasks (finish_call be c answer st) = Inr st'"
    using Cons.prems(3) p by (auto simp: run_group_def returns)
  have inv: "batch_inv be K remaining X (add_mset c (mset (map snd tasks))) st"
    and u: "unique_ids K (X + add_mset c (mset (map snd tasks)) + R)"
    using Cons.prems p by simp_all
  have "unique_ids K (add_mset c X + mset (map snd tasks) + R)" using u by simp
  from Cons.IH [OF finish_call_inv [OF inv u] this r] show ?case using p by simp
qed (simp add: run_group_def)

lemma mset_map_split:
  "mset (map snd cs) = mset (map snd (takeWhile P cs)) + mset (map snd (dropWhile P cs))"
  by (metis map_append mset_append takeWhile_dropWhile_id)

lemma run_batch_cases:
  assumes "run_batch be K remaining an order ((i, c) # cs) st = Inr st'"
  obtains (alone) ok st1 st2 where "\<not> parallel_safe be (i, c)"
      "admit_call be K remaining (an_gate an i) c st = Inr (ok, st1)"
      "(if ok then run_group be an [(i, c)] st1 else Inr st1) = Inr st2"
      "run_batch be K remaining an order cs st2 = Inr st'"
    | (stretch) adm st1 st2 where "parallel_safe be (i, c)"
      "admit_all be K remaining an ((i, c) # takeWhile (parallel_safe be) cs) st = Inr (adm, st1)"
      "run_group be an (order i adm) st1 = Inr st2"
      "run_batch be K remaining an order (dropWhile (parallel_safe be) cs) st2 = Inr st'"
proof (cases "parallel_safe be (i, c)")
  case True
  then have "ebind (admit_all be K remaining an ((i, c) # takeWhile (parallel_safe be) cs) st)
      (\<lambda>(admitted, st1). ebind (run_group be an (order i admitted) st1)
        (run_batch be K remaining an order (dropWhile (parallel_safe be) cs))) = Inr st'"
    using assms by (simp del: admit_all.simps)
  then show ?thesis using True stretch by (auto simp: returns simp del: admit_all.simps run_batch.simps)
next
  case False
  then have "ebind (admit_call be K remaining (an_gate an i) c st) (\<lambda>(ok, st1).
      ebind (if ok then run_group be an [(i, c)] st1 else Inr st1)
        (run_batch be K remaining an order cs)) = Inr st'"
    using assms by simp
  then show ?thesis using False alone by (auto simp: returns simp del: run_batch.simps)
qed

lemma run_batch_inv:
  assumes "run_batch be K remaining an order cs st = Inr st'" "possible_order n order"
    and "batch_inv be K remaining X {#} st" "unique_ids K (X + mset (map snd cs))"
  shows "batch_inv be K remaining (X + mset (map snd cs)) {#} st'"
  using assms
proof (induction be K remaining an order cs st arbitrary: X rule: run_batch.induct)
  case (2 be K remaining an order i c cs st)
  from "2.prems"(1) show ?case
  proof (cases rule: run_batch_cases)
    case (alone ok st1 st2)
    note a = alone(2) and g = alone(3) and r = alone(4)
    have u: "unique_ids K (X + add_mset c ({#} + mset (map snd cs)))" using "2.prems"(4) by simp
    have "batch_inv be K remaining (add_mset c X) {#} st2"
    proof (cases ok)
      case True
      then have "batch_inv be K remaining X (mset (map snd [(i, c)])) st1"
        using admit_call_inv [OF "2.prems"(3) u a] by simp
      then show ?thesis
        using run_group_inv [of be K remaining X "[(i, c)]" st1 "mset (map snd cs)" an st2] u g True by simp
    qed (use admit_call_inv [OF "2.prems"(3) u a] g in simp)
    then show ?thesis
      using "2.IH"(1) [OF alone(1) r "2.prems"(2), of "add_mset c X"] u by simp
  next
    case (stretch adm st1 st2)
    note a = stretch(2) and g = stretch(3) and r = stretch(4)
    let ?grp = "(i, c) # takeWhile (parallel_safe be) cs" and ?rest = "dropWhile (parallel_safe be) cs"
    have split: "mset (map snd ((i, c) # cs)) = mset (map snd ?grp) + mset (map snd ?rest)"
      using mset_map_split [of cs "parallel_safe be"] by simp
    have u: "unique_ids K (X + {#} + mset (map snd ?grp) + mset (map snd ?rest))"
      using "2.prems"(4) split by (simp only: add_0_right add.assoc)
    obtain X' where X': "mset ?grp = X' + mset adm"
      and inv1: "batch_inv be K remaining (X + image_mset snd X') ({#} + mset (map snd adm)) st1"
      using admit_all_inv [OF "2.prems"(3) u a] by blast
    have m: "mset (map snd (order i adm)) = mset (map snd adm)"
      using possible_order_mset [OF "2.prems"(2), of i adm] by simp
    have e: "mset (map snd ?grp) = image_mset snd X' + mset (map snd adm)"
      unfolding mset_map X' by simp
    have i1: "batch_inv be K remaining (X + image_mset snd X') (mset (map snd (order i adm))) st1"
      using inv1 unfolding m by simp
    have "unique_ids K (X + image_mset snd X' + mset (map snd (order i adm)) + mset (map snd ?rest))"
      using u unfolding e m by (simp only: add_0_right add.assoc)
    from run_group_inv [OF i1 this g] have inv2: "batch_inv be K remaining (X + mset (map snd ?grp)) {#} st2"
      unfolding e m by (simp only: add.assoc)
    have "unique_ids K (X + mset (map snd ?grp) + mset (map snd ?rest))" using u by simp
    from "2.IH"(2) [OF _ r "2.prems"(2) inv2 this] stretch(1) split show ?thesis
      by (simp only: add.assoc) simp
  qed
qed simp

section \<open>The order of completion does not matter\<close>

lemma run_group_eq:
  "run_group be an tasks st =
     (if \<forall>p\<in>set tasks. an_run an (fst p) \<noteq> Inl ()
      then Inr (fold (\<lambda>p. finish_call be (snd p) (projr (an_run an (fst p)))) tasks st) else Inl ())"
proof (induction tasks arbitrary: st)
  case (Cons p tasks)
  then show ?case
    by (cases p; cases "an_run an (fst p)") (simp_all add: run_group_def)
qed (simp add: run_group_def)

lemma finish_call_commute:
  assumes "ca_id c \<noteq> ca_id c'"
  shows "finish_call be c a \<circ> finish_call be c' a' = finish_call be c' a' \<circ> finish_call be c a"
proof
  fix st
  show "(finish_call be c a \<circ> finish_call be c' a') st = (finish_call be c' a' \<circ> finish_call be c a) st"
    using assms by (cases "snd a"; cases "snd a'") (auto simp: finish_call_def Let_def fun_upd_twist insert_commute)
qed

lemma run_group_order:
  assumes "mset tasks = mset tasks'" "distinct (map (ca_id \<circ> snd) tasks)"
  shows "run_group be an tasks st = run_group be an tasks' st"
proof -
  let ?f = "\<lambda>p. finish_call be (snd p) (projr (an_run an (fst p)))"
  have "fold ?f tasks = fold ?f tasks'"
  proof (rule fold_multiset_equiv)
    fix x y assume xy: "x \<in> set tasks" "y \<in> set tasks"
    show "?f x \<circ> ?f y = ?f y \<circ> ?f x"
    proof (cases "ca_id (snd x) = ca_id (snd y)")
      case True
      then have "x = y" using assms(2) xy by (auto simp: distinct_map inj_on_def)
      then show ?thesis by simp
    qed (rule finish_call_commute)
  qed (rule assms(1))
  moreover have "set tasks = set tasks'" using assms(1) by (metis set_mset_mset)
  ultimately show ?thesis by (simp add: run_group_eq)
qed

lemma admit_all_subset:
  "admit_all be K remaining an cs st = Inr (adm, st') \<Longrightarrow>
    mset adm \<subseteq># mset cs \<and> (\<forall>p\<in>set adm. ca_id (snd p) \<notin> K)"
proof (induction cs arbitrary: st adm)
  case (Cons p cs)
  obtain i c where p: "p = (i, c)" by (cases p)
  obtain ok st1 adm1 where a: "admit_call be K remaining (an_gate an i) c st = Inr (ok, st1)"
    and rest: "admit_all be K remaining an cs st1 = Inr (adm1, st')"
    and adm: "adm = (if ok then (i, c) # adm1 else adm1)"
    using Cons.prems p by (auto simp: returns)
  have "ok \<Longrightarrow> ca_id c \<notin> K" using a by (auto simp: admit_call_def)
  moreover have "mset adm1 \<subseteq># add_mset (i, c) (mset cs)"
    using Cons.IH [OF rest] by (metis add_mset_add_single mset_subset_eq_add_left subset_mset.order_trans)
  ultimately show ?case using Cons.IH [OF rest] adm p by simp
qed simp

lemma distinct_by_count: "(\<And>x. count (mset xs) x \<le> 1) \<Longrightarrow> distinct xs"
proof (induction xs)
  case (Cons a xs)
  have "count (mset xs) x \<le> 1" for x using Cons.prems [of x] by (rule order_trans [rotated]) simp
  moreover have "count (mset xs) a = 0" using Cons.prems [of a] by simp
  ultimately show ?case using Cons.IH by (simp add: count_eq_zero_iff)
qed simp

lemma run_batch_order:
  assumes "possible_order n order" "possible_order m order'" "unique_ids K (mset (map snd cs))"
  shows "run_batch be K remaining an order cs st = run_batch be K remaining an order' cs st"
  using assms
proof (induction be K remaining an order cs st rule: run_batch.induct)
  case (2 be K remaining an order i c cs st)
  let ?grp = "(i, c) # takeWhile (parallel_safe be) cs" and ?rest = "dropWhile (parallel_safe be) cs"
  have split: "mset (map snd ((i, c) # cs)) = mset (map snd ?grp) + mset (map snd ?rest)"
    using mset_map_split [of cs "parallel_safe be"] by simp
  have u: "unique_ids K (mset (map snd cs))" "unique_ids K (mset (map snd ?rest))"
    "unique_ids K (mset (map snd ?grp))"
    using unique_ids_mono [OF "2.prems"(3)] split by auto
  have grp: "run_group be an (order i adm) st1 = run_group be an (order' i adm) st1"
    if a: "admit_all be K remaining an ?grp st = Inr (adm, st1)" for adm st1
  proof (rule run_group_order)
    have m: "mset (order i adm) = mset adm" "mset (order' i adm) = mset adm"
      using possible_order_mset "2.prems"(1,2) by blast+
    then show "mset (order i adm) = mset (order' i adm)" by simp
    have "image_mset (ca_id \<circ> snd) (mset adm) \<subseteq># image_mset ca_id (mset (map snd ?grp))"
      using admit_all_subset [OF a] image_mset_subseteq_mono [of "mset adm" "mset ?grp" "ca_id \<circ> snd"]
      by (simp add: multiset.map_comp)
    then have "count (mset (map (ca_id \<circ> snd) adm)) x \<le> 1" for x
    proof (cases "x \<in> K")
      case True
      then have "x \<notin> set (map (ca_id \<circ> snd) adm)" using admit_all_subset [OF a] by auto
      then show ?thesis by (metis count_mset_0_iff le0 less_one nat_le_linear)
    next
      case False
      then show ?thesis
        using u(3) \<open>image_mset (ca_id \<circ> snd) (mset adm) \<subseteq># _\<close>
        by (metis (no_types, lifting) mset_map mset_subset_eq_count order_trans unique_ids_def)
    qed
    then have "distinct (map (ca_id \<circ> snd) adm)" by (rule distinct_by_count)
    then show "distinct (map (ca_id \<circ> snd) (order i adm))"
      using m by (metis mset_eq_imp_distinct_iff mset_map)
  qed
  show ?case
  proof (cases "parallel_safe be (i, c)")
    case False
    then show ?thesis using "2.IH"(1) [OF False "2.prems"(1,2) u(1)]
      by (auto simp: ebind_def split: sum.splits)
  next
    case True
    then show ?thesis using "2.IH"(2) [OF _ "2.prems"(1,2) u(2)] grp
      by (auto simp: ebind_def split: sum.splits)
  qed
qed simp


section \<open>Properties\<close>

lemma attach_receipt:
  assumes "batch_inv be K remaining X {#} st" "c \<in># X" "attach st c = (c', p, executed)"
  shows "c' = c" "p \<noteq> Missing" "p \<noteq> Unavailable" "p = Duplicate_id \<longleftrightarrow> ca_id c \<in> K"
    "executed \<longleftrightarrow> ca_id c \<notin> bt_overflow st \<and> ca_id c \<notin> bt_rejected st"
    "p = Limited \<Longrightarrow> \<not> executed" "p = Duplicate_id \<Longrightarrow> \<not> executed"
    "not_executed (bt_facts st (ca_id c)) \<Longrightarrow> \<not> executed"
proof -
  have cov: "ca_id c \<in> bt_overflow st \<or> bt_results st (ca_id c) \<noteq> None"
    and dup: "ca_id c \<in> K \<Longrightarrow> bt_results st (ca_id c) = Some Duplicate_id \<and>
      ca_id c \<in> bt_rejected st \<and> ca_id c \<notin> bt_overflow st"
    and res: "\<And>r. bt_results st (ca_id c) = Some r \<Longrightarrow>
      ca_id c \<in> K \<and> r = Duplicate_id \<or> ca_id c \<notin> K \<and> (\<exists>t. r = Payload t)"
    and rej: "not_executed (bt_facts st (ca_id c)) \<Longrightarrow> ca_id c \<in> bt_rejected st"
    using assms(1,2) by (simp_all add: batch_inv_def)
  have "c' = c \<and> p \<noteq> Missing \<and> p \<noteq> Unavailable \<and> (p = Duplicate_id \<longleftrightarrow> ca_id c \<in> K) \<and>
    (executed \<longleftrightarrow> ca_id c \<notin> bt_overflow st \<and> ca_id c \<notin> bt_rejected st) \<and>
    (p = Limited \<longrightarrow> \<not> executed) \<and> (p = Duplicate_id \<longrightarrow> \<not> executed)"
  proof (cases "ca_id c \<in> bt_overflow st")
    case True
    then show ?thesis using assms(3) dup by (auto simp: attach_def)
  next
    case False
    then obtain r where "bt_results st (ca_id c) = Some r" using cov by auto
    then show ?thesis using False assms(3) dup res [of r] by (auto simp: attach_def)
  qed
  then show "c' = c" "p \<noteq> Missing" "p \<noteq> Unavailable" "p = Duplicate_id \<longleftrightarrow> ca_id c \<in> K"
    "executed \<longleftrightarrow> ca_id c \<notin> bt_overflow st \<and> ca_id c \<notin> bt_rejected st"
    "p = Limited \<Longrightarrow> \<not> executed" "p = Duplicate_id \<Longrightarrow> \<not> executed"
    "not_executed (bt_facts st (ca_id c)) \<Longrightarrow> \<not> executed"
    using rej by auto
qed

lemma attach_fst [simp]: "fst (attach st c) = c"
  by (simp add: attach_def split: option.split)

lemma attach_spent:
  assumes "batch_inv be K remaining X {#} st" "c \<in># X"
  shows "(case attach st c of (c, _, executed) \<Rightarrow> executed \<and> be_counts be (ca_name c)) \<longleftrightarrow> spent be st c"
proof (cases "attach st c")
  case (fields c' p executed)
  from attach_receipt(1,5) [OF assms fields] fields show ?thesis by (auto simp: spent_def)
qed

lemma batch_count:
  assumes "batch_inv be K remaining (mset calls) {#} st"
  shows "bt_counted st = int (length (filter
      (\<lambda>(c, _, executed). executed \<and> be_counts be (ca_name c)) (map (attach st) calls)))"
proof -
  have "filter (\<lambda>x. case attach st x of (c, _, executed) \<Rightarrow> executed \<and> be_counts be (ca_name c)) calls =
      filter (spent be st) calls"
    using attach_spent [OF assms] by (intro filter_cong) simp_all
  moreover have "bt_counted st = int (length (filter (spent be st) calls))"
    using assms by (simp add: batch_inv_def flip: mset_filter)
  ultimately show ?thesis by (simp add: filter_map comp_def)
qed

lemma execute_batch_inv:
  assumes "execute_batch (Some be) remaining n an order calls = Inr r" "possible_order n order"
  obtains st where "batch_inv be (conflicting_ids {} calls) remaining (mset calls) {#} st"
    "r = \<lparr>tr_calls = map (attach st) calls, tr_executed = bt_counted st, tr_evidence = bt_facts st\<rparr>"
proof -
  let ?K = "conflicting_ids {} calls"
  obtain st where run: "run_batch be ?K remaining an order (enumerate 0 calls) start_batch = Inr st"
    and r: "r = \<lparr>tr_calls = map (attach st) calls, tr_executed = bt_counted st, tr_evidence = bt_facts st\<rparr>"
    and pos: "\<forall>m. remaining = Some m \<longrightarrow> 0 \<le> m"
    using assms(1) by (auto simp: execute_batch_def not_less split: if_splits sum.splits option.splits)
  have u: "unique_ids ?K ({#} + mset (map snd (enumerate 0 calls)))"
    using unconflicted_once [of _ "{}" calls] by (simp add: unique_ids_def del: mset_map)
  from run_batch_inv [OF run assms(2) start_inv [OF pos] u] r that show ?thesis by (simp del: mset_map)
qed

text \<open>
  C29: Every call of a batch gets exactly one receipt, in the model's order, and the budget is
  respected. Calls whose id occurs twice are answered as duplicates and no other call is; a call
  that is answered as over the limit or as a duplicate did not execute; the receipt for a missing
  result never occurs. The number of executions that is reported is the number of calls that
  count towards the limit and are reported as executed, and it is at most what remained; a call
  whose evidence says that it was not executed is reported so.
\<close>

theorem batch_answers_every_call:
  assumes "execute_batch (Some be) remaining n an order calls = Inr r" "possible_order n order"
  shows "map fst (tr_calls r) = calls \<and>
    tr_executed r = int (length (filter (\<lambda>(c, _, executed). executed \<and> be_counts be (ca_name c)) (tr_calls r))) \<and>
    (\<forall>m. remaining = Some m \<longrightarrow> tr_executed r \<le> m) \<and>
    (\<forall>(c, p, executed)\<in>set (tr_calls r). p \<notin> {Missing, Unavailable} \<and>
       (p = Duplicate_id \<longleftrightarrow> ca_id c \<in> conflicting_ids {} calls) \<and>
       (p \<in> {Duplicate_id, Limited} \<longrightarrow> \<not> executed) \<and>
       (not_executed (tr_evidence r (ca_id c)) \<longrightarrow> \<not> executed))"
proof -
  obtain st where inv: "batch_inv be (conflicting_ids {} calls) remaining (mset calls) {#} st"
    and r: "r = \<lparr>tr_calls = map (attach st) calls, tr_executed = bt_counted st, tr_evidence = bt_facts st\<rparr>"
    using execute_batch_inv [OF assms] .
  have "map fst (map (attach st) calls) = calls" by (simp add: comp_def)
  moreover have "\<forall>m. remaining = Some m \<longrightarrow> bt_counted st \<le> m" using inv unfolding batch_inv_def by blast
  moreover have "case attach st c of (c, p, executed) \<Rightarrow> p \<notin> {Missing, Unavailable} \<and>
       (p = Duplicate_id \<longleftrightarrow> ca_id c \<in> conflicting_ids {} calls) \<and>
       (p \<in> {Duplicate_id, Limited} \<longrightarrow> \<not> executed) \<and>
       (not_executed (bt_facts st (ca_id c)) \<longrightarrow> \<not> executed)" if "c \<in> set calls" for c
  proof (cases "attach st c")
    case (fields c' p executed)
    have c: "c \<in># mset calls" using that by simp
    note [simp] = fields attach_receipt(1) [OF inv c fields]
    show ?thesis using attach_receipt(2-8) [OF inv c fields] by auto
  qed
  ultimately show ?thesis using batch_count [OF inv] by (simp add: r)
qed

text \<open>
  The outcome of a batch does not depend on the order in which the concurrent calls of a
  stretch finish, nor on how many of them may run at once: for the same answers of the outside
  every limit on parallelism and every order the semaphore allows give the same receipts, the
  same count and the same evidence, and the batch raises in all of them or in none.
\<close>

theorem batch_order_irrelevant:
  assumes "0 < n" "0 < m" "possible_order n order" "possible_order m order'"
  shows "execute_batch backend remaining n an order calls =
    execute_batch backend remaining m an order' calls"
proof -
  have "unique_ids (conflicting_ids {} calls) (mset (map snd (enumerate 0 calls)))"
    using unconflicted_once [of _ "{}" calls] by (simp add: unique_ids_def del: mset_map)
  from run_batch_order [OF assms(3,4) this] show ?thesis
    using assms(1,2) by (simp add: execute_batch_def split: option.split)
qed

section \<open>Examples\<close>

definition ex_calls :: "chat_call list" where
  "ex_calls = [\<lparr>ca_id = ''1'', ca_name = ''search'', ca_arguments = []\<rparr>,
     \<lparr>ca_id = ''2'', ca_name = ''search'', ca_arguments = []\<rparr>,
     \<lparr>ca_id = ''3'', ca_name = ''send'', ca_arguments = []\<rparr>,
     \<lparr>ca_id = ''4'', ca_name = ''search'', ca_arguments = []\<rparr>,
     \<lparr>ca_id = ''4'', ca_name = ''search'', ca_arguments = []\<rparr>]"

definition ex_backend :: backend where
  "ex_backend = \<lparr>be_safe = (\<lambda>n. n = ''search''), be_counts = (\<lambda>n. True)\<rparr>"

definition ex_answers :: answers where
  "ex_answers = \<lparr>an_gate = (\<lambda>i. Inr None),
     an_run = (\<lambda>i. Inr (''ok'', if i = 0 then Some (JObj [(''executed'', JBool False)]) else None))\<rparr>"

text \<open>Two reads, of which one is not executed and gives its slot back, a delivery, and a duplicate id.\<close>

definition ex_result :: batch_result where
  "ex_result = \<lparr>tr_calls = zip ex_calls [(Payload ''ok'', False), (Payload ''ok'', True), (Payload ''ok'', True),
       (Duplicate_id, False), (Duplicate_id, False)], tr_executed = 2,
     tr_evidence = [''1'' \<mapsto> JObj [(''executed'', JBool False)]]\<rparr>"

lemmas ex_batch_defs = ex_calls_def ex_backend_def ex_answers_def ex_result_def execute_batch_def
  start_batch_def admit_call_def run_group_def finish_call_def parallel_safe_def attach_def Let_def not_executed_def

lemma ex_batch: "execute_batch (Some ex_backend) (Some 2) 4 ex_answers (\<lambda>i tasks. tasks) ex_calls = Inr ex_result"
  by (auto simp: ex_batch_defs)

theorem batch_answers_every_call_witness:
  "tr_executed ex_result \<le> 2 \<and> map fst (tr_calls ex_result) = ex_calls"
  using batch_answers_every_call [OF ex_batch in_order_possible] by simp


fun swap_pair :: "'a list \<Rightarrow> 'a list" where
  "swap_pair [x, y] = [y, x]"
| "swap_pair xs = xs"

lemma swap_pair_possible: "possible_order 2 (\<lambda>i. swap_pair)"
  unfolding possible_order_def
proof (intro allI)
  fix tasks :: "'a list"
  show "group_run 2 (tasks, [], []) ([], [], swap_pair tasks)"
  proof (cases tasks rule: swap_pair.cases)
    case (1 x y)
    have "group_step 2 ([x, y], [], []) ([y], [x], [])" "group_step 2 ([y], [x], []) ([], [x, y], [])"
      using group_step.start [of "[]" 2 x "[y]" "[]"] group_step.start [of "[x]" 2 y "[]" "[]"] by simp_all
    moreover have "group_step 2 ([], [x, y], []) ([], [x], [y])" "group_step 2 ([], [x], [y]) ([], [], [y, x])"
      using group_step.finish [of 2 "[]" "[x]" y "[]" "[]"] group_step.finish [of 2 "[]" "[]" x "[]" "[y]"]
      by simp_all
    ultimately show ?thesis using 1 by (simp add: group_run.stay group_run.step)
      (meson group_run.intros)
  qed (use in_order_possible [of 2] in \<open>auto simp: possible_order_def\<close>)
qed

theorem batch_order_irrelevant_witness:
  "execute_batch (Some ex_backend) (Some 2) 1 ex_answers (\<lambda>i tasks. tasks) ex_calls =
   execute_batch (Some ex_backend) (Some 2) 2 ex_answers (\<lambda>i. swap_pair) ex_calls"
  by (rule batch_order_irrelevant [OF _ _ in_order_possible swap_pair_possible]) simp_all

end
