(* ===== verification/Rate_Limit.thy ===== *)
theory Rate_Limit
  imports Yuki_Prelude
begin

text \<open>
  The two in-memory sliding-window limiters: \<open>services/rate_limit.py\<close> (commands and chat,
  one table of buckets keyed by category, scope and id) and \<open>services/vision_rate_limit.py\<close>
  (billable vision calls, one table per scope). Buckets are the admission times in order. The
  code prunes a stored deque in place, so a refused call still leaves the pruned buckets behind.
  The locale \<open>window_store\<close> is the contract of a bucket store; both limiters are proved
  to decide exactly like \<open>spec_run\<close>, which keeps the whole log of admissions and counts.
\<close>

section \<open>Buckets\<close>

definition prune :: "rat \<Rightarrow> rat list \<Rightarrow> rat list" where
  "prune cutoff bucket = dropWhile (\<lambda>t. t \<le> cutoff) bucket"

definition get_bucket :: "('k \<times> rat list) list \<Rightarrow> 'k \<Rightarrow> rat list" where
  "get_bucket m k = (case map_of m k of None \<Rightarrow> [] | Some b \<Rightarrow> b)"

definition prune_bucket :: "rat \<Rightarrow> 'k \<Rightarrow> ('k \<times> rat list) list \<Rightarrow> ('k \<times> rat list) list" where
  "prune_bucket cutoff k m = AList.map_entry k (prune cutoff) m"

definition push_bucket :: "rat \<Rightarrow> 'k \<Rightarrow> ('k \<times> rat list) list \<Rightarrow> ('k \<times> rat list) list" where
  "push_bucket now k m = AList.update k (get_bucket m k @ [now]) m"

definition sweep_buckets :: "rat \<Rightarrow> ('k \<times> rat list) list \<Rightarrow> ('k \<times> rat list) list" where
  "sweep_buckets cutoff m =
     filter (\<lambda>kv. snd kv \<noteq> []) (map (\<lambda>kv. (fst kv, prune cutoff (snd kv))) m)"

section \<open>The command and chat limiter\<close>

type_synonym scope_key = "string \<times> string \<times> string"

record limits =
  per_user :: int
  per_group :: int
  window_seconds :: rat

record limiter =
  lm_buckets :: "(scope_key \<times> rat list) list"
  lm_next :: rat

record call =
  cl_now :: rat
  cl_user :: string
  cl_group :: "string option"
  cl_category :: string

definition user_key :: "call \<Rightarrow> scope_key" where
  "user_key c = (cl_category c, ''user'', cl_user c)"

definition group_key :: "call \<Rightarrow> string \<Rightarrow> scope_key" where
  "group_key c g = (cl_category c, ''group'', g)"

definition new_limiter :: "limits \<Rightarrow> rat \<Rightarrow> limiter" where
  "new_limiter cfg now = \<lparr>lm_buckets = [], lm_next = now + window_seconds cfg\<rparr>"

definition swept :: "limits \<Rightarrow> rat \<Rightarrow> limiter \<Rightarrow> limiter" where
  "swept cfg now s =
     (if now \<ge> lm_next s then
        \<lparr>lm_buckets = sweep_buckets (now - window_seconds cfg) (lm_buckets s),
         lm_next = now + window_seconds cfg\<rparr>
      else s)"

text \<open>The result is the refusing scope, if any; \<open>None\<close> admits the call.\<close>

definition check :: "limits \<Rightarrow> limiter \<Rightarrow> call \<Rightarrow> string option \<times> limiter" where
  "check cfg s0 c =
     (let now = cl_now c; cutoff = now - window_seconds cfg;
          s = swept cfg now s0;
          m1 = prune_bucket cutoff (user_key c) (lm_buckets s);
          users = prune cutoff (get_bucket (lm_buckets s) (user_key c))
      in if int (length users) \<ge> per_user cfg then (Some ''user'', s\<lparr>lm_buckets := m1\<rparr>)
         else case cl_group c of
           None \<Rightarrow> (None, s\<lparr>lm_buckets := AList.update (user_key c) (users @ [now]) m1\<rparr>)
         | Some g \<Rightarrow>
             (let m2 = prune_bucket cutoff (group_key c g) m1;
                  groups = prune cutoff (get_bucket m1 (group_key c g))
              in if int (length groups) \<ge> per_group cfg then (Some ''group'', s\<lparr>lm_buckets := m2\<rparr>)
                 else (None, s\<lparr>lm_buckets := AList.update (group_key c g) (groups @ [now])
                                 (AList.update (user_key c) (users @ [now]) m2)\<rparr>)))"

section \<open>The vision limiter\<close>

record vision_limiter =
  vl_users :: "(string \<times> rat list) list"
  vl_groups :: "(string \<times> rat list) list"
  vl_next :: rat

definition new_vision :: "rat \<Rightarrow> vision_limiter" where
  "new_vision now = \<lparr>vl_users = [], vl_groups = [], vl_next = now + 60\<rparr>"

definition vision_swept :: "rat \<Rightarrow> vision_limiter \<Rightarrow> vision_limiter" where
  "vision_swept now s =
     (if now \<ge> vl_next s then
        \<lparr>vl_users = sweep_buckets (now - 60) (vl_users s),
         vl_groups = sweep_buckets (now - 60) (vl_groups s), vl_next = now + 60\<rparr>
      else s)"

definition allow :: "int \<Rightarrow> int \<Rightarrow> vision_limiter \<Rightarrow> call \<Rightarrow> bool \<times> vision_limiter" where
  "allow users_max groups_max s0 c =
     (let now = cl_now c; cutoff = now - 60;
          s = vision_swept now s0;
          users = prune cutoff (get_bucket (vl_users s) (cl_user c));
          groups = map_option (\<lambda>g. prune cutoff (get_bucket (vl_groups s) g)) (cl_group c);
          s1 = s\<lparr>vl_users := prune_bucket cutoff (cl_user c) (vl_users s),
                 vl_groups := (case cl_group c of None \<Rightarrow> vl_groups s
                               | Some g \<Rightarrow> prune_bucket cutoff g (vl_groups s))\<rparr>
      in if int (length users) \<ge> users_max then (False, s1)
         else if (case groups of None \<Rightarrow> False | Some b \<Rightarrow> int (length b) \<ge> groups_max) then (False, s1)
         else (True, s1\<lparr>vl_users := AList.update (cl_user c) (users @ [now]) (vl_users s1),
                 vl_groups := (case (cl_group c, groups) of
                    (Some g, Some b) \<Rightarrow> AList.update g (b @ [now]) (vl_groups s1)
                  | _ \<Rightarrow> vl_groups s1)\<rparr>))"

section \<open>Specification: the whole log\<close>

text \<open>
  A request names the keys it draws on, each with its limit. It is admitted when every key has
  fewer admissions in the last \<open>window\<close> seconds than its limit.
\<close>

type_synonym 'k request = "rat \<times> ('k \<times> int) list"
type_synonym 'k admissions = "(rat \<times> 'k list) list"

definition times_of :: "'k admissions \<Rightarrow> 'k \<Rightarrow> rat list" where
  "times_of hist k = map fst (filter (\<lambda>e. k \<in> set (snd e)) hist)"

definition in_window :: "rat \<Rightarrow> rat \<Rightarrow> rat list \<Rightarrow> nat" where
  "in_window window now ts = length (filter (\<lambda>t. now - window < t \<and> t \<le> now) ts)"

definition spec_admits :: "rat \<Rightarrow> 'k admissions \<Rightarrow> 'k request \<Rightarrow> bool" where
  "spec_admits window hist r \<longleftrightarrow>
     list_all (\<lambda>(k, n). int (in_window window (fst r) (times_of hist k)) < n) (snd r)"

definition spec_log :: "rat \<Rightarrow> 'k admissions \<Rightarrow> 'k request \<Rightarrow> 'k admissions" where
  "spec_log window hist r = (if spec_admits window hist r then hist @ [(fst r, map fst (snd r))] else hist)"

fun spec_run :: "rat \<Rightarrow> 'k admissions \<Rightarrow> 'k request list \<Rightarrow> bool list \<times> 'k admissions" where
  "spec_run window hist [] = ([], hist)"
| "spec_run window hist (r # rs) =
     (case spec_run window (spec_log window hist r) rs of
        (bs, hist') \<Rightarrow> (spec_admits window hist r # bs, hist'))"

section \<open>The contract of a bucket store\<close>

locale window_store =
  fixes ok :: "'s \<Rightarrow> bool"
    and bucket :: "'s \<Rightarrow> 'k \<Rightarrow> rat list"
    and trim :: "rat \<Rightarrow> 'k \<Rightarrow> 's \<Rightarrow> 's"
    and push :: "rat \<Rightarrow> 'k \<Rightarrow> 's \<Rightarrow> 's"
    and sweep :: "rat \<Rightarrow> 's \<Rightarrow> 's"
  assumes ok_trim: "ok s \<Longrightarrow> ok (trim c k s)"
    and ok_push: "ok s \<Longrightarrow> ok (push t k s)"
    and ok_sweep: "ok s \<Longrightarrow> ok (sweep c s)"
    and bucket_trim: "ok s \<Longrightarrow> bucket (trim c k s) k' = (if k' = k then prune c (bucket s k) else bucket s k')"
    and bucket_push: "ok s \<Longrightarrow> bucket (push t k s) k' = (if k' = k then bucket s k @ [t] else bucket s k')"
    and bucket_sweep: "ok s \<Longrightarrow> bucket (sweep c s) k' = prune c (bucket s k')"
begin

text \<open>The store represents a log up to admissions older than the bound.\<close>

definition represents :: "rat \<Rightarrow> 's \<Rightarrow> 'k admissions \<Rightarrow> bool" where
  "represents bound s hist \<longleftrightarrow> ok s \<and> sorted (map fst hist) \<and>
     (\<forall>k. \<exists>c\<le>bound. bucket s k = prune c (times_of hist k))"

lemma prune_prune: "c \<le> c' \<Longrightarrow> prune c' (prune c ts) = prune c' ts"
  by (induction ts) (auto simp: prune_def)

lemma represents_later: "represents b s hist \<Longrightarrow> b \<le> b' \<Longrightarrow> represents b' s hist"
  unfolding represents_def by (meson order_trans)

lemma represents_prune: "represents b s hist \<Longrightarrow> b \<le> c \<Longrightarrow> prune c (bucket s k) = prune c (times_of hist k)"
  unfolding represents_def by (metis order_trans prune_prune)

lemma represents_trim: "represents b s hist \<Longrightarrow> b \<le> c \<Longrightarrow> represents c (trim c k s) hist"
  unfolding represents_def
  by (metis bucket_trim ok_trim order_refl order_trans prune_prune)

lemma represents_push:
  assumes "represents c s hist" "distinct ks" "c < t" "\<forall>e\<in>set hist. fst e \<le> t"
  shows "represents c (fold (push t) ks s) (hist @ [(t, ks)])"
proof -
  have "ok (fold (push t) ks s) \<and>
      (\<forall>k. bucket (fold (push t) ks s) k = (if k \<in> set ks then bucket s k @ [t] else bucket s k))"
    if "ok s" for s
    using that assms(2)
  proof (induction ks arbitrary: s)
    case (Cons a ks)
    then show ?case using ok_push bucket_push by auto
  qed simp
  moreover have "prune d (times_of (hist @ [(t, ks)]) k) =
      (if k \<in> set ks then prune d (times_of hist k) @ [t] else prune d (times_of hist k))"
    if "d \<le> c" for d k
    using that assms(3) unfolding times_of_def prune_def
    by (induction hist) auto
  moreover have "sorted (map fst (hist @ [(t, ks)]))"
    using assms(1,4) by (auto simp: represents_def sorted_append)
  ultimately show ?thesis
    using assms(1) unfolding represents_def by metis
qed

lemma represents_sweep: "represents b s hist \<Longrightarrow> b \<le> c \<Longrightarrow> represents c (sweep c s) hist"
  unfolding represents_def by (metis bucket_sweep ok_sweep order_refl order_trans prune_prune)

end

lemma get_bucket_trim:
  "get_bucket (prune_bucket c k m) k' = (if k' = k then prune c (get_bucket m k) else get_bucket m k')"
  by (cases "map_of m k") (simp_all add: prune_bucket_def get_bucket_def map_of_map_entry prune_def)

lemma get_bucket_push:
  "get_bucket (push_bucket t k m) k' = (if k' = k then get_bucket m k @ [t] else get_bucket m k')"
  by (simp add: push_bucket_def get_bucket_def update_conv)

lemma get_bucket_update:
  "get_bucket (AList.update k b m) k' = (if k' = k then b else get_bucket m k')"
  by (simp add: get_bucket_def update_conv)

lemma get_bucket_absent: "k \<notin> fst ` set m \<Longrightarrow> get_bucket m k = []"
  by (metis get_bucket_def map_of_eq_None_iff option.case(1))

lemma get_bucket_Cons: "get_bucket ((k', b) # m) k = (if k = k' then b else get_bucket m k)"
  by (simp add: get_bucket_def)

lemma sweep_buckets_keys: "fst ` set (sweep_buckets c m) \<subseteq> fst ` set m"
  by (force simp: sweep_buckets_def)

lemma get_bucket_sweep:
  "distinct (map fst m) \<Longrightarrow> get_bucket (sweep_buckets c m) k = prune c (get_bucket m k)"
proof (induction m)
  case Nil
  then show ?case by (simp add: sweep_buckets_def get_bucket_def prune_def)
next
  case (Cons kv m)
  obtain k' b where kv: "kv = (k', b)" by fastforce
  have "sweep_buckets c (kv # m) =
      (if prune c b = [] then sweep_buckets c m else (k', prune c b) # sweep_buckets c m)"
    by (simp add: sweep_buckets_def kv)
  moreover have "k = k' \<Longrightarrow> get_bucket (sweep_buckets c m) k = []"
    using Cons.prems sweep_buckets_keys [of c m] by (intro get_bucket_absent) (auto simp: kv)
  ultimately show ?case
    using Cons by (simp add: kv get_bucket_Cons)
qed

lemma sweep_buckets_distinct: "distinct (map fst m) \<Longrightarrow> distinct (map fst (sweep_buckets c m))"
  unfolding sweep_buckets_def by (rule distinct_map_filter) (simp add: comp_def)

interpretation buckets: window_store "\<lambda>m. distinct (map fst m)" get_bucket prune_bucket push_bucket
  sweep_buckets
proof (unfold_locales, goal_cases)
  case (1 m c k)
  then show ?case by (simp add: prune_bucket_def distinct_map_entry)
next
  case (2 m t k)
  then show ?case by (simp add: push_bucket_def distinct_update)
next
  case (3 m c)
  then show ?case by (rule sweep_buckets_distinct)
qed (simp_all add: get_bucket_trim get_bucket_push get_bucket_sweep)

definition vision_bucket :: "vision_limiter \<Rightarrow> string + string \<Rightarrow> rat list" where
  "vision_bucket s k = (case k of Inl u \<Rightarrow> get_bucket (vl_users s) u | Inr g \<Rightarrow> get_bucket (vl_groups s) g)"

definition vision_trim :: "rat \<Rightarrow> string + string \<Rightarrow> vision_limiter \<Rightarrow> vision_limiter" where
  "vision_trim c k s =
     (case k of Inl u \<Rightarrow> s\<lparr>vl_users := prune_bucket c u (vl_users s)\<rparr>
      | Inr g \<Rightarrow> s\<lparr>vl_groups := prune_bucket c g (vl_groups s)\<rparr>)"

definition vision_push :: "rat \<Rightarrow> string + string \<Rightarrow> vision_limiter \<Rightarrow> vision_limiter" where
  "vision_push t k s =
     (case k of Inl u \<Rightarrow> s\<lparr>vl_users := push_bucket t u (vl_users s)\<rparr>
      | Inr g \<Rightarrow> s\<lparr>vl_groups := push_bucket t g (vl_groups s)\<rparr>)"

definition vision_sweep :: "rat \<Rightarrow> vision_limiter \<Rightarrow> vision_limiter" where
  "vision_sweep c s = s\<lparr>vl_users := sweep_buckets c (vl_users s), vl_groups := sweep_buckets c (vl_groups s)\<rparr>"

definition vision_ok :: "vision_limiter \<Rightarrow> bool" where
  "vision_ok s \<longleftrightarrow> distinct (map fst (vl_users s)) \<and> distinct (map fst (vl_groups s))"

interpretation vision: window_store vision_ok vision_bucket vision_trim vision_push vision_sweep
proof (unfold_locales, goal_cases)
  case (4 s c k k')
  then show ?case
    by (cases k; cases k') (simp_all add: vision_bucket_def vision_trim_def get_bucket_trim)
next
  case (5 s t k k')
  then show ?case
    by (cases k; cases k') (simp_all add: vision_bucket_def vision_push_def get_bucket_push)
next
  case (6 s c k')
  then show ?case
    by (cases k') (simp_all add: vision_ok_def vision_bucket_def vision_sweep_def get_bucket_sweep)
qed (auto simp: vision_ok_def vision_trim_def vision_push_def vision_sweep_def prune_bucket_def
    push_bucket_def distinct_map_entry distinct_update sweep_buckets_distinct split: sum.split)

section \<open>The limiters decide like the specification\<close>

lemma prune_sorted: "sorted ts \<Longrightarrow> prune c ts = filter (\<lambda>t. c < t) ts"
proof (induction ts)
  case (Cons a ts)
  then show ?case by (auto simp: prune_def not_le intro!: filter_True [symmetric])
qed (simp add: prune_def)

lemma sorted_times: "sorted (map fst hist) \<Longrightarrow> sorted (times_of hist k)"
  by (induction hist) (auto simp: times_of_def)

lemma in_window_prune:
  assumes "sorted (map fst hist)" "\<forall>e\<in>set hist. fst e \<le> now"
  shows "length (prune (now - w) (times_of hist k)) = in_window w now (times_of hist k)"
proof -
  have "\<forall>t\<in>set (times_of hist k). t \<le> now" using assms(2) by (auto simp: times_of_def)
  then have "filter (\<lambda>t. now - w < t) (times_of hist k) =
      filter (\<lambda>t. now - w < t \<and> t \<le> now) (times_of hist k)" by (intro filter_cong) auto
  then show ?thesis
    by (simp add: prune_sorted [OF sorted_times [OF assms(1)]] in_window_def)
qed

definition check_request :: "limits \<Rightarrow> call \<Rightarrow> scope_key request" where
  "check_request cfg c = (cl_now c, (user_key c, per_user cfg) #
     (case cl_group c of None \<Rightarrow> [] | Some g \<Rightarrow> [(group_key c g, per_group cfg)]))"

definition allow_request :: "int \<Rightarrow> int \<Rightarrow> call \<Rightarrow> (string + string) request" where
  "allow_request users_max groups_max c = (cl_now c, (Inl (cl_user c), users_max) #
     (case cl_group c of None \<Rightarrow> [] | Some g \<Rightarrow> [(Inr g, groups_max)]))"

lemma keys_differ [simp]: "user_key c \<noteq> group_key c' g" "group_key c' g \<noteq> user_key c"
  by (simp_all add: user_key_def group_key_def)

lemma swept_represents:
  assumes "buckets.represents b (lm_buckets s) hist" "b \<le> cl_now c - window_seconds cfg"
  shows "buckets.represents (cl_now c - window_seconds cfg) (lm_buckets (swept cfg (cl_now c) s)) hist"
  using assms buckets.represents_sweep buckets.represents_later by (auto simp: swept_def)

lemma check_step:
  assumes rep: "buckets.represents b (lm_buckets s0) hist" and w: "0 < window_seconds cfg"
    and b: "b \<le> cl_now c - window_seconds cfg" and past: "\<forall>e\<in>set hist. fst e \<le> cl_now c"
    and res: "check cfg s0 c = (r, s')"
  shows "(r = None) = spec_admits (window_seconds cfg) hist (check_request cfg c) \<and>
    buckets.represents (cl_now c - window_seconds cfg) (lm_buckets s')
      (spec_log (window_seconds cfg) hist (check_request cfg c))"
proof -
  let ?now = "cl_now c" and ?c = "cl_now c - window_seconds cfg" and ?u = "user_key c"
  let ?m = "lm_buckets (swept cfg ?now s0)"
  let ?m1 = "prune_bucket ?c ?u ?m"
  have m: "buckets.represents ?c ?m hist" by (rule swept_represents [OF rep b])
  have sorted: "sorted (map fst hist)" using rep by (simp add: buckets.represents_def)
  have len: "length (prune ?c (times_of hist k)) = in_window (window_seconds cfg) ?now (times_of hist k)" for k
    by (rule in_window_prune [OF sorted past])
  have users: "prune ?c (get_bucket ?m ?u) = prune ?c (times_of hist ?u)"
    by (rule buckets.represents_prune [OF m]) simp
  have m1: "buckets.represents ?c ?m1 hist" by (rule buckets.represents_trim [OF m]) simp
  show ?thesis
  proof (cases "int (length (prune ?c (times_of hist ?u))) \<ge> per_user cfg")
    case True
    then have "r = Some ''user''" "lm_buckets s' = ?m1"
      using res users by (auto simp: check_def Let_def)
    moreover have "\<not> spec_admits (window_seconds cfg) hist (check_request cfg c)"
      using True len by (simp add: spec_admits_def check_request_def)
    ultimately show ?thesis using m1 by (simp add: spec_log_def)
  next
    case False
    note free = this
    have get_u: "get_bucket ?m1 ?u = prune ?c (times_of hist ?u)"
      using users by (simp add: get_bucket_trim)
    show ?thesis
    proof (cases "cl_group c")
      case None
      then have "r = None" "lm_buckets s' = push_bucket ?now ?u ?m1"
        using res users free get_u by (auto simp: check_def Let_def push_bucket_def)
      moreover have "spec_admits (window_seconds cfg) hist (check_request cfg c)"
        using free len None by (simp add: spec_admits_def check_request_def)
      moreover have "buckets.represents ?c (fold (push_bucket ?now) [?u] ?m1) (hist @ [(?now, [?u])])"
        using m1 w past by (intro buckets.represents_push) auto
      ultimately show ?thesis by (simp add: spec_log_def check_request_def None)
    next
      case (Some g)
      let ?g = "group_key c g"
      let ?m2 = "prune_bucket ?c ?g ?m1"
      have groups: "prune ?c (get_bucket ?m1 ?g) = prune ?c (times_of hist ?g)"
        by (rule buckets.represents_prune [OF m1]) simp
      have m2: "buckets.represents ?c ?m2 hist" by (rule buckets.represents_trim [OF m1]) simp
      show ?thesis
      proof (cases "int (length (prune ?c (times_of hist ?g))) \<ge> per_group cfg")
        case True
        then have "r = Some ''group''" "lm_buckets s' = ?m2"
          using res users groups free Some by (auto simp: check_def Let_def)
        moreover have "\<not> spec_admits (window_seconds cfg) hist (check_request cfg c)"
          using True len Some by (simp add: spec_admits_def check_request_def)
        ultimately show ?thesis using m2 by (simp add: spec_log_def)
      next
        case False
        have "r = None" and s': "lm_buckets s' = AList.update ?g (prune ?c (times_of hist ?g) @ [?now])
            (AList.update ?u (prune ?c (times_of hist ?u) @ [?now]) ?m2)"
          using res users groups free False Some by (auto simp: check_def Let_def)
        moreover have "spec_admits (window_seconds cfg) hist (check_request cfg c)"
          using free False len Some by (simp add: spec_admits_def check_request_def)
        moreover have "lm_buckets s' = fold (push_bucket ?now) [?u, ?g] ?m2"
          using get_u groups by (simp add: s' push_bucket_def get_bucket_trim get_bucket_update)
        moreover have "buckets.represents ?c (fold (push_bucket ?now) [?u, ?g] ?m2) (hist @ [(?now, [?u, ?g])])"
          using m2 w past by (intro buckets.represents_push) auto
        ultimately show ?thesis by (simp add: spec_log_def check_request_def Some)
      qed
    qed
  qed
qed

lemma vision_step:
  assumes rep: "vision.represents b s0 hist" and b: "b \<le> cl_now c - 60"
    and past: "\<forall>e\<in>set hist. fst e \<le> cl_now c" and res: "allow un gn s0 c = (r, s')"
  shows "r = spec_admits 60 hist (allow_request un gn c) \<and>
    vision.represents (cl_now c - 60) s' (spec_log 60 hist (allow_request un gn c))"
proof -
  let ?now = "cl_now c" and ?c = "cl_now c - 60"
  let ?s = "vision_swept ?now s0" and ?u = "Inl (cl_user c) :: string + string"
  have s: "vision.represents ?c ?s hist"
  proof (cases "?now \<ge> vl_next s0")
    case True
    have eq: "?s = (vision_sweep ?c s0)\<lparr>vl_next := ?now + 60\<rparr>"
      using True by (simp add: vision_swept_def vision_sweep_def)
    have "vision.represents ?c (vision_sweep ?c s0) hist"
      by (rule vision.represents_sweep [OF rep b])
    moreover have "vision_bucket (x\<lparr>vl_next := n\<rparr>) = vision_bucket x"
      "vision_ok (x\<lparr>vl_next := n\<rparr>) = vision_ok x" for x n
      by (simp_all add: vision_bucket_def vision_ok_def fun_eq_iff split: sum.split)
    ultimately show ?thesis unfolding eq vision.represents_def by metis
  next
    case False
    then show ?thesis using vision.represents_later [OF rep b] by (simp add: vision_swept_def)
  qed
  have sorted: "sorted (map fst hist)" using rep by (simp add: vision.represents_def)
  have len: "length (prune ?c (times_of hist k)) = in_window 60 ?now (times_of hist k)" for k
    by (rule in_window_prune [OF sorted past])
  have bk: "prune ?c (vision_bucket ?s k) = prune ?c (times_of hist k)" for k
    by (rule vision.represents_prune [OF s]) simp
  note bu = bk [of ?u, unfolded vision_bucket_def, simplified]
  have t1: "vision.represents ?c (vision_trim ?c ?u ?s) hist"
    by (rule vision.represents_trim [OF s]) simp
  show ?thesis
  proof (cases "cl_group c")
    case None
    have "r = (int (length (prune ?c (times_of hist ?u))) < un)"
      "s' = (if r then vision_push ?now ?u (vision_trim ?c ?u ?s) else vision_trim ?c ?u ?s)"
      using res bu None by (auto simp: allow_def Let_def vision_trim_def vision_push_def
          push_bucket_def get_bucket_trim split: if_splits)
    moreover have "vision.represents ?c (fold (vision_push ?now) [?u] (vision_trim ?c ?u ?s)) (hist @ [(?now, [?u])])"
      using t1 past by (intro vision.represents_push) auto
    ultimately show ?thesis
      using t1 None len by (simp add: spec_admits_def spec_log_def allow_request_def)
  next
    case (Some g)
    let ?g = "Inr g :: string + string"
    let ?t = "vision_trim ?c ?g (vision_trim ?c ?u ?s)"
    note bg = bk [of ?g, unfolded vision_bucket_def, simplified]
    have t2: "vision.represents ?c ?t hist"
      by (rule vision.represents_trim [OF t1]) simp
    have "r = (int (length (prune ?c (times_of hist ?u))) < un \<and>
        int (length (prune ?c (times_of hist ?g))) < gn)"
      "s' = (if r then fold (vision_push ?now) [?u, ?g] ?t else ?t)"
      using res bu bg Some by (auto simp: allow_def Let_def vision_trim_def vision_push_def
          push_bucket_def get_bucket_trim split: if_splits)
    moreover have "vision.represents ?c (fold (vision_push ?now) [?u, ?g] ?t) (hist @ [(?now, [?u, ?g])])"
      using t2 past by (intro vision.represents_push) auto
    ultimately show ?thesis
      using t2 Some len by (simp add: spec_admits_def spec_log_def allow_request_def)
  qed
qed

section \<open>Runs\<close>

fun check_run :: "limits \<Rightarrow> limiter \<Rightarrow> call list \<Rightarrow> bool list" where
  "check_run cfg s [] = []"
| "check_run cfg s (c # cs) = (case check cfg s c of (r, s') \<Rightarrow> (r = None) # check_run cfg s' cs)"

fun allow_run :: "int \<Rightarrow> int \<Rightarrow> vision_limiter \<Rightarrow> call list \<Rightarrow> bool list" where
  "allow_run un gn s [] = []"
| "allow_run un gn s (c # cs) = (case allow un gn s c of (r, s') \<Rightarrow> r # allow_run un gn s' cs)"

lemma check_run_spec:
  assumes "buckets.represents b (lm_buckets s) hist" "0 < window_seconds cfg"
    and "sorted (map cl_now cs)" "\<forall>c\<in>set cs. b \<le> cl_now c - window_seconds cfg"
    and "\<forall>c\<in>set cs. \<forall>e\<in>set hist. fst e \<le> cl_now c"
  shows "check_run cfg s cs = fst (spec_run (window_seconds cfg) hist (map (check_request cfg) cs))"
  using assms
proof (induction cs arbitrary: b s hist)
  case (Cons c cs)
  obtain r s' where r: "check cfg s c = (r, s')" by fastforce
  let ?h = "spec_log (window_seconds cfg) hist (check_request cfg c)"
  have step: "(r = None) = spec_admits (window_seconds cfg) hist (check_request cfg c)"
    "buckets.represents (cl_now c - window_seconds cfg) (lm_buckets s') ?h"
    using check_step [OF Cons.prems(1,2) _ _ r] Cons.prems by auto
  have "check_run cfg s' cs = fst (spec_run (window_seconds cfg) ?h (map (check_request cfg) cs))"
    by (rule Cons.IH [OF step(2)])
      (use Cons.prems in \<open>auto simp: spec_log_def check_request_def split: if_splits\<close>)
  then show ?case using step(1) by (simp add: r case_prod_beta)
qed simp

lemma allow_run_spec:
  assumes "vision.represents b s hist" "sorted (map cl_now cs)" "\<forall>c\<in>set cs. b \<le> cl_now c - 60"
    and "\<forall>c\<in>set cs. \<forall>e\<in>set hist. fst e \<le> cl_now c"
  shows "allow_run un gn s cs = fst (spec_run 60 hist (map (allow_request un gn) cs))"
  using assms
proof (induction cs arbitrary: b s hist)
  case (Cons c cs)
  obtain r s' where r: "allow un gn s c = (r, s')" by fastforce
  let ?h = "spec_log 60 hist (allow_request un gn c)"
  have step: "r = spec_admits 60 hist (allow_request un gn c)"
    "vision.represents (cl_now c - 60) s' ?h"
    using vision_step [OF Cons.prems(1) _ _ r] Cons.prems by auto
  have "allow_run un gn s' cs = fst (spec_run 60 ?h (map (allow_request un gn) cs))"
    by (rule Cons.IH [OF step(2)])
      (use Cons.prems in \<open>auto simp: spec_log_def allow_request_def split: if_splits\<close>)
  then show ?case using step(1) by (simp add: r case_prod_beta)
qed simp

section \<open>The specification respects its limits\<close>

definition span :: "rat \<Rightarrow> rat \<Rightarrow> rat list \<Rightarrow> nat" where
  "span w t ts = length (filter (\<lambda>x. t < x \<and> x \<le> t + w) ts)"

definition limited :: "'k \<Rightarrow> int \<Rightarrow> 'k request list \<Rightarrow> bool" where
  "limited k n rs \<longleftrightarrow> (\<forall>r\<in>set rs. \<forall>p\<in>set (snd r). fst p = k \<longrightarrow> snd p = n)"

lemma spec_log_bound:
  assumes "\<forall>t. span w t (times_of hist k) \<le> nat n" "\<forall>e\<in>set hist. fst e \<le> fst r"
    and "\<forall>p\<in>set (snd r). fst p = k \<longrightarrow> snd p = n"
  shows "span w t (times_of (spec_log w hist r) k) \<le> nat n"
proof (cases "spec_admits w hist r \<and> k \<in> fst ` set (snd r)")
  case True
  then have old: "int (in_window w (fst r) (times_of hist k)) < n"
    using assms(3) by (force simp: spec_admits_def list_all_iff)
  have new: "times_of (spec_log w hist r) k = times_of hist k @ [fst r]"
    using True by (simp add: spec_log_def times_of_def)
  show ?thesis
  proof (cases "t < fst r \<and> fst r \<le> t + w")
    case inside: True
    have "\<forall>x\<in>set (times_of hist k). x \<le> fst r" using assms(2) by (auto simp: times_of_def)
    then have "filter (\<lambda>x. t < x \<and> x \<le> t + w) (times_of hist k) =
        filter (\<lambda>x. t < x \<and> x \<le> t + w) (filter (\<lambda>x. fst r - w < x \<and> x \<le> fst r) (times_of hist k))"
      using inside by (intro filter_cong [THEN trans, OF refl _ filter_filter [symmetric]]) auto
    then have "span w t (times_of hist k) \<le> in_window w (fst r) (times_of hist k)"
      unfolding span_def in_window_def by (metis length_filter_le)
    then show ?thesis
      using old inside unfolding new by (simp add: span_def)
  next
    case False
    then show ?thesis using assms(1) unfolding new by (auto simp: span_def)
  qed
next
  case False
  then have "times_of (spec_log w hist r) k = times_of hist k"
    by (auto simp: spec_log_def times_of_def)
  then show ?thesis using assms(1) by simp
qed

lemma spec_run_bound:
  assumes "\<forall>t. span w t (times_of hist k) \<le> nat n" "sorted (map fst rs)"
    and "\<forall>r\<in>set rs. \<forall>e\<in>set hist. fst e \<le> fst r" "limited k n rs"
  shows "\<forall>t. span w t (times_of (snd (spec_run w hist rs)) k) \<le> nat n"
  using assms
proof (induction rs arbitrary: hist)
  case (Cons r rs)
  have "\<forall>t. span w t (times_of (spec_log w hist r) k) \<le> nat n"
    using spec_log_bound [of w hist k n r] Cons.prems by (auto simp: limited_def)
  then have "\<forall>t. span w t (times_of (snd (spec_run w (spec_log w hist r) rs)) k) \<le> nat n"
    by (rule Cons.IH) (use Cons.prems in \<open>auto simp: spec_log_def limited_def\<close>)
  then show ?case by (simp add: case_prod_beta)
qed simp

lemma spec_run_length: "length (fst (spec_run w hist rs)) = length rs"
  by (induction rs arbitrary: hist) (simp_all add: case_prod_beta)

lemma spec_run_hist:
  "snd (spec_run w hist rs) =
    hist @ map (\<lambda>p. (fst (fst p), map fst (snd (fst p)))) (filter snd (zip rs (fst (spec_run w hist rs))))"
  by (induction rs arbitrary: hist) (simp_all add: case_prod_beta spec_log_def)

definition admitted_in :: "rat \<Rightarrow> rat \<Rightarrow> (call \<Rightarrow> bool) \<Rightarrow> call list \<Rightarrow> bool list \<Rightarrow> nat" where
  "admitted_in w t draws cs bs =
     length (filter (\<lambda>p. snd p \<and> draws (fst p) \<and> t < cl_now (fst p) \<and> cl_now (fst p) \<le> t + w) (zip cs bs))"

lemma admitted_in_span:
  assumes "length bs = length cs" "\<And>c. fst (req c) = cl_now c"
    and "\<And>c. draws c = (k \<in> fst ` set (snd (req c)))"
  shows "admitted_in w t draws cs bs =
    span w t (times_of (map (\<lambda>p. (fst (fst p), map fst (snd (fst p)))) (filter snd (zip (map req cs) bs))) k)"
  using assms(1)
proof (induction cs bs rule: list_induct2')
  case (4 c cs b bs)
  then show ?case
    by (simp add: admitted_in_def span_def times_of_def assms(2,3))
qed (simp_all add: admitted_in_def span_def times_of_def)

lemma run_bound:
  assumes "sorted (map cl_now cs)" "\<And>c. fst (req c) = cl_now c"
    and "\<And>c. draws c = (k \<in> fst ` set (snd (req c)))" "limited k n (map req cs)"
  shows "admitted_in w t draws cs (fst (spec_run w [] (map req cs))) \<le> nat n"
proof -
  have s: "sorted (map fst (map req cs))" using assms(1,2) by (simp add: comp_def)
  have "admitted_in w t draws cs (fst (spec_run w [] (map req cs))) =
      span w t (times_of (snd (spec_run w [] (map req cs))) k)"
    by (subst admitted_in_span [OF _ assms(2,3)]) (simp_all add: spec_run_length spec_run_hist [of w "[]"])
  then show ?thesis
    using spec_run_bound [of w "[]" k n "map req cs"] s assms(4) by (simp add: span_def times_of_def)
qed

lemma runs_decide_like_log:
  assumes "sorted (map cl_now cs)" "0 < window_seconds cfg"
  shows "check_run cfg (new_limiter cfg t0) cs =
      fst (spec_run (window_seconds cfg) [] (map (check_request cfg) cs)) \<and>
    allow_run un gn (new_vision t0) cs = fst (spec_run 60 [] (map (allow_request un gn) cs))"
proof (cases cs)
  case (Cons c cs')
  have "buckets.represents (cl_now c - window_seconds cfg) (lm_buckets (new_limiter cfg t0)) []"
    by (auto simp: buckets.represents_def new_limiter_def get_bucket_def times_of_def prune_def)
  moreover have "vision.represents (cl_now c - 60) (new_vision t0) []"
    by (auto simp: vision.represents_def new_vision_def vision_ok_def vision_bucket_def
        get_bucket_def times_of_def prune_def split: sum.split)
  moreover have "\<forall>x\<in>set cs. cl_now c \<le> cl_now x" using assms(1) Cons by auto
  ultimately show ?thesis
    using check_run_spec [OF _ assms(2,1)] allow_run_spec [OF _ assms(1)] by auto
qed simp

section \<open>Properties\<close>

text \<open>
  C28: Over any sequence of calls on a clock that does not run backwards, both limiters admit
  exactly the calls that the specification over the complete log admits: pruning, sweeping
  and the buckets that refused calls leave behind never change a decision.
\<close>

theorem limiters_decide_like_log:
  assumes "sorted (map cl_now cs)" "0 < window_seconds cfg"
  shows "check_run cfg (new_limiter cfg t0) cs =
      fst (spec_run (window_seconds cfg) [] (map (check_request cfg) cs)) \<and>
    allow_run un gn (new_vision t0) cs = fst (spec_run 60 [] (map (allow_request un gn) cs))"
  by (rule runs_decide_like_log [OF assms])

text \<open>
  No scope is ever over its limit: in every interval of the window's length at most
  \<open>per_user\<close> calls of a user and at most \<open>per_group\<close> calls of a group are admitted in
  a category, and likewise for the vision limiter.
\<close>

theorem limits_hold_in_every_window:
  assumes "sorted (map cl_now cs)" "0 < window_seconds cfg"
  shows "admitted_in (window_seconds cfg) t (\<lambda>c. cl_category c = cat \<and> cl_user c = u) cs
      (check_run cfg (new_limiter cfg t0) cs) \<le> nat (per_user cfg) \<and>
    admitted_in (window_seconds cfg) t (\<lambda>c. cl_category c = cat \<and> cl_group c = Some g) cs
      (check_run cfg (new_limiter cfg t0) cs) \<le> nat (per_group cfg) \<and>
    admitted_in 60 t (\<lambda>c. cl_user c = u) cs (allow_run un gn (new_vision t0) cs) \<le> nat un \<and>
    admitted_in 60 t (\<lambda>c. cl_group c = Some g) cs (allow_run un gn (new_vision t0) cs) \<le> nat gn"
proof -
  have u: "admitted_in w t (\<lambda>c. cl_category c = cat \<and> cl_user c = u) cs
      (fst (spec_run w [] (map (check_request cfg) cs))) \<le> nat (per_user cfg)" for w
    by (rule run_bound [OF assms(1), where k = "(cat, ''user'', u)"])
      (auto simp: check_request_def user_key_def group_key_def limited_def split: option.splits)
  have g: "admitted_in w t (\<lambda>c. cl_category c = cat \<and> cl_group c = Some g) cs
      (fst (spec_run w [] (map (check_request cfg) cs))) \<le> nat (per_group cfg)" for w
    by (rule run_bound [OF assms(1), where k = "(cat, ''group'', g)"])
      (auto simp: check_request_def user_key_def group_key_def limited_def split: option.splits)
  have vu: "admitted_in 60 t (\<lambda>c. cl_user c = u) cs (fst (spec_run 60 [] (map (allow_request un gn) cs))) \<le> nat un"
    by (rule run_bound [OF assms(1), where k = "Inl u"])
      (auto simp: allow_request_def limited_def split: option.splits)
  have vg: "admitted_in 60 t (\<lambda>c. cl_group c = Some g) cs (fst (spec_run 60 [] (map (allow_request un gn) cs))) \<le> nat gn"
    by (rule run_bound [OF assms(1), where k = "Inr g"])
      (auto simp: allow_request_def limited_def split: option.splits)
  show ?thesis
    using u g vu vg runs_decide_like_log [OF assms, of t0 un gn] by simp
qed

definition demo_limits :: limits where
  "demo_limits = \<lparr>per_user = 1, per_group = 5, window_seconds = 60\<rparr>"

definition demo_call :: "rat \<Rightarrow> call" where
  "demo_call t = \<lparr>cl_now = t, cl_user = ''u'', cl_group = Some ''g'', cl_category = ''chat''\<rparr>"

theorem limiters_decide_like_log_witness:
  "check_run demo_limits (new_limiter demo_limits 0) [demo_call 0, demo_call 10, demo_call 61] =
     fst (spec_run 60 [] (map (check_request demo_limits) [demo_call 0, demo_call 10, demo_call 61])) \<and>
   check_run demo_limits (new_limiter demo_limits 0) [demo_call 0, demo_call 10, demo_call 61] =
     [True, False, True]"
proof -
  have s: "sorted (map cl_now [demo_call 0, demo_call 10, demo_call 61])"
    by (simp add: demo_call_def)
  have "check_run demo_limits (new_limiter demo_limits 0) [demo_call 0, demo_call 10, demo_call 61] =
     fst (spec_run 60 [] (map (check_request demo_limits) [demo_call 0, demo_call 10, demo_call 61]))"
    using limiters_decide_like_log [OF s, of demo_limits 0 1 1] by (simp add: demo_limits_def)
  moreover have "fst (spec_run 60 [] (map (check_request demo_limits) [demo_call 0, demo_call 10, demo_call 61])) =
     [True, False, True]"
    by (simp add: spec_log_def spec_admits_def check_request_def in_window_def times_of_def
        demo_limits_def demo_call_def user_key_def group_key_def)
  ultimately show ?thesis by simp
qed

theorem limits_hold_in_every_window_witness:
  "admitted_in 60 0 (\<lambda>c. cl_category c = ''chat'' \<and> cl_user c = ''u'') [demo_call 1, demo_call 10]
     (check_run demo_limits (new_limiter demo_limits 0) [demo_call 1, demo_call 10]) \<le> 1"
proof -
  have s: "sorted (map cl_now [demo_call 1, demo_call 10])" by (simp add: demo_call_def)
  show ?thesis
    using limits_hold_in_every_window [OF s, of demo_limits 0 "''chat''" "''u''" 0 "''g''" 1 1]
    by (simp add: demo_limits_def)
qed

end
