(* ===== verification/Turn_Coordinator.thy ===== *)
theory Turn_Coordinator
  imports Yuki_Prelude
begin

text \<open>
  The turn coordinator (\<open>services/turn_coordinator.py\<close>, \<open>ConversationTurnCoordinator\<close>):
  versioned, cooperative cancellation of conversation turns. One record per conversation key
  holds the input version, the stages that run and the tasks that reserve the conversation.

  An asyncio task is a number. Whether a task is done is asyncio's knowledge, so every operation
  takes the predicate \<open>fin\<close>, the calling task \<open>cur\<close> and the clock. An operation is one critical
  section of the coordinator's lock; the tasks it calls \<open>cancel()\<close> on after the lock are part of
  its result. A context manager is two operations, its entry and its exit.
\<close>

section \<open>State\<close>

datatype turn_origin = User_Message | Autonomous_Group | Self_Initiative | Scheduled_Automation
  | Plugin_Session | Plugin_Background | System_Task

datatype turn_stage = Admission | Generation

datatype turn_error = Turn_Interrupted | Turn_Superseded | Task_Cancelled | Key_Error

type_synonym task = nat

record turn_token =
  tk_key :: string
  tk_version :: int
  tk_origin :: turn_origin
  tk_created :: clock

record registered_turn =
  rg_token :: turn_token
  rg_stages :: int
  rg_effect :: bool
  rg_cancel :: bool

record turn_state =
  ts_version :: int
  ts_origin :: turn_origin
  ts_mutation :: bool
  ts_protected :: "int option"
  ts_tasks :: "(turn_stage \<times> task) list"
  ts_regs :: "(task \<times> registered_turn) list"
  ts_holders :: "(task \<times> int) list"

record coordinator =
  co_interrupt :: bool
  co_states :: "string \<rightharpoonup> turn_state"

definition new_turn_state :: turn_state where
  "new_turn_state = \<lparr>ts_version = 0, ts_origin = User_Message, ts_mutation = False,
     ts_protected = None, ts_tasks = [], ts_regs = [], ts_holders = []\<rparr>"

definition new_coordinator :: "bool \<Rightarrow> coordinator" where
  "new_coordinator interrupt = \<lparr>co_interrupt = interrupt, co_states = Map.empty\<rparr>"

definition configure_policy :: "bool \<Rightarrow> coordinator \<Rightarrow> coordinator" where
  "configure_policy interrupt c = c\<lparr>co_interrupt := interrupt\<rparr>"

text \<open>\<open>_states.setdefault(key, _TurnState())\<close> and the in-place change of a state.\<close>

definition state_of :: "string \<Rightarrow> coordinator \<Rightarrow> turn_state" where
  "state_of key c = (case co_states c key of None \<Rightarrow> new_turn_state | Some st \<Rightarrow> st)"

definition put_state :: "string \<Rightarrow> turn_state \<Rightarrow> coordinator \<Rightarrow> coordinator" where
  "put_state key st c = c\<lparr>co_states := (co_states c)(key \<mapsto> st)\<rparr>"

section \<open>New input\<close>

record notice =
  nt_token :: turn_token
  nt_cancel :: "task list"
  nt_join :: "task list"

definition preemptible :: "task \<Rightarrow> (task \<Rightarrow> bool) \<Rightarrow> task \<times> registered_turn \<Rightarrow> bool" where
  "preemptible cur fin p \<longleftrightarrow> tk_origin (rg_token (snd p)) = User_Message \<and>
     \<not> rg_effect (snd p) \<and> fst p \<noteq> cur \<and> \<not> fin (fst p)"

definition preempt_private :: "task \<Rightarrow> (task \<Rightarrow> bool) \<Rightarrow> turn_state \<Rightarrow>
    turn_state \<times> task list \<times> task list" where
  "preempt_private cur fin st =
    (let hit = filter (preemptible cur fin) (ts_regs st)
     in (st\<lparr>ts_regs := map (\<lambda>p. if preemptible cur fin p then (fst p, (snd p)\<lparr>rg_cancel := True\<rparr>)
                               else p) (ts_regs st)\<rparr>,
         map fst (filter (\<lambda>p. \<not> rg_cancel (snd p)) hit), map fst hit))"

definition interrupt_stage :: "task \<Rightarrow> (task \<Rightarrow> bool) \<Rightarrow> turn_stage \<Rightarrow>
    turn_state \<times> task list \<Rightarrow> turn_state \<times> task list" where
  "interrupt_stage cur fin stage acc =
    (case acc of (st, cancel) \<Rightarrow>
      (case map_of (ts_tasks st) stage of
        None \<Rightarrow> (st, cancel)
      | Some t \<Rightarrow>
          if t = cur \<or> fin t then (st, cancel)
          else (case map_of (ts_regs st) t of
              None \<Rightarrow> (st, List.insert t cancel)
            | Some r \<Rightarrow>
                if rg_effect r \<or> rg_cancel r then (st, cancel)
                else (st\<lparr>ts_regs := AList.update t (r\<lparr>rg_cancel := True\<rparr>) (ts_regs st)\<rparr>,
                      List.insert t cancel))))"

definition interruptible_origin :: "turn_origin \<Rightarrow> bool" where
  "interruptible_origin og \<longleftrightarrow> og = Autonomous_Group \<or> og = Plugin_Background"

definition advance :: "turn_origin \<Rightarrow> bool \<Rightarrow> turn_state \<Rightarrow> turn_state" where
  "advance og protect st = st\<lparr>ts_version := ts_version st + 1, ts_origin := og,
     ts_mutation := False,
     ts_protected := (if protect then Some (ts_version st + 1) else None)\<rparr>"

definition token_of :: "string \<Rightarrow> clock \<Rightarrow> turn_state \<Rightarrow> turn_token" where
  "token_of key now st = \<lparr>tk_key = key, tk_version = ts_version st, tk_origin = ts_origin st,
     tk_created = now\<rparr>"

definition notify_state :: "bool \<Rightarrow> task \<Rightarrow> (task \<Rightarrow> bool) \<Rightarrow> turn_origin \<Rightarrow> bool \<Rightarrow> bool \<Rightarrow>
    turn_state \<Rightarrow> turn_state \<times> task list \<times> task list" where
  "notify_state interrupt cur fin og protect preempt st =
    (let (st1, cancel, join) = (if preempt then preempt_private cur fin st else (st, [], []));
         (st2, cancel2) =
           (if interrupt \<and> interruptible_origin (ts_origin st) \<and> \<not> ts_mutation st
            then interrupt_stage cur fin Generation
                   (interrupt_stage cur fin Admission (st1, cancel))
            else (st1, cancel))
     in (advance og protect st2, cancel2, join))"

definition notify_message :: "task \<Rightarrow> (task \<Rightarrow> bool) \<Rightarrow> clock \<Rightarrow> string \<Rightarrow> turn_origin \<Rightarrow> bool \<Rightarrow> bool \<Rightarrow>
    bool \<Rightarrow> bool \<Rightarrow> coordinator \<Rightarrow> notice \<times> coordinator" where
  "notify_message cur fin now key og observation protect preserve preempt c =
    (let st = state_of key c
     in if preserve \<or> observation \<and> ts_protected st = Some (ts_version st)
        then (\<lparr>nt_token = token_of key now st, nt_cancel = [], nt_join = []\<rparr>, put_state key st c)
        else (case notify_state (co_interrupt c) cur fin og protect preempt st of
               (st', cancel, join) \<Rightarrow>
                 (\<lparr>nt_token = token_of key now st', nt_cancel = cancel, nt_join = join\<rparr>,
                  put_state key st' c)))"

section \<open>Reservations\<close>

definition inc_holder :: "task \<Rightarrow> turn_state \<Rightarrow> turn_state" where
  "inc_holder cur st = st\<lparr>ts_holders := AList.update cur
     ((case map_of (ts_holders st) cur of None \<Rightarrow> 0 | Some n \<Rightarrow> n) + 1) (ts_holders st)\<rparr>"

definition dec_holder :: "task \<Rightarrow> turn_state \<Rightarrow> turn_state" where
  "dec_holder cur st =
    (let count = (case map_of (ts_holders st) cur of None \<Rightarrow> 0 | Some n \<Rightarrow> n)
     in if count > 1 then st\<lparr>ts_holders := AList.update cur (count - 1) (ts_holders st)\<rparr>
        else st\<lparr>ts_holders := AList.delete cur (ts_holders st)\<rparr>)"

definition hold_enter :: "task \<Rightarrow> string \<Rightarrow> coordinator \<Rightarrow> coordinator" where
  "hold_enter cur key c = put_state key (inc_holder cur (state_of key c)) c"

definition hold_exit :: "task \<Rightarrow> string \<Rightarrow> coordinator \<Rightarrow> coordinator" where
  "hold_exit cur key c = put_state key (dec_holder cur (state_of key c)) c"

definition occupied :: "(task \<Rightarrow> bool) \<Rightarrow> turn_state \<Rightarrow> bool" where
  "occupied fin st \<longleftrightarrow> list_ex (\<lambda>t. \<not> fin t) (map snd (ts_tasks st) @ map fst (ts_holders st))"

section \<open>Stages\<close>

definition enter_stage :: "task \<Rightarrow> turn_token \<Rightarrow> turn_stage \<Rightarrow> turn_state \<Rightarrow> turn_error + turn_state" where
  "enter_stage cur tk stage st =
    (if ts_version st \<noteq> tk_version tk then Inl Turn_Superseded
     else
       (case map_of (ts_regs st) cur of
         None \<Rightarrow> Inr (st\<lparr>
           ts_regs := AList.update cur \<lparr>rg_token = tk, rg_stages = 1,
             rg_effect = ts_mutation st, rg_cancel = False\<rparr> (ts_regs st),
           ts_tasks := AList.update stage cur (ts_tasks st)\<rparr>)
       | Some r \<Rightarrow>
           if rg_token r \<noteq> tk then Inl Turn_Superseded
           else Inr (st\<lparr>
             ts_regs := AList.update cur (r\<lparr>rg_stages := rg_stages r + 1\<rparr>) (ts_regs st),
             ts_tasks := AList.update stage cur (ts_tasks st)\<rparr>)))"

definition track_enter :: "task \<Rightarrow> turn_token \<Rightarrow> turn_stage \<Rightarrow> coordinator \<Rightarrow> turn_error + coordinator" where
  "track_enter cur tk stage c =
    (case co_states c (tk_key tk) of
      None \<Rightarrow> Inl Turn_Superseded
    | Some st \<Rightarrow>
        (case enter_stage cur tk stage st of
          Inl e \<Rightarrow> Inl e
        | Inr st' \<Rightarrow> Inr (put_state (tk_key tk) st' c)))"

text \<open>What a \<open>CancelledError\<close> in the body becomes.\<close>

definition track_cancelled :: "registered_turn \<Rightarrow> turn_stage \<Rightarrow> turn_error" where
  "track_cancelled r stage =
    (if \<not> rg_cancel r then Task_Cancelled
     else if stage = Admission then Turn_Interrupted else Turn_Superseded)"

definition leave_stage :: "task \<Rightarrow> turn_stage \<Rightarrow> turn_state \<Rightarrow> turn_state" where
  "leave_stage cur stage st =
    (let st1 = (if map_of (ts_tasks st) stage = Some cur
                then st\<lparr>ts_tasks := AList.delete stage (ts_tasks st)\<rparr> else st)
     in case map_of (ts_regs st1) cur of
          None \<Rightarrow> st1
        | Some r \<Rightarrow>
            if rg_stages r - 1 = 0 then st1\<lparr>ts_regs := AList.delete cur (ts_regs st1)\<rparr>
            else st1\<lparr>ts_regs := AList.update cur (r\<lparr>rg_stages := rg_stages r - 1\<rparr>) (ts_regs st1)\<rparr>)"

definition track_exit :: "task \<Rightarrow> turn_token \<Rightarrow> turn_stage \<Rightarrow> coordinator \<Rightarrow> coordinator" where
  "track_exit cur tk stage c =
    (case co_states c (tk_key tk) of
      None \<Rightarrow> c
    | Some st \<Rightarrow> put_state (tk_key tk) (leave_stage cur stage st) c)"

definition mark_state :: "turn_token \<Rightarrow> turn_state \<Rightarrow> turn_state" where
  "mark_state tk st = st\<lparr>
     ts_regs := map (\<lambda>p. (fst p, if rg_token (snd p) = tk then (snd p)\<lparr>rg_effect := True\<rparr>
                                 else snd p)) (ts_regs st),
     ts_mutation := (ts_version st = tk_version tk \<or> ts_mutation st)\<rparr>"

definition mark_mutation_started :: "turn_token \<Rightarrow> coordinator \<Rightarrow> coordinator" where
  "mark_mutation_started tk c =
    (case co_states c (tk_key tk) of None \<Rightarrow> c
     | Some st \<Rightarrow> put_state (tk_key tk) (mark_state tk st) c)"

definition can_retry_uncommitted :: "turn_token option \<Rightarrow> coordinator \<Rightarrow> bool" where
  "can_retry_uncommitted token c =
    (case token of None \<Rightarrow> False
     | Some tk \<Rightarrow>
         (case co_states c (tk_key tk) of None \<Rightarrow> False
          | Some st \<Rightarrow> ts_version st = tk_version tk \<and> \<not> ts_mutation st))"

section \<open>Admission of observations and of background work\<close>

definition promote_observation :: "(task \<Rightarrow> bool) \<Rightarrow> turn_token \<Rightarrow> bool \<Rightarrow> coordinator \<Rightarrow>
    turn_token option \<times> coordinator" where
  "promote_observation fin tk preserve c =
    (case co_states c (tk_key tk) of None \<Rightarrow> (None, c)
     | Some st \<Rightarrow>
        if ts_version st \<noteq> tk_version tk then (None, c)
        else if preserve
        then (Some \<lparr>tk_key = tk_key tk, tk_version = ts_version st, tk_origin = User_Message,
                tk_created = tk_created tk\<rparr>, c)
        else if occupied fin st then (None, c)
        else (let st' = advance User_Message True st
              in (Some (token_of (tk_key tk) (tk_created tk) st'), put_state (tk_key tk) st' c)))"

definition background_token :: "string \<Rightarrow> clock \<Rightarrow> turn_origin \<Rightarrow> turn_state \<Rightarrow> turn_token \<times> turn_state" where
  "background_token key now og st =
    (let st' = advance og False st in (token_of key now st', st'))"

definition begin_background :: "(task \<Rightarrow> bool) \<Rightarrow> clock \<Rightarrow> string \<Rightarrow> coordinator \<Rightarrow>
    turn_token option \<times> coordinator" where
  "begin_background fin now key c =
    (let st = state_of key c
     in if occupied fin st then (None, put_state key st c)
        else (case background_token key now Plugin_Background st of
               (tk, st') \<Rightarrow> (Some tk, put_state key st' c)))"

definition background_enter :: "task \<Rightarrow> (task \<Rightarrow> bool) \<Rightarrow> clock \<Rightarrow> string \<Rightarrow> turn_origin \<Rightarrow> coordinator \<Rightarrow>
    turn_token option \<times> coordinator" where
  "background_enter cur fin now key og c =
    (let st = state_of key c
     in if occupied fin st then (None, put_state key st c)
        else (case background_token key now og st of
               (tk, st') \<Rightarrow> (Some tk, put_state key (inc_holder cur st') c)))"

definition background_exit :: "task \<Rightarrow> string \<Rightarrow> turn_token option \<Rightarrow> coordinator \<Rightarrow> coordinator" where
  "background_exit cur key token c =
    (case token of None \<Rightarrow> c | Some tk \<Rightarrow> put_state key (dec_holder cur (state_of key c)) c)"

section \<open>Explicit cancellation\<close>

text \<open>\<open>state.registrations[task].cancellation_requested = True\<close> for each task in turn: a task
  without registration is a \<open>KeyError\<close>.\<close>

fun request_cancel :: "task list \<Rightarrow> (task \<times> registered_turn) list \<Rightarrow>
    turn_error + (task \<times> registered_turn) list" where
  "request_cancel [] regs = Inr regs"
| "request_cancel (t # ts) regs =
    (case map_of regs t of None \<Rightarrow> Inl Key_Error
     | Some r \<Rightarrow> request_cancel ts (AList.update t (r\<lparr>rg_cancel := True\<rparr>) regs))"

definition running_tasks :: "task \<Rightarrow> (task \<Rightarrow> bool) \<Rightarrow> turn_state \<Rightarrow> task list" where
  "running_tasks cur fin st = filter (\<lambda>t. t \<noteq> cur \<and> \<not> fin t) (map snd (ts_tasks st))"

definition cancel_interruptible :: "task \<Rightarrow> (task \<Rightarrow> bool) \<Rightarrow> string \<Rightarrow> coordinator \<Rightarrow>
    turn_error + (bool \<times> task list \<times> coordinator)" where
  "cancel_interruptible cur fin key c =
    (case co_states c key of None \<Rightarrow> Inr (False, [], c)
     | Some st \<Rightarrow>
        (let ts = running_tasks cur fin st
         in case request_cancel ts (ts_regs st) of
              Inl e \<Rightarrow> Inl e
            | Inr regs \<Rightarrow> Inr (ts \<noteq> [], ts,
                put_state key (st\<lparr>ts_regs := regs, ts_version := ts_version st + 1\<rparr>) c)))"

definition cancel_running_before_boundary :: "task \<Rightarrow> (task \<Rightarrow> bool) \<Rightarrow> string \<Rightarrow> coordinator \<Rightarrow>
    turn_error + (bool \<times> task list \<times> coordinator)" where
  "cancel_running_before_boundary cur fin key c =
    (case co_states c key of None \<Rightarrow> Inr (False, [], c)
     | Some st \<Rightarrow>
        (let ts = running_tasks cur fin st
         in case request_cancel ts (ts_regs st) of
              Inl e \<Rightarrow> Inl e
            | Inr regs \<Rightarrow> Inr (ts \<noteq> [], ts, put_state key (st\<lparr>ts_regs := regs\<rparr>) c)))"

definition is_current :: "turn_token \<Rightarrow> coordinator \<Rightarrow> bool" where
  "is_current tk c =
    (case co_states c (tk_key tk) of None \<Rightarrow> False | Some st \<Rightarrow> ts_version st = tk_version tk)"

definition version_matches :: "string \<Rightarrow> int \<Rightarrow> coordinator \<Rightarrow> bool" where
  "version_matches key v c =
    (case co_states c key of None \<Rightarrow> False | Some st \<Rightarrow> ts_version st = v)"

section \<open>Runs\<close>

text \<open>
  A run interleaves the operations of any tasks. \<open>sy_stages\<close> and \<open>sy_holds\<close> list the context
  managers that are open: an exit happens only for an entry that succeeded.
\<close>

record turn_system =
  sy_co :: coordinator
  sy_stages :: "(string \<times> task \<times> turn_stage) list"
  sy_holds :: "(string \<times> task) list"

definition new_system :: "bool \<Rightarrow> turn_system" where
  "new_system interrupt = \<lparr>sy_co = new_coordinator interrupt, sy_stages = [], sy_holds = []\<rparr>"

definition cancelled_state :: "turn_error + (bool \<times> task list \<times> coordinator) \<Rightarrow> coordinator \<Rightarrow> coordinator" where
  "cancelled_state r c = (case r of Inl e \<Rightarrow> c | Inr (b, ts, c') \<Rightarrow> c')"

inductive turn_step :: "turn_system \<Rightarrow> turn_system \<Rightarrow> bool" where
  configure: "turn_step s (s\<lparr>sy_co := configure_policy b (sy_co s)\<rparr>)"
| notify: "turn_step s (s\<lparr>sy_co := snd (notify_message cur fin now key og observation protect
    preserve preempt (sy_co s))\<rparr>)"
| hold_in: "turn_step s (s\<lparr>sy_co := hold_enter cur key (sy_co s),
    sy_holds := (key, cur) # sy_holds s\<rparr>)"
| hold_out: "(key, cur) \<in> set (sy_holds s) \<Longrightarrow>
    turn_step s (s\<lparr>sy_co := hold_exit cur key (sy_co s),
      sy_holds := remove1 (key, cur) (sy_holds s)\<rparr>)"
| stage_in: "track_enter cur tk stage (sy_co s) = Inr c \<Longrightarrow>
    turn_step s (s\<lparr>sy_co := c, sy_stages := (tk_key tk, cur, stage) # sy_stages s\<rparr>)"
| stage_out: "(tk_key tk, cur, stage) \<in> set (sy_stages s) \<Longrightarrow>
    turn_step s (s\<lparr>sy_co := track_exit cur tk stage (sy_co s),
      sy_stages := remove1 (tk_key tk, cur, stage) (sy_stages s)\<rparr>)"
| mark: "turn_step s (s\<lparr>sy_co := mark_mutation_started tk (sy_co s)\<rparr>)"
| promote: "turn_step s (s\<lparr>sy_co := snd (promote_observation fin tk preserve (sy_co s))\<rparr>)"
| start: "turn_step s (s\<lparr>sy_co := snd (begin_background fin now key (sy_co s))\<rparr>)"
| background_in: "background_enter cur fin now key og (sy_co s) = (Some tk, c) \<Longrightarrow>
    turn_step s (s\<lparr>sy_co := c, sy_holds := (key, cur) # sy_holds s\<rparr>)"
| background_refused: "background_enter cur fin now key og (sy_co s) = (None, c) \<Longrightarrow>
    turn_step s (s\<lparr>sy_co := c\<rparr>)"
| background_out: "(key, cur) \<in> set (sy_holds s) \<Longrightarrow>
    turn_step s (s\<lparr>sy_co := background_exit cur key (Some tk) (sy_co s),
      sy_holds := remove1 (key, cur) (sy_holds s)\<rparr>)"
| stop: "turn_step s (s\<lparr>sy_co := cancelled_state (cancel_interruptible cur fin key (sy_co s)) (sy_co s)\<rparr>)"
| boundary: "turn_step s (s\<lparr>sy_co :=
    cancelled_state (cancel_running_before_boundary cur fin key (sy_co s)) (sy_co s)\<rparr>)"

abbreviation turn_run :: "turn_system \<Rightarrow> turn_system \<Rightarrow> bool" where
  "turn_run \<equiv> turn_step\<^sup>*\<^sup>*"

section \<open>Elementary moves of a conversation's record\<close>

text \<open>
  Every operation is a sequence of a few elementary moves on the record of one conversation.
  A quiet move opens and closes no stage.
\<close>

definition flag_le :: "registered_turn \<Rightarrow> registered_turn \<Rightarrow> bool" where
  "flag_le r r' \<longleftrightarrow> rg_token r' = rg_token r \<and> rg_stages r' = rg_stages r \<and>
     (rg_effect r \<longrightarrow> rg_effect r') \<and> (rg_cancel r \<longrightarrow> rg_cancel r')"

definition regs_le :: "(task \<times> registered_turn) list \<Rightarrow> (task \<times> registered_turn) list \<Rightarrow> bool" where
  "regs_le = list_all2 (\<lambda>p q. fst p = fst q \<and> flag_le (snd p) (snd q))"

inductive quiet_move :: "turn_state \<Rightarrow> turn_state \<Rightarrow> bool" where
  flags: "regs_le (ts_regs st) regs \<Longrightarrow> quiet_move st (st\<lparr>ts_regs := regs\<rparr>)"
| advance: "quiet_move st (advance og protect st)"
| bump: "quiet_move st (st\<lparr>ts_version := ts_version st + 1\<rparr>)"
| mutate: "quiet_move st (st\<lparr>ts_mutation := True\<rparr>)"

lemma flag_le_refl [simp]: "flag_le r r"
  by (simp add: flag_le_def)

lemma flag_le_trans: "flag_le a b \<Longrightarrow> flag_le b c \<Longrightarrow> flag_le a c"
  by (simp add: flag_le_def)

lemma regs_le_refl [simp]: "regs_le xs xs"
  by (simp add: regs_le_def list.rel_refl)

lemma regs_le_trans: "regs_le xs ys \<Longrightarrow> regs_le ys zs \<Longrightarrow> regs_le xs zs"
  unfolding regs_le_def by (rule list_all2_trans) (auto intro: flag_le_trans)

lemma regs_le_keys: "regs_le xs ys \<Longrightarrow> map fst ys = map fst xs"
  unfolding regs_le_def by (induction rule: list_all2_induct) auto

lemma regs_le_map_of: "regs_le xs ys \<Longrightarrow> rel_option flag_le (map_of xs t) (map_of ys t)"
  unfolding regs_le_def by (induction rule: list_all2_induct) (auto split: prod.splits)

lemma regs_le_update:
  "map_of xs t = Some r \<Longrightarrow> flag_le r r' \<Longrightarrow> regs_le xs (AList.update t r' xs)"
proof (induction xs)
  case (Cons p xs)
  then show ?case by (cases p) (auto simp: regs_le_def list.rel_refl split: if_splits)
qed simp

lemma regs_le_map:
  assumes "\<And>p. fst (f p) = fst p" "\<And>p. flag_le (snd p) (snd (f p))"
  shows "regs_le xs (map f xs)"
  using assms by (induction xs) (simp_all add: regs_le_def)

lemma regs_leD:
  assumes "regs_le xs ys" "map_of ys t = Some r'"
  obtains r where "map_of xs t = Some r" "flag_le r r'"
  using regs_le_map_of [OF assms(1), of t] assms(2) by (cases "map_of xs t") auto

lemma request_cancel_le: "request_cancel ts regs = Inr regs' \<Longrightarrow> regs_le regs regs'"
proof (induction ts arbitrary: regs)
  case (Cons t ts)
  then obtain r where r: "map_of regs t = Some r"
    "request_cancel ts (AList.update t (r\<lparr>rg_cancel := True\<rparr>) regs) = Inr regs'"
    by (auto split: option.splits)
  have "regs_le regs (AList.update t (r\<lparr>rg_cancel := True\<rparr>) regs)"
    using r(1) by (rule regs_le_update) (simp add: flag_le_def)
  then show ?case using Cons.IH [OF r(2)] by (rule regs_le_trans)
qed simp

definition flagged :: "turn_state \<Rightarrow> turn_state \<Rightarrow> bool" where
  "flagged st st' \<longleftrightarrow> regs_le (ts_regs st) (ts_regs st') \<and> st' = st\<lparr>ts_regs := ts_regs st'\<rparr>"

lemma flagged_refl [simp]: "flagged st st"
  by (simp add: flagged_def)

lemma flaggedI [intro]: "regs_le (ts_regs st) regs \<Longrightarrow> flagged st (st\<lparr>ts_regs := regs\<rparr>)"
  by (simp add: flagged_def)

lemma flagged_trans: "flagged a b \<Longrightarrow> flagged b c \<Longrightarrow> flagged a c"
  unfolding flagged_def
  by (metis regs_le_trans turn_state.surjective turn_state.update_convs(6))

lemma preempt_private_flagged: "flagged st (fst (preempt_private cur fin st))"
  by (auto simp: preempt_private_def flag_le_def intro!: flaggedI regs_le_map)

lemma interrupt_stage_flagged: "flagged st (fst (interrupt_stage cur fin stage (st, xs)))"
  by (auto simp: interrupt_stage_def flag_le_def intro!: flaggedI regs_le_update
      split: option.splits)

lemma flagged_move: "flagged st st' \<Longrightarrow> quiet_move st st'"
  unfolding flagged_def by (metis quiet_move.flags)

text \<open>Each operation that opens and closes no stage is a sequence of quiet moves and of changes
  of the reservations.\<close>

inductive calm :: "turn_state \<Rightarrow> turn_state \<Rightarrow> bool" where
  still: "calm st st"
| quiet: "quiet_move st st' \<Longrightarrow> calm st' st'' \<Longrightarrow> calm st st''"
| holders: "calm (st\<lparr>ts_holders := hs\<rparr>) st'' \<Longrightarrow> calm st st''"

lemma calm_trans: "calm a b \<Longrightarrow> calm b c \<Longrightarrow> calm a c"
  by (induction rule: calm.induct) (auto intro: calm.intros)

lemma calm_quiet: "quiet_move st st' \<Longrightarrow> calm st st'"
  by (blast intro: calm.intros)

lemma calm_flagged: "flagged st st' \<Longrightarrow> calm st st'"
  by (blast intro: calm_quiet flagged_move)

lemma calm_holders: "calm st (st\<lparr>ts_holders := hs\<rparr>)"
  by (blast intro: calm.intros)

lemma notify_state_flags:
  obtains st2 where "flagged st st2"
    "fst (notify_state interrupt cur fin og protect preempt st) = advance og protect st2"
proof -
  obtain st1 ca jo where 1: "(if preempt then preempt_private cur fin st else (st, [], [])) = (st1, ca, jo)"
    by (metis prod_cases3)
  have f1: "flagged st st1"
    using preempt_private_flagged [of st cur fin] 1 by (auto split: if_splits)
  obtain st2 c2 where 2: "interrupt_stage cur fin Admission (st1, ca) = (st2, c2)" by fastforce
  obtain st3 c3 where 3: "interrupt_stage cur fin Generation (st2, c2) = (st3, c3)" by fastforce
  have "flagged st1 st2" "flagged st2 st3"
    using interrupt_stage_flagged [of st1 cur fin Admission ca] 2
      interrupt_stage_flagged [of st2 cur fin Generation c2] 3 by auto
  then have "flagged st st3" using f1 flagged_trans by blast
  then show ?thesis using that [of st1] that [of st3] f1 1 2 3
    by (cases "interrupt \<and> interruptible_origin (ts_origin st) \<and> \<not> ts_mutation st")
      (auto simp: notify_state_def)
qed

lemma notify_state_calm:
  "calm st (fst (notify_state interrupt cur fin og protect preempt st))"
  by (metis notify_state_flags calm_trans calm_flagged calm_quiet quiet_move.advance)

lemma mark_state_calm: "calm st (mark_state tk st)"
proof -
  let ?regs = "map (\<lambda>p. (fst p, if rg_token (snd p) = tk then (snd p)\<lparr>rg_effect := True\<rparr>
    else snd p)) (ts_regs st)"
  have f: "flagged st (st\<lparr>ts_regs := ?regs\<rparr>)"
    by (intro flaggedI regs_le_map) (auto simp: flag_le_def)
  show ?thesis
  proof (cases "ts_version st = tk_version tk")
    case True
    then have "mark_state tk st = (st\<lparr>ts_regs := ?regs\<rparr>)\<lparr>ts_mutation := True\<rparr>"
      by (simp add: mark_state_def)
    then show ?thesis
      using calm_trans [OF calm_flagged [OF f] calm_quiet [OF quiet_move.mutate]] by simp
  next
    case False
    then have "mark_state tk st = st\<lparr>ts_regs := ?regs\<rparr>" by (simp add: mark_state_def)
    then show ?thesis using calm_flagged [OF f] by simp
  qed
qed

lemma inc_holder_calm: "calm st (inc_holder cur st)"
  by (simp add: inc_holder_def calm_holders)

lemma dec_holder_calm: "calm st (dec_holder cur st)"
  by (simp add: dec_holder_def Let_def calm_holders)

lemma request_cancel_calm:
  "request_cancel ts (ts_regs st) = Inr regs \<Longrightarrow> calm st (st\<lparr>ts_regs := regs\<rparr>)"
  by (blast intro: calm_flagged request_cancel_le)

lemma stop_calm:
  assumes "request_cancel ts (ts_regs st) = Inr regs"
  shows "calm st (st\<lparr>ts_regs := regs, ts_version := ts_version st + 1\<rparr>)"
  using calm_trans [OF request_cancel_calm [OF assms] calm_quiet [OF quiet_move.bump]] by simp

text \<open>What one step does to the record of a conversation.\<close>

inductive change :: "string \<Rightarrow> turn_system \<Rightarrow> turn_system \<Rightarrow> bool" for key where
  nothing: "co_states (sy_co s') key = co_states (sy_co s) key \<Longrightarrow>
    filter (\<lambda>e. fst e = key) (sy_stages s') = filter (\<lambda>e. fst e = key) (sy_stages s) \<Longrightarrow> change key s s'"
| calm: "co_states (sy_co s') key = Some st \<Longrightarrow> calm (state_of key (sy_co s)) st \<Longrightarrow>
    sy_stages s' = sy_stages s \<Longrightarrow> change key s s'"
| enter: "tk_key tk = key \<Longrightarrow> track_enter cur tk stage (sy_co s) = Inr (sy_co s') \<Longrightarrow>
    sy_stages s' = (key, cur, stage) # sy_stages s \<Longrightarrow> change key s s'"
| leave: "(key, cur, stage) \<in> set (sy_stages s) \<Longrightarrow>
    tk_key tk = key \<Longrightarrow> sy_co s' = track_exit cur tk stage (sy_co s) \<Longrightarrow>
    sy_stages s' = remove1 (key, cur, stage) (sy_stages s) \<Longrightarrow> change key s s'"

lemma put_state_at [simp]:
  "co_states (put_state k st c) key = (if k = key then Some st else co_states c key)"
  by (simp add: put_state_def)

lemma state_of_Some [simp]: "co_states c key = Some st \<Longrightarrow> state_of key c = st"
  by (simp add: state_of_def)

lemma change_put:
  assumes "sy_co s' = put_state k st (sy_co s)" "calm (state_of k (sy_co s)) st"
    "sy_stages s' = sy_stages s"
  shows "change key s s'"
  using assms change.calm [of s' key st s] change.nothing [of s' key s] by (cases "k = key") auto

lemma change_same: "sy_co s' = sy_co s \<Longrightarrow> sy_stages s' = sy_stages s \<Longrightarrow> change key s s'"
  by (simp add: change.nothing)

lemma change_maybe:
  assumes "sy_stages s' = sy_stages s"
    "sy_co s' = sy_co s \<or>
      (\<exists>k st st'. co_states (sy_co s) k = Some st \<and> sy_co s' = put_state k st' (sy_co s) \<and> calm st st')"
  shows "change key s s'"
  using assms change_same change_put by (metis state_of_Some)

lemma filter_remove1_other:
  "\<not> p x \<Longrightarrow> filter p (remove1 x xs) = filter p xs"
  by (induction xs) auto

lemma turn_step_change:
  assumes "turn_step s s'"
  shows "change key s s'"
  using assms
proof cases
  case (configure b)
  then show ?thesis by (auto simp: configure_policy_def intro: change.nothing)
next
  case (notify cur fin now k og observation protect preserve preempt)
  show ?thesis
  proof (cases "preserve \<or> observation \<and>
      ts_protected (state_of k (sy_co s)) = Some (ts_version (state_of k (sy_co s)))")
    case True
    then show ?thesis using notify
      by (auto intro!: change_put [where k = k and st = "state_of k (sy_co s)"] calm.still
          simp: notify_message_def Let_def)
  next
    case False
    obtain st' ca jo where n: "notify_state (co_interrupt (sy_co s)) cur fin og protect preempt
        (state_of k (sy_co s)) = (st', ca, jo)" by (metis prod_cases3)
    then have "calm (state_of k (sy_co s)) st'" using notify_state_calm by (metis fst_conv)
    then show ?thesis using notify False n
      by (auto intro!: change_put [where k = k and st = st'] simp: notify_message_def Let_def)
  qed
next
  case (hold_in cur k)
  then show ?thesis
    by (intro change_put [OF _ inc_holder_calm]) (auto simp: hold_enter_def)
next
  case (hold_out k cur)
  then show ?thesis
    by (intro change_put [OF _ dec_holder_calm]) (auto simp: hold_exit_def)
next
  case (stage_in cur tk stage c)
  show ?thesis
  proof (cases "tk_key tk = key")
    case True
    then show ?thesis using stage_in by (auto intro: change.enter)
  next
    case False
    then show ?thesis using stage_in
      by (auto intro!: change.nothing simp: track_enter_def split: option.splits sum.splits)
  qed
next
  case (stage_out tk cur stage)
  show ?thesis
  proof (cases "tk_key tk = key")
    case True
    then show ?thesis using stage_out by (auto intro: change.leave)
  next
    case False
    then show ?thesis using stage_out
      by (auto intro!: change.nothing simp: track_exit_def filter_remove1_other split: option.splits)
  qed
next
  case (mark tk)
  show ?thesis
  proof (cases "co_states (sy_co s) (tk_key tk)")
    case None
    then show ?thesis using mark by (intro change_same) (auto simp: mark_mutation_started_def)
  next
    case (Some st)
    then show ?thesis using mark
      by (intro change_put [where k = "tk_key tk" and st = "mark_state tk st"])
        (auto simp: mark_mutation_started_def mark_state_calm)
  qed
next
  case (promote fin tk preserve)
  show ?thesis
  proof (cases "snd (promote_observation fin tk preserve (sy_co s)) = sy_co s")
    case True
    then show ?thesis using promote by (intro change_same) auto
  next
    case False
    then obtain st where "co_states (sy_co s) (tk_key tk) = Some st"
      "snd (promote_observation fin tk preserve (sy_co s)) =
        put_state (tk_key tk) (advance User_Message True st) (sy_co s)"
      by (auto simp: promote_observation_def Let_def split: option.splits if_splits)
    then show ?thesis using promote
      by (intro change_put [where k = "tk_key tk" and st = "advance User_Message True st"])
        (auto intro: calm_quiet quiet_move.advance)
  qed
next
  case (start fin now k)
  then show ?thesis
    by (auto simp: begin_background_def background_token_def Let_def
        intro: calm_quiet quiet_move.advance calm.still intro!: change_put [where k = k])
next
  case (background_in cur fin now k og tk c)
  then show ?thesis
    by (auto simp: background_enter_def background_token_def Let_def split: if_splits
        intro: calm_trans [OF calm_quiet [OF quiet_move.advance] inc_holder_calm]
        intro!: change_put [where k = k])
next
  case (background_refused cur fin now k og c)
  then show ?thesis
    by (auto simp: background_enter_def background_token_def Let_def split: if_splits
        intro: calm.still intro!: change_put [where k = k])
next
  case (background_out k cur tk)
  then show ?thesis
    by (auto simp: background_exit_def intro!: change_put [where k = k] dec_holder_calm)
next
  case (stop cur fin k)
  show ?thesis
    using stop stop_calm
    by (intro change_maybe) (fastforce simp: cancelled_state_def cancel_interruptible_def Let_def
        split: sum.splits option.splits)+
next
  case (boundary cur fin k)
  show ?thesis
    using boundary request_cancel_calm
    by (intro change_maybe) (fastforce simp: cancelled_state_def cancel_running_before_boundary_def
        Let_def split: sum.splits option.splits)+
qed

section \<open>Versions\<close>

definition version_of :: "string \<Rightarrow> turn_system \<Rightarrow> int" where
  "version_of key s = ts_version (state_of key (sy_co s))"

lemma quiet_move_version: "quiet_move st st' \<Longrightarrow> ts_version st \<le> ts_version st'"
  by (induction rule: quiet_move.induct) (auto simp: advance_def)

lemma calm_version: "calm st st' \<Longrightarrow> ts_version st \<le> ts_version st'"
  by (induction rule: calm.induct) (auto dest: quiet_move_version)

lemma leave_stage_version [simp]: "ts_version (leave_stage cur stage st) = ts_version st"
  by (simp add: leave_stage_def Let_def split: option.splits)

lemma enter_stage_version: "enter_stage cur tk stage st = Inr st' \<Longrightarrow> ts_version st' = ts_version st"
  by (auto simp: enter_stage_def split: if_splits option.splits)

lemma track_enter_Inr:
  assumes "track_enter cur tk stage c = Inr c'"
  obtains st st' where "co_states c (tk_key tk) = Some st"
    "enter_stage cur tk stage st = Inr st'" "c' = put_state (tk_key tk) st' c"
  using assms by (auto simp: track_enter_def split: option.splits sum.splits)

lemma change_version:
  assumes "change key s s'"
  shows "version_of key s \<le> version_of key s'"
  using assms
proof cases
  case nothing
  then show ?thesis by (simp add: version_of_def state_of_def)
next
  case (calm st)
  then show ?thesis by (simp add: version_of_def calm_version)
next
  case (enter tk cur stage)
  from enter(2) show ?thesis
    by (rule track_enter_Inr) (use enter in \<open>auto simp: version_of_def dest: enter_stage_version\<close>)
next
  case (leave cur stage tk)
  then show ?thesis
    by (cases "co_states (sy_co s) key") (auto simp: version_of_def track_exit_def)
qed

lemma run_version: "turn_run s s' \<Longrightarrow> version_of key s \<le> version_of key s'"
  by (induction rule: rtranclp_induct) (auto dest: turn_step_change change_version intro: order_trans)

lemma stale_token:
  assumes "tk_version tk < version_of (tk_key tk) s"
  shows "\<not> is_current tk (sy_co s)" "track_enter cur tk stage (sy_co s) = Inl Turn_Superseded"
    "\<not> can_retry_uncommitted (Some tk) (sy_co s)"
    "promote_observation fin tk preserve (sy_co s) = (None, sy_co s)"
    "\<not> version_matches (tk_key tk) (tk_version tk) (sy_co s)"
  using assms
  by (auto simp: version_of_def is_current_def track_enter_def enter_stage_def can_retry_uncommitted_def
      promote_observation_def version_matches_def split: option.splits)

lemma flagged_version: "flagged st st' \<Longrightarrow> ts_version st' = ts_version st"
  by (cases st, cases st') (simp add: flagged_def)

lemma notify_state_version:
  "ts_version (fst (notify_state interrupt cur fin og protect preempt st)) = ts_version st + 1"
proof -
  obtain st2 where "flagged st st2"
    "fst (notify_state interrupt cur fin og protect preempt st) = advance og protect st2"
    by (rule notify_state_flags)
  then show ?thesis by (simp add: flagged_version advance_def)
qed

text \<open>New input supersedes older turns for good. When a message is not absorbed by the active
  turn, its token is the current one, and every token of that conversation issued before it is
  never current again, whatever operations of whatever tasks follow: it opens no stage, starts no
  fresh attempt and promotes no observation.\<close>

theorem newer_input_supersedes:
  assumes "notify_message cur fin now key og observation protect preserve preempt (sy_co s) = (n, c)"
    and "\<not> preserve"
    and "\<not> (observation \<and> ts_protected (state_of key (sy_co s)) =
           Some (ts_version (state_of key (sy_co s))))"
    and "tk_key old = key" "tk_version old \<le> version_of key s"
    and "turn_run (s\<lparr>sy_co := c\<rparr>) s'"
  shows "is_current (nt_token n) c \<and> \<not> is_current old (sy_co s') \<and>
    track_enter t old stage (sy_co s') = Inl Turn_Superseded \<and>
    \<not> can_retry_uncommitted (Some old) (sy_co s') \<and>
    promote_observation fin' old preserve' (sy_co s') = (None, sy_co s')"
proof -
  obtain st' ca jo where ns: "notify_state (co_interrupt (sy_co s)) cur fin og protect preempt
      (state_of key (sy_co s)) = (st', ca, jo)" by (metis prod_cases3)
  then have c: "c = put_state key st' (sy_co s)" and n: "nt_token n = token_of key now st'"
    using assms(1-3) by (auto simp: notify_message_def Let_def)
  have "ts_version st' = ts_version (state_of key (sy_co s)) + 1"
    using notify_state_version [of "co_interrupt (sy_co s)" cur fin og protect preempt
        "state_of key (sy_co s)"] ns by simp
  then have "tk_version old < version_of key (s\<lparr>sy_co := c\<rparr>)"
    using assms(5) c by (simp add: version_of_def)
  then have stale: "tk_version old < version_of (tk_key old) s'"
    using run_version [OF assms(6), of key] assms(4) by simp
  have "is_current (nt_token n) c" using c n by (simp add: is_current_def token_of_def)
  then show ?thesis using stale_token [OF stale] by blast
qed

section \<open>Side effects shield their turn\<close>

definition shielded :: "turn_token \<Rightarrow> turn_state \<Rightarrow> bool" where
  "shielded tk st \<longleftrightarrow> tk_version tk \<le> ts_version st \<and>
     (ts_version st = tk_version tk \<longrightarrow> ts_mutation st) \<and>
     (\<forall>t r. map_of (ts_regs st) t = Some r \<longrightarrow> rg_token r = tk \<longrightarrow> rg_effect r)"

lemma shielded_flags:
  assumes "shielded tk st" "regs_le (ts_regs st) regs"
  shows "shielded tk (st\<lparr>ts_regs := regs\<rparr>)"
proof -
  have "rg_effect r'" if m: "map_of regs t = Some r'" and "rg_token r' = tk" for t r'
  proof -
    obtain r where "map_of (ts_regs st) t = Some r" "flag_le r r'"
      using regs_leD [OF assms(2) m] by blast
    then show ?thesis using assms(1) \<open>rg_token r' = tk\<close> by (auto simp: shielded_def flag_le_def)
  qed
  then show ?thesis using assms(1) by (simp add: shielded_def)
qed

lemma shielded_quiet: "quiet_move st st' \<Longrightarrow> shielded tk st \<Longrightarrow> shielded tk st'"
  by (induction rule: quiet_move.induct)
    (simp add: shielded_flags, auto simp: shielded_def advance_def)

lemma shielded_calm: "calm st st' \<Longrightarrow> shielded tk st \<Longrightarrow> shielded tk st'"
  by (induction rule: calm.induct) (auto dest: shielded_quiet simp: shielded_def)

lemma shielded_enter:
  assumes "enter_stage cur tk' stage st = Inr st'" "shielded tk st"
  shows "shielded tk st'"
proof (cases "map_of (ts_regs st) cur")
  case None
  then have v: "ts_version st = tk_version tk'"
    and st': "st' = st\<lparr>ts_regs := AList.update cur \<lparr>rg_token = tk', rg_stages = 1,
       rg_effect = ts_mutation st, rg_cancel = False\<rparr> (ts_regs st),
     ts_tasks := AList.update stage cur (ts_tasks st)\<rparr>"
    using assms(1) by (simp_all add: enter_stage_def split: if_splits)
  have "rg_effect r" if "map_of (ts_regs st') t = Some r" "rg_token r = tk" for t r
    using that assms(2) v st' by (cases "t = cur") (auto simp: shielded_def update_conv')
  then show ?thesis using assms(2) st' by (simp add: shielded_def)
next
  case (Some r0)
  then have st': "st' = st\<lparr>ts_regs := AList.update cur (r0\<lparr>rg_stages := rg_stages r0 + 1\<rparr>) (ts_regs st),
     ts_tasks := AList.update stage cur (ts_tasks st)\<rparr>"
    using assms(1) by (simp add: enter_stage_def split: if_splits)
  have "rg_effect r" if "map_of (ts_regs st') t = Some r" "rg_token r = tk" for t r
    using that assms(2) Some st' by (cases "t = cur") (auto simp: shielded_def update_conv')
  then show ?thesis using assms(2) st' by (simp add: shielded_def)
qed

lemma shielded_leave: "shielded tk st \<Longrightarrow> shielded tk (leave_stage cur stage st)"
  by (auto simp: leave_stage_def Let_def shielded_def update_conv' delete_conv' split: option.splits if_splits)

lemma map_of_map_snd: "map_of (map (\<lambda>p. (fst p, f (snd p))) xs) t = map_option f (map_of xs t)"
  by (induction xs) auto

lemma mark_state_regs:
  "map_of (ts_regs (mark_state tk st)) t =
    map_option (\<lambda>r. if rg_token r = tk then r\<lparr>rg_effect := True\<rparr> else r) (map_of (ts_regs st) t)"
  using map_of_map_snd [of "\<lambda>r. if rg_token r = tk then r\<lparr>rg_effect := True\<rparr> else r"]
  by (simp add: mark_state_def)

lemma shielded_mark:
  "tk_version tk \<le> ts_version st \<Longrightarrow> shielded tk (mark_state tk st)"
proof -
  assume v: "tk_version tk \<le> ts_version st"
  have "rg_effect r" if "map_of (ts_regs (mark_state tk st)) t = Some r" "rg_token r = tk" for t r
    using that by (cases "map_of (ts_regs st) t") (simp_all add: mark_state_regs split: if_splits, auto)
  moreover have "ts_version (mark_state tk st) = ts_version st"
    "ts_version st = tk_version tk \<longrightarrow> ts_mutation (mark_state tk st)"
    by (simp_all add: mark_state_def)
  ultimately show ?thesis using v unfolding shielded_def by simp
qed

lemma shielded_change:
  assumes "change (tk_key tk) s s'"
    "\<exists>st. co_states (sy_co s) (tk_key tk) = Some st \<and> shielded tk st"
  shows "\<exists>st. co_states (sy_co s') (tk_key tk) = Some st \<and> shielded tk st"
proof -
  obtain st where st: "co_states (sy_co s) (tk_key tk) = Some st" "shielded tk st"
    using assms(2) by blast
  show ?thesis
    using assms(1)
  proof cases
    case nothing
    then show ?thesis using st by simp
  next
    case (calm st')
    then show ?thesis using st by (simp add: shielded_calm)
  next
    case (enter tk' cur stage)
    obtain st0 st' where e: "co_states (sy_co s) (tk_key tk') = Some st0"
      "enter_stage cur tk' stage st0 = Inr st'" "sy_co s' = put_state (tk_key tk') st' (sy_co s)"
      using enter(2) by (rule track_enter_Inr)
    have "st0 = st" using e(1) enter(1) st(1) by simp
    then have "shielded tk st'" using shielded_enter [OF e(2)] st(2) by simp
    then show ?thesis using e(3) enter(1) by simp
  next
    case (leave cur stage tk')
    then have "sy_co s' = put_state (tk_key tk) (leave_stage cur stage st) (sy_co s)"
      using st(1) by (simp add: track_exit_def)
    then show ?thesis using shielded_leave [OF st(2)] by simp
  qed
qed

lemma shielded_run:
  assumes "turn_run s s'" "\<exists>st. co_states (sy_co s) (tk_key tk) = Some st \<and> shielded tk st"
  shows "\<exists>st. co_states (sy_co s') (tk_key tk) = Some st \<and> shielded tk st"
  using assms by (induction rule: rtranclp_induct) (blast dest: turn_step_change shielded_change)+

lemma interrupt_stage_cancels:
  assumes "t \<in> set (snd (interrupt_stage cur fin stage (st, xs)))" "t \<notin> set xs"
  shows "map_of (ts_tasks st) stage = Some t \<and> t \<noteq> cur \<and> \<not> fin t \<and>
    (\<forall>r. map_of (ts_regs st) t = Some r \<longrightarrow> \<not> rg_effect r \<and> \<not> rg_cancel r)"
  using assms by (auto simp: interrupt_stage_def split: option.splits if_splits)

lemma preempt_cancels:
  assumes "distinct (map fst (ts_regs st))"
    "t \<in> set (fst (snd (preempt_private cur fin st)))"
  shows "t \<noteq> cur \<and> \<not> fin t \<and> (\<exists>r. map_of (ts_regs st) t = Some r \<and> \<not> rg_effect r \<and> \<not> rg_cancel r)"
  using assms by (auto simp: preempt_private_def preemptible_def)

lemma effect_under_flags:
  assumes "flagged st st'" "map_of (ts_regs st) t = Some r" "rg_effect r"
  shows "\<exists>r'. map_of (ts_regs st') t = Some r' \<and> rg_effect r'"
  using assms regs_le_map_of [of "ts_regs st" "ts_regs st'" t]
  by (auto simp: flagged_def flag_le_def elim: option.rel_cases)

text \<open>A notice never cancels the caller, a finished task or a task whose effect has begun.\<close>

lemma notify_state_spares:
  assumes "distinct (map fst (ts_regs st))"
    "t \<in> set (fst (snd (notify_state interrupt cur fin og protect preempt st)))"
  shows "t \<noteq> cur \<and> \<not> fin t \<and> (\<forall>r. map_of (ts_regs st) t = Some r \<longrightarrow> \<not> rg_effect r)"
proof -
  obtain st1 ca jo where 1: "(if preempt then preempt_private cur fin st else (st, [], [])) = (st1, ca, jo)"
    by (metis prod_cases3)
  have f1: "flagged st st1"
    using preempt_private_flagged [of st cur fin] 1 by (auto split: if_splits)
  have c1: "t \<in> set ca \<Longrightarrow> ?thesis"
    using preempt_cancels [OF assms(1), of t cur fin] 1 by (auto split: if_splits)
  obtain st2 c2 where 2: "interrupt_stage cur fin Admission (st1, ca) = (st2, c2)" by fastforce
  obtain st3 c3 where 3: "interrupt_stage cur fin Generation (st2, c2) = (st3, c3)" by fastforce
  have f2: "flagged st1 st2" using interrupt_stage_flagged [of st1 cur fin Admission ca] 2 by simp
  have c2: "t \<in> set c2 \<Longrightarrow> ?thesis"
    using interrupt_stage_cancels [of t cur fin Admission st1 ca] 2 c1 effect_under_flags [OF f1]
    by fastforce
  have c3: "t \<in> set c3 \<Longrightarrow> ?thesis"
    using interrupt_stage_cancels [of t cur fin Generation st2 c2] 3 c2
      effect_under_flags [OF flagged_trans [OF f1 f2]] by fastforce
  show ?thesis using assms(2) 1 2 3 c1 c3
    by (auto simp: notify_state_def split: if_splits)
qed

section \<open>Open stages and their registrations\<close>

type_synonym stage_entry = "string \<times> task \<times> turn_stage"

definition entries :: "string \<Rightarrow> turn_system \<Rightarrow> stage_entry list" where
  "entries key s = filter (\<lambda>e. fst e = key) (sy_stages s)"

definition open_count :: "task \<Rightarrow> stage_entry list \<Rightarrow> nat" where
  "open_count t es = length (filter (\<lambda>e. fst (snd e) = t) es)"

definition stage_ok :: "string \<Rightarrow> stage_entry list \<Rightarrow> turn_state \<Rightarrow> bool" where
  "stage_ok key es st \<longleftrightarrow> distinct (map fst (ts_tasks st)) \<and> distinct (map fst (ts_regs st)) \<and>
     (\<forall>stage t. map_of (ts_tasks st) stage = Some t \<longrightarrow> (key, t, stage) \<in> set es) \<and>
     (\<forall>t. map_option rg_stages (map_of (ts_regs st) t) =
            (if open_count t es = 0 then None else Some (int (open_count t es))))"

lemma open_count_Cons [simp]:
  "open_count t ((k, u, g) # es) = (if u = t then Suc (open_count t es) else open_count t es)"
  by (simp add: open_count_def)

lemma open_count_remove1:
  "(k, u, g) \<in> set es \<Longrightarrow>
    open_count t (remove1 (k, u, g) es) = (if u = t then open_count t es - 1 else open_count t es)"
  by (induction es) (auto simp: open_count_def neq_Nil_conv length_remove1
      filter_empty_conv dest: split_list)

lemma open_count_pos: "(k, u, g) \<in> set es \<Longrightarrow> 0 < open_count u es"
  by (force simp: open_count_def filter_empty_conv)

lemma stage_ok_flags:
  assumes "stage_ok key es st" "regs_le (ts_regs st) regs"
  shows "stage_ok key es (st\<lparr>ts_regs := regs\<rparr>)"
proof -
  have "map_option rg_stages (map_of regs t) = map_option rg_stages (map_of (ts_regs st) t)" for t
    using regs_le_map_of [OF assms(2), of t] by (auto simp: flag_le_def elim: option.rel_cases)
  then show ?thesis using assms regs_le_keys [OF assms(2)] by (simp add: stage_ok_def)
qed

lemma stage_ok_quiet: "quiet_move st st' \<Longrightarrow> stage_ok key es st \<Longrightarrow> stage_ok key es st'"
  by (induction rule: quiet_move.induct) (simp add: stage_ok_flags, auto simp: stage_ok_def advance_def)

lemma stage_ok_holders: "stage_ok key es (st\<lparr>ts_holders := hs\<rparr>) \<longleftrightarrow> stage_ok key es st"
  by (simp add: stage_ok_def)

lemma stage_ok_calm: "calm st st' \<Longrightarrow> stage_ok key es st \<Longrightarrow> stage_ok key es st'"
  by (induction rule: calm.induct) (simp_all add: stage_ok_quiet stage_ok_holders)

lemma enter_stage_shape:
  assumes "enter_stage cur tk stage st = Inr st'"
  shows "\<exists>r. ts_regs st' = AList.update cur r (ts_regs st) \<and>
    ts_tasks st' = AList.update stage cur (ts_tasks st) \<and>
    rg_stages r = (case map_option rg_stages (map_of (ts_regs st) cur) of None \<Rightarrow> 1 | Some n \<Rightarrow> n + 1)"
proof (cases "map_of (ts_regs st) cur")
  case None
  then show ?thesis using assms
    by (intro exI [of _ "\<lparr>rg_token = tk, rg_stages = 1, rg_effect = ts_mutation st,
      rg_cancel = False\<rparr>"]) (auto simp: enter_stage_def split: if_splits)
next
  case (Some r)
  then show ?thesis using assms
    by (intro exI [of _ "r\<lparr>rg_stages := rg_stages r + 1\<rparr>"]) (auto simp: enter_stage_def split: if_splits)
qed

lemma stage_ok_reg:
  "stage_ok key es st \<Longrightarrow> map_option rg_stages (map_of (ts_regs st) t) =
    (if open_count t es = 0 then None else Some (int (open_count t es)))"
  by (simp add: stage_ok_def)

lemma stage_ok_enter:
  assumes "enter_stage cur tk stage st = Inr st'" "stage_ok key es st"
  shows "stage_ok key ((key, cur, stage) # es) st'"
proof -
  obtain r where r: "ts_regs st' = AList.update cur r (ts_regs st)"
    "ts_tasks st' = AList.update stage cur (ts_tasks st)"
    "rg_stages r = (case map_option rg_stages (map_of (ts_regs st) cur) of None \<Rightarrow> 1 | Some n \<Rightarrow> n + 1)"
    using enter_stage_shape [OF assms(1)] by blast
  have n: "rg_stages r = int (Suc (open_count cur es))"
    using r(3) stage_ok_reg [OF assms(2)] by simp
  have "map_option rg_stages (map_of (ts_regs st') t) =
      (if open_count t ((key, cur, stage) # es) = 0 then None
       else Some (int (open_count t ((key, cur, stage) # es))))" for t
    using r(1) n stage_ok_reg [OF assms(2), of t] by (cases "t = cur") (simp_all add: update_conv')
  then show ?thesis
    using assms(2) r(1,2) unfolding stage_ok_def by (simp add: update_conv' distinct_update)
qed

lemma stage_ok_leave:
  assumes "stage_ok key es st" "(key, cur, stage) \<in> set es"
  shows "stage_ok key (remove1 (key, cur, stage) es) (leave_stage cur stage st)"
proof -
  let ?ts = "if map_of (ts_tasks st) stage = Some cur then AList.delete stage (ts_tasks st) else ts_tasks st"
  have pos: "0 < open_count cur es" using assms(2) by (rule open_count_pos)
  then obtain r where r: "map_of (ts_regs st) cur = Some r" "rg_stages r = int (open_count cur es)"
    using assms(1) unfolding stage_ok_def by (metis map_option_eq_Some neq0_conv)
  have ts: "ts_tasks (leave_stage cur stage st) = ?ts"
    using r(1) by (simp add: leave_stage_def Let_def split: option.splits)
  have rs: "ts_regs (leave_stage cur stage st) =
      (if open_count cur es = 1 then AList.delete cur (ts_regs st)
       else AList.update cur (r\<lparr>rg_stages := rg_stages r - 1\<rparr>) (ts_regs st))"
    using r by (simp add: leave_stage_def Let_def)
  have tasks: "(key, t, g) \<in> set (remove1 (key, cur, stage) es)" if "map_of ?ts g = Some t" for g t
  proof -
    have "map_of (ts_tasks st) g = Some t" "(key, t, g) \<noteq> (key, cur, stage)"
      using that by (auto simp: delete_conv' split: if_splits)
    then show ?thesis using assms(1) by (auto simp: stage_ok_def in_set_remove1)
  qed
  have regs: "map_option rg_stages (map_of (ts_regs (leave_stage cur stage st)) t) =
      (if open_count t (remove1 (key, cur, stage) es) = 0 then None
       else Some (int (open_count t (remove1 (key, cur, stage) es))))" for t
    using pos r(2) stage_ok_reg [OF assms(1), of t] unfolding rs open_count_remove1 [OF assms(2)]
    by (cases "t = cur") (auto simp: update_conv' delete_conv' of_nat_diff)
  show ?thesis
    using assms(1) tasks regs unfolding stage_ok_def ts
    by (simp add: rs distinct_update distinct_delete)
qed

definition system_ok :: "turn_system \<Rightarrow> bool" where
  "system_ok s \<longleftrightarrow> (\<forall>key. stage_ok key (entries key s) (state_of key (sy_co s)) \<and>
     (co_states (sy_co s) key = None \<longrightarrow> entries key s = []))"

lemma filter_remove1_same: "p x \<Longrightarrow> filter p (remove1 x xs) = remove1 x (filter p xs)"
  by (induction xs) auto

lemma change_ok:
  assumes "change key s s'" "stage_ok key (entries key s) (state_of key (sy_co s))"
    "co_states (sy_co s) key = None \<longrightarrow> entries key s = []"
  shows "stage_ok key (entries key s') (state_of key (sy_co s')) \<and>
    (co_states (sy_co s') key = None \<longrightarrow> entries key s' = [])"
  using assms(1)
proof cases
  case nothing
  then show ?thesis using assms by (simp add: entries_def state_of_def)
next
  case (calm st)
  then show ?thesis using assms stage_ok_calm by (simp add: entries_def)
next
  case (enter tk cur stage)
  obtain st0 st' where e: "co_states (sy_co s) (tk_key tk) = Some st0"
    "enter_stage cur tk stage st0 = Inr st'" "sy_co s' = put_state (tk_key tk) st' (sy_co s)"
    using enter(2) by (rule track_enter_Inr)
  have "stage_ok key ((key, cur, stage) # entries key s) st'"
    using stage_ok_enter [OF e(2)] assms(2) e(1) enter(1) by simp
  then show ?thesis using e(3) enter by (simp add: entries_def)
next
  case (leave cur stage tk)
  have mem: "(key, cur, stage) \<in> set (entries key s)" using leave(1) by (simp add: entries_def)
  then obtain st where st: "co_states (sy_co s) key = Some st" using assms(3) by fastforce
  have "stage_ok key (remove1 (key, cur, stage) (entries key s)) (leave_stage cur stage st)"
    using stage_ok_leave [OF _ mem] assms(2) st by simp
  then show ?thesis using leave st by (simp add: entries_def track_exit_def filter_remove1_same)
qed

lemma system_ok_new: "system_ok (new_system interrupt)"
  by (simp add: system_ok_def stage_ok_def entries_def new_system_def new_coordinator_def
      state_of_def new_turn_state_def open_count_def)

lemma system_ok_step: "turn_step s s' \<Longrightarrow> system_ok s \<Longrightarrow> system_ok s'"
  unfolding system_ok_def using change_ok turn_step_change by blast

lemma system_ok_run: "turn_run (new_system interrupt) s \<Longrightarrow> system_ok s"
  by (induction rule: rtranclp_induct) (auto intro: system_ok_new system_ok_step)

text \<open>C25: A turn whose side effect has begun is never interrupted by new input. After
  \<open>mark_mutation_started\<close> for an issued token, in every later state of every run, no notice of any
  origin cancels a task that works under that token, and no fresh chat attempt may replay the turn.\<close>

theorem committed_turn_never_interrupted:
  assumes "turn_run (new_system interrupt) s" "co_states (sy_co s) (tk_key tk) = Some st" "tk_version tk \<le> ts_version st"
    and "turn_run (s\<lparr>sy_co := mark_mutation_started tk (sy_co s)\<rparr>) s'"
    and "co_states (sy_co s') (tk_key tk) = Some st'"
    and "map_of (ts_regs st') t = Some r" "rg_token r = tk"
  shows "t \<notin> set (nt_cancel (fst (notify_message cur fin now (tk_key tk) og observation protect
    preserve preempt (sy_co s')))) \<and>
    \<not> can_retry_uncommitted (Some tk) (sy_co s')"
proof -
  have "\<exists>st'. co_states (sy_co s') (tk_key tk) = Some st' \<and> shielded tk st'"
    using assms(2,3) by (intro shielded_run [OF assms(4)])
      (simp add: mark_mutation_started_def shielded_mark)
  then have sh: "shielded tk st'" using assms(5) by simp
  have "turn_run (new_system interrupt) s'"
    using assms(1,4) turn_step.mark [of s tk] by (meson rtranclp.rtrancl_into_rtrancl rtranclp_trans)
  then have d: "distinct (map fst (ts_regs st'))"
    using assms(5) system_ok_run by (metis system_ok_def stage_ok_def state_of_Some)
  have "rg_effect r" using sh assms(6,7) by (auto simp: shielded_def)
  then have "t \<notin> set (nt_cancel (fst (notify_message cur fin now (tk_key tk) og observation protect
      preserve preempt (sy_co s'))))"
    using notify_state_spares [OF d, of t "co_interrupt (sy_co s')" cur fin og protect preempt]
      assms(5,6) by (auto simp: notify_message_def Let_def split: prod.splits)
  moreover have "\<not> can_retry_uncommitted (Some tk) (sy_co s')"
    using sh assms(5) by (auto simp: can_retry_uncommitted_def shielded_def)
  ultimately show ?thesis by blast
qed

lemma request_cancel_total:
  assumes "\<forall>t\<in>set ts. map_of regs t \<noteq> None"
  shows "\<exists>regs'. request_cancel ts regs = Inr regs' \<and>
    (\<forall>t\<in>set ts. \<exists>r. map_of regs' t = Some r \<and> rg_cancel r)"
  using assms
proof (induction ts arbitrary: regs)
  case (Cons t ts)
  then obtain r where r: "map_of regs t = Some r" by auto
  let ?regs = "AList.update t (r\<lparr>rg_cancel := True\<rparr>) regs"
  have "\<forall>u\<in>set ts. map_of ?regs u \<noteq> None" using Cons.prems by (auto simp: update_conv')
  then obtain regs' where regs': "request_cancel ts ?regs = Inr regs'"
    "\<forall>u\<in>set ts. \<exists>r. map_of regs' u = Some r \<and> rg_cancel r"
    using Cons.IH by blast
  have "rel_option flag_le (map_of ?regs t) (map_of regs' t)"
    using request_cancel_le [OF regs'(1)] by (rule regs_le_map_of)
  then have "\<exists>r. map_of regs' t = Some r \<and> rg_cancel r"
    by (cases "map_of regs' t") (auto simp: update_conv' flag_le_def)
  then show ?case using r regs' by simp
qed simp

lemma set_running_tasks:
  "distinct (map fst (ts_tasks st)) \<Longrightarrow> set (running_tasks cur fin st) =
    {t. (\<exists>stage. map_of (ts_tasks st) stage = Some t) \<and> t \<noteq> cur \<and> \<not> fin t}"
  by (force simp: running_tasks_def)

lemma running_registered:
  assumes "system_ok s" "co_states (sy_co s) key = Some st" "t \<in> set (running_tasks cur fin st)"
  shows "map_of (ts_regs st) t \<noteq> None"
proof -
  have ok: "stage_ok key (entries key s) st" using assms(1,2) by (metis system_ok_def state_of_Some)
  then obtain stage where "map_of (ts_tasks st) stage = Some t"
    using assms(3) set_running_tasks by (auto simp: stage_ok_def)
  then have "0 < open_count t (entries key s)"
    using ok open_count_pos by (metis stage_ok_def)
  then show ?thesis using stage_ok_reg [OF ok, of t] by auto
qed

text \<open>C26: Stopping a conversation reaches every running stage. In every reachable state both
  cancellation entry points succeed (no task lacks its registration, so there is no \<open>KeyError\<close>),
  they cancel exactly the unfinished stage tasks other than the caller, each of them learns that
  it was superseded rather than dying of a bare \<open>CancelledError\<close>, and \<open>cancel_interruptible\<close>
  makes every issued token stale while the boundary variant leaves the current token alone.\<close>

theorem stop_reaches_running_stages:
  assumes "turn_run (new_system interrupt) s" "co_states (sy_co s) key = Some st"
    and "cancel = cancel_interruptible \<or> cancel = cancel_running_before_boundary"
  shows "\<exists>c' st'. cancel cur fin key (sy_co s) =
      Inr (running_tasks cur fin st \<noteq> [], running_tasks cur fin st, c') \<and>
    set (running_tasks cur fin st) =
      {t. (\<exists>stage. map_of (ts_tasks st) stage = Some t) \<and> t \<noteq> cur \<and> \<not> fin t} \<and>
    co_states c' key = Some st' \<and>
    (\<forall>t\<in>set (running_tasks cur fin st). \<exists>r. map_of (ts_regs st') t = Some r \<and>
       track_cancelled r Admission = Turn_Interrupted \<and>
       track_cancelled r Generation = Turn_Superseded) \<and>
    ts_version st' = ts_version st + (if cancel = cancel_interruptible then 1 else 0)"
proof -
  have ok: "system_ok s" using assms(1) by (rule system_ok_run)
  then have d: "distinct (map fst (ts_tasks st))"
    using assms(2) by (metis system_ok_def state_of_Some stage_ok_def)
  obtain regs where regs: "request_cancel (running_tasks cur fin st) (ts_regs st) = Inr regs"
    "\<forall>t\<in>set (running_tasks cur fin st). \<exists>r. map_of regs t = Some r \<and> rg_cancel r"
    using request_cancel_total running_registered [OF ok assms(2)] by blast
  have flagged: "\<forall>t\<in>set (running_tasks cur fin st). \<exists>r. map_of regs t = Some r \<and>
       track_cancelled r Admission = Turn_Interrupted \<and> track_cancelled r Generation = Turn_Superseded"
    using regs(2) by (fastforce simp: track_cancelled_def)
  show ?thesis
  proof (cases "cancel = cancel_interruptible")
    case True
    then show ?thesis using assms(2) regs(1) flagged set_running_tasks [OF d]
      by (simp add: cancel_interruptible_def Let_def)
  next
    case False
    then have "cancel = cancel_running_before_boundary" using assms(3) by blast
    then show ?thesis using False assms(2) regs(1) flagged set_running_tasks [OF d]
      by (simp add: cancel_running_before_boundary_def Let_def)
  qed
qed

section \<open>Reservations hold the conversation\<close>

definition hold_ok :: "turn_system \<Rightarrow> bool" where
  "hold_ok s \<longleftrightarrow> (\<forall>key t. map_of (ts_holders (state_of key (sy_co s))) t =
     (if count_list (sy_holds s) (key, t) = 0 then None
      else Some (int (count_list (sy_holds s) (key, t)))))"

abbreviation holders_of :: "string \<Rightarrow> coordinator \<Rightarrow> (task \<times> int) list" where
  "holders_of key c \<equiv> ts_holders (state_of key c)"

lemma state_of_put: "state_of key (put_state k st c) = (if k = key then st else state_of key c)"
  by (simp add: state_of_def)

lemma flagged_holders: "flagged st st' \<Longrightarrow> ts_holders st' = ts_holders st"
  by (cases st, cases st') (simp add: flagged_def)

lemma notify_state_holders:
  "ts_holders (fst (notify_state interrupt cur fin og protect preempt st)) = ts_holders st"
proof -
  obtain st2 where "flagged st st2"
    "fst (notify_state interrupt cur fin og protect preempt st) = advance og protect st2"
    by (rule notify_state_flags)
  then show ?thesis by (simp add: flagged_holders advance_def)
qed

lemma notify_holders [simp]:
  "holders_of key (snd (notify_message cur fin now k og observation protect preserve preempt c)) =
    holders_of key c"
  using notify_state_holders [of "co_interrupt c" cur fin og protect preempt "state_of k c"]
  by (auto simp: notify_message_def Let_def state_of_put split: prod.splits)

lemma track_enter_holders: "track_enter cur tk stage c = Inr c' \<Longrightarrow> holders_of key c' = holders_of key c"
  by (auto simp: track_enter_def enter_stage_def state_of_put split: option.splits if_splits sum.splits)

lemma track_exit_holders [simp]: "holders_of key (track_exit cur tk stage c) = holders_of key c"
  by (auto simp: track_exit_def leave_stage_def Let_def state_of_put split: option.splits)

lemma mark_holders [simp]: "holders_of key (mark_mutation_started tk c) = holders_of key c"
  by (auto simp: mark_mutation_started_def mark_state_def state_of_put split: option.splits)

lemma promote_holders [simp]: "holders_of key (snd (promote_observation fin tk preserve c)) = holders_of key c"
  by (auto simp: promote_observation_def advance_def Let_def state_of_put split: option.splits)

lemma begin_holders [simp]: "holders_of key (snd (begin_background fin now k c)) = holders_of key c"
  by (auto simp: begin_background_def background_token_def advance_def Let_def state_of_put)

lemma cancel_holders [simp]:
  "holders_of key (cancelled_state (cancel_interruptible cur fin k c) c) = holders_of key c"
  "holders_of key (cancelled_state (cancel_running_before_boundary cur fin k c) c) = holders_of key c"
  by (auto simp: cancelled_state_def cancel_interruptible_def cancel_running_before_boundary_def
      Let_def state_of_put split: option.splits sum.splits)

lemma configure_holders [simp]: "holders_of key (configure_policy b c) = holders_of key c"
  by (simp add: configure_policy_def state_of_def)

lemma hold_ok_frame:
  "hold_ok s \<Longrightarrow> (\<And>key. holders_of key c = holders_of key (sy_co s)) \<Longrightarrow> hold_ok (s\<lparr>sy_co := c\<rparr>)"
  by (simp add: hold_ok_def)

lemma hold_ok_at: "hold_ok s \<Longrightarrow> map_of (holders_of key (sy_co s)) t =
     (if count_list (sy_holds s) (key, t) = 0 then None
      else Some (int (count_list (sy_holds s) (key, t))))"
  by (simp add: hold_ok_def)

lemma hold_ok_in:
  assumes "hold_ok s" "\<And>k. holders_of k c =
    (if k = key then ts_holders (inc_holder cur (state_of key (sy_co s))) else holders_of k (sy_co s))"
  shows "hold_ok (s\<lparr>sy_co := c, sy_holds := (key, cur) # sy_holds s\<rparr>)"
  using hold_ok_at [OF assms(1)] unfolding hold_ok_def
  by (simp add: assms(2) inc_holder_def update_conv')

lemma count_list_remove1:
  "count_list (remove1 x xs) y = (if x = y then count_list xs y - 1 else count_list xs y)"
  by (induction xs) (auto simp: count_list_0_iff)

lemma hold_ok_out:
  assumes "hold_ok s" "(key, cur) \<in> set (sy_holds s)" "\<And>k. holders_of k c =
    (if k = key then ts_holders (dec_holder cur (state_of key (sy_co s))) else holders_of k (sy_co s))"
  shows "hold_ok (s\<lparr>sy_co := c, sy_holds := remove1 (key, cur) (sy_holds s)\<rparr>)"
proof -
  have n: "0 < count_list (sy_holds s) (key, cur)"
    using assms(2) by (metis count_list_0_iff neq0_conv)
  show ?thesis
    using hold_ok_at [OF assms(1)] n unfolding hold_ok_def
    by (auto simp: assms(3) dec_holder_def Let_def update_conv' delete_conv' count_list_remove1)
qed

lemma hold_ok_step:
  assumes "turn_step s s'" "hold_ok s"
  shows "hold_ok s'"
  using assms(1)
proof cases
  case (hold_in cur key)
  then show ?thesis
    using hold_ok_in [OF assms(2)] by (simp add: hold_enter_def state_of_put)
next
  case (hold_out key cur)
  then show ?thesis
    using hold_ok_out [OF assms(2)] by (simp add: hold_exit_def state_of_put)
next
  case (stage_in cur tk stage c)
  then show ?thesis
    using assms(2) track_enter_holders [OF stage_in(2)] by (simp add: hold_ok_def)
next
  case (stage_out tk cur stage)
  then show ?thesis using assms(2) by (simp add: hold_ok_def)
next
  case (background_in cur fin now key og tk c)
  then have "holders_of k c = (if k = key then ts_holders (inc_holder cur (state_of key (sy_co s)))
      else holders_of k (sy_co s))" for k
    by (auto simp: background_enter_def background_token_def Let_def state_of_put inc_holder_def
        advance_def split: if_splits)
  then show ?thesis using hold_ok_in [OF assms(2)] background_in by simp
next
  case (background_refused cur fin now key og c)
  then have "holders_of k c = holders_of k (sy_co s)" for k
    by (auto simp: background_enter_def Let_def state_of_put split: if_splits prod.splits)
  then show ?thesis using hold_ok_frame [OF assms(2)] background_refused by simp
next
  case (background_out key cur tk)
  then show ?thesis
    using hold_ok_out [OF assms(2)] by (simp add: background_exit_def state_of_put)
qed (simp_all add: hold_ok_frame [OF assms(2)])

lemma hold_ok_run: "turn_run (new_system interrupt) s \<Longrightarrow> hold_ok s"
proof (induction rule: rtranclp_induct)
  case base
  show ?case by (simp add: hold_ok_def new_system_def new_coordinator_def state_of_def new_turn_state_def)
qed (rule hold_ok_step)

text \<open>C27: A reserved conversation admits no background work. While a task that has not finished
  holds the conversation (a whole turn, or an admitted background turn), no background attempt is
  admitted and no observation is promoted, in every reachable state; and when nothing is open any
  more the reservation is gone and background work is admitted with a current token.\<close>

theorem reserved_conversation_admits_nothing:
  assumes "turn_run (new_system interrupt) s"
  shows "((key, t) \<in> set (sy_holds s) \<and> \<not> fin t \<longrightarrow>
      fst (begin_background fin now key (sy_co s)) = None \<and>
      fst (background_enter cur fin now key og (sy_co s)) = None \<and>
      fst (promote_observation fin \<lparr>tk_key = key, tk_version = v, tk_origin = og', tk_created = now'\<rparr>
        False (sy_co s)) = None) \<and>
    (key \<notin> fst ` set (sy_holds s) \<and> key \<notin> fst ` set (sy_stages s) \<longrightarrow>
      (\<exists>tk c. begin_background fin now key (sy_co s) = (Some tk, c) \<and> is_current tk c))"
proof -
  have h: "hold_ok s" and ok: "system_ok s"
    using hold_ok_run [OF assms] system_ok_run [OF assms] by auto
  have "fst (begin_background fin now key (sy_co s)) = None \<and>
      fst (background_enter cur fin now key og (sy_co s)) = None \<and>
      fst (promote_observation fin \<lparr>tk_key = key, tk_version = v, tk_origin = og', tk_created = now'\<rparr>
        False (sy_co s)) = None" if a: "(key, t) \<in> set (sy_holds s)" and b: "\<not> fin t"
  proof -
    have "t \<in> fst ` set (holders_of key (sy_co s))"
      using hold_ok_at [OF h, of key t] a by (metis count_list_0_iff map_of_eq_None_iff option.distinct(1))
    then have "occupied fin (state_of key (sy_co s))"
      using b by (auto simp: occupied_def list_ex_iff)
    then show ?thesis
      by (auto simp: begin_background_def background_enter_def promote_observation_def Let_def
          split: option.splits)
  qed
  moreover have "\<exists>tk c. begin_background fin now key (sy_co s) = (Some tk, c) \<and> is_current tk c"
    if a: "key \<notin> fst ` set (sy_holds s)" and b: "key \<notin> fst ` set (sy_stages s)"
  proof -
    let ?st = "state_of key (sy_co s)"
    have "count_list (sy_holds s) (key, t) = 0" for t
      using a by (force simp: count_list_0_iff)
    then have "ts_holders ?st = []"
      using hold_ok_at [OF h, of key] by (metis map_of_eq_empty_iff ext)
    moreover have "entries key s = []" using b by (force simp: entries_def filter_empty_conv)
    then have "stage_ok key [] ?st" using ok by (metis system_ok_def)
    then have "map_of (ts_tasks ?st) g \<noteq> Some u" for g u
      by (auto simp: stage_ok_def)
    then have "ts_tasks ?st = []" by (metis map_of_eq_empty_iff not_None_eq ext)
    ultimately have "\<not> occupied fin ?st" by (simp add: occupied_def)
    then show ?thesis
      by (simp add: begin_background_def background_token_def Let_def is_current_def token_of_def)
  qed
  ultimately show ?thesis by blast
qed

section \<open>A concrete run\<close>

text \<open>Task 7 generates for message 1 of conversation \<open>g\<close> while task 3 holds it.\<close>

definition ex_token :: turn_token where
  "ex_token = \<lparr>tk_key = ''g'', tk_version = 1, tk_origin = User_Message, tk_created = 0\<rparr>"

definition ex_turn_state :: turn_state where
  "ex_turn_state = \<lparr>ts_version = 1, ts_origin = User_Message, ts_mutation = False,
     ts_protected = None, ts_tasks = [(Generation, 7)],
     ts_regs = [(7, \<lparr>rg_token = ex_token, rg_stages = 1, rg_effect = False, rg_cancel = False\<rparr>)],
     ts_holders = [(3, 1)]\<rparr>"

definition ex_system :: turn_system where
  "ex_system = \<lparr>sy_co = \<lparr>co_interrupt = True, co_states = [''g'' \<mapsto> ex_turn_state]\<rparr>,
     sy_stages = [(''g'', 7, Generation)], sy_holds = [(''g'', 3)]\<rparr>"

lemmas turn_defs = notify_message_def notify_state_def advance_def token_of_def track_enter_def
  enter_stage_def hold_enter_def inc_holder_def new_system_def new_coordinator_def new_turn_state_def
  put_state_def state_of_def mark_mutation_started_def mark_state_def interruptible_origin_def Let_def

lemma ex_reachable: "turn_run (new_system True) ex_system"
proof -
  let ?c1 = "snd (notify_message 0 (\<lambda>_. False) 0 ''g'' User_Message False False False False
    (new_coordinator True))"
  let ?s1 = "(new_system True)\<lparr>sy_co := ?c1\<rparr>"
  let ?s2 = "?s1\<lparr>sy_co := hold_enter 3 ''g'' (sy_co ?s1), sy_holds := (''g'', 3) # sy_holds ?s1\<rparr>"
  have 1: "turn_step (new_system True) ?s1"
    using turn_step.notify [of "new_system True"] by (simp add: new_system_def)
  have 2: "turn_step ?s1 ?s2" by (rule turn_step.hold_in)
  have e: "track_enter 7 ex_token Generation (sy_co ?s2) = Inr (sy_co ex_system)"
    by (simp add: turn_defs ex_token_def ex_system_def ex_turn_state_def)
  have 3: "turn_step ?s2 (?s2\<lparr>sy_co := sy_co ex_system,
      sy_stages := (tk_key ex_token, 7, Generation) # sy_stages ?s2\<rparr>)"
    using e by (rule turn_step.stage_in)
  have "?s2\<lparr>sy_co := sy_co ex_system,
      sy_stages := (tk_key ex_token, 7, Generation) # sy_stages ?s2\<rparr> = ex_system"
    by (simp add: ex_system_def ex_token_def new_system_def)
  then show ?thesis using 1 2 3 by (metis (no_types, lifting) converse_rtranclp_into_rtranclp rtranclp.rtrancl_refl)
qed

lemma newer_input_supersedes_witness:
  "\<exists>n c. notify_message 0 (\<lambda>_. False) 5 ''g'' User_Message False False False False
      (sy_co ex_system) = (n, c) \<and> is_current (nt_token n) c \<and> \<not> is_current ex_token c"
proof -
  obtain n c where nc: "notify_message 0 (\<lambda>_. False) 5 ''g'' User_Message False False False False
      (sy_co ex_system) = (n, c)" by fastforce
  have "tk_version ex_token \<le> version_of ''g'' ex_system"
    by (simp add: version_of_def state_of_def ex_system_def ex_token_def ex_turn_state_def)
  moreover have "tk_key ex_token = ''g''" by (simp add: ex_token_def)
  ultimately show ?thesis
    using newer_input_supersedes [OF nc _ _ _ _ rtranclp.rtrancl_refl, of ex_token] nc by simp
qed

lemma committed_turn_never_interrupted_witness:
  "7 \<notin> set (nt_cancel (fst (notify_message 0 (\<lambda>_. False) 5 ''g'' User_Message False False False True
    (mark_mutation_started ex_token (sy_co ex_system)))))"
proof -
  let ?s = "ex_system\<lparr>sy_co := mark_mutation_started ex_token (sy_co ex_system)\<rparr>"
  have 1: "co_states (sy_co ex_system) (tk_key ex_token) = Some ex_turn_state"
    by (simp add: ex_system_def ex_token_def)
  have 2: "co_states (sy_co ?s) (tk_key ex_token) = Some (mark_state ex_token ex_turn_state)"
    using 1 by (simp add: mark_mutation_started_def)
  show ?thesis
    using committed_turn_never_interrupted [OF ex_reachable 1 _ rtranclp.rtrancl_refl 2, of 7]
    by (simp add: ex_turn_state_def ex_token_def mark_state_def)
qed

lemma stop_reaches_running_stages_witness:
  "\<exists>c. cancel_interruptible 0 (\<lambda>_. False) ''g'' (sy_co ex_system) = Inr (True, [7], c)"
proof -
  have 1: "co_states (sy_co ex_system) ''g'' = Some ex_turn_state" by (simp add: ex_system_def)
  have 2: "running_tasks 0 (\<lambda>_. False) ex_turn_state = [7]"
    by (simp add: running_tasks_def ex_turn_state_def)
  show ?thesis
    using stop_reaches_running_stages [OF ex_reachable 1, of cancel_interruptible 0 "\<lambda>_. False"] 2
    by auto
qed

lemma reserved_conversation_admits_nothing_witness:
  "fst (begin_background (\<lambda>_. False) 5 ''g'' (sy_co ex_system)) = None \<and>
   (\<exists>tk c. begin_background (\<lambda>_. False) 5 ''h'' (sy_co ex_system) = (Some tk, c) \<and> is_current tk c)"
  using reserved_conversation_admits_nothing [OF ex_reachable, of "''g''" 3 "\<lambda>_. False" 5]
    reserved_conversation_admits_nothing [OF ex_reachable, of "''h''" 3 "\<lambda>_. False" 5]
  by (simp add: ex_system_def)

end
