(* ===== verification/Transport_Split.thy ===== *)
theory Transport_Split
  imports Yuki_Prelude
begin

text \<open>
  Platform messages below the delivery receipts (\<open>gateway/social.py\<close>): their durable payload and
  \<open>split_transport_message\<close>, which cuts a message into physical parts without breaking a native
  mention. A text is its list of code points and offsets are Python integers, so slices follow
  Python's rule for negative and oversized bounds. The cutting loop need not end on overlapping
  mentions, so it is \<open>partial_function (option)\<close>; \<open>None\<close> is a loop that never returns.
\<close>

section \<open>Texts and slices\<close>

type_synonym utext = "nat list"

definition clamp_index :: "nat \<Rightarrow> int \<Rightarrow> int" where
  "clamp_index n i = (if i < 0 then max 0 (i + int n) else min i (int n))"

definition slice :: "'a list \<Rightarrow> int \<Rightarrow> int \<Rightarrow> 'a list" where
  "slice xs a b =
    (let n = length xs; a' = nat (clamp_index n a); b' = nat (clamp_index n b)
     in take (b' - a') (drop a' xs))"

lemma slice_nat: "a \<le> length xs \<Longrightarrow> b \<le> length xs \<Longrightarrow> slice xs (int a) (int b) = take (b - a) (drop a xs)"
  by (simp add: slice_def clamp_index_def)

section \<open>Messages\<close>

record mention =
  mn_external :: string
  mn_name :: utext
  mn_start :: int
  mn_end :: int
  mn_account :: "string option"
  mn_assignment :: "string option"
  mn_person :: "string option"
  mn_presence :: "string option"
  mn_kind :: string

record media =
  md_kind :: string
  md_content :: string
  md_filename :: string
  md_mime :: string
  md_emoji :: bool

record message =
  ms_text :: utext
  ms_mentions :: "mention list"
  ms_reply :: "string option"
  ms_media :: "media option"

definition move_mention :: "int \<Rightarrow> mention \<Rightarrow> mention" where
  "move_mention d m = m\<lparr>mn_start := mn_start m + d, mn_end := mn_end m + d\<rparr>"

section \<open>Durable payload\<close>

text \<open>The values of the payload dictionary; a mention is \<open>asdict\<close> of its dataclass.\<close>

datatype payload_value =
    P_None
  | P_Bool bool
  | P_Int int
  | P_Str string
  | P_Text utext
  | P_List "payload_value list"
  | P_Dict "(string \<times> payload_value) list"

definition p_opt :: "string option \<Rightarrow> payload_value" where
  "p_opt s = (case s of None \<Rightarrow> P_None | Some x \<Rightarrow> P_Str x)"

definition mention_asdict :: "mention \<Rightarrow> payload_value" where
  "mention_asdict m = P_Dict [
     (''external_id'', P_Str (mn_external m)), (''display_name'', P_Text (mn_name m)),
     (''text_start'', P_Int (mn_start m)), (''text_end'', P_Int (mn_end m)),
     (''account_id'', p_opt (mn_account m)), (''assignment_id'', p_opt (mn_assignment m)),
     (''person_id'', p_opt (mn_person m)), (''presence_id'', p_opt (mn_presence m)),
     (''kind'', P_Str (mn_kind m))]"

definition transport_payload :: "message \<Rightarrow> (string \<times> payload_value) list" where
  "transport_payload m = [
     (''text'', P_Text (ms_text m)),
     (''mentions'', P_List (map mention_asdict (ms_mentions m))),
     (''reply_reference'', p_opt (ms_reply m)),
     (''media'', P_Bool (ms_media m \<noteq> None))]"

text \<open>Reading back: \<open>TransportMention(**item)\<close> takes its declared keywords only. The dataclass does
  not check types; a payload of other types than the writer's is refused here, as \<open>None\<close>.\<close>

definition read_opt :: "payload_value \<Rightarrow> string option option" where
  "read_opt v = (case v of P_None \<Rightarrow> Some None | P_Str s \<Rightarrow> Some (Some s) | _ \<Rightarrow> None)"

definition read_mention :: "payload_value \<Rightarrow> mention option" where
  "read_mention v =
    (case v of
      P_Dict d \<Rightarrow>
        (if set (map fst d) \<subseteq> set [''external_id'', ''display_name'', ''text_start'', ''text_end'',
              ''account_id'', ''assignment_id'', ''person_id'', ''presence_id'', ''kind'']
         then
           (let opt = (\<lambda>k. case map_of d k of None \<Rightarrow> Some None | Some x \<Rightarrow> read_opt x)
            in case (map_of d ''external_id'', map_of d ''display_name'', map_of d ''text_start'',
                 map_of d ''text_end'', opt ''account_id'', opt ''assignment_id'', opt ''person_id'',
                 opt ''presence_id'',
                 (case map_of d ''kind'' of None \<Rightarrow> Some (P_Str ''member'') | Some x \<Rightarrow> Some x)) of
               (Some (P_Str e), Some (P_Text n), Some (P_Int a), Some (P_Int b), Some ac, Some asg,
                 Some pe, Some pr, Some (P_Str k)) \<Rightarrow>
                 Some \<lparr>mn_external = e, mn_name = n, mn_start = a, mn_end = b, mn_account = ac,
                   mn_assignment = asg, mn_person = pe, mn_presence = pr, mn_kind = k\<rparr>
             | _ \<Rightarrow> None)
         else None)
    | _ \<Rightarrow> None)"

fun read_mentions :: "payload_value list \<Rightarrow> mention list option" where
  "read_mentions [] = Some []"
| "read_mentions (v # vs) =
    (case (read_mention v, read_mentions vs) of (Some m, Some ms) \<Rightarrow> Some (m # ms) | _ \<Rightarrow> None)"

definition prepared_transport :: "(string \<times> payload_value) list \<Rightarrow> media option \<Rightarrow> message option" where
  "prepared_transport d md =
    (case (map_of d ''text'', map_of d ''mentions'', map_of d ''reply_reference'', map_of d ''media'') of
      (Some (P_Text t), Some (P_List vs), Some r, Some (P_Bool b)) \<Rightarrow>
        (case (read_mentions vs, read_opt r) of
          (Some ms, Some reply) \<Rightarrow>
            Some \<lparr>ms_text = t, ms_mentions = ms, ms_reply = reply, ms_media = (if b then md else None)\<rparr>
        | _ \<Rightarrow> None)
    | _ \<Rightarrow> None)"

lemma read_p_opt [simp]: "read_opt (p_opt s) = Some s"
  by (cases s) (simp_all add: p_opt_def read_opt_def)

lemma read_mention_asdict [simp]: "read_mention (mention_asdict m) = Some m"
  by (simp add: read_mention_def mention_asdict_def)

lemma read_mentions_asdict [simp]: "read_mentions (map mention_asdict ms) = Some ms"
  by (induction ms) simp_all

text \<open>A prepared message survives its durable payload: rebuilt from the payload with its media
  artifact it is the same message, whatever it holds.\<close>

lemma payload_roundtrip: "prepared_transport (transport_payload m) (ms_media m) = Some m"
  by (cases "ms_media m") (simp_all add: prepared_transport_def transport_payload_def)

section \<open>Physical parts\<close>

datatype split_error = Mention_Exceeds_Platform_Limit

text \<open>The inner loop: from the first unsent mention on, pull \<open>end\<close> back before a mention it would cut.\<close>

fun fit_mentions :: "int \<Rightarrow> mention list \<Rightarrow> int \<Rightarrow> nat \<Rightarrow> split_error + (int \<times> nat)" where
  "fit_mentions start [] e k = Inr (e, k)"
| "fit_mentions start (m # ms) e k =
    (if mn_start m \<ge> e then Inr (e, k)
     else if mn_end m > e
     then (if mn_start m = start then Inl Mention_Exceeds_Platform_Limit else Inr (mn_start m, k))
     else fit_mentions start ms e (Suc k))"

definition part_end :: "utext \<Rightarrow> nat \<Rightarrow> nat option \<Rightarrow> int \<Rightarrow> bool \<Rightarrow> int" where
  "part_end text limit following start first =
    min (if first then start + int limit
         else start + int (case following of None \<Rightarrow> limit | Some f \<Rightarrow> if f = 0 then limit else f))
      (int (length text))"

definition make_part :: "message \<Rightarrow> int \<Rightarrow> int \<Rightarrow> nat \<Rightarrow> nat \<Rightarrow> bool \<Rightarrow> message" where
  "make_part msg start e k k' first = msg\<lparr>
     ms_text := slice (ms_text msg) start e,
     ms_mentions := map (move_mention (- start)) (slice (ms_mentions msg) (int k) (int k')),
     ms_reply := (if first then ms_reply msg else None),
     ms_media := (if first then ms_media msg else None)\<rparr>"

partial_function (option) split_parts ::
    "message \<Rightarrow> nat \<Rightarrow> nat option \<Rightarrow> int \<Rightarrow> nat \<Rightarrow> message list \<Rightarrow> (split_error + message list) option" where
  "split_parts msg limit following start k parts =
    (if start \<ge> int (length (ms_text msg)) then Some (Inr parts)
     else
       (case fit_mentions start (drop k (ms_mentions msg))
           (part_end (ms_text msg) limit following start (parts = [])) k of
         Inl err \<Rightarrow> Some (Inl err)
       | Inr (e, k') \<Rightarrow>
           split_parts msg limit following e k' (parts @ [make_part msg start e k k' (parts = [])])))"

definition split_transport_message ::
    "message \<Rightarrow> nat \<Rightarrow> nat option \<Rightarrow> (split_error + message list) option" where
  "split_transport_message msg limit following =
    (if length (ms_text msg) \<le> limit then Some (Inr [msg])
     else split_parts msg limit following 0 0 [])"

section \<open>Lossless parts\<close>

text \<open>\<open>placed lo hi ms\<close>: the mentions are in order, do not overlap and lie within the range. \<open>glue\<close>
  puts parts back together, each mention at its place in the joined text.\<close>

fun placed :: "int \<Rightarrow> int \<Rightarrow> mention list \<Rightarrow> bool" where
  "placed lo hi [] \<longleftrightarrow> lo \<le> hi"
| "placed lo hi (m # ms) \<longleftrightarrow> lo \<le> mn_start m \<and> mn_start m < mn_end m \<and> placed (mn_end m) hi ms"

fun glue :: "message list \<Rightarrow> utext \<times> mention list" where
  "glue [] = ([], [])"
| "glue (p # ps) = (ms_text p @ fst (glue ps),
     ms_mentions p @ map (move_mention (int (length (ms_text p)))) (snd (glue ps)))"

definition mention_size :: "mention \<Rightarrow> int" where
  "mention_size m = mn_end m - mn_start m"

definition next_limit :: "nat \<Rightarrow> nat option \<Rightarrow> nat" where
  "next_limit limit following = (case following of None \<Rightarrow> limit | Some f \<Rightarrow> if f = 0 then limit else f)"

lemma move_mention_add [simp]: "move_mention a (move_mention b m) = move_mention (a + b) m"
  by (simp add: move_mention_def)

lemma move_mention_0 [simp]: "move_mention 0 m = m"
  by (simp add: move_mention_def)

lemma move_mention_comp [simp]: "move_mention a \<circ> move_mention b = move_mention (a + b)"
  by (rule ext) simp

lemma move_mention_fields [simp]:
  "mn_start (move_mention d m) = mn_start m + d" "mn_end (move_mention d m) = mn_end m + d"
  by (simp_all add: move_mention_def)

lemma map_move_0 [simp]: "map (move_mention 0) ms = ms"
  by (induction ms) simp_all

lemma placed_le: "placed lo hi ms \<Longrightarrow> lo \<le> hi"
  by (induction lo hi ms rule: placed.induct) auto

lemma placed_move: "placed lo hi ms \<Longrightarrow> placed (lo + d) (hi + d) (map (move_mention d) ms)"
  by (induction lo hi ms rule: placed.induct) auto

lemma glue_append:
  "glue (ps @ qs) = (fst (glue ps) @ fst (glue qs),
     snd (glue ps) @ map (move_mention (int (length (fst (glue ps))))) (snd (glue qs)))"
  by (induction ps) (simp_all add: add.commute)

lemma fit_mentions_sound:
  assumes "fit_mentions start ms e k = Inr (e', k')" "placed lo hi ms" "start \<le> lo" "lo \<le> e" "start < e"
    "e \<le> hi"
  shows "\<exists>j. k' = k + j \<and> j \<le> length ms \<and> start < e' \<and> e' \<le> e \<and>
    placed lo e' (take j ms) \<and> placed e' hi (drop j ms)"
  using assms
proof (induction ms arbitrary: lo k)
  case Nil
  then show ?case by auto
next
  case (Cons m ms)
  show ?case
  proof (cases "mn_start m \<ge> e")
    case True
    then show ?thesis using Cons.prems by (intro exI [of _ 0]) auto
  next
    case False
    show ?thesis
    proof (cases "mn_end m > e")
      case True
      then have "e' = mn_start m" "k' = k" "mn_start m \<noteq> start"
        using Cons.prems(1) False by (auto split: if_splits)
      then show ?thesis using Cons.prems False by (intro exI [of _ 0]) auto
    next
      case fits: False
      then obtain j where "k' = Suc k + j" "j \<le> length ms" "start < e'" "e' \<le> e"
        "placed (mn_end m) e' (take j ms)" "placed e' hi (drop j ms)"
        using Cons.IH [of "Suc k" "mn_end m"] Cons.prems False by auto
      then show ?thesis using Cons.prems by (intro exI [of _ "Suc j"]) auto
    qed
  qed
qed

lemma fit_mentions_error:
  "fit_mentions start ms e k = Inl err \<Longrightarrow> \<exists>m\<in>set ms. mn_start m = start \<and> e < mn_end m"
  by (induction start ms e k rule: fit_mentions.induct) (auto split: if_splits)

lemma placed_bounds: "placed lo hi ms \<Longrightarrow> m \<in> set ms \<Longrightarrow> lo \<le> mn_start m \<and> mn_end m \<le> hi"
  by (induction lo hi ms rule: placed.induct) (auto dest: placed_le)

text \<open>What the parts collected so far have in common with the message.\<close>

definition parts_ok :: "message \<Rightarrow> nat \<Rightarrow> nat option \<Rightarrow> int \<Rightarrow> nat \<Rightarrow> message list \<Rightarrow> bool" where
  "parts_ok msg limit following start k parts \<longleftrightarrow>
     0 \<le> start \<and> start \<le> int (length (ms_text msg)) \<and> k \<le> length (ms_mentions msg) \<and>
     placed start (int (length (ms_text msg))) (drop k (ms_mentions msg)) \<and>
     glue parts = (take (nat start) (ms_text msg), take k (ms_mentions msg)) \<and>
     (\<forall>p\<in>set parts. ms_text p \<noteq> [] \<and> placed 0 (int (length (ms_text p))) (ms_mentions p)) \<and>
     list_all (\<lambda>p. length (ms_text p) \<le> limit) (take 1 parts) \<and>
     list_all (\<lambda>p. length (ms_text p) \<le> next_limit limit following \<and> ms_reply p = None \<and>
       ms_media p = None) (drop 1 parts) \<and>
     map (\<lambda>p. (ms_reply p, ms_media p)) (take 1 parts) =
       map (\<lambda>p. (ms_reply msg, ms_media msg)) (take 1 parts)"

lemma parts_ok_step:
  assumes ok: "parts_ok msg limit following start k parts"
    and e: "e = part_end (ms_text msg) limit following start (parts = [])"
    and fit: "fit_mentions start (drop k (ms_mentions msg)) e k = Inr (e', k')"
    and more: "start < int (length (ms_text msg))" and "0 < limit"
  shows "parts_ok msg limit following e' k' (parts @ [make_part msg start e' k k' (parts = [])])"
    "start < e'"
proof -
  let ?n = "int (length (ms_text msg))"
  define b where "b = (if parts = [] then limit else next_limit limit following)"
  have b: "0 < b" "e = min (start + int b) ?n"
    using \<open>0 < limit\<close> e by (auto simp: b_def next_limit_def part_end_def split: option.splits)
  then have "start < e" "e \<le> ?n" using more by auto
  then obtain j where j: "k' = k + j" "j \<le> length (drop k (ms_mentions msg))" "start < e'" "e' \<le> e"
    "placed start e' (take j (drop k (ms_mentions msg)))"
    "placed e' ?n (drop j (drop k (ms_mentions msg)))"
    using fit_mentions_sound [OF fit, of start ?n] ok by (auto simp: parts_ok_def)
  show "start < e'" by (rule j(3))
  have nn: "0 \<le> start" "0 \<le> e'" "e' \<le> ?n" using ok j \<open>e \<le> ?n\<close> by (auto simp: parts_ok_def)
  have cut: "slice (ms_text msg) start e' = take (nat e' - nat start) (drop (nat start) (ms_text msg))"
    using nn more slice_nat [of "nat start" "ms_text msg" "nat e'"] by (simp add: nat_le_iff)
  have kk: "k \<le> length (ms_mentions msg)" "k + j \<le> length (ms_mentions msg)"
    using ok j(2) by (auto simp: parts_ok_def)
  have ments: "slice (ms_mentions msg) (int k) (int k') = take j (drop k (ms_mentions msg))"
    using slice_nat [of k "ms_mentions msg" "k + j"] kk j(1) by simp
  have len: "length (slice (ms_text msg) start e') = nat (e' - start)"
    using nn j(3) more by (simp add: cut nat_diff_distrib' min_def) linarith
  have glued: "glue parts = (take (nat start) (ms_text msg), take k (ms_mentions msg))"
    using ok by (simp add: parts_ok_def)
  have split_at: "nat e' = nat start + (nat e' - nat start)" using j(3) nn by simp
  let ?p = "make_part msg start e' k k' (parts = [])"
  have 1: "placed 0 (int (length (ms_text ?p))) (ms_mentions ?p)"
    using placed_move [OF j(5), of "- start"] j(3) by (simp add: make_part_def len ments)
  have 2: "ms_text ?p \<noteq> []" using len j(3) by (auto simp: make_part_def)
  have 3: "length (ms_text ?p) \<le> b" using j(4) b(2) len by (simp add: make_part_def nat_le_iff)
  have 4: "fst (glue (parts @ [?p])) = take (nat e') (ms_text msg)"
    using glued by (subst split_at) (simp add: glue_append make_part_def cut take_add)
  have 5: "snd (glue (parts @ [?p])) = take k' (ms_mentions msg)"
    using glued nn more ments j(1) by (simp add: glue_append make_part_def take_add)
  have 6: "placed e' ?n (drop k' (ms_mentions msg))" using j(1,6) by (simp add: add.commute)
  show "parts_ok msg limit following e' k' (parts @ [?p])"
  proof (cases parts)
    case Nil
    then show ?thesis using nn kk j(1) 1 2 3 4 5 6 unfolding parts_ok_def
      by (simp add: b_def prod_eq_iff) (simp add: make_part_def)
  next
    case (Cons p ps)
    then show ?thesis using ok nn kk j(1) 1 2 3 4 5 6 unfolding parts_ok_def
      by (simp add: b_def prod_eq_iff) (simp add: make_part_def)
  qed
qed

definition parts_of_message :: "message \<Rightarrow> nat \<Rightarrow> nat option \<Rightarrow> message list \<Rightarrow> bool" where
  "parts_of_message msg limit following parts \<longleftrightarrow>
     glue parts = (ms_text msg, ms_mentions msg) \<and>
     list_all (\<lambda>p. placed 0 (int (length (ms_text p))) (ms_mentions p)) parts \<and>
     list_all (\<lambda>p. length (ms_text p) \<le> limit) (take 1 parts) \<and>
     list_all (\<lambda>p. length (ms_text p) \<le> next_limit limit following) (drop 1 parts) \<and>
     map (\<lambda>p. (ms_reply p, ms_media p)) parts =
       (ms_reply msg, ms_media msg) # replicate (length parts - 1) (None, None)"

lemma parts_ok_done:
  assumes "parts_ok msg limit following start k parts" "start \<ge> int (length (ms_text msg))"
    "ms_text msg \<noteq> []"
  shows "parts_of_message msg limit following parts"
proof -
  let ?n = "int (length (ms_text msg))"
  have s: "start = ?n" using assms(1,2) by (auto simp: parts_ok_def)
  have d: "drop k (ms_mentions msg) = []"
    using assms(1) s by (cases "drop k (ms_mentions msg)") (auto simp: parts_ok_def dest: placed_le)
  have g: "glue parts = (ms_text msg, ms_mentions msg)"
    using assms(1) s d by (simp add: parts_ok_def)
  then obtain p ps where p: "parts = p # ps" using assms(3) by (cases parts) auto
  have "map (\<lambda>q. (ms_reply q, ms_media q)) ps = replicate (length ps) (None, None)"
    using assms(1) unfolding parts_ok_def p
    by (intro replicate_eqI) (auto simp: list_all_iff)
  then show ?thesis
    using assms(1) g unfolding parts_of_message_def parts_ok_def
    by (auto simp: p list_all_iff)
qed

lemma split_parts_total:
  assumes "parts_ok msg limit following start k parts" "0 < limit" "ms_text msg \<noteq> []"
  shows "\<exists>r. split_parts msg limit following start k parts = Some r \<and>
    (case r of Inr ps \<Rightarrow> parts_of_message msg limit following ps
     | Inl e \<Rightarrow> \<exists>m\<in>set (ms_mentions msg). min limit (next_limit limit following) < mention_size m)"
  using assms(1)
proof (induction "nat (int (length (ms_text msg)) - start)" arbitrary: start k parts rule: less_induct)
  case less
  let ?n = "int (length (ms_text msg))"
  let ?e = "part_end (ms_text msg) limit following start (parts = [])"
  show ?case
  proof (cases "start \<ge> ?n")
    case True
    then show ?thesis using parts_ok_done [OF less.prems True assms(3)]
      by (subst split_parts.simps) simp
  next
    case False
    show ?thesis
    proof (cases "fit_mentions start (drop k (ms_mentions msg)) ?e k")
      case (Inl err)
      then obtain m where m: "m \<in> set (drop k (ms_mentions msg))" "mn_start m = start" "?e < mn_end m"
        using fit_mentions_error by blast
      have "mn_end m \<le> ?n"
        using placed_bounds m(1) less.prems by (auto simp: parts_ok_def)
      then have "int (min limit (next_limit limit following)) < mention_size m"
        using m(2,3) by (auto simp: mention_size_def part_end_def next_limit_def split: if_splits option.splits)
      then show ?thesis using Inl False m(1)
        by (subst split_parts.simps) (auto dest: in_set_dropD)
    next
      case (Inr q)
      obtain e' k' where q: "q = (e', k')" by fastforce
      let ?parts = "parts @ [make_part msg start e' k k' (parts = [])]"
      have ok: "parts_ok msg limit following e' k' ?parts" "start < e'"
        using parts_ok_step [OF less.prems refl _ _ assms(2)] Inr q False by auto
      have "nat (?n - e') < nat (?n - start)" using ok(2) False by auto
      then show ?thesis using less.hyps [OF _ ok(1)] Inr q False
        by (subst split_parts.simps) simp
    qed
  qed
qed

text \<open>C32: Cutting a message into physical parts always ends and loses nothing. For mentions that are in
  order and do not overlap, the result is either parts that glue back to exactly the original text
  and mentions, each within its platform limit, with every mention whole inside one part and the
  reply reference and media on the first part only; or the refusal, and then some mention alone is
  longer than a part may be.\<close>

theorem transport_split_lossless:
  assumes "placed 0 (int (length (ms_text msg))) (ms_mentions msg)" "0 < limit"
  shows "\<exists>r. split_transport_message msg limit following = Some r \<and>
    (case r of Inr ps \<Rightarrow> parts_of_message msg limit following ps
     | Inl e \<Rightarrow> \<exists>m\<in>set (ms_mentions msg). min limit (next_limit limit following) < mention_size m)"
proof (cases "length (ms_text msg) \<le> limit")
  case True
  then show ?thesis using assms(1)
    by (simp add: split_transport_message_def parts_of_message_def)
next
  case False
  have "parts_ok msg limit following 0 0 []" using assms(1) by (simp add: parts_ok_def)
  moreover have "ms_text msg \<noteq> []" using False by auto
  ultimately show ?thesis using split_parts_total assms(2) False
    by (simp add: split_transport_message_def)
qed

text \<open>A mention over the cut moves to the next part; a mention longer than a part is refused.\<close>

definition ex_mention :: "int \<Rightarrow> int \<Rightarrow> mention" where
  "ex_mention a b = \<lparr>mn_external = ''42'', mn_name = [65], mn_start = a, mn_end = b, mn_account = None,
     mn_assignment = None, mn_person = None, mn_presence = None, mn_kind = ''member''\<rparr>"

definition ex_message :: "int \<Rightarrow> int \<Rightarrow> message" where
  "ex_message a b = \<lparr>ms_text = [104, 105, 32, 64, 65, 66], ms_mentions = [ex_mention a b],
     ms_reply = Some ''7'', ms_media = None\<rparr>"

lemma transport_split_lossless_witness:
  "(\<exists>ps. split_transport_message (ex_message 3 6) 4 None = Some (Inr ps) \<and>
     parts_of_message (ex_message 3 6) 4 None ps) \<and>
   split_transport_message (ex_message 0 6) 4 None = Some (Inl Mention_Exceeds_Platform_Limit)"
proof -
  have 1: "placed 0 (int (length (ms_text (ex_message a b)))) (ms_mentions (ex_message a b))"
    if "0 \<le> a" "a < b" "b \<le> 6" for a b
    using that by (simp add: ex_message_def ex_mention_def)
  obtain r where r: "split_transport_message (ex_message 3 6) 4 None = Some r"
    "case r of Inr ps \<Rightarrow> parts_of_message (ex_message 3 6) 4 None ps
       | Inl e \<Rightarrow> \<exists>m\<in>set (ms_mentions (ex_message 3 6)). min 4 (next_limit 4 None) < mention_size m"
    using transport_split_lossless [of "ex_message 3 6" 4 None] 1 [of 3 6] by auto
  have "\<exists>ps. split_transport_message (ex_message 3 6) 4 None = Some (Inr ps) \<and>
      parts_of_message (ex_message 3 6) 4 None ps"
  proof (cases r)
    case (Inl e)
    then show ?thesis using r(2) by (simp add: ex_message_def ex_mention_def mention_size_def next_limit_def)
  next
    case (Inr ps)
    then show ?thesis using r by simp
  qed
  moreover have "split_transport_message (ex_message 0 6) 4 None = Some (Inl Mention_Exceeds_Platform_Limit)"
    by (simp add: split_transport_message_def ex_message_def ex_mention_def split_parts.simps
        part_end_def)
  ultimately show ?thesis by blast
qed

end
