(* ===== verification/Text_Split.thy ===== *)
theory Text_Split
  imports Transport_Split "HOL-Library.Sublist"
begin

text \<open>
  Splitting reply text into chat messages: \<open>services/renderer.py\<close> (clean-up, paragraphs, sentences,
  hard cuts) and the part of \<open>services/message_splitter.py\<close> for texts without mentions
  (\<open>OutboundMessageSplitter.render\<close>). A text is its list of code points. The regular expressions
  of the source are written out as scanners; which code points are decimal digits (\<open>\<backslash>d\<close>) is
  the argument \<open>is_digit\<close>. Limits are the configured ones, which the settings require to be
  positive.
\<close>

section \<open>Code points\<close>

definition is_space :: "nat \<Rightarrow> bool" where
  "is_space c \<longleftrightarrow> 9 \<le> c \<and> c \<le> 13 \<or> 28 \<le> c \<and> c \<le> 32 \<or> c = 133 \<or> c = 160 \<or> c = 5760 \<or>
     8192 \<le> c \<and> c \<le> 8202 \<or> c = 8232 \<or> c = 8233 \<or> c = 8239 \<or> c = 8287 \<or> c = 12288"

definition is_line_break :: "nat \<Rightarrow> bool" where
  "is_line_break c \<longleftrightarrow> 10 \<le> c \<and> c \<le> 13 \<or> 28 \<le> c \<and> c \<le> 30 \<or> c = 133 \<or> c = 8232 \<or> c = 8233"

definition lstrip :: "utext \<Rightarrow> utext" where
  "lstrip t = dropWhile is_space t"

definition rstrip :: "utext \<Rightarrow> utext" where
  "rstrip t = rev (dropWhile is_space (rev t))"

definition strip :: "utext \<Rightarrow> utext" where
  "strip t = rstrip (lstrip t)"

text \<open>\<open>str.splitlines()\<close>: \<open>\<backslash>r\<backslash>n\<close> is one break and a final break opens no further line.\<close>

fun splitlines_from :: "utext \<Rightarrow> utext \<Rightarrow> utext list" where
  "splitlines_from cur [] = (if cur = [] then [] else [cur])"
| "splitlines_from cur (c # cs) =
    (if c = 13 \<and> cs \<noteq> [] \<and> hd cs = 10 then cur # splitlines_from [] (tl cs)
     else if is_line_break c then cur # splitlines_from [] cs
     else splitlines_from (cur @ [c]) cs)"

definition splitlines :: "utext \<Rightarrow> utext list" where
  "splitlines t = splitlines_from [] t"

fun split_on :: "nat \<Rightarrow> utext \<Rightarrow> utext \<Rightarrow> utext list" where
  "split_on sep cur [] = [cur]"
| "split_on sep cur (c # cs) =
    (if c = sep then cur # split_on sep [] cs else split_on sep (cur @ [c]) cs)"

fun join_with :: "utext \<Rightarrow> utext list \<Rightarrow> utext" where
  "join_with sep [] = []"
| "join_with sep [t] = t"
| "join_with sep (t # ts) = t @ sep @ join_with sep ts"

section \<open>Clean-up\<close>

fun newlines_normalized :: "utext \<Rightarrow> utext" where
  "newlines_normalized [] = []"
| "newlines_normalized (c # cs) =
    (if c = 13 then 10 # newlines_normalized (if cs \<noteq> [] \<and> hd cs = 10 then tl cs else cs)
     else c # newlines_normalized cs)"

definition is_control :: "nat \<Rightarrow> bool" where
  "is_control c \<longleftrightarrow> c \<le> 8 \<or> c = 11 \<or> c = 12 \<or> 14 \<le> c \<and> c \<le> 31 \<or> c = 127"

definition sanitize_input :: "utext \<Rightarrow> utext" where
  "sanitize_input t =
    strip (join_with [10] (map rstrip (splitlines (filter (\<lambda>c. \<not> is_control c) (newlines_normalized t)))))"

section \<open>Sentences and paragraphs\<close>

definition ends_sentence :: "nat \<Rightarrow> bool" where
  "ends_sentence c \<longleftrightarrow> c \<in> set [12290, 65281, 65311, 33, 63, 65307, 59]"

fun sentences_from :: "utext \<Rightarrow> utext \<Rightarrow> utext list" where
  "sentences_from cur [] = (if cur = [] then [] else [cur])"
| "sentences_from cur (c # cs) =
    (if ends_sentence c then (cur @ [c]) # sentences_from [] cs else sentences_from (cur @ [c]) cs)"

function split_hard :: "nat \<Rightarrow> utext \<Rightarrow> utext list" where
  "split_hard limit t =
    (if t = [] \<or> limit = 0 then [] else take limit t # split_hard limit (drop limit t))"
  by pat_completeness auto
termination by (relation "measure (length \<circ> snd)") auto

declare split_hard.simps [simp del]

text \<open>The state of the loop is the chunks so far and the one under construction.\<close>

definition sentence_step :: "nat \<Rightarrow> utext \<Rightarrow> utext list \<times> utext \<Rightarrow> utext list \<times> utext" where
  "sentence_step limit sentence acc =
    (case acc of (chunks, current) \<Rightarrow>
      if length sentence > limit then
        ((if current \<noteq> [] then chunks @ [current] else chunks) @ split_hard limit sentence, [])
      else if length current + length sentence \<le> limit then (chunks, current @ sentence)
      else (chunks @ [current], sentence))"

definition split_sentence :: "nat \<Rightarrow> utext \<Rightarrow> utext list" where
  "split_sentence limit t =
    (case fold (sentence_step limit) (sentences_from [] t) ([], []) of
      (chunks, current) \<Rightarrow> if current \<noteq> [] then chunks @ [current] else chunks)"

text \<open>\<open>re.split(r"(\<backslash>n\<backslash>s*\<backslash>n)", text)\<close>: a separator runs from a newline to the last newline of the
  white space after it.\<close>

definition to_last_newline :: "utext \<Rightarrow> utext" where
  "to_last_newline ws = rev (dropWhile (\<lambda>c. c \<noteq> 10) (rev ws))"

function paragraphs_from :: "utext \<Rightarrow> utext \<Rightarrow> utext list" where
  "paragraphs_from cur t =
    (case t of
      [] \<Rightarrow> [cur]
    | c # cs \<Rightarrow>
        (let sep = to_last_newline (takeWhile is_space cs)
         in if c = 10 \<and> sep \<noteq> [] then cur # (c # sep) # paragraphs_from [] (drop (length sep) cs)
            else paragraphs_from (cur @ [c]) cs))"
  by pat_completeness auto
termination by (relation "measure (length \<circ> snd)") auto

declare paragraphs_from.simps [simp del]

definition keep_strip :: "utext \<Rightarrow> utext list" where
  "keep_strip t = (if strip t \<noteq> [] then [strip t] else [])"

definition paragraph_step :: "nat \<Rightarrow> utext \<Rightarrow> utext list \<times> utext \<Rightarrow> utext list \<times> utext" where
  "paragraph_step limit paragraph acc =
    (case acc of (chunks, current) \<Rightarrow>
      if paragraph = [] then (chunks, current)
      else if length paragraph > limit then
        (chunks @ keep_strip current @ concat (map keep_strip (split_sentence limit paragraph)), [])
      else if length current + length paragraph \<le> limit then (chunks, current @ paragraph)
      else (chunks @ keep_strip current, paragraph))"

definition split_qq_message :: "nat \<Rightarrow> utext \<Rightarrow> utext list" where
  "split_qq_message limit t =
    (if t = [] then []
     else case fold (paragraph_step limit) (paragraphs_from [] t) ([], []) of
       (chunks, current) \<Rightarrow> chunks @ keep_strip current)"

section \<open>Structure of a reply\<close>

definition fence_mark :: "utext \<Rightarrow> bool" where
  "fence_mark t \<longleftrightarrow> take 3 t = [96, 96, 96] \<or> take 3 t = [126, 126, 126]"

text \<open>\<open>_STRUCTURED_CHAT_OUTPUT\<close> at the start of a line, after its leading blanks and tabs.\<close>

definition space_next :: "utext \<Rightarrow> bool" where
  "space_next t \<longleftrightarrow> t \<noteq> [] \<and> is_space (hd t)"

definition structured_at :: "(nat \<Rightarrow> bool) \<Rightarrow> utext \<Rightarrow> bool" where
  "structured_at is_digit t =
    (let r = dropWhile (\<lambda>c. c = 32 \<or> c = 9) t; ds = takeWhile is_digit r;
         after = drop (length ds) r; hs = takeWhile (\<lambda>c. c = 35) r;
         row = takeWhile (\<lambda>c. c \<noteq> 10) r;
         cells = rev (dropWhile (\<lambda>c. c = 32 \<or> c = 9) (rev (tl row)))
     in fence_mark r \<or>
        r \<noteq> [] \<and> hd r \<in> set [45, 42, 43] \<and> space_next (tl r) \<or>
        ds \<noteq> [] \<and> after \<noteq> [] \<and> hd after \<in> set [46, 41, 12289] \<and> space_next (tl after) \<or>
        r \<noteq> [] \<and> hd r = 62 \<and> space_next (tl r) \<or>
        1 \<le> length hs \<and> length hs \<le> 6 \<and> space_next (drop (length hs) r) \<or>
        row \<noteq> [] \<and> hd row = 124 \<and> cells \<noteq> [] \<and> last cells = 124)"

fun structured_from :: "(nat \<Rightarrow> bool) \<Rightarrow> bool \<Rightarrow> utext \<Rightarrow> bool" where
  "structured_from is_digit line_start [] = False"
| "structured_from is_digit line_start (c # cs) =
    (line_start \<and> structured_at is_digit (c # cs) \<or> structured_from is_digit (c = 10) cs)"

definition structured :: "(nat \<Rightarrow> bool) \<Rightarrow> utext \<Rightarrow> bool" where
  "structured is_digit t = structured_from is_digit True t"

text \<open>\<open>_FENCED_BLOCK\<close>: the length of the fenced block that starts here. The opening line ends at its
  first newline, and the block at the first closing mark after that.\<close>

fun find_close :: "utext \<Rightarrow> utext \<Rightarrow> nat option" where
  "find_close mark [] = None"
| "find_close mark (c # cs) =
    (if c = 10 \<and> take 3 cs = mark then Some 4 else map_option Suc (find_close mark cs))"

definition fence_length :: "utext \<Rightarrow> nat option" where
  "fence_length t =
    (if fence_mark t then
       (let opening = takeWhile (\<lambda>c. c \<noteq> 10) t; rest = drop (length opening) t
        in case rest of [] \<Rightarrow> None
           | nl # body \<Rightarrow> map_option (\<lambda>n. length opening + 1 + n) (find_close (take 3 t) body))
     else None)"

function fence_split :: "utext \<Rightarrow> utext \<Rightarrow> utext list" where
  "fence_split cur t =
    (case t of
      [] \<Rightarrow> [cur]
    | c # cs \<Rightarrow>
        (case fence_length t of
          Some n \<Rightarrow> cur # take n t # fence_split [] (drop (max 1 n) t)
        | None \<Rightarrow> fence_split (cur @ [c]) cs))"
  by pat_completeness auto
termination by (relation "measure (length \<circ> snd)") auto

declare fence_split.simps [simp del]

section \<open>Fenced blocks\<close>

definition fenced :: "utext \<Rightarrow> utext \<Rightarrow> utext \<Rightarrow> utext" where
  "fenced opening closing body = opening @ [10] @ body @ [10] @ closing"

definition fence_flush :: "(utext \<Rightarrow> utext) \<Rightarrow> utext list \<times> utext list \<times> nat \<Rightarrow> utext list \<times> utext list \<times> nat" where
  "fence_flush wrap acc =
    (case acc of (chunks, current, n) \<Rightarrow> (chunks @ [wrap (join_with [10] current)], [], 0))"

definition fence_line :: "(utext \<Rightarrow> utext) \<Rightarrow> nat \<Rightarrow> utext \<Rightarrow> utext list \<times> utext list \<times> nat \<Rightarrow>
    utext list \<times> utext list \<times> nat" where
  "fence_line wrap available line acc =
    (let extra = length line + (if fst (snd acc) \<noteq> [] then 1 else 0);
         acc1 = (if fst (snd acc) \<noteq> [] \<and> snd (snd acc) + extra > available
                 then fence_flush wrap acc else acc)
     in if length line > available then
          (case (if fst (snd acc1) \<noteq> [] then fence_flush wrap acc1 else acc1) of
            (chunks, current, n) \<Rightarrow> (chunks @ map wrap (split_hard available line), current, n))
        else (case acc1 of (chunks, current, n) \<Rightarrow> (chunks, current @ [line], n + extra)))"

definition split_fenced_block :: "nat \<Rightarrow> utext \<Rightarrow> utext list" where
  "split_fenced_block limit block =
    (let ls = splitlines block
     in if length block \<le> limit \<or> length ls < 3 then [block]
        else
          (let opening = hd ls; closing = last ls; body = butlast (tl ls);
               available = max 1 (limit - length opening - length closing - 2);
               wrap = fenced opening closing
           in case fold (fence_line wrap available) body ([], [], 0) of
                (chunks, current, n) \<Rightarrow>
                  if current \<noteq> [] then chunks @ [wrap (join_with [10] current)] else chunks))"

section \<open>Rendering\<close>

definition split_preserving_structure :: "nat \<Rightarrow> utext \<Rightarrow> utext list" where
  "split_preserving_structure limit t =
    (if length t \<le> limit then (if t = [] then [] else [t])
     else filter (\<lambda>c. strip c \<noteq> [])
       (concat (map (\<lambda>part. if part = [] then []
                            else if fence_mark part then split_fenced_block limit part
                            else split_qq_message limit part) (fence_split [] t))))"

text \<open>\<open>groups[min(index * max // len, max - 1)].append(section)\<close>, then the groups that are not empty.\<close>

definition group_sections :: "nat \<Rightarrow> 'a list \<Rightarrow> 'a list list" where
  "group_sections m xs =
    filter (\<lambda>g. g \<noteq> [])
      (map (\<lambda>g. map snd (filter (\<lambda>p. min (fst p * m div length xs) (m - 1) = g) (enumerate 0 xs)))
         [0..<m])"

definition split_chat_line_sections :: "nat \<Rightarrow> utext \<Rightarrow> utext list" where
  "split_chat_line_sections m t =
    (let sections = concat (map keep_strip (split_on 10 [] t))
     in if length sections < 2 then (if t = [] then [] else [t])
        else if length sections \<le> m then sections
        else map (join_with [10]) (group_sections m sections))"

definition cap_chunks :: "nat \<Rightarrow> utext list \<Rightarrow> utext list" where
  "cap_chunks hard_max chunks =
    (if length chunks \<le> hard_max then chunks
     else take (hard_max - 1) chunks @ [join_with [10] (drop (hard_max - 1) chunks)])"

definition render :: "(nat \<Rightarrow> bool) \<Rightarrow> nat \<Rightarrow> nat \<Rightarrow> utext \<Rightarrow> utext list" where
  "render is_digit hard_max limit t =
    cap_chunks hard_max
      (concat (map (split_preserving_structure limit)
        (if structured is_digit t then [t] else split_chat_line_sections hard_max t)))"

section \<open>Visible characters\<close>

definition ink :: "utext \<Rightarrow> utext" where
  "ink t = filter (\<lambda>c. \<not> is_space c) t"

lemma ink_append [simp]: "ink (a @ b) = ink a @ ink b"
  by (simp add: ink_def)

lemma ink_Nil [simp]: "ink [] = []"
  by (simp add: ink_def)

lemma ink_concat: "ink (concat ts) = concat (map ink ts)"
  by (induction ts) simp_all

lemma ink_space [simp]: "is_space c \<Longrightarrow> ink (c # t) = ink t"
  by (simp add: ink_def)

lemma is_space_newline [simp]: "is_space 10" "is_space 13"
  by (simp_all add: is_space_def)

lemma line_break_space [simp]: "is_line_break c \<Longrightarrow> is_space c"
  by (auto simp: is_line_break_def is_space_def)

lemma ink_lstrip [simp]: "ink (lstrip t) = ink t"
  by (induction t) (simp_all add: lstrip_def ink_def)

lemma ink_rev: "ink (rev t) = rev (ink t)"
  by (simp add: ink_def rev_filter)

lemma ink_rstrip [simp]: "ink (rstrip t) = ink t"
  using ink_lstrip [of "rev t"] by (simp add: rstrip_def lstrip_def ink_rev)

lemma ink_strip [simp]: "ink (strip t) = ink t"
  by (simp add: strip_def)

lemma strip_Nil_ink: "strip t = [] \<Longrightarrow> ink t = []"
  using ink_strip [of t] by simp

lemma ink_keep_strip [simp]: "ink (concat (keep_strip t)) = ink t"
  by (simp add: keep_strip_def strip_Nil_ink)

lemma ink_keep_strips: "ink (concat (concat (map keep_strip ts))) = ink (concat ts)"
  by (induction ts) simp_all

lemma length_strip: "length (strip t) \<le> length t"
  unfolding strip_def rstrip_def lstrip_def
  by (metis length_dropWhile_le length_rev order_trans)

lemma keep_strip_length: "c \<in> set (keep_strip t) \<Longrightarrow> c \<noteq> [] \<and> length c \<le> length t"
  by (auto simp: keep_strip_def length_strip split: if_splits)

lemma concat_sentences: "concat (sentences_from cur t) = cur @ t"
  by (induction cur t rule: sentences_from.induct) auto

lemma concat_split_hard: "0 < limit \<Longrightarrow> concat (split_hard limit t) = t"
  by (induction limit t rule: split_hard.induct) (subst split_hard.simps, simp)

lemma split_hard_length: "c \<in> set (split_hard limit t) \<Longrightarrow> c \<noteq> [] \<and> length c \<le> limit"
proof (induction limit t rule: split_hard.induct)
  case (1 limit t)
  then show ?case by (subst (asm) split_hard.simps) (auto split: if_splits)
qed

lemma split_hard_nonempty: "0 < limit \<Longrightarrow> t \<noteq> [] \<Longrightarrow> split_hard limit t \<noteq> []"
  by (subst split_hard.simps) simp

lemma sentence_fold:
  assumes "0 < limit" "fold (sentence_step limit) ss (chunks, current) = (chunks', current')"
    "length current \<le> limit" "\<forall>c\<in>set chunks. length c \<le> limit"
  shows "concat chunks' @ current' = concat chunks @ current @ concat ss \<and> length current' \<le> limit \<and>
    (\<forall>c\<in>set chunks'. length c \<le> limit)"
  using assms(2-4)
proof (induction ss arbitrary: chunks current)
  case (Cons s ss)
  obtain c1 k1 where s: "sentence_step limit s (chunks, current) = (c1, k1)" by fastforce
  have "concat c1 @ k1 = concat chunks @ current @ s \<and> length k1 \<le> limit \<and>
      (\<forall>c\<in>set c1. length c \<le> limit)"
    using s Cons.prems(2,3) assms(1)
    by (auto simp: sentence_step_def concat_split_hard dest: split_hard_length split: if_splits)
  then show ?case using Cons.IH [of c1 k1] Cons.prems(1) s by simp
qed auto

lemma split_sentence_sound:
  assumes "0 < limit"
  shows "concat (split_sentence limit t) = t" "\<forall>c\<in>set (split_sentence limit t). length c \<le> limit"
proof -
  obtain cs cur where f: "fold (sentence_step limit) (sentences_from [] t) ([], []) = (cs, cur)"
    by fastforce
  then have "concat cs @ cur = t" "length cur \<le> limit" "\<forall>c\<in>set cs. length c \<le> limit"
    using sentence_fold [OF assms f] concat_sentences [of "[]" t] by auto
  then show "concat (split_sentence limit t) = t" "\<forall>c\<in>set (split_sentence limit t). length c \<le> limit"
    using f by (auto simp: split_sentence_def)
qed

lemma to_last_newline_prefix: "\<exists>r. ws = to_last_newline ws @ r"
  unfolding to_last_newline_def
  by (metis rev_append rev_rev_ident takeWhile_dropWhile_id)

lemma concat_paragraphs: "concat (paragraphs_from cur t) = cur @ t"
proof (induction cur t rule: paragraphs_from.induct)
  case (1 cur t)
  show ?case
  proof (cases t)
    case Nil
    then show ?thesis by (simp add: paragraphs_from.simps)
  next
    case (Cons c cs)
    let ?sep = "to_last_newline (takeWhile is_space cs)"
    obtain r where "takeWhile is_space cs = ?sep @ r" using to_last_newline_prefix by blast
    then have d: "?sep @ drop (length ?sep) cs = cs"
      by (metis append_assoc append_eq_conv_conj takeWhile_dropWhile_id)
    show ?thesis
    proof (cases "c = 10 \<and> ?sep \<noteq> []")
      case True
      then show ?thesis using 1(1) [OF Cons refl] Cons d
        by (subst paragraphs_from.simps) (simp add: Let_def)
    next
      case False
      then show ?thesis using 1(2) [OF Cons refl] Cons
        by (subst paragraphs_from.simps) (auto simp: Let_def)
    qed
  qed
qed

definition chunk_ok :: "nat \<Rightarrow> utext \<Rightarrow> bool" where
  "chunk_ok limit c \<longleftrightarrow> c \<noteq> [] \<and> length c \<le> limit"

lemma keep_strip_ok: "c \<in> set (keep_strip t) \<Longrightarrow> length t \<le> limit \<Longrightarrow> chunk_ok limit c"
  using keep_strip_length by (fastforce simp: chunk_ok_def)

lemma paragraph_fold:
  assumes "0 < limit" "fold (paragraph_step limit) ps (chunks, current) = (chunks', current')"
    "length current \<le> limit" "\<forall>c\<in>set chunks. chunk_ok limit c"
  shows "ink (concat chunks' @ current') = ink (concat chunks @ current @ concat ps) \<and>
    length current' \<le> limit \<and> (\<forall>c\<in>set chunks'. chunk_ok limit c)"
  using assms(2-4)
proof (induction ps arbitrary: chunks current)
  case (Cons p ps)
  obtain c1 k1 where s: "paragraph_step limit p (chunks, current) = (c1, k1)" by fastforce
  have kept: "length u \<le> limit \<Longrightarrow> c \<in> set (keep_strip u) \<Longrightarrow> chunk_ok limit c" for c u
    by (rule keep_strip_ok)
  have kept2: "chunk_ok limit x" if "xa \<in> set (split_sentence limit p)" "x \<in> set (keep_strip xa)" for x xa
    using kept split_sentence_sound(2) [OF assms(1)] that by blast
  have "ink (concat c1 @ k1) = ink (concat chunks @ current @ p) \<and> length k1 \<le> limit \<and>
      (\<forall>c\<in>set c1. chunk_ok limit c)"
    using s Cons.prems(2,3) split_sentence_sound [OF assms(1), of p]
      ink_keep_strips [of "split_sentence limit p"] kept kept2
    by (auto simp: paragraph_step_def split: if_splits)
  then show ?case using Cons.IH [of c1 k1] Cons.prems(1) s by simp
qed auto

lemma split_qq_message_sound:
  assumes "0 < limit"
  shows "ink (concat (split_qq_message limit t)) = ink t" "\<forall>c\<in>set (split_qq_message limit t). chunk_ok limit c"
proof -
  obtain cs cur where f: "fold (paragraph_step limit) (paragraphs_from [] t) ([], []) = (cs, cur)"
    by fastforce
  then have "ink (concat cs @ cur) = ink t" "length cur \<le> limit" "\<forall>c\<in>set cs. chunk_ok limit c"
    using paragraph_fold [OF assms f] concat_paragraphs [of "[]" t] by auto
  then show "ink (concat (split_qq_message limit t)) = ink t"
    "\<forall>c\<in>set (split_qq_message limit t). chunk_ok limit c"
    using f by (auto simp: split_qq_message_def intro: keep_strip_ok)
qed

section \<open>Fenced blocks keep their lines\<close>

lemma ink_splitlines_from: "ink (concat (splitlines_from cur t)) = ink (cur @ t)"
proof (induction cur t rule: splitlines_from.induct)
  case (2 cur c cs)
  show ?case
  proof (cases "c = 13 \<and> cs \<noteq> [] \<and> hd cs = 10")
    case True
    then obtain r where "cs = 10 # r" by (cases cs) auto
    then show ?thesis using 2 True by simp
  next
    case False
    then show ?thesis using 2 by (auto simp: ink_def)
  qed
qed simp

lemma ink_splitlines: "ink (concat (splitlines t)) = ink t"
  by (simp add: splitlines_def ink_splitlines_from)

lemma ink_join [simp]: "ink (join_with [10] ts) = ink (concat ts)"
  by (induction "[10::nat]" ts rule: join_with.induct) simp_all

lemma length_join: "ts \<noteq> [] \<Longrightarrow> length (join_with [s] ts) = length (concat ts) + (length ts - 1)"
  by (induction "[s]" ts rule: join_with.induct) auto

lemma join_snoc: "ts \<noteq> [] \<Longrightarrow> length (join_with [s] (ts @ [t])) = length (join_with [s] ts) + 1 + length t"
  by (simp add: length_join)

definition fence_inv :: "(utext \<Rightarrow> utext) \<Rightarrow> nat \<Rightarrow> utext list \<Rightarrow> utext list \<times> utext list \<times> nat \<Rightarrow> bool" where
  "fence_inv wrap available seen acc \<longleftrightarrow>
    (case acc of (chunks, current, n) \<Rightarrow>
      \<exists>bodies. chunks = map wrap bodies \<and> (\<forall>b\<in>set bodies. length b \<le> available) \<and>
        ink (concat bodies @ concat current) = ink (concat seen) \<and>
        (current = [] \<longrightarrow> n = 0) \<and> (current \<noteq> [] \<longrightarrow> length (join_with [10] current) \<le> n \<and> length (join_with [10] current) \<le> available) \<and>
        (seen \<noteq> [] \<longrightarrow> bodies \<noteq> [] \<or> current \<noteq> []))"

lemma fence_inv_flush:
  assumes "fence_inv wrap available ls (chunks, current, n)" "current \<noteq> []"
  shows "fence_inv wrap available ls (fence_flush wrap (chunks, current, n))"
proof -
  obtain bodies where b: "chunks = map wrap bodies" "\<forall>b\<in>set bodies. length b \<le> available"
    "ink (concat bodies @ concat current) = ink (concat ls)"
    "length (join_with [10] current) \<le> available"
    using assms by (fastforce simp: fence_inv_def)
  then show ?thesis
    by (auto simp: fence_inv_def fence_flush_def intro!: exI [of _ "bodies @ [join_with [10] current]"])
qed

lemma fence_inv_line:
  assumes "fence_inv wrap available ls acc" "0 < available"
  shows "fence_inv wrap available (ls @ [line]) (fence_line wrap available line acc)"
proof -
  obtain ch cu n where acc: "acc = (ch, cu, n)" by (metis prod_cases3)
  let ?extra = "length line + (if cu \<noteq> [] then 1 else 0)"
  define acc1 where "acc1 = (if cu \<noteq> [] \<and> n + ?extra > available then fence_flush wrap acc else acc)"
  have i1: "fence_inv wrap available ls acc1"
    using assms(1) fence_inv_flush by (auto simp: acc1_def acc)
  obtain c1 k1 n1 where a1: "acc1 = (c1, k1, n1)" by (metis prod_cases3)
  show ?thesis
  proof (cases "length line > available")
    case True
    define acc2 where "acc2 = (if k1 \<noteq> [] then fence_flush wrap acc1 else acc1)"
    have i2: "fence_inv wrap available ls acc2"
      using i1 fence_inv_flush by (auto simp: acc2_def a1)
    obtain c2 n2 where a2: "acc2 = (c2, [], n2)"
      by (cases "k1 = []") (simp_all add: acc2_def a1 fence_flush_def)
    obtain bodies where b: "c2 = map wrap bodies" "\<forall>b\<in>set bodies. length b \<le> available"
      "ink (concat bodies) = ink (concat ls)" "n2 = 0"
      using i2 by (auto simp: fence_inv_def a2)
    have line: "line \<noteq> []" using True by auto
    have "fence_inv wrap available (ls @ [line]) (c2 @ map wrap (split_hard available line), [], n2)"
      unfolding fence_inv_def using b True assms(2) split_hard_nonempty [of available line] line
      by (auto simp: concat_split_hard dest: split_hard_length
          intro!: exI [of _ "bodies @ split_hard available line"])
    moreover have "fence_line wrap available line acc =
        (c2 @ map wrap (split_hard available line), [], n2)"
      using True a1 a2 by (simp add: fence_line_def acc acc1_def acc2_def Let_def split: if_splits)
    ultimately show ?thesis by simp
  next
    case False
    obtain bodies where b: "c1 = map wrap bodies" "\<forall>b\<in>set bodies. length b \<le> available"
      "ink (concat bodies @ concat k1) = ink (concat ls)" "k1 = [] \<longrightarrow> n1 = 0"
      "k1 \<noteq> [] \<longrightarrow> length (join_with [10] k1) \<le> n1"
      using i1 by (auto simp: fence_inv_def a1)
    have k: "k1 \<noteq> [] \<Longrightarrow> k1 = cu \<and> n1 = n \<and> n + ?extra \<le> available"
      using a1 by (auto simp: acc1_def acc fence_flush_def split: if_splits)
    have len: "length (join_with [10] (k1 @ [line])) \<le> n1 + ?extra"
      "length (join_with [10] (k1 @ [line])) \<le> available"
      using b(4,5) k False by (cases "k1 = []"; simp add: join_snoc)+
    have "fence_inv wrap available (ls @ [line]) (c1, k1 @ [line], n1 + ?extra)"
      unfolding fence_inv_def using b len by (auto intro!: exI [of _ bodies])
    moreover have "fence_line wrap available line acc = (c1, k1 @ [line], n1 + ?extra)"
      using False a1 by (simp add: fence_line_def acc acc1_def Let_def split: if_splits)
    ultimately show ?thesis by simp
  qed
qed

lemma fence_inv_fold:
  assumes "0 < available"
  shows "fence_inv wrap available seen acc \<Longrightarrow>
    fence_inv wrap available (seen @ ls) (fold (fence_line wrap available) ls acc)"
proof (induction ls arbitrary: seen acc)
  case (Cons l ls)
  have "fence_inv wrap available (seen @ [l]) (fence_line wrap available l acc)"
    using Cons.prems assms by (rule fence_inv_line)
  then show ?case using Cons.IH by fastforce
qed simp

lemma split_fenced_block_shape:
  assumes "\<not> length block \<le> limit" "\<not> length (splitlines block) < 3"
  obtains bodies where
    "split_fenced_block limit block =
      map (fenced (hd (splitlines block)) (last (splitlines block))) bodies"
    "bodies \<noteq> []"
    "ink (concat bodies) = ink (concat (butlast (tl (splitlines block))))"
    "\<forall>b\<in>set bodies. length b \<le>
      max 1 (limit - length (hd (splitlines block)) - length (last (splitlines block)) - 2)"
proof -
  let ?ls = "splitlines block"
  let ?wrap = "fenced (hd ?ls) (last ?ls)"
  let ?av = "max 1 (limit - length (hd ?ls) - length (last ?ls) - 2)"
  obtain cs cu n where f: "fold (fence_line ?wrap ?av) (butlast (tl ?ls)) ([], [], 0) = (cs, cu, n)"
    by (metis prod_cases3)
  have "fence_inv ?wrap ?av [] ([], [], 0)" by (simp add: fence_inv_def)
  then have inv: "fence_inv ?wrap ?av (butlast (tl ?ls)) (cs, cu, n)"
    using fence_inv_fold [of ?av ?wrap "[]" "([], [], 0)" "butlast (tl ?ls)"] f by simp
  have "butlast (tl ?ls) \<noteq> []" using assms(2) by (cases ?ls; cases "tl ?ls") auto
  then obtain bodies where b: "cs = map ?wrap bodies" "\<forall>b\<in>set bodies. length b \<le> ?av"
    "ink (concat bodies @ concat cu) = ink (concat (butlast (tl ?ls)))"
    "cu \<noteq> [] \<longrightarrow> length (join_with [10] cu) \<le> ?av" "bodies \<noteq> [] \<or> cu \<noteq> []"
    using inv by (auto simp: fence_inv_def)
  have out: "split_fenced_block limit block =
      (if cu \<noteq> [] then cs @ [?wrap (join_with [10] cu)] else cs)"
    using assms f by (simp add: split_fenced_block_def Let_def)
  show ?thesis
  proof (cases "cu = []")
    case True
    then show ?thesis using that [of bodies] b out by auto
  next
    case False
    then show ?thesis using that [of "bodies @ [join_with [10] cu]"] b out by auto
  qed
qed

lemma ink_fenced [simp]: "ink (fenced op cl b) = ink op @ ink b @ ink cl"
  by (simp add: fenced_def)

lemma subseq_wrapped:
  "bodies \<noteq> [] \<Longrightarrow>
    subseq (ink op @ ink (concat bodies) @ ink cl) (ink (concat (map (fenced op cl) bodies)))"
proof (induction bodies rule: list_nonempty_induct)
  case (single b)
  show ?case by simp
next
  case (cons b bodies)
  have "subseq (ink (concat bodies) @ ink cl) (ink op @ ink (concat bodies) @ ink cl)"
    by (rule list_emb_append2) simp
  then have "subseq (ink (concat bodies) @ ink cl) (ink (concat (map (fenced op cl) bodies)))"
    using cons.IH by (rule subseq_order.order_trans)
  then have "subseq ((ink op @ ink b) @ ink (concat bodies) @ ink cl)
      ((ink op @ ink b @ ink cl) @ ink (concat (map (fenced op cl) bodies)))"
    by (intro list_emb_append_mono) auto
  then show ?case by simp
qed

section \<open>The whole reply\<close>

lemma fence_length_pos: "fence_length t = Some n \<Longrightarrow> 0 < n"
  by (auto simp: fence_length_def Let_def split: if_splits list.splits option.splits)

lemma concat_fence_split: "concat (fence_split cur t) = cur @ t"
proof (induction cur t rule: fence_split.induct)
  case (1 cur t)
  show ?case
  proof (cases t)
    case Nil
    then show ?thesis by (simp add: fence_split.simps)
  next
    case (Cons c cs)
    show ?thesis
    proof (cases "fence_length t")
      case None
      then show ?thesis using 1(1) [OF Cons None] Cons None by (subst fence_split.simps) auto
    next
      case (Some n)
      then have "max 1 n = n" using fence_length_pos by fastforce
      then show ?thesis using 1(2) [OF Cons Some] Cons Some by (subst fence_split.simps) simp
    qed
  qed
qed

lemma split_fenced_block_ink: "subseq (ink block) (ink (concat (split_fenced_block limit block)))"
proof (cases "length block \<le> limit \<or> length (splitlines block) < 3")
  case True
  then show ?thesis by (simp add: split_fenced_block_def Let_def)
next
  case False
  let ?ls = "splitlines block"
  obtain bodies where b: "split_fenced_block limit block = map (fenced (hd ?ls) (last ?ls)) bodies"
    "bodies \<noteq> []" "ink (concat bodies) = ink (concat (butlast (tl ?ls)))"
    using split_fenced_block_shape False by blast
  have "?ls = hd ?ls # butlast (tl ?ls) @ [last ?ls]"
    using False by (cases ?ls; cases "tl ?ls") auto
  then have "ink (concat ?ls) = ink (hd ?ls) @ ink (concat (butlast (tl ?ls))) @ ink (last ?ls)"
    by (metis concat.simps(2) concat_append concat.simps(1) append_Nil2 ink_append)
  then have "ink block = ink (hd ?ls) @ ink (concat bodies) @ ink (last ?ls)"
    using b(3) ink_splitlines [of block] by simp
  then show ?thesis using subseq_wrapped [OF b(2)] b(1) by simp
qed

lemma ink_nonblank: "ink (concat (filter (\<lambda>c. strip c \<noteq> []) cs)) = ink (concat cs)"
  by (induction cs) (auto simp: strip_Nil_ink)

lemma subseq_concat_map:
  assumes "\<And>p. p \<in> set ps \<Longrightarrow> subseq (ink p) (ink (concat (f p)))"
  shows "subseq (ink (concat ps)) (ink (concat (concat (map f ps))))"
  using assms by (induction ps) (auto intro!: list_emb_append_mono)

lemma split_preserving_ink:
  assumes "0 < limit"
  shows "subseq (ink t) (ink (concat (split_preserving_structure limit t)))"
proof (cases "length t \<le> limit")
  case True
  then show ?thesis by (simp add: split_preserving_structure_def)
next
  case False
  let ?f = "\<lambda>part. if part = [] then [] else if fence_mark part then split_fenced_block limit part
    else split_qq_message limit part"
  have "subseq (ink (concat (fence_split [] t))) (ink (concat (concat (map ?f (fence_split [] t)))))"
    by (rule subseq_concat_map) (auto simp: split_fenced_block_ink split_qq_message_sound(1) [OF assms])
  then show ?thesis
    using False by (simp add: split_preserving_structure_def ink_nonblank concat_fence_split)
qed

lemma ink_split_on: "is_space sep \<Longrightarrow> ink (concat (split_on sep cur t)) = ink (cur @ t)"
  by (induction sep cur t rule: split_on.induct) auto

lemma filter_less_Suc:
  "sorted (map f xs) \<Longrightarrow>
    filter (\<lambda>x. f x < Suc m) xs = filter (\<lambda>x. f x < m) xs @ filter (\<lambda>x. f x = m) xs"
proof (induction xs)
  case (Cons x xs)
  show ?case
  proof (cases "f x < m")
    case True
    then show ?thesis using Cons by auto
  next
    case False
    then have "filter (\<lambda>x. f x < m) xs = []" using Cons.prems by (auto simp: filter_empty_conv)
    then show ?thesis using Cons False by auto
  qed
qed simp

lemma concat_groups:
  "sorted (map f xs) \<Longrightarrow> concat (map (\<lambda>g. filter (\<lambda>x. f x = g) xs) [0..<m]) = filter (\<lambda>x. f x < m) xs"
  by (induction m) (simp_all add: filter_less_Suc)

lemma concat_filter_nonempty: "concat (filter (\<lambda>g. g \<noteq> []) gs) = concat gs"
  by (induction gs) simp_all

lemma concat_group_sections:
  assumes "0 < m"
  shows "concat (group_sections m xs) = xs"
proof -
  let ?g = "\<lambda>p::nat \<times> 'a. min (fst p * m div length xs) (m - 1)"
  have "sorted (map ?g (enumerate 0 xs))"
    unfolding sorted_iff_nth_mono
  proof (intro allI impI)
    fix i j assume ij: "i \<le> j" "j < length (map ?g (enumerate 0 xs))"
    then have "i * m div length xs \<le> j * m div length xs"
      by (intro div_le_mono mult_le_mono1) simp
    then have "min (i * m div length xs) (m - 1) \<le> min (j * m div length xs) (m - 1)"
      by (rule min.mono) simp
    then show "map ?g (enumerate 0 xs) ! i \<le> map ?g (enumerate 0 xs) ! j"
      using ij by (simp add: nth_enumerate_eq)
  qed
  then have "concat (map (\<lambda>g. filter (\<lambda>p. ?g p = g) (enumerate 0 xs)) [0..<m]) =
      filter (\<lambda>p. ?g p < m) (enumerate 0 xs)"
    by (rule concat_groups)
  also have "\<dots> = enumerate 0 xs" using assms by (intro filter_True) (auto simp: min_def)
  finally have "map snd (concat (map (\<lambda>g. filter (\<lambda>p. ?g p = g) (enumerate 0 xs)) [0..<m])) = xs"
    by simp
  then show ?thesis
    by (simp add: group_sections_def concat_filter_nonempty map_concat comp_def)
qed

lemma length_group_sections: "length (group_sections m xs) \<le> m"
  unfolding group_sections_def by (rule order_trans [OF length_filter_le]) simp

lemma group_sections_subset:
  assumes "g \<in> set (group_sections m xs)"
  shows "set g \<subseteq> set xs"
proof -
  obtain k where "g = map snd (filter (\<lambda>p. min (fst p * m div length xs) (m - 1) = k) (enumerate 0 xs))"
    using assms by (auto simp: group_sections_def)
  then have "set g \<subseteq> snd ` set (enumerate 0 xs)" by auto
  also have "\<dots> = set xs" by (metis map_snd_enumerate set_map)
  finally show ?thesis .
qed

lemma chat_line_sections_ink:
  assumes "0 < m"
  shows "ink (concat (split_chat_line_sections m t)) = ink t"
proof -
  let ?ss = "concat (map keep_strip (split_on 10 [] t))"
  have s: "ink (concat ?ss) = ink t" by (simp add: ink_keep_strips ink_split_on)
  have "ink (concat (map (join_with [10]) gs)) = ink (concat (concat gs))" for gs
    by (induction gs) simp_all
  then have "ink (concat (map (join_with [10]) (group_sections m ?ss))) = ink t"
    using s concat_group_sections [OF assms, of ?ss] by simp
  then show ?thesis using s by (simp add: split_chat_line_sections_def Let_def)
qed

lemma ink_cap: "ink (concat (cap_chunks m cs)) = ink (concat cs)"
proof -
  have "ink (concat cs) = ink (concat (take (m - 1) cs)) @ ink (concat (drop (m - 1) cs))"
    by (metis append_take_drop_id concat_append ink_append)
  then show ?thesis by (simp add: cap_chunks_def)
qed

lemma length_cap: "0 < m \<Longrightarrow> length (cap_chunks m cs) \<le> m"
  by (simp add: cap_chunks_def)

text \<open>C33: Rendering a reply loses no visible character. Whatever the text and its structure, every
  character that is not white space is delivered, in its order (a fenced block only repeats its
  fences), and the reply is at most the configured number of messages.\<close>

theorem reply_loses_nothing:
  assumes "0 < hard_max" "0 < limit"
  shows "subseq (ink t) (ink (concat (render is_digit hard_max limit t))) \<and>
    length (render is_digit hard_max limit t) \<le> hard_max"
proof -
  let ?ms = "if structured is_digit t then [t] else split_chat_line_sections hard_max t"
  have "subseq (ink (concat ?ms)) (ink (concat (concat (map (split_preserving_structure limit) ?ms))))"
    by (rule subseq_concat_map) (rule split_preserving_ink [OF assms(2)])
  moreover have "ink (concat ?ms) = ink t"
    using chat_line_sections_ink [OF assms(1)] by simp
  ultimately have "subseq (ink t) (ink (concat (render is_digit hard_max limit t)))"
    by (simp add: render_def ink_cap)
  then show ?thesis using length_cap [OF assms(1)] by (simp add: render_def)
qed

section \<open>Replies without fences\<close>

definition fence_free :: "utext \<Rightarrow> bool" where
  "fence_free t \<longleftrightarrow> \<not> sublist [96, 96, 96] t \<and> \<not> sublist [126, 126, 126] t"

lemma fence_free_mark: "fence_free t \<Longrightarrow> \<not> fence_mark t"
  unfolding fence_free_def fence_mark_def by (metis sublist_take)

lemma fence_free_sublist: "fence_free t \<Longrightarrow> sublist s t \<Longrightarrow> fence_free s"
  unfolding fence_free_def using sublist_order.order_trans by blast

lemma sublist_strip: "sublist (strip t) t"
  unfolding strip_def rstrip_def lstrip_def
  by (metis rev_rev_ident sublist_order.order_trans sublist_rev suffix_dropWhile suffix_imp_sublist)

lemma sublist_split_on: "s \<in> set (split_on sep cur t) \<Longrightarrow> sublist s (cur @ t)"
proof (induction sep cur t rule: split_on.induct)
  case (2 sep cur c cs)
  show ?case
  proof (cases "c = sep \<and> s \<noteq> cur")
    case True
    then have "sublist s cs" using 2 by auto
    then show ?thesis by (simp add: sublist_append sublist_Cons_right)
  next
    case False
    then show ?thesis using 2 by (auto split: if_splits)
  qed
qed simp

lemma sublist_join:
  assumes "sublist xs (join_with [s] ts)" "s \<notin> set xs" "xs \<noteq> []"
  shows "\<exists>t\<in>set ts. sublist xs t"
  using assms
proof (induction "[s]" ts rule: join_with.induct)
  case (3 t u us)
  then have "sublist xs t \<or> sublist xs (s # join_with [s] (u # us)) \<or>
      (\<exists>a b. xs = a @ b \<and> suffix a t \<and> prefix b (s # join_with [s] (u # us)))"
    by (simp add: sublist_append)
  moreover have "sublist xs (s # join_with [s] (u # us)) \<Longrightarrow> sublist xs (join_with [s] (u # us))"
    using 3(3,4) by (auto simp: sublist_Cons_right prefix_Cons)
  moreover have "xs = a @ b \<Longrightarrow> suffix a t \<Longrightarrow> prefix b (s # r) \<Longrightarrow> sublist xs t" for a b r
    using 3(3) by (cases b) (auto intro: suffix_imp_sublist)
  ultimately show ?case using 3 by auto
qed auto

lemma fence_free_join: "\<forall>t\<in>set ts. fence_free t \<Longrightarrow> fence_free (join_with [10] ts)"
  unfolding fence_free_def using sublist_join [of "[96, 96, 96]" 10 ts] sublist_join [of "[126, 126, 126]" 10 ts]
  by auto

lemma fence_free_sections:
  assumes "fence_free t" "s \<in> set (split_chat_line_sections m t)"
  shows "fence_free s"
proof -
  let ?ss = "concat (map keep_strip (split_on 10 [] t))"
  have ss: "fence_free u" if u: "u \<in> set ?ss" for u
  proof -
    obtain v where "v \<in> set (split_on 10 [] t)" "u = strip v"
      using u by (auto simp: keep_strip_def split: if_splits)
    then have "sublist u t"
      using sublist_split_on [of v 10 "[]" t] sublist_strip sublist_order.order_trans by auto
    then show ?thesis using assms(1) fence_free_sublist by blast
  qed
  have grp: "fence_free (join_with [10] g)" if "g \<in> set (group_sections m ?ss)" for g
  proof (rule fence_free_join, rule ballI)
    fix u assume "u \<in> set g"
    then have "u \<in> set ?ss" using group_sections_subset [OF that] by blast
    then show "fence_free u" by (rule ss)
  qed
  show ?thesis using assms ss grp
    by (auto simp: split_chat_line_sections_def Let_def split: if_splits)
qed

lemma fence_free_part: "fence_free t \<Longrightarrow> p \<in> set (fence_split [] t) \<Longrightarrow> fence_free p"
proof -
  assume t: "fence_free t" and p: "p \<in> set (fence_split [] t)"
  obtain xs ys where "fence_split [] t = xs @ p # ys" using p by (meson split_list)
  then have "t = concat xs @ p @ concat ys" using concat_fence_split [of "[]" t] by simp
  then have "sublist p t" by (metis sublist_appendI)
  then show ?thesis using t fence_free_sublist by blast
qed

lemma split_preserving_plain:
  assumes "0 < limit" "fence_free t"
  shows "ink (concat (split_preserving_structure limit t)) = ink t"
    "\<forall>c\<in>set (split_preserving_structure limit t). chunk_ok limit c"
proof -
  let ?f = "\<lambda>part. if part = [] then [] else if fence_mark part then split_fenced_block limit part
    else split_qq_message limit part"
  have m: "map ?f (fence_split [] t) = map (split_qq_message limit) (fence_split [] t)"
    using fence_free_part [OF assms(2)] fence_free_mark by (auto simp: split_qq_message_def)
  have "ink (concat (concat (map (split_qq_message limit) ps))) = ink (concat ps)" for ps
    by (induction ps) (simp_all add: split_qq_message_sound(1) [OF assms(1)])
  then show "ink (concat (split_preserving_structure limit t)) = ink t"
    unfolding split_preserving_structure_def m
    using concat_fence_split [of "[]" t] by (simp add: ink_nonblank)
  show "\<forall>c\<in>set (split_preserving_structure limit t). chunk_ok limit c"
    unfolding split_preserving_structure_def m
    using split_qq_message_sound(2) [OF assms(1)] by (auto simp: chunk_ok_def)
qed

lemma cap_chunks_ok:
  assumes "\<forall>c\<in>set cs. P c"
  shows "\<forall>c\<in>set (butlast (cap_chunks m cs)). P c"
  using assms by (auto simp: cap_chunks_def dest: in_set_butlastD in_set_takeD)

text \<open>C34: A reply without code fences is delivered in messages within the limit, up to the hard cap.
  The text is cut into chunks that hold its visible characters in order (white space at the cuts may
  be dropped), each non-empty and within the character limit. When there are at most \<open>hard_max\<close> chunks they are
  the messages. When there are more, the first \<open>hard_max - 1\<close> are, and one last message joins all the
  remaining chunks with newlines: it alone may exceed the limit.\<close>

theorem plain_reply_within_limits:
  assumes "0 < hard_max" "0 < limit" "fence_free t" "ms = render is_digit hard_max limit t"
  shows "ink (concat ms) = ink t \<and> length ms \<le> hard_max \<and> (\<forall>c\<in>set (butlast ms). chunk_ok limit c) \<and>
    (\<exists>cs. ink (concat cs) = ink t \<and> (\<forall>c\<in>set cs. chunk_ok limit c) \<and>
      (length cs \<le> hard_max \<and> ms = cs \<or>
       hard_max < length cs \<and> length ms = hard_max \<and> butlast ms = take (hard_max - 1) cs \<and>
         last ms = join_with [10] (drop (hard_max - 1) cs)))"
proof -
  let ?ss = "if structured is_digit t then [t] else split_chat_line_sections hard_max t"
  let ?cs = "concat (map (split_preserving_structure limit) ?ss)"
  have free: "\<forall>s\<in>set ?ss. fence_free s" using assms(3) fence_free_sections by auto
  have ok: "\<forall>c\<in>set ?cs. chunk_ok limit c"
  proof
    fix c assume "c \<in> set ?cs"
    then obtain s where s: "s \<in> set ?ss" "c \<in> set (split_preserving_structure limit s)" by auto
    then show "chunk_ok limit c" using free split_preserving_plain(2) [OF assms(2), of s] by blast
  qed
  have "\<forall>s\<in>set us. fence_free s \<Longrightarrow>
      ink (concat (concat (map (split_preserving_structure limit) us))) = ink (concat us)" for us
    by (induction us) (simp_all add: split_preserving_plain(1) [OF assms(2)])
  then have ink: "ink (concat ?cs) = ink t" using free chat_line_sections_ink [OF assms(1)] by simp
  have r: "ms = cap_chunks hard_max ?cs" using assms(4) by (simp add: render_def)
  have "length cs \<le> hard_max \<and> cap_chunks hard_max cs = cs \<or>
      hard_max < length cs \<and> length (cap_chunks hard_max cs) = hard_max \<and>
      butlast (cap_chunks hard_max cs) = take (hard_max - 1) cs \<and>
      last (cap_chunks hard_max cs) = join_with [10] (drop (hard_max - 1) cs)" for cs
    using assms(1) by (auto simp: cap_chunks_def)
  then have "length ?cs \<le> hard_max \<and> ms = ?cs \<or>
      hard_max < length ?cs \<and> length ms = hard_max \<and> butlast ms = take (hard_max - 1) ?cs \<and>
      last ms = join_with [10] (drop (hard_max - 1) ?cs)"
    unfolding r by blast
  moreover from this have "length ms \<le> hard_max" by auto
  moreover have "\<forall>c\<in>set (butlast ms). chunk_ok limit c"
    using cap_chunks_ok [OF ok] r by simp
  moreover have "ink (concat ms) = ink t" using r ink by (simp add: ink_cap)
  ultimately show ?thesis using ink ok by blast
qed

section \<open>Fenced blocks\<close>

text \<open>A long fenced block is cut into messages that each repeat its fences, hold a part of its lines in
  order and stay within the limit whenever the fences themselves leave room for one character.\<close>

theorem fenced_block_parts:
  assumes "limit < length block" "3 \<le> length (splitlines block)"
    and "length (hd (splitlines block)) + length (last (splitlines block)) + 2 < limit"
  shows "\<exists>bodies. split_fenced_block limit block =
      map (fenced (hd (splitlines block)) (last (splitlines block))) bodies \<and>
    ink (concat bodies) = ink (concat (butlast (tl (splitlines block)))) \<and>
    list_all (\<lambda>c. length c \<le> limit) (split_fenced_block limit block)"
proof -
  obtain bodies where b: "split_fenced_block limit block =
      map (fenced (hd (splitlines block)) (last (splitlines block))) bodies"
    "ink (concat bodies) = ink (concat (butlast (tl (splitlines block))))"
    "\<forall>b\<in>set bodies. length b \<le>
      max 1 (limit - length (hd (splitlines block)) - length (last (splitlines block)) - 2)"
    using split_fenced_block_shape [of block limit] assms(1,2) by (metis not_le not_less)
  have "list_all (\<lambda>c. length c \<le> limit) (split_fenced_block limit block)"
    using b(1,3) assms(3) by (auto simp: list_all_iff fenced_def)
  then show ?thesis using b by blast
qed

text \<open>\<open>a! b;\<close> with a limit of three, and a two-line program with a limit of twelve.\<close>

definition ex_reply :: utext where
  "ex_reply = [97, 33, 32, 98, 59]"

definition ex_block :: utext where
  "ex_block = [96, 96, 96, 10, 49, 50, 10, 51, 52, 10, 96, 96, 96]"

lemma ex_split: "splitlines ex_block = [[96, 96, 96], [49, 50], [51, 52], [96, 96, 96]]"
  by (simp add: splitlines_def ex_block_def is_line_break_def)

lemma fenced_block_parts_witness:
  "list_all (\<lambda>c. length c \<le> 12) (split_fenced_block 12 ex_block)"
proof -
  have "12 < length ex_block" by (simp add: ex_block_def)
  then show ?thesis using fenced_block_parts [of 12 ex_block] by (auto simp: ex_split)
qed

lemma reply_loses_nothing_witness:
  "subseq (ink ex_block) (ink (concat (render (\<lambda>c. False) 3 12 ex_block)))"
  using reply_loses_nothing [of 3 12 ex_block "\<lambda>c. False"] by simp

lemma plain_reply_within_limits_witness:
  "length (render (\<lambda>c. False) 3 3 ex_reply) \<le> 3 \<and>
   ink (concat (render (\<lambda>c. False) 3 3 ex_reply)) = [97, 33, 98, 59]"
proof -
  have f: "fence_free ex_reply" by (simp add: fence_free_def ex_reply_def sublist_Cons_right)
  have "ink ex_reply = [97, 33, 98, 59]" by (simp add: ink_def ex_reply_def is_space_def)
  then show ?thesis
    using plain_reply_within_limits [OF _ _ f refl, of 3 3 "\<lambda>c. False"] by simp
qed

text \<open>
  An opening mark without a closing one is no fenced block for the scanner, yet the part begins with
  the mark, so it is cut as if its last line were the closing fence: that line is repeated in every
  message.
\<close>

lemma unclosed_fence_repeats_last_line:
  "split_preserving_structure 12 [96, 96, 96, 10, 49, 50, 51, 52, 10, 53, 54, 55, 56, 10, 57, 57] =
    [[96, 96, 96, 10, 49, 50, 51, 52, 10, 57, 57], [96, 96, 96, 10, 53, 54, 55, 56, 10, 57, 57]]"
  by (simp add: split_preserving_structure_def fence_split.simps fence_length_def fence_mark_def
      split_fenced_block_def splitlines_def is_line_break_def fence_line_def fence_flush_def
      fenced_def strip_def rstrip_def lstrip_def is_space_def Let_def)

text \<open>And an opening mark with too few lines is sent whole, however long.\<close>

lemma unclosed_fence_oversized:
  "split_preserving_structure 5 [96, 96, 96, 97, 98, 99, 100] = [[96, 96, 96, 97, 98, 99, 100]]"
  by (simp add: split_preserving_structure_def fence_split.simps fence_length_def fence_mark_def
      split_fenced_block_def splitlines_def is_line_break_def strip_def rstrip_def lstrip_def
      is_space_def Let_def)

end
