(* ===== verification/Gateway_Registry.thy ===== *)
theory Gateway_Registry
  imports Yuki_Prelude
begin

text \<open>
  The registry of live platform connections (\<open>gateway/registry.py\<close>,
  \<open>GatewayConnectionRegistry\<close>, and the snapshots of \<open>gateway/models.py\<close>). A handle is the number
  \<open>id(bot)\<close> of a connected bot. What the provider catalog says about a bot is the argument
  \<open>profile\<close>, a new connection id (\<open>uuid4\<close>) the argument \<open>cid\<close>, and \<open>casefold\<close> is \<open>str.casefold\<close>. The indexes
  with default lists are total functions; the dictionary that is iterated is an association list.
\<close>

section \<open>State\<close>

datatype registry_error = No_Connection | Disconnected | Ambiguous | Capability | Provider_Conflict
  | Value_Error

datatype connection_health = Health_Connected | Health_Disconnected | Health_Ambiguous

type_synonym account_key = "string \<times> string"
type_synonym handle = nat

record profile =
  pf_provider :: string
  pf_platform :: string
  pf_account :: string
  pf_capabilities :: "string set"

record live_connection =
  lv_id :: string
  lv_gateway :: string
  lv_provider :: string
  lv_platform :: string
  lv_account :: string
  lv_presence :: "string option"
  lv_generation :: int
  lv_healthy :: bool
  lv_capabilities :: "string set"
  lv_bot :: "handle option"
  lv_handle :: handle

record connection_snapshot =
  sn_id :: string
  sn_gateway :: string
  sn_provider :: string
  sn_platform :: string
  sn_account :: string
  sn_presence :: "string option"
  sn_generation :: int
  sn_healthy :: bool
  sn_capabilities :: "string set"

record presence_snapshot =
  ps_health :: connection_health
  ps_generation :: "int option"
  ps_id :: "string option"
  ps_gateway :: "string option"
  ps_live :: int
  ps_provider :: "string option"
  ps_capabilities :: "string set"

record registry =
  rg_gateway :: string
  by_handle :: "handle \<rightharpoonup> string"
  by_id :: "(string \<times> live_connection) list"
  by_account :: "account_key \<Rightarrow> string list"
  by_presence :: "string \<Rightarrow> string list"
  account_generation :: "account_key \<rightharpoonup> int"
  account_presence :: "account_key \<rightharpoonup> string"
  pins :: "string \<rightharpoonup> string"

definition strip_ascii :: "string \<Rightarrow> string" where
  "strip_ascii s = rev (dropWhile py_space (rev (dropWhile py_space s)))"

definition account_key :: "(string \<Rightarrow> string) \<Rightarrow> string \<Rightarrow> string \<Rightarrow> account_key" where
  "account_key casefold platform account = (casefold (strip_ascii platform), strip_ascii account)"

definition new_registry :: "string \<Rightarrow> registry" where
  "new_registry gateway = \<lparr>rg_gateway = gateway, by_handle = Map.empty, by_id = [],
     by_account = (\<lambda>a. []), by_presence = (\<lambda>p. []), account_generation = Map.empty,
     account_presence = Map.empty, pins = Map.empty\<rparr>"

section \<open>Reading\<close>

definition live_id :: "registry \<Rightarrow> string \<Rightarrow> bool" where
  "live_id r c = (case map_of (by_id r) c of None \<Rightarrow> False
     | Some lv \<Rightarrow> lv_healthy lv \<and> lv_bot lv \<noteq> None)"

definition live_ids_for_presence :: "registry \<Rightarrow> string \<Rightarrow> string list" where
  "live_ids_for_presence r p = filter (live_id r) (by_presence r p)"

definition live_ids_for_account :: "registry \<Rightarrow> account_key \<Rightarrow> string list" where
  "live_ids_for_account r a = filter (live_id r) (by_account r a)"

definition snapshot :: "live_connection \<Rightarrow> connection_snapshot" where
  "snapshot lv = \<lparr>sn_id = lv_id lv, sn_gateway = lv_gateway lv, sn_provider = lv_provider lv,
     sn_platform = lv_platform lv, sn_account = lv_account lv, sn_presence = lv_presence lv,
     sn_generation = lv_generation lv, sn_healthy = lv_healthy lv,
     sn_capabilities = lv_capabilities lv\<rparr>"

text \<open>A falsy pin key (\<open>None\<close> or the empty string) is not pinned.\<close>

definition choose_id :: "string list \<Rightarrow> string option \<Rightarrow> registry \<Rightarrow> registry_error + (string \<times> registry)" where
  "choose_id ids pin_key r =
    (case ids of
      [] \<Rightarrow> Inl Disconnected
    | [c] \<Rightarrow>
        Inr (c, (case pin_key of None \<Rightarrow> r
                 | Some k \<Rightarrow> if k = [] then r else r\<lparr>pins := (pins r)(k \<mapsto> c)\<rparr>))
    | _ \<Rightarrow>
        (case pins r (case pin_key of None \<Rightarrow> [] | Some k \<Rightarrow> k) of
          Some c \<Rightarrow> if c \<in> set ids then Inr (c, r) else Inl Ambiguous
        | None \<Rightarrow> Inl Ambiguous))"

definition resolve_ids :: "string list \<Rightarrow> string option \<Rightarrow> registry \<Rightarrow>
    registry_error + ((connection_snapshot \<times> handle) \<times> registry)" where
  "resolve_ids ids pin_key r =
    (case choose_id ids pin_key r of
      Inl e \<Rightarrow> Inl e
    | Inr (c, r') \<Rightarrow>
        (case map_of (by_id r') c of
          None \<Rightarrow> Inl Value_Error
        | Some lv \<Rightarrow>
            (case (lv_bot lv, lv_healthy lv) of
              (Some b, True) \<Rightarrow> Inr ((snapshot lv, b), r')
            | _ \<Rightarrow> Inl Disconnected)))"

definition resolve_by_handle :: "handle option \<Rightarrow> registry \<Rightarrow> registry_error + (connection_snapshot \<times> handle)" where
  "resolve_by_handle obj r =
    (case obj of None \<Rightarrow> Inl No_Connection
     | Some h \<Rightarrow>
        (case by_handle r h of None \<Rightarrow> Inl No_Connection
         | Some c \<Rightarrow>
            (case map_of (by_id r) c of None \<Rightarrow> Inl Disconnected
             | Some lv \<Rightarrow>
                (case (lv_bot lv, lv_healthy lv) of
                  (Some b, True) \<Rightarrow> Inr (snapshot lv, b)
                | _ \<Rightarrow> Inl Disconnected))))"

definition resolve_active :: "string \<Rightarrow> registry \<Rightarrow>
    registry_error + ((connection_snapshot \<times> handle) \<times> registry)" where
  "resolve_active presence_id r =
    (let p = strip_ascii presence_id
     in if p = [] then Inl No_Connection
        else resolve_ids (live_ids_for_presence r p) (Some p) r)"

definition resolve_account :: "(string \<Rightarrow> string) \<Rightarrow> string \<Rightarrow> string \<Rightarrow> registry \<Rightarrow>
    registry_error + ((connection_snapshot \<times> handle) \<times> registry)" where
  "resolve_account casefold platform account r =
    (let a = account_key casefold platform account
     in resolve_ids (live_ids_for_account r a) (account_presence r a) r)"

definition disconnected_snapshot :: "int option \<Rightarrow> int \<Rightarrow> registry \<Rightarrow> presence_snapshot" where
  "disconnected_snapshot generation live r = \<lparr>ps_health = Health_Disconnected,
     ps_generation = generation, ps_id = None, ps_gateway = Some (rg_gateway r), ps_live = live,
     ps_provider = None, ps_capabilities = {}\<rparr>"

definition snapshot_presence :: "(string \<Rightarrow> string) \<Rightarrow> string \<Rightarrow> string \<Rightarrow> string \<Rightarrow> registry \<Rightarrow>
    registry_error + (presence_snapshot \<times> registry)" where
  "snapshot_presence casefold presence_id platform account r =
    (let a = account_key casefold platform account; p = strip_ascii presence_id;
         ids = live_ids_for_presence r p; n = int (length ids)
     in if n = 0 then Inr (disconnected_snapshot (account_generation r a) 0 r, r)
        else
          (case choose_id ids (Some p) r of
            Inl Ambiguous \<Rightarrow>
              Inr ((disconnected_snapshot None n r)\<lparr>ps_health := Health_Ambiguous\<rparr>, r)
          | Inl _ \<Rightarrow> Inr (disconnected_snapshot (account_generation r a) n r, r)
          | Inr (c, r') \<Rightarrow>
              (case map_of (by_id r') c of
                None \<Rightarrow> Inl Value_Error
              | Some lv \<Rightarrow>
                  Inr (\<lparr>ps_health = Health_Connected, ps_generation = Some (lv_generation lv),
                    ps_id = Some (lv_id lv), ps_gateway = Some (lv_gateway lv), ps_live = n,
                    ps_provider = Some (lv_provider lv), ps_capabilities = lv_capabilities lv\<rparr>, r'))))"

definition has_any_active :: "string option \<Rightarrow> registry \<Rightarrow> bool" where
  "has_any_active platform r = list_ex (\<lambda>(c, lv). lv_healthy lv \<and> lv_bot lv \<noteq> None \<and>
     (case platform of None \<Rightarrow> True | Some p \<Rightarrow> lv_platform lv = p)) (by_id r)"

definition connected_presence_ids :: "string \<Rightarrow> registry \<Rightarrow> string list" where
  "connected_presence_ids platform r = sort (remdups (concat (map (\<lambda>(c, lv).
     if lv_healthy lv \<and> lv_bot lv \<noteq> None \<and> lv_platform lv = platform
     then (case lv_presence lv of None \<Rightarrow> [] | Some p \<Rightarrow> [p]) else []) (by_id r))))"

definition require_capability :: "connection_snapshot \<Rightarrow> string \<Rightarrow> registry_error + unit" where
  "require_capability sn cap = (if cap \<in> sn_capabilities sn then Inr () else Inl Capability)"

section \<open>Writing\<close>

definition index_presence :: "string \<Rightarrow> string \<Rightarrow> registry \<Rightarrow> registry" where
  "index_presence p c r =
    (if c \<in> set (by_presence r p) then r
     else r\<lparr>by_presence := (by_presence r)(p := by_presence r p @ [c])\<rparr>)"

definition refresh_pin :: "string \<Rightarrow> registry \<Rightarrow> registry" where
  "refresh_pin p r =
    (let ids = live_ids_for_presence r p
     in if length ids = 1 then r\<lparr>pins := (pins r)(p \<mapsto> hd ids)\<rparr>
        else if (case pins r p of None \<Rightarrow> False | Some c \<Rightarrow> c \<in> set ids) then r
        else r\<lparr>pins := (pins r)(p := None)\<rparr>)"

definition unindex :: "string \<Rightarrow> string \<Rightarrow> registry \<Rightarrow> registry" where
  "unindex p c r = r\<lparr>by_presence := (by_presence r)(p := filter (\<lambda>i. i \<noteq> c) (by_presence r p))\<rparr>"

definition put_live :: "live_connection \<Rightarrow> registry \<Rightarrow> registry" where
  "put_live lv r = r\<lparr>by_id := AList.update (lv_id lv) lv (by_id r)\<rparr>"

text \<open>One connection of the account moves to the presence.\<close>

definition bind_one :: "string \<Rightarrow> string \<Rightarrow> registry \<Rightarrow> registry" where
  "bind_one p c r =
    (case map_of (by_id r) c of
      None \<Rightarrow> r
    | Some lv \<Rightarrow>
        if lv_presence lv = Some p then r
        else
          (let r1 = (case lv_presence lv of None \<Rightarrow> r | Some q \<Rightarrow> unindex q c r)
           in index_presence p c
                (r1\<lparr>by_id := AList.update c (lv\<lparr>lv_presence := Some p\<rparr>) (by_id r1)\<rparr>)))"

definition bind_locked :: "account_key \<Rightarrow> string \<Rightarrow> registry \<Rightarrow> registry" where
  "bind_locked a p r =
    (let previous = account_presence r a;
         r1 = r\<lparr>account_presence := (account_presence r)(a \<mapsto> p)\<rparr>;
         r2 = refresh_pin p (fold (bind_one p) (by_account r a) r1)
     in case previous of
          None \<Rightarrow> r2
        | Some q \<Rightarrow> if q \<noteq> [] \<and> q \<noteq> p then refresh_pin q r2 else r2)"

definition same_identity :: "live_connection \<Rightarrow> profile \<Rightarrow> string \<Rightarrow> bool" where
  "same_identity lv pf gateway \<longleftrightarrow> lv_provider lv = pf_provider pf \<and>
     lv_platform lv = pf_platform pf \<and> lv_account lv = pf_account pf \<and> lv_gateway lv = gateway"

definition truthy :: "string option \<Rightarrow> bool" where
  "truthy s = (case s of None \<Rightarrow> False | Some x \<Rightarrow> x \<noteq> [])"

definition reconnect :: "account_key \<Rightarrow> handle \<Rightarrow> profile \<Rightarrow> string option \<Rightarrow> live_connection \<Rightarrow>
    registry \<Rightarrow> connection_snapshot \<times> registry" where
  "reconnect a h pf presence lv r =
    (let lv' = lv\<lparr>lv_generation := lv_generation lv + 1, lv_healthy := True, lv_bot := Some h,
           lv_capabilities := pf_capabilities pf\<rparr>;
         r1 = (r\<lparr>by_id := AList.update (lv_id lv) lv' (by_id r)\<rparr>)
           \<lparr>account_generation := (account_generation r)(a \<mapsto> lv_generation lv')\<rparr>;
         r2 = (if truthy presence then bind_locked a (the presence) r1 else r1)
     in (snapshot (case map_of (by_id r2) (lv_id lv) of None \<Rightarrow> lv' | Some l \<Rightarrow> l), r2))"

definition open_connection :: "account_key \<Rightarrow> handle \<Rightarrow> string \<Rightarrow> string \<Rightarrow> profile \<Rightarrow> string option \<Rightarrow>
    registry \<Rightarrow> connection_snapshot \<times> registry" where
  "open_connection a h cid gateway pf bound r =
    (let generation = (case account_generation r a of None \<Rightarrow> 0 | Some g \<Rightarrow> g) + 1;
         lv = \<lparr>lv_id = cid, lv_gateway = gateway, lv_provider = pf_provider pf,
           lv_platform = pf_platform pf, lv_account = pf_account pf, lv_presence = bound,
           lv_generation = generation, lv_healthy = True, lv_capabilities = pf_capabilities pf,
           lv_bot = Some h, lv_handle = h\<rparr>;
         r1 = r\<lparr>account_generation := (account_generation r)(a \<mapsto> generation),
           by_id := AList.update cid lv (by_id r), by_handle := (by_handle r)(h \<mapsto> cid),
           by_account := (by_account r)(a := by_account r a @ [cid])\<rparr>
     in (snapshot lv,
         (if truthy bound
          then refresh_pin (the bound)
            ((index_presence (the bound) cid r1)
              \<lparr>account_presence := (account_presence r1)(a \<mapsto> the bound)\<rparr>)
          else r1)))"

definition connect :: "(string \<Rightarrow> string) \<Rightarrow> handle \<Rightarrow> string \<Rightarrow> profile \<Rightarrow> string option \<Rightarrow> string option \<Rightarrow>
    registry \<Rightarrow> registry_error + (connection_snapshot \<times> registry)" where
  "connect casefold h cid pf gateway_instance presence r =
    (let gateway = strip_ascii (if truthy gateway_instance then the gateway_instance else rg_gateway r);
         a = account_key casefold (pf_platform pf) (pf_account pf)
     in if gateway = [] then Inl Value_Error
        else
          (case by_handle r h of
            Some c \<Rightarrow>
              (case map_of (by_id r) c of
                None \<Rightarrow> Inl Value_Error
              | Some lv \<Rightarrow>
                  if \<not> same_identity lv pf gateway then Inl Value_Error
                  else Inr (reconnect a h pf presence lv r))
          | None \<Rightarrow>
              if live_ids_for_account r a \<noteq> [] then Inl Provider_Conflict
              else
                (let bound = (if truthy presence then presence else account_presence r a)
                 in if truthy bound \<and> live_ids_for_presence r (the bound) \<noteq> []
                    then Inl Provider_Conflict
                    else Inr (open_connection a h cid gateway pf bound r))))"

definition disconnect :: "(string \<Rightarrow> string) \<Rightarrow> handle option \<Rightarrow> registry \<Rightarrow>
    connection_snapshot option \<times> registry" where
  "disconnect casefold obj r =
    (case obj of None \<Rightarrow> (None, r)
     | Some h \<Rightarrow>
        (case by_handle r h of None \<Rightarrow> (None, r)
         | Some c \<Rightarrow>
            (let r1 = r\<lparr>by_handle := (by_handle r)(h := None)\<rparr>
             in case map_of (by_id r1) c of
                  None \<Rightarrow> (None, r1)
                | Some lv \<Rightarrow>
                    (let a = account_key casefold (lv_platform lv) (lv_account lv);
                         r2 = r1\<lparr>by_id := AList.delete c (by_id r1),
                           by_account := (by_account r1)(a := filter (\<lambda>i. i \<noteq> c) (by_account r1 a))\<rparr>;
                         r3 = (case lv_presence lv of
                             None \<Rightarrow> r2
                           | Some p \<Rightarrow>
                               (let r' = unindex p c r2
                                in refresh_pin p (if pins r' p = Some c
                                     then r'\<lparr>pins := (pins r')(p := None)\<rparr> else r')))
                     in (Some (snapshot (lv\<lparr>lv_healthy := False, lv_bot := None\<rparr>)), r3)))))"

definition bind_presence :: "(string \<Rightarrow> string) \<Rightarrow> string \<Rightarrow> string \<Rightarrow> string \<Rightarrow> registry \<Rightarrow>
    registry_error + registry" where
  "bind_presence casefold platform account presence_id r =
    (let p = strip_ascii presence_id; a = account_key casefold platform account
     in if p = [] then Inl Value_Error
        else if list_ex (\<lambda>c. c \<notin> set (live_ids_for_account r a)) (live_ids_for_presence r p)
        then Inl Provider_Conflict
        else Inr (bind_locked a p r))"

text \<open>\<open>unbind_presence\<close> pops the index first; what \<open>account_presence\<close> still says of the presence is
  removed for every account.\<close>

definition unbind_one :: "(string \<Rightarrow> string) \<Rightarrow> string \<Rightarrow> string \<Rightarrow> registry \<Rightarrow> registry" where
  "unbind_one casefold p c r =
    (case map_of (by_id r) c of
      None \<Rightarrow> r
    | Some lv \<Rightarrow>
        if lv_presence lv \<noteq> Some p then r
        else
          (let a = account_key casefold (lv_platform lv) (lv_account lv);
               r1 = r\<lparr>by_id := AList.update c (lv\<lparr>lv_presence := None\<rparr>) (by_id r)\<rparr>
           in if account_presence r1 a = Some p
              then r1\<lparr>account_presence := (account_presence r1)(a := None)\<rparr> else r1))"

definition unbind_presence :: "(string \<Rightarrow> string) \<Rightarrow> string \<Rightarrow> registry \<Rightarrow> registry" where
  "unbind_presence casefold p r =
    (let r1 = fold (unbind_one casefold p) (by_presence r p)
           (r\<lparr>by_presence := (by_presence r)(p := [])\<rparr>)
     in r1\<lparr>account_presence := (\<lambda>a. if account_presence r1 a = Some p then None
               else account_presence r1 a),
           pins := (pins r1)(p := None)\<rparr>)"

section \<open>Runs\<close>

text \<open>A new connection id is not in use, as \<open>uuid4\<close> promises.\<close>

inductive registry_step :: "(string \<Rightarrow> string) \<Rightarrow> registry \<Rightarrow> registry \<Rightarrow> bool" for casefold where
  connect: "cid \<notin> fst ` set (by_id r) \<Longrightarrow>
    connect casefold h cid pf gateway presence r = Inr (sn, r') \<Longrightarrow> registry_step casefold r r'"
| disconnect: "registry_step casefold r (snd (disconnect casefold obj r))"
| bind: "bind_presence casefold platform account p r = Inr r' \<Longrightarrow> registry_step casefold r r'"
| unbind: "registry_step casefold r (unbind_presence casefold p r)"
| active: "resolve_active p r = Inr (res, r') \<Longrightarrow> registry_step casefold r r'"
| account: "resolve_account casefold platform account r = Inr (res, r') \<Longrightarrow> registry_step casefold r r'"
| look: "snapshot_presence casefold p platform account r = Inr (ps, r') \<Longrightarrow> registry_step casefold r r'"

abbreviation registry_run :: "(string \<Rightarrow> string) \<Rightarrow> registry \<Rightarrow> registry \<Rightarrow> bool" where
  "registry_run casefold \<equiv> (registry_step casefold)\<^sup>*\<^sup>*"

definition live_key :: "(string \<Rightarrow> string) \<Rightarrow> live_connection \<Rightarrow> account_key" where
  "live_key casefold lv = account_key casefold (lv_platform lv) (lv_account lv)"

section \<open>The indexes agree\<close>

text \<open>\<open>live_ok\<close> is what the indexes say of one live connection; \<open>core_ok\<close> leaves the pins aside,
  which \<open>pins_ok P\<close> requires for every presence outside \<open>P\<close>.\<close>

declare split_paired_All [simp del] split_paired_Ex [simp del]
  map_of_eq_Some_iff [simp del] Some_eq_map_of_iff [simp del]

definition live_ok :: "(string \<Rightarrow> string) \<Rightarrow> registry \<Rightarrow> string \<Rightarrow> live_connection \<Rightarrow> bool" where
  "live_ok casefold r c lv \<longleftrightarrow> lv_id lv = c \<and> lv_healthy lv \<and> lv_bot lv = Some (lv_handle lv) \<and>
     by_handle r (lv_handle lv) = Some c \<and> by_account r (live_key casefold lv) = [c] \<and>
     account_generation r (live_key casefold lv) = Some (lv_generation lv) \<and>
     account_presence r (live_key casefold lv) = lv_presence lv \<and>
     (\<forall>p. lv_presence lv = Some p \<longrightarrow> c \<in> set (by_presence r p))"

definition core_ok :: "(string \<Rightarrow> string) \<Rightarrow> registry \<Rightarrow> bool" where
  "core_ok casefold r \<longleftrightarrow> distinct (map fst (by_id r)) \<and>
     (\<forall>c lv. map_of (by_id r) c = Some lv \<longrightarrow> live_ok casefold r c lv) \<and>
     (\<forall>h c. by_handle r h = Some c \<longrightarrow> (\<exists>lv. map_of (by_id r) c = Some lv \<and> lv_handle lv = h)) \<and>
     (\<forall>a c. c \<in> set (by_account r a) \<longrightarrow>
        (\<exists>lv. map_of (by_id r) c = Some lv \<and> live_key casefold lv = a)) \<and>
     (\<forall>p c. c \<in> set (by_presence r p) \<longrightarrow>
        (\<exists>lv. map_of (by_id r) c = Some lv \<and> lv_presence lv = Some p)) \<and>
     (\<forall>p. distinct (by_presence r p)) \<and>
     (\<forall>a p. account_presence r a = Some p \<longrightarrow> p \<noteq> [])"

definition pins_ok :: "string set \<Rightarrow> registry \<Rightarrow> bool" where
  "pins_ok P r \<longleftrightarrow> (\<forall>p c. p \<notin> P \<longrightarrow> pins r p = Some c \<longrightarrow> c \<in> set (by_presence r p))"

lemma core_live: "core_ok casefold r \<Longrightarrow> map_of (by_id r) c = Some lv \<Longrightarrow> live_ok casefold r c lv"
  by (simp add: core_ok_def)

lemma core_presenceD: "core_ok casefold r \<Longrightarrow> c \<in> set (by_presence r p) \<Longrightarrow>
    \<exists>lv. map_of (by_id r) c = Some lv \<and> lv_presence lv = Some p"
  by (simp add: core_ok_def)

lemma core_accountD: "core_ok casefold r \<Longrightarrow> c \<in> set (by_account r a) \<Longrightarrow>
    \<exists>lv. map_of (by_id r) c = Some lv \<and> live_key casefold lv = a"
  by (simp add: core_ok_def)

lemma core_handleD: "core_ok casefold r \<Longrightarrow> by_handle r h = Some c \<Longrightarrow>
    \<exists>lv. map_of (by_id r) c = Some lv \<and> lv_handle lv = h"
  by (simp add: core_ok_def)

lemma core_live_id: "core_ok casefold r \<Longrightarrow> live_id r c \<longleftrightarrow> map_of (by_id r) c \<noteq> None"
  using core_live by (fastforce simp: live_id_def live_ok_def split: option.splits)

lemma live_ids_presence [simp]:
  assumes "core_ok casefold r"
  shows "live_ids_for_presence r p = by_presence r p"
proof -
  have "live_id r c" if "c \<in> set (by_presence r p)" for c
    using core_presenceD [OF assms that] core_live_id [OF assms] by auto
  then show ?thesis by (simp add: live_ids_for_presence_def)
qed

lemma live_ids_account [simp]:
  assumes "core_ok casefold r"
  shows "live_ids_for_account r a = by_account r a"
proof -
  have "live_id r c" if "c \<in> set (by_account r a)" for c
    using core_accountD [OF assms that] core_live_id [OF assms] by auto
  then show ?thesis by (simp add: live_ids_for_account_def)
qed

lemma core_account_single:
  assumes "core_ok casefold r"
  shows "by_account r a = [] \<or> (\<exists>c lv. by_account r a = [c] \<and> map_of (by_id r) c = Some lv \<and>
    live_key casefold lv = a)"
proof (cases "by_account r a")
  case (Cons c cs)
  then have "c \<in> set (by_account r a)" by simp
  then obtain lv where "map_of (by_id r) c = Some lv" "live_key casefold lv = a"
    using core_accountD [OF assms] by blast
  then show ?thesis using core_live [OF assms] by (auto simp: live_ok_def)
qed simp

lemma core_pins_irrelevant [simp]: "core_ok casefold (r\<lparr>pins := ps\<rparr>) = core_ok casefold r"
  by (simp add: core_ok_def live_ok_def)

lemma core_refresh [simp]: "core_ok casefold (refresh_pin p r) = core_ok casefold r"
  by (simp add: refresh_pin_def Let_def)

lemma refresh_fields [simp]:
  "by_presence (refresh_pin p r) = by_presence r" "by_id (refresh_pin p r) = by_id r"
  "by_account (refresh_pin p r) = by_account r" "by_handle (refresh_pin p r) = by_handle r"
  "account_generation (refresh_pin p r) = account_generation r"
  "account_presence (refresh_pin p r) = account_presence r"
  "rg_gateway (refresh_pin p r) = rg_gateway r"
  by (simp_all add: refresh_pin_def Let_def)

lemma refresh_pins:
  assumes "core_ok casefold r" "pins_ok P r"
  shows "pins_ok (P - {p}) (refresh_pin p r)"
proof -
  have "length (by_presence r p) = 1 \<Longrightarrow> hd (by_presence r p) \<in> set (by_presence r p)"
    by (cases "by_presence r p") auto
  then show ?thesis using assms(2)
    by (auto simp: pins_ok_def refresh_pin_def Let_def live_ids_presence [OF assms(1)] split: option.splits)
qed

lemma core_new: "core_ok casefold (new_registry gateway)"
  by (simp add: core_ok_def new_registry_def)

text \<open>Binding the account's connection, if it has one, to a presence.\<close>

lemma core_bind_none:
  assumes "core_ok casefold r" "by_account r a = []" "p \<noteq> []"
  shows "core_ok casefold (r\<lparr>account_presence := (account_presence r)(a \<mapsto> p)\<rparr>)"
proof -
  have "live_key casefold lv \<noteq> a" if "map_of (by_id r) c = Some lv" for c lv
    using core_live [OF assms(1) that] assms(2) by (auto simp: live_ok_def)
  then show ?thesis using assms(1,3) unfolding core_ok_def live_ok_def by simp
qed

lemma core_rebind:
  assumes ok: "core_ok casefold r" and c: "by_account r a = [c]" "map_of (by_id r) c = Some lv"
    "live_key casefold lv = a" and ps: "by_presence r' = bp"
    and bp: "\<And>q. set (bp q) = (if pr = Some q then insert c (set (by_presence r q))
                                 else set (by_presence r q) - {c})" "\<And>q. distinct (bp q)"
    and pr: "\<forall>q. pr = Some q \<longrightarrow> q \<noteq> []"
    and r': "by_id r' = AList.update c (lv\<lparr>lv_presence := pr\<rparr>) (by_id r)"
      "account_presence r' = (account_presence r)(a := pr)"
      "by_handle r' = by_handle r" "by_account r' = by_account r"
      "account_generation r' = account_generation r"
  shows "core_ok casefold r'"
proof -
  let ?lv = "lv\<lparr>lv_presence := pr\<rparr>"
  have key: "live_key casefold ?lv = a" using c(3) by (simp add: live_key_def)
  have only: "live_key casefold l \<noteq> a" if "map_of (by_id r) d = Some l" "d \<noteq> c" for d l
    using core_live [OF ok that(1)] c(1) that(2) by (auto simp: live_ok_def)
  have L: "map_of (by_id r') d = (if d = c then Some ?lv else map_of (by_id r) d)" for d
    by (simp add: r' update_conv')
  have live: "live_ok casefold r' d l" if "map_of (by_id r') d = Some l" for d l
  proof (cases "d = c")
    case True
    then show ?thesis using that L core_live [OF ok c(2)] key c(3)
      by (auto simp: live_ok_def r' ps bp(1))
  next
    case False
    then have "map_of (by_id r) d = Some l" using that L by simp
    then show ?thesis using core_live [OF ok] only False
      by (auto simp: live_ok_def r' ps bp(1))
  qed
  have pres: "\<exists>l. map_of (by_id r') d = Some l \<and> lv_presence l = Some q" if "d \<in> set (bp q)" for d q
    using that ok c(2) unfolding L bp(1) core_ok_def by (fastforce split: if_splits)
  show ?thesis
    using ok live pres pr key c bp(2) unfolding core_ok_def L ps
    by (simp add: r' distinct_update) (metis (no_types, lifting) option.inject)
qed

lemma bind_one_shape:
  assumes ok: "core_ok casefold r" and c: "by_account r a = [c]" "map_of (by_id r) c = Some lv"
    "live_key casefold lv = a" and p: "p \<noteq> []" and r1: "r1 = r\<lparr>account_presence := (account_presence r)(a \<mapsto> p)\<rparr>"
  shows "core_ok casefold (bind_one p c r1)"
    "pins_ok P r \<Longrightarrow> pins_ok (P \<union> {q. account_presence r a = Some q \<and> q \<noteq> p}) (bind_one p c r1)"
    "by_account (bind_one p c r1) = by_account r" "account_generation (bind_one p c r1) = account_generation r"
    "by_handle (bind_one p c r1) = by_handle r" "rg_gateway (bind_one p c r1) = rg_gateway r"
    "fst ` set (by_id (bind_one p c r1)) = fst ` set (by_id r)"
proof -
  have lo: "live_ok casefold r c lv" using core_live [OF ok c(2)] .
  have cur: "account_presence r a = lv_presence lv" using lo c(3) by (simp add: live_ok_def)
  have mine: "c \<in> set (by_presence r q) \<longleftrightarrow> lv_presence lv = Some q" for q
    using core_presenceD [OF ok, of c q] lo c(2) by (auto simp: live_ok_def)
  have cin: "c \<in> fst ` set (by_id r)" using c(2) by (metis map_of_eq_None_iff option.distinct(1))
  let ?out = "bind_one p c r1"
  show "core_ok casefold ?out"
  proof (cases "lv_presence lv = Some p")
    case True
    then have "(account_presence r)(a \<mapsto> p) = account_presence r" using cur by auto
    then show ?thesis using True ok c(2) by (simp add: bind_one_def r1)
  next
    case False
    show ?thesis
    proof (rule core_rebind [OF ok c refl, where pr = "Some p"])
      show "set (by_presence ?out q) = (if Some p = Some q then insert c (set (by_presence r q))
          else set (by_presence r q) - {c})" for q
        using False c(2) mine
        by (auto simp: bind_one_def r1 index_presence_def unindex_def Let_def split: option.splits)
      show "distinct (by_presence ?out q)" for q
        using ok c(2) by (auto simp: bind_one_def r1 index_presence_def unindex_def Let_def core_ok_def
            split: option.splits)
      show "\<forall>q. Some p = Some q \<longrightarrow> q \<noteq> []" using p by simp
    qed (use False c(2) in \<open>auto simp: bind_one_def r1 index_presence_def unindex_def Let_def
          split: option.splits\<close>)
  qed
  show "pins_ok (P \<union> {q. account_presence r a = Some q \<and> q \<noteq> p}) ?out" if "pins_ok P r"
    using that c(2) cur
    by (auto simp: pins_ok_def bind_one_def r1 index_presence_def unindex_def Let_def
        split: option.splits)
  show "by_account ?out = by_account r" "account_generation ?out = account_generation r"
    "by_handle ?out = by_handle r" "rg_gateway ?out = rg_gateway r"
    using c(2) by (auto simp: bind_one_def r1 index_presence_def unindex_def Let_def split: option.splits)
  show "fst ` set (by_id ?out) = fst ` set (by_id r)"
    using c(2) cin by (auto simp: bind_one_def r1 index_presence_def unindex_def Let_def dom_update
        split: option.splits)
qed

lemma bind_locked_ok:
  assumes ok: "core_ok casefold r" and pins: "pins_ok {} r" and p: "p \<noteq> []"
  shows "core_ok casefold (bind_locked a p r)" "pins_ok {} (bind_locked a p r)"
    "account_generation (bind_locked a p r) = account_generation r"
    "fst ` set (by_id (bind_locked a p r)) = fst ` set (by_id r)"
    "by_account (bind_locked a p r) = by_account r"
proof -
  let ?r1 = "r\<lparr>account_presence := (account_presence r)(a \<mapsto> p)\<rparr>"
  let ?r2 = "fold (bind_one p) (by_account r a) ?r1"
  let ?Q = "{q. account_presence r a = Some q \<and> q \<noteq> p}"
  have r2: "core_ok casefold ?r2 \<and> pins_ok ?Q ?r2 \<and> account_generation ?r2 = account_generation r \<and>
      fst ` set (by_id ?r2) = fst ` set (by_id r) \<and> by_account ?r2 = by_account r"
    using core_account_single [OF ok, of a]
  proof
    assume "by_account r a = []"
    then show ?thesis using core_bind_none [OF ok _ p] pins by (simp add: pins_ok_def)
  next
    assume "\<exists>c lv. by_account r a = [c] \<and> map_of (by_id r) c = Some lv \<and> live_key casefold lv = a"
    then obtain c lv where c: "by_account r a = [c]" "map_of (by_id r) c = Some lv"
      "live_key casefold lv = a" by blast
    have one: "?r2 = bind_one p c ?r1" by (simp add: c(1))
    show ?thesis unfolding one using bind_one_shape [OF ok c p refl]
        bind_one_shape(2) [OF ok c p refl pins] by simp
  qed
  have q: "account_presence r a = Some q \<Longrightarrow> q \<noteq> []" for q using ok by (simp add: core_ok_def)
  have out: "bind_locked a p r =
      (if ?Q = {} then refresh_pin p ?r2 else refresh_pin (the (account_presence r a)) (refresh_pin p ?r2))"
    using q by (cases "account_presence r a") (simp_all add: bind_locked_def Let_def)
  have p1: "pins_ok (?Q - {p}) (refresh_pin p ?r2)" using refresh_pins r2 by blast
  have c1: "core_ok casefold (refresh_pin p ?r2)" using r2 by simp
  have "?Q - {p} - {the (account_presence r a)} = {}" by auto
  then have "pins_ok {} (refresh_pin (the (account_presence r a)) (refresh_pin p ?r2))"
    using refresh_pins [OF c1 p1, of "the (account_presence r a)"] by (simp only:)
  moreover have "pins_ok {} (refresh_pin p ?r2)" if Q: "?Q = {}" using p1 unfolding Q by simp
  ultimately show "pins_ok {} (bind_locked a p r)" by (simp add: out)
  show "core_ok casefold (bind_locked a p r)" "account_generation (bind_locked a p r) = account_generation r"
    "fst ` set (by_id (bind_locked a p r)) = fst ` set (by_id r)"
    "by_account (bind_locked a p r) = by_account r"
    using r2 by (auto simp: out)
qed

text \<open>A connection that reports again, opens, closes.\<close>

lemma core_touch:
  assumes ok: "core_ok casefold r" and c: "map_of (by_id r) c = Some lv"
    and lv': "lv' = lv\<lparr>lv_generation := g, lv_healthy := True, lv_bot := Some (lv_handle lv),
      lv_capabilities := caps\<rparr>"
    and r': "r' = r\<lparr>by_id := AList.update c lv' (by_id r),
      account_generation := (account_generation r)(live_key casefold lv \<mapsto> g)\<rparr>"
  shows "core_ok casefold r'"
proof -
  have lo: "live_ok casefold r c lv" using core_live [OF ok c] .
  have key: "live_key casefold lv' = live_key casefold lv" by (simp add: lv' live_key_def)
  have other: "live_key casefold l \<noteq> live_key casefold lv" if "map_of (by_id r) d = Some l" "d \<noteq> c" for d l
    using core_live [OF ok that(1)] lo that(2) by (auto simp: live_ok_def)
  have L: "map_of (by_id r') d = (if d = c then Some lv' else map_of (by_id r) d)" for d
    by (simp add: r' update_conv')
  have live: "live_ok casefold r' d l" if "map_of (by_id r') d = Some l" for d l
  proof (cases "d = c")
    case True
    then have "l = lv'" using that by (simp add: L)
    then show ?thesis using True lo key by (auto simp: live_ok_def r' lv')
  next
    case False
    then have "map_of (by_id r) d = Some l" using that by (simp add: L)
    then show ?thesis using core_live [OF ok] other False by (auto simp: live_ok_def r')
  qed
  have h: "\<exists>l. map_of (by_id r') d = Some l \<and> lv_handle l = h" if "by_handle r h = Some d" for h d
    using core_handleD [OF ok that] c by (auto simp: L lv')
  have ac: "\<exists>l. map_of (by_id r') d = Some l \<and> live_key casefold l = a" if "d \<in> set (by_account r a)" for a d
    using core_accountD [OF ok that] c key by (auto simp: L)
  have pr: "\<exists>l. map_of (by_id r') d = Some l \<and> lv_presence l = Some q" if "d \<in> set (by_presence r q)" for q d
    using core_presenceD [OF ok that] c by (auto simp: L lv')
  show ?thesis
    using ok live h ac pr unfolding core_ok_def by (simp add: r' distinct_update)
qed

lemma core_open:
  assumes ok: "core_ok casefold r" and new: "cid \<notin> fst ` set (by_id r)" "by_handle r h = None"
    "by_account r a = []" "\<forall>p. bound = Some p \<longrightarrow> p \<noteq> [] \<and> by_presence r p = []"
    and lv: "lv_id lv = cid" "lv_presence lv = bound" "lv_healthy lv" "lv_bot lv = Some h"
      "lv_handle lv = h" "live_key casefold lv = a" "lv_generation lv = g"
    and r': "by_id r' = AList.update cid lv (by_id r)" "by_handle r' = (by_handle r)(h \<mapsto> cid)"
      "by_account r' = (by_account r)(a := [cid])" "account_generation r' = (account_generation r)(a \<mapsto> g)"
      "account_presence r' = (account_presence r)(a := bound)"
      "by_presence r' = (\<lambda>p. if bound = Some p then [cid] else by_presence r p)"
  shows "core_ok casefold r'"
proof -
  have fresh: "map_of (by_id r) cid = None" using new(1) by (simp add: map_of_eq_None_iff)
  have L: "map_of (by_id r') d = (if d = cid then Some lv else map_of (by_id r) d)" for d
    by (simp add: r' update_conv')
  have live: "live_ok casefold r' d l" if "map_of (by_id r') d = Some l" for d l
  proof (cases "d = cid")
    case True
    then have "l = lv" using that by (simp add: L)
    then show ?thesis using True lv by (auto simp: live_ok_def r')
  next
    case False
    then have m: "map_of (by_id r) d = Some l" using that by (simp add: L)
    then have lo: "live_ok casefold r d l" using core_live [OF ok] by blast
    then have "live_key casefold l \<noteq> a" "lv_handle l \<noteq> h" using new by (auto simp: live_ok_def)
    moreover have "lv_presence l = Some p \<Longrightarrow> bound \<noteq> Some p" for p
      using lo new(4) by (fastforce simp: live_ok_def)
    ultimately show ?thesis using lo by (auto simp: live_ok_def r')
  qed
  have h: "\<exists>l. map_of (by_id r') d = Some l \<and> lv_handle l = k" if "by_handle r' k = Some d" for k d
  proof (cases "k = h")
    case True
    then show ?thesis using that lv(5) by (simp add: L r'(2))
  next
    case False
    then have "by_handle r k = Some d" using that by (simp add: r'(2))
    then show ?thesis unfolding L using core_handleD [OF ok] fresh by fastforce
  qed
  have ac: "\<exists>l. map_of (by_id r') d = Some l \<and> live_key casefold l = b" if "d \<in> set (by_account r' b)" for b d
  proof (cases "b = a")
    case True
    then show ?thesis using that lv(6) by (simp add: L r'(3))
  next
    case False
    then have "d \<in> set (by_account r b)" using that by (simp add: r'(3))
    then show ?thesis unfolding L using core_accountD [OF ok] fresh by fastforce
  qed
  have pr: "\<exists>l. map_of (by_id r') d = Some l \<and> lv_presence l = Some q" if "d \<in> set (by_presence r' q)" for q d
  proof (cases "bound = Some q")
    case True
    then show ?thesis using that lv(2) by (simp add: L r'(6))
  next
    case False
    then have "d \<in> set (by_presence r q)" using that by (simp add: r'(6))
    then show ?thesis unfolding L using core_presenceD [OF ok] fresh by fastforce
  qed
  have d: "\<forall>p. distinct (by_presence r' p)" "\<forall>a p. account_presence r' a = Some p \<longrightarrow> p \<noteq> []"
    "distinct (map fst (by_id r'))"
    using ok new(4) by (auto simp: r' core_ok_def distinct_update)
  show ?thesis using live h ac pr d unfolding core_ok_def by blast
qed

lemma core_close:
  assumes ok: "core_ok casefold r" and c: "map_of (by_id r) c = Some lv"
    and r': "by_id r' = AList.delete c (by_id r)" "by_handle r' = (by_handle r)(lv_handle lv := None)"
      "by_account r' = (by_account r)(live_key casefold lv := [])"
      "account_generation r' = account_generation r" "account_presence r' = account_presence r"
      "by_presence r' = (\<lambda>p. filter (\<lambda>i. i \<noteq> c) (by_presence r p))"
  shows "core_ok casefold r'"
proof -
  have lo: "live_ok casefold r c lv" using core_live [OF ok c] .
  have L: "map_of (by_id r') d = (if d = c then None else map_of (by_id r) d)" for d
    by (simp add: r' delete_conv')
  have live: "live_ok casefold r' d l" if "map_of (by_id r') d = Some l" for d l
  proof -
    have d: "d \<noteq> c" "map_of (by_id r) d = Some l" using that by (auto simp: L split: if_splits)
    then have l: "live_ok casefold r d l" using core_live [OF ok] by blast
    have "live_key casefold l \<noteq> live_key casefold lv" "lv_handle l \<noteq> lv_handle lv"
      using l lo d(1) by (auto simp: live_ok_def)
    then show ?thesis using l d(1) by (auto simp: live_ok_def r')
  qed
  have h: "\<exists>l. map_of (by_id r') d = Some l \<and> lv_handle l = k" if "by_handle r' k = Some d" for k d
  proof -
    have "by_handle r k = Some d" "k \<noteq> lv_handle lv" using that by (auto simp: r' split: if_splits)
    then show ?thesis using core_handleD [OF ok, of k d] c by (auto simp: L)
  qed
  have ac: "\<exists>l. map_of (by_id r') d = Some l \<and> live_key casefold l = b" if "d \<in> set (by_account r' b)" for b d
  proof -
    have "d \<in> set (by_account r b)" "b \<noteq> live_key casefold lv" using that by (auto simp: r' split: if_splits)
    then show ?thesis using core_accountD [OF ok, of d b] c by (auto simp: L)
  qed
  have pr: "\<exists>l. map_of (by_id r') d = Some l \<and> lv_presence l = Some q" if "d \<in> set (by_presence r' q)" for q d
    using that core_presenceD [OF ok, of d q] by (auto simp: L r')
  have d: "\<forall>p. distinct (by_presence r' p)" "\<forall>a p. account_presence r' a = Some p \<longrightarrow> p \<noteq> []"
    "distinct (map fst (by_id r'))"
    using ok by (auto simp: r' core_ok_def distinct_delete)
  show ?thesis using live h ac pr d unfolding core_ok_def by blast
qed

definition drop_presence :: "string \<Rightarrow> live_connection \<Rightarrow> live_connection" where
  "drop_presence p lv = (if lv_presence lv = Some p then lv\<lparr>lv_presence := None\<rparr> else lv)"

definition except :: "string \<Rightarrow> string option \<Rightarrow> string option" where
  "except p q = (if q = Some p then None else q)"

lemma drop_presence_idem [simp]: "drop_presence p (drop_presence p lv) = drop_presence p lv"
  by (simp add: drop_presence_def)

lemma unbind_one_fields [simp]:
  "by_handle (unbind_one casefold p c r) = by_handle r" "by_account (unbind_one casefold p c r) = by_account r"
  "by_presence (unbind_one casefold p c r) = by_presence r" "pins (unbind_one casefold p c r) = pins r"
  "account_generation (unbind_one casefold p c r) = account_generation r"
  "rg_gateway (unbind_one casefold p c r) = rg_gateway r"
  "distinct (map fst (by_id (unbind_one casefold p c r))) \<longleftrightarrow> distinct (map fst (by_id r))"
  "except p (account_presence (unbind_one casefold p c r) a) = except p (account_presence r a)"
  by (auto simp: unbind_one_def Let_def except_def update_keys map_of_eq_None_iff split: option.splits
      dest: map_of_SomeD)

lemma unbind_one_map:
  "map_of (by_id (unbind_one casefold p c r)) d =
    map_option (\<lambda>lv. if d = c then drop_presence p lv else lv) (map_of (by_id r) d)"
  by (cases "map_of (by_id r) d")
    (auto simp: unbind_one_def drop_presence_def Let_def update_conv' split: option.splits)

lemma unbind_fold_fields [simp]:
  "by_handle (fold (unbind_one casefold p) cs r) = by_handle r"
  "by_account (fold (unbind_one casefold p) cs r) = by_account r"
  "by_presence (fold (unbind_one casefold p) cs r) = by_presence r"
  "pins (fold (unbind_one casefold p) cs r) = pins r"
  "account_generation (fold (unbind_one casefold p) cs r) = account_generation r"
  "distinct (map fst (by_id (fold (unbind_one casefold p) cs r))) \<longleftrightarrow> distinct (map fst (by_id r))"
  "except p (account_presence (fold (unbind_one casefold p) cs r) a) = except p (account_presence r a)"
  by (induction cs arbitrary: r) simp_all

lemma unbind_fold_map:
  "map_of (by_id (fold (unbind_one casefold p) cs r)) d =
    map_option (\<lambda>lv. if d \<in> set cs then drop_presence p lv else lv) (map_of (by_id r) d)"
  by (induction cs arbitrary: r)
    (auto simp: unbind_one_map option.map_comp comp_def option.map_ident intro!: option.map_cong)

lemma unbind_ok:
  assumes ok: "core_ok casefold r" and pins: "pins_ok {} r"
  shows "core_ok casefold (unbind_presence casefold p r) \<and> pins_ok {} (unbind_presence casefold p r) \<and>
    account_generation (unbind_presence casefold p r) = account_generation r"
proof -
  let ?r0 = "r\<lparr>by_presence := (by_presence r)(p := [])\<rparr>"
  let ?r' = "unbind_presence casefold p r"
  have ap: "account_presence ?r' a = except p (account_presence r a)" for a
    using unbind_fold_fields(7) [of p casefold "by_presence r p" ?r0 a]
    by (simp add: unbind_presence_def Let_def except_def)
  have rest: "by_handle ?r' = by_handle r" "by_account ?r' = by_account r"
    "by_presence ?r' = (by_presence r)(p := [])" "account_generation ?r' = account_generation r"
    "pins ?r' = (pins r)(p := None)" "distinct (map fst (by_id ?r'))"
    using ok by (simp_all add: unbind_presence_def Let_def core_ok_def)
  have "drop_presence p lv = lv" if "d \<notin> set (by_presence r p)" "map_of (by_id r) d = Some lv" for d lv
    using core_live [OF ok that(2)] that(1) by (auto simp: live_ok_def drop_presence_def)
  then have L: "map_of (by_id ?r') d = map_option (drop_presence p) (map_of (by_id r) d)" for d
    by (auto simp: unbind_presence_def Let_def unbind_fold_map intro!: option.map_cong)
  have key: "live_key casefold (drop_presence p lv) = live_key casefold lv" for lv
    by (simp add: live_key_def drop_presence_def)
  have live: "live_ok casefold ?r' d l" if m: "map_of (by_id ?r') d = Some l" for d l
  proof -
    obtain lv where lv: "map_of (by_id r) d = Some lv" "l = drop_presence p lv"
      using m by (auto simp: L)
    show ?thesis using core_live [OF ok lv(1)] key [of lv]
      by (auto simp: lv(2) live_ok_def rest ap except_def drop_presence_def live_key_def)
  qed
  have h: "\<exists>l. map_of (by_id ?r') d = Some l \<and> lv_handle l = k" if "by_handle r k = Some d" for k d
    using core_handleD [OF ok that] unfolding L drop_presence_def by force
  have ac: "\<exists>l. map_of (by_id ?r') d = Some l \<and> live_key casefold l = b" if "d \<in> set (by_account r b)" for b d
    using core_accountD [OF ok that] key unfolding L by force
  have pr: "\<exists>l. map_of (by_id ?r') d = Some l \<and> lv_presence l = Some q"
    if "d \<in> set (by_presence r q)" "q \<noteq> p" for q d
    using core_presenceD [OF ok that(1)] that(2) unfolding L drop_presence_def by force
  have "core_ok casefold ?r'"
    using ok live h ac pr rest unfolding core_ok_def by (simp add: ap except_def)
  moreover have "pins_ok {} ?r'" using pins by (auto simp: pins_ok_def rest)
  ultimately show ?thesis using rest by blast
qed

section \<open>Every operation keeps the indexes in agreement\<close>

definition registry_ok :: "(string \<Rightarrow> string) \<Rightarrow> registry \<Rightarrow> bool" where
  "registry_ok casefold r \<longleftrightarrow> core_ok casefold r \<and> pins_ok {} r"

lemma choose_ok:
  assumes "core_ok casefold r" "pins_ok {} r" "choose_id ids key r = Inr (c, r')"
    "\<And>k c. key = Some k \<Longrightarrow> ids = [c] \<Longrightarrow> c \<in> set (by_presence r k)"
  shows "core_ok casefold r' \<and> pins_ok {} r' \<and> account_generation r' = account_generation r"
  using assms by (auto simp: choose_id_def pins_ok_def split: list.splits option.splits if_splits)

lemma resolve_ids_state: "resolve_ids ids key r = Inr (res, r') \<Longrightarrow> \<exists>c. choose_id ids key r = Inr (c, r')"
  by (auto simp: resolve_ids_def split: sum.splits option.splits bool.splits)

lemma connect_cases:
  assumes "connect casefold h cid pf gateway presence r = Inr (sn, r')"
    "a = account_key casefold (pf_platform pf) (pf_account pf)"
    "bound = (if truthy presence then presence else account_presence r a)"
  obtains (again) c lv where "by_handle r h = Some c" "map_of (by_id r) c = Some lv"
      "live_key casefold lv = a" "reconnect a h pf presence lv r = (sn, r')"
  | (fresh) gw where "by_handle r h = None" "live_ids_for_account r a = []"
      "truthy bound \<longrightarrow> live_ids_for_presence r (the bound) = []"
      "open_connection a h cid gw pf bound r = (sn, r')"
proof (cases "by_handle r h")
  case None
  then show ?thesis using assms fresh
    by (simp add: connect_def Let_def split: if_splits)
next
  case (Some c)
  then show ?thesis using assms again
    by (auto simp: connect_def Let_def same_identity_def live_key_def split: option.splits if_splits)
qed

lemma reconnect_ok:
  assumes ok: "core_ok casefold r" "pins_ok {} r" and c: "by_handle r h = Some c" "map_of (by_id r) c = Some lv"
    and a: "a = live_key casefold lv" and out: "reconnect a h pf presence lv r = (sn, r')"
  shows "core_ok casefold r' \<and> pins_ok {} r' \<and>
    account_generation r' = (account_generation r)(a \<mapsto> lv_generation lv + 1) \<and>
    sn_generation sn = lv_generation lv + 1"
proof -
  have lo: "live_ok casefold r c lv" using core_live [OF ok(1) c(2)] .
  have h: "lv_handle lv = h" "lv_id lv = c"
    using core_handleD [OF ok(1) c(1)] c(2) lo by (auto simp: live_ok_def)
  let ?lv = "lv\<lparr>lv_generation := lv_generation lv + 1, lv_healthy := True, lv_bot := Some (lv_handle lv),
    lv_capabilities := pf_capabilities pf\<rparr>"
  define r1 where "r1 = r\<lparr>by_id := AList.update c ?lv (by_id r),
    account_generation := (account_generation r)(live_key casefold lv \<mapsto> lv_generation lv + 1)\<rparr>"
  have ok1: "core_ok casefold r1" by (rule core_touch [OF ok(1) c(2) refl r1_def])
  have pins1: "pins_ok {} r1" using ok(2) by (simp add: pins_ok_def r1_def)
  define r2 where "r2 = (if truthy presence then bind_locked a (the presence) r1 else r1)"
  have "truthy presence \<Longrightarrow> the presence \<noteq> []" by (auto simp: truthy_def split: option.splits)
  then have ok2: "core_ok casefold r2 \<and> pins_ok {} r2 \<and> account_generation r2 = account_generation r1 \<and>
      fst ` set (by_id r2) = fst ` set (by_id r1) \<and> by_account r2 = by_account r1"
    using bind_locked_ok [OF ok1 pins1] ok1 pins1 by (simp add: r2_def)
  have "c \<in> fst ` set (by_id r1)" by (simp add: r1_def dom_update)
  then obtain l where l: "map_of (by_id r2) c = Some l"
    using ok2 by (metis map_of_eq_None_iff not_None_eq)
  have "reconnect a h pf presence lv r =
      (snapshot (case map_of (by_id r2) c of None \<Rightarrow> ?lv | Some l \<Rightarrow> l), r2)"
    unfolding reconnect_def Let_def r2_def r1_def by (simp add: h a cong: if_cong option.case_cong)
  then have "r' = r2" "sn = snapshot l" using out l by simp_all
  moreover have "live_key casefold l = a"
    using core_accountD [of casefold r2 c a] ok2 l lo a by (simp add: r1_def live_ok_def)
  then have "account_generation r2 a = Some (lv_generation l)"
    using core_live [of casefold r2 c l] ok2 l by (simp add: live_ok_def)
  then have "lv_generation l = lv_generation lv + 1" using ok2 a by (simp add: r1_def)
  ultimately show ?thesis using ok2 a by (simp add: r1_def snapshot_def)
qed

lemma pins_shrink:
  "pins_ok P r \<Longrightarrow> pins r' = pins r \<Longrightarrow> (\<And>p. p \<notin> Q \<Longrightarrow> set (by_presence r p) \<subseteq> set (by_presence r' p)) \<Longrightarrow>
    P \<subseteq> Q \<Longrightarrow> pins_ok Q r'"
  by (fastforce simp: pins_ok_def)

lemma open_ok:
  assumes ok: "core_ok casefold r" "pins_ok {} r" and new: "cid \<notin> fst ` set (by_id r)" "by_handle r h = None"
    and a: "a = account_key casefold (pf_platform pf) (pf_account pf)" "by_account r a = []"
    and bound: "bound = (if truthy presence then presence else account_presence r a)"
      "truthy bound \<longrightarrow> by_presence r (the bound) = []"
    and out: "open_connection a h cid gw pf bound r = (sn, r')"
  shows "core_ok casefold r' \<and> pins_ok {} r' \<and>
    account_generation r' = (account_generation r)(a \<mapsto> (case account_generation r a of None \<Rightarrow> 0 | Some g \<Rightarrow> g) + 1) \<and>
    sn_generation sn = (case account_generation r a of None \<Rightarrow> 0 | Some g \<Rightarrow> g) + 1"
proof -
  let ?g = "(case account_generation r a of None \<Rightarrow> 0 | Some g \<Rightarrow> g) + 1"
  let ?lv = "\<lparr>lv_id = cid, lv_gateway = gw, lv_provider = pf_provider pf,
           lv_platform = pf_platform pf, lv_account = pf_account pf, lv_presence = bound,
           lv_generation = ?g, lv_healthy = True, lv_capabilities = pf_capabilities pf,
           lv_bot = Some h, lv_handle = h\<rparr>"
  define r1 where "r1 = r\<lparr>account_generation := (account_generation r)(a \<mapsto> ?g),
           by_id := AList.update cid ?lv (by_id r), by_handle := (by_handle r)(h \<mapsto> cid),
           by_account := (by_account r)(a := by_account r a @ [cid])\<rparr>"
  define r2 where "r2 = (if truthy bound then (index_presence (the bound) cid r1)
              \<lparr>account_presence := (account_presence r1)(a \<mapsto> the bound)\<rparr> else r1)"
  have tr: "truthy bound \<longleftrightarrow> bound \<noteq> None" "\<forall>p. bound = Some p \<longrightarrow> p \<noteq> []"
    using ok(1) bound(1) by (auto simp: truthy_def core_ok_def split: option.splits)
  have none: "bound = None \<Longrightarrow> account_presence r a = None"
    using bound(1) by (auto simp: truthy_def split: if_splits option.splits)
  have f: "by_id r2 = AList.update cid ?lv (by_id r)" "by_handle r2 = (by_handle r)(h \<mapsto> cid)"
    "by_account r2 = (by_account r)(a := [cid])" "account_generation r2 = (account_generation r)(a \<mapsto> ?g)"
    "account_presence r2 = (account_presence r)(a := bound)"
    "by_presence r2 = (\<lambda>p. if bound = Some p then [cid] else by_presence r p)" "pins r2 = pins r"
    using a(2) bound(2) tr(1) none
    by (auto simp: r2_def r1_def index_presence_def fun_upd_idem)
  have core: "core_ok casefold r2"
  proof (rule core_open [OF ok(1) new a(2) _ _ _ _ _ _ _ _ f(1-6)])
    show "\<forall>p. bound = Some p \<longrightarrow> p \<noteq> [] \<and> by_presence r p = []" using tr bound(2) by auto
  qed (simp_all add: a(1) live_key_def)
  have pins: "pins_ok {} r2"
    by (rule pins_shrink [OF ok(2) f(7)]) (use f(6) bound(2) tr(1) in auto)
  have "r' = (if truthy bound then refresh_pin (the bound) r2 else r2) \<and> sn = snapshot ?lv"
    using out by (auto simp: open_connection_def Let_def r2_def r1_def)
  then show ?thesis
    using core pins refresh_pins [OF core pins] f(4) by (auto simp: snapshot_def)
qed

lemma disconnect_ok:
  assumes ok: "core_ok casefold r" "pins_ok {} r"
  shows "core_ok casefold (snd (disconnect casefold obj r)) \<and> pins_ok {} (snd (disconnect casefold obj r)) \<and>
    account_generation (snd (disconnect casefold obj r)) = account_generation r"
proof (cases "\<exists>h c lv. obj = Some h \<and> by_handle r h = Some c \<and> map_of (by_id r) c = Some lv")
  case False
  then have "snd (disconnect casefold obj r) = r"
    using core_handleD [OF ok(1)] by (fastforce simp: disconnect_def split: option.splits)
  then show ?thesis using ok by simp
next
  case True
  then obtain h c lv where c: "obj = Some h" "by_handle r h = Some c" "map_of (by_id r) c = Some lv"
    by blast
  have lo: "live_ok casefold r c lv" using core_live [OF ok(1) c(3)] .
  have h: "lv_handle lv = h" using core_handleD [OF ok(1) c(2)] c(3) by simp
  let ?a = "live_key casefold lv"
  define r2 where "r2 = r\<lparr>by_handle := (by_handle r)(h := None), by_id := AList.delete c (by_id r),
    by_account := (by_account r)(?a := [])\<rparr>"
  define r3 where "r3 = (case lv_presence lv of None \<Rightarrow> r2 | Some p \<Rightarrow> unindex p c r2)"
  have out: "\<exists>P ps. snd (disconnect casefold obj r) =
      (case lv_presence lv of None \<Rightarrow> r3
       | Some p \<Rightarrow> refresh_pin p (if pins r3 p = Some c then r3\<lparr>pins := (pins r3)(p := None)\<rparr> else r3))"
    using c lo by (simp add: disconnect_def Let_def live_ok_def live_key_def r3_def r2_def unindex_def
        split: option.split)
  have gone: "c \<notin> set (by_presence r q)" if "lv_presence lv \<noteq> Some q" for q
    using core_presenceD [OF ok(1), of c q] c(3) that by auto
  have bp: "by_presence r3 = (\<lambda>p. filter (\<lambda>i. i \<noteq> c) (by_presence r p))"
  proof
    fix q
    show "by_presence r3 q = filter (\<lambda>i. i \<noteq> c) (by_presence r q)"
      using gone [of q]
      by (cases "lv_presence lv") (auto simp: r3_def r2_def unindex_def filter_id_conv intro!: filter_True [symmetric])
  qed
  have core: "core_ok casefold r3"
    by (rule core_close [OF ok(1) c(3) _ _ _ _ _ bp])
      (auto simp: r3_def r2_def unindex_def h split: option.splits)
  have gen: "account_generation r3 = account_generation r" "pins r3 = pins r"
    by (auto simp: r3_def r2_def unindex_def split: option.splits)
  show ?thesis
  proof (cases "lv_presence lv")
    case None
    then have "pins_ok {} r3" using ok(2) gone by (fastforce simp: pins_ok_def gen bp)
    then show ?thesis using out None core gen by simp
  next
    case (Some p)
    let ?r4 = "if pins r3 p = Some c then r3\<lparr>pins := (pins r3)(p := None)\<rparr> else r3"
    have "pins_ok {} ?r4"
      using ok(2) gone Some by (fastforce simp: pins_ok_def gen bp)
    moreover have "core_ok casefold ?r4" using core by simp
    ultimately have "pins_ok {} (refresh_pin p ?r4)" using refresh_pins [of casefold ?r4 "{}" p] by simp
    then show ?thesis using out Some core gen by auto
  qed
qed

lemma registry_step_ok:
  assumes "registry_step casefold r r'" "registry_ok casefold r"
  shows "registry_ok casefold r' \<and>
    (\<forall>a g. account_generation r a = Some g \<longrightarrow> (\<exists>g'\<ge>g. account_generation r' a = Some g'))"
proof -
  have ok: "core_ok casefold r" "pins_ok {} r" using assms(2) by (auto simp: registry_ok_def)
  from assms(1) show ?thesis
  proof cases
    case (connect cid h pf gateway presence sn)
    let ?a = "account_key casefold (pf_platform pf) (pf_account pf)"
    from connect(2) refl [of ?a] refl show ?thesis
    proof (cases rule: connect_cases)
      case (again c lv)
      then show ?thesis using reconnect_ok [OF ok again(1,2) again(3) [symmetric] again(4)]
          core_live [OF ok(1) again(2)]
        by (auto simp: registry_ok_def live_ok_def)
    next
      case (fresh gw)
      then show ?thesis
        using open_ok [OF ok connect(1) fresh(1) refl _ refl _ fresh(4)]
          live_ids_account [OF ok(1)] live_ids_presence [OF ok(1)]
        by (auto simp: registry_ok_def)
    qed
  next
    case (disconnect obj)
    then show ?thesis using disconnect_ok [OF ok] by (auto simp: registry_ok_def)
  next
    case (bind platform account p)
    then have "strip_ascii p \<noteq> []" "r' = bind_locked (account_key casefold platform account) (strip_ascii p) r"
      by (auto simp: bind_presence_def Let_def split: if_splits)
    then show ?thesis using bind_locked_ok [OF ok] by (auto simp: registry_ok_def)
  next
    case (unbind p)
    then show ?thesis using unbind_ok [OF ok] by (auto simp: registry_ok_def)
  next
    case (active p res)
    then obtain c where "choose_id (live_ids_for_presence r (strip_ascii p)) (Some (strip_ascii p)) r = Inr (c, r')"
      by (auto simp: resolve_active_def Let_def dest: resolve_ids_state split: if_splits)
    then show ?thesis using choose_ok [OF ok] live_ids_presence [OF ok(1)]
      by (fastforce simp: registry_ok_def)
  next
    case (account platform acc res)
    let ?a = "account_key casefold platform acc"
    obtain c where c: "choose_id (by_account r ?a) (account_presence r ?a) r = Inr (c, r')"
      using account live_ids_account [OF ok(1)]
      by (auto simp: resolve_account_def Let_def dest: resolve_ids_state)
    have "d \<in> set (by_presence r k)" if k: "account_presence r ?a = Some k" "by_account r ?a = [d]" for k d
    proof -
      obtain lv where "map_of (by_id r) d = Some lv" "live_key casefold lv = ?a"
        using core_accountD [OF ok(1), of d ?a] k(2) by auto
      then show ?thesis using core_live [OF ok(1)] k(1) by (fastforce simp: live_ok_def)
    qed
    then show ?thesis using choose_ok [OF ok c] by (auto simp: registry_ok_def)
  next
    case (look p platform acc ps)
    then have "r' = r \<or> (\<exists>c. choose_id (by_presence r (strip_ascii p)) (Some (strip_ascii p)) r = Inr (c, r'))"
      using live_ids_presence [OF ok(1)]
      by (auto simp: snapshot_presence_def Let_def split: if_splits sum.splits registry_error.splits option.splits)
    then show ?thesis using choose_ok [OF ok] ok by (fastforce simp: registry_ok_def)
  qed
qed

lemma registry_run_ok:
  assumes "registry_run casefold r r'" "registry_ok casefold r"
  shows "registry_ok casefold r' \<and>
    (\<forall>a g. account_generation r a = Some g \<longrightarrow> (\<exists>g'\<ge>g. account_generation r' a = Some g'))"
  using assms
proof (induction rule: rtranclp_induct)
  case (step r1 r2)
  have ok: "registry_ok casefold r1" using step by blast
  note s = registry_step_ok [OF step.hyps(2) ok]
  have "\<exists>g''\<ge>g. account_generation r2 a = Some g''" if "account_generation r a = Some g" for a g
  proof -
    obtain g' where "g \<le> g'" "account_generation r1 a = Some g'" using step \<open>account_generation r a = Some g\<close> by blast
    then show ?thesis using s by (meson order_trans)
  qed
  then show ?case using s by blast
qed auto

lemma registry_new_ok: "registry_ok casefold (new_registry gateway)"
  using core_new [of casefold gateway]
  by (simp add: registry_ok_def pins_ok_def) (simp add: new_registry_def)

definition live_of_presence :: "registry \<Rightarrow> string \<Rightarrow> live_connection set" where
  "live_of_presence r p = {lv \<in> snd ` set (by_id r). lv_presence lv = Some p}"

lemma entry_lookup:
  assumes "core_ok casefold r" "(c, lv) \<in> set (by_id r)"
  shows "map_of (by_id r) c = Some lv"
proof -
  have "distinct (map fst (by_id r))" using assms(1) by (simp add: core_ok_def)
  then show ?thesis using assms(2) by (rule map_of_is_SomeI)
qed

lemma live_of_presence_iff:
  assumes "core_ok casefold r"
  shows "lv \<in> live_of_presence r p \<longleftrightarrow>
    map_of (by_id r) (lv_id lv) = Some lv \<and> lv_presence lv = Some p"
proof
  assume l: "lv \<in> live_of_presence r p"
  then obtain c where c: "(c, lv) \<in> set (by_id r)" by (auto simp: live_of_presence_def)
  have m: "map_of (by_id r) c = Some lv" using entry_lookup [OF assms c] .
  have "lv_id lv = c" using core_live [OF assms m] by (simp add: live_ok_def)
  then show "map_of (by_id r) (lv_id lv) = Some lv \<and> lv_presence lv = Some p"
    using l m by (simp add: live_of_presence_def)
next
  assume l: "map_of (by_id r) (lv_id lv) = Some lv \<and> lv_presence lv = Some p"
  then have "(lv_id lv, lv) \<in> set (by_id r)" by (blast dest: map_of_SomeD)
  then show "lv \<in> live_of_presence r p" using l by (force simp: live_of_presence_def)
qed

lemma live_of_presence_inj:
  assumes "core_ok casefold r" "x \<in> live_of_presence r p" "y \<in> live_of_presence r p" "lv_id x = lv_id y"
  shows "x = y"
proof -
  have "map_of (by_id r) (lv_id x) = Some x" "map_of (by_id r) (lv_id y) = Some y"
    using assms(2,3) live_of_presence_iff [OF assms(1)] by blast+
  then show ?thesis using assms(4) by (metis option.inject)
qed

lemma live_of_presence_conn:
  assumes "core_ok casefold r" "c \<in> set (by_presence r p)"
  shows "\<exists>lv\<in>live_of_presence r p. lv_id lv = c \<and> map_of (by_id r) c = Some lv \<and> lv_healthy lv \<and>
      lv_bot lv = Some (lv_handle lv)"
proof -
  obtain lv where lv: "map_of (by_id r) c = Some lv" "lv_presence lv = Some p"
    using core_presenceD [OF assms] by blast
  have "live_ok casefold r c lv" using core_live [OF assms(1) lv(1)] .
  then have l: "lv_id lv = c" "lv_healthy lv" "lv_bot lv = Some (lv_handle lv)"
    by (simp_all add: live_ok_def)
  then have "lv \<in> live_of_presence r p" using live_of_presence_iff [OF assms(1)] lv by blast
  then show ?thesis using lv l by blast
qed

lemma live_of_presence_ids:
  assumes "core_ok casefold r"
  shows "set (by_presence r p) = lv_id ` live_of_presence r p"
proof (intro equalityI subsetI)
  fix c assume "c \<in> set (by_presence r p)"
  then obtain lv where lv: "map_of (by_id r) c = Some lv" "lv_presence lv = Some p"
    using core_presenceD [OF assms] by blast
  have c: "lv_id lv = c" using core_live [OF assms lv(1)] by (simp add: live_ok_def)
  have "lv \<in> live_of_presence r p" unfolding live_of_presence_iff [OF assms] using lv c by simp
  then show "c \<in> lv_id ` live_of_presence r p" using c by blast
next
  fix c assume "c \<in> lv_id ` live_of_presence r p"
  then obtain lv where lv: "c = lv_id lv" "lv \<in> live_of_presence r p" by blast
  then have m: "map_of (by_id r) c = Some lv" "lv_presence lv = Some p"
    unfolding live_of_presence_iff [OF assms] by simp_all
  show "c \<in> set (by_presence r p)" using core_live [OF assms m(1)] m(2) by (simp add: live_ok_def)
qed

text \<open>C36: The registry never confuses connections. In every reachable state at most one live connection
  exists per platform account and per handle, and the handle index finds exactly the connection
  that was opened with that handle.\<close>

theorem connections_stay_exclusive:
  assumes "registry_run casefold (new_registry gateway) r"
    and "(c, lv) \<in> set (by_id r)" "(c', lv') \<in> set (by_id r)"
    and "live_key casefold lv = live_key casefold lv' \<or> lv_handle lv = lv_handle lv'"
  shows "c = c' \<and> lv = lv' \<and>
    resolve_by_handle (Some (lv_handle lv)) r = Inr (snapshot lv, lv_handle lv)"
proof -
  have ok: "core_ok casefold r"
    using registry_run_ok [OF assms(1) registry_new_ok] by (simp add: registry_ok_def)
  have m: "map_of (by_id r) c = Some lv" "map_of (by_id r) c' = Some lv'"
    using entry_lookup [OF ok] assms(2,3) by auto
  have lo: "live_ok casefold r c lv" "live_ok casefold r c' lv'" using core_live [OF ok] m by auto
  have c: "c = c'" using assms(4) lo by (auto simp: live_ok_def)
  have "resolve_by_handle (Some (lv_handle lv)) r = Inr (snapshot lv, lv_handle lv)"
    using lo(1) m(1) by (simp add: resolve_by_handle_def live_ok_def)
  then show ?thesis using c m by simp
qed

lemma pinned_live:
  "pins_ok {} r \<Longrightarrow> pins r p = Some c \<Longrightarrow> c \<in> set (by_presence r p)"
  by (simp add: pins_ok_def)

text \<open>C35: Sending never guesses a connection. In every reachable state \<open>resolve_active\<close> of a presence
  returns a live connection bound to that presence, the only one or the pinned one; it refuses with
  \<open>disconnected\<close> exactly when there is none, and with \<open>ambiguous\<close> when there are several and none
  is pinned. It never fails in another way.\<close>

theorem resolution_is_exact:
  assumes "registry_run casefold (new_registry gateway) r" "p = strip_ascii presence" "p \<noteq> []"
  shows "case resolve_active presence r of
      Inr ((sn, b), r') \<Rightarrow> \<exists>lv\<in>live_of_presence r p. sn = snapshot lv \<and> lv_bot lv = Some b \<and>
        (live_of_presence r p = {lv} \<or> pins r p = Some (lv_id lv))
    | Inl Disconnected \<Rightarrow> live_of_presence r p = {}
    | Inl Ambiguous \<Rightarrow> (\<exists>x\<in>live_of_presence r p. \<exists>y\<in>live_of_presence r p. x \<noteq> y) \<and> pins r p = None
    | Inl _ \<Rightarrow> False"
proof -
  have ok: "core_ok casefold r" "pins_ok {} r"
    using registry_run_ok [OF assms(1) registry_new_ok] by (simp_all add: registry_ok_def)
  let ?ids = "by_presence r p"
  have r: "resolve_active presence r = resolve_ids ?ids (Some p) r"
    using assms(2,3) live_ids_presence [OF ok(1)] by (simp add: resolve_active_def Let_def)
  have ids: "set ?ids = lv_id ` live_of_presence r p" by (rule live_of_presence_ids [OF ok(1)])
  note inj = live_of_presence_inj [OF ok(1)] and conn = live_of_presence_conn [OF ok(1)]
  show ?thesis
  proof (cases "?ids")
    case Nil
    then show ?thesis using ids r by (simp add: resolve_ids_def choose_id_def)
  next
    case (Cons c cs)
    show ?thesis
    proof (cases cs)
      case Nil
      then obtain lv where lv: "lv \<in> live_of_presence r p" "lv_id lv = c" "map_of (by_id r) c = Some lv"
        "lv_healthy lv" "lv_bot lv = Some (lv_handle lv)" using conn [of c] Cons by (metis list.set_intros(1))
      have "x = lv" if x: "x \<in> live_of_presence r p" for x
      proof -
        have "lv_id x \<in> set ?ids" using ids x by blast
        then show ?thesis using inj [OF x lv(1)] lv(2) Cons Nil by simp
      qed
      then have "live_of_presence r p = {lv}" using lv(1) by blast
      then show ?thesis using r Cons Nil lv assms(3) by (simp add: resolve_ids_def choose_id_def)
    next
      case more: (Cons d ds)
      show ?thesis
      proof (cases "pins r p")
        case None
        have "distinct ?ids" using ok(1) by (simp add: core_ok_def)
        then have cd: "c \<noteq> d" using Cons more by simp
        obtain x where x: "x \<in> live_of_presence r p" "lv_id x = c"
          using conn [of c] Cons by (metis list.set_intros(1))
        obtain y where y: "y \<in> live_of_presence r p" "lv_id y = d"
          using conn [of d] Cons more by (metis list.set_intros)
        have "x \<noteq> y" using cd x(2) y(2) by auto
        then have "\<exists>x\<in>live_of_presence r p. \<exists>y\<in>live_of_presence r p. x \<noteq> y"
          using x(1) y(1) by blast
        then show ?thesis using r Cons more None by (simp add: resolve_ids_def choose_id_def)
      next
        case (Some e)
        then have e: "e \<in> set ?ids" using pinned_live ok(2) by blast
        then obtain lv where lv: "lv \<in> live_of_presence r p" "lv_id lv = e" "map_of (by_id r) e = Some lv"
          "lv_healthy lv" "lv_bot lv = Some (lv_handle lv)" using conn by blast
        then have "resolve_active presence r = Inr ((snapshot lv, lv_handle lv), r)"
          using r Cons more Some e by (simp add: resolve_ids_def choose_id_def)
        then show ?thesis using lv Some by auto
      qed
    qed
  qed
qed

text \<open>Connection generations are never reused. A successful \<open>connect\<close> in a reachable state returns a
  generation above every one the account ever had before, and no later operation lowers it.\<close>

theorem generations_increase:
  assumes "registry_run casefold (new_registry gateway) r" "cid \<notin> fst ` set (by_id r)"
    and "connect casefold h cid pf gw presence r = Inr (sn, r1)"
    and "a = account_key casefold (pf_platform pf) (pf_account pf)"
    and "registry_run casefold r1 r2"
  shows "sn_generation sn = (case account_generation r a of None \<Rightarrow> 0 | Some g \<Rightarrow> g) + 1 \<and>
    (\<exists>g\<ge>sn_generation sn. account_generation r2 a = Some g)"
proof -
  have ok: "core_ok casefold r" "pins_ok {} r"
    using registry_run_ok [OF assms(1) registry_new_ok] by (simp_all add: registry_ok_def)
  have g1: "sn_generation sn = (case account_generation r a of None \<Rightarrow> 0 | Some g \<Rightarrow> g) + 1 \<and>
      account_generation r1 a = Some (sn_generation sn) \<and> registry_ok casefold r1"
    using assms(3,4) refl
  proof (cases rule: connect_cases)
    case (again c lv)
    then show ?thesis using reconnect_ok [OF ok again(1,2) again(3) [symmetric] again(4)]
        core_live [OF ok(1) again(2)]
      by (auto simp: registry_ok_def live_ok_def)
  next
    case (fresh gw)
    then show ?thesis
      using open_ok [OF ok assms(2) fresh(1) assms(4) _ refl _ fresh(4)]
        live_ids_account [OF ok(1)] live_ids_presence [OF ok(1)]
      by (auto simp: registry_ok_def)
  qed
  then show ?thesis using registry_run_ok [OF assms(5)] by blast
qed

section \<open>A concrete run\<close>

definition ex_profile :: profile where
  "ex_profile = \<lparr>pf_provider = ''onebot'', pf_platform = ''qq'', pf_account = ''10'', pf_capabilities = {}\<rparr>"

definition ex_live :: live_connection where
  "ex_live = \<lparr>lv_id = ''c1'', lv_gateway = ''gw'', lv_provider = ''onebot'', lv_platform = ''qq'',
     lv_account = ''10'', lv_presence = Some ''p'', lv_generation = 1, lv_healthy = True,
     lv_capabilities = {}, lv_bot = Some 7, lv_handle = 7\<rparr>"

definition ex_registry :: registry where
  "ex_registry = snd (open_connection (account_key id ''qq'' ''10'') 7 ''c1'' ''gw'' ex_profile (Some ''p'')
     (new_registry ''gw''))"

lemma strip_examples: "strip_ascii ''gw'' = ''gw''" "strip_ascii ''p'' = ''p''"
  by (simp_all add: strip_ascii_def py_space_def)

lemma ex_connect: "connect id 7 ''c1'' ex_profile None (Some ''p'') (new_registry ''gw'') =
  Inr (snapshot ex_live, ex_registry)"
  by (simp add: connect_def ex_registry_def new_registry_def ex_profile_def open_connection_def
      strip_examples truthy_def live_ids_for_account_def live_ids_for_presence_def ex_live_def
      index_presence_def Let_def)

lemma ex_registry_reachable: "registry_run id (new_registry ''gw'') ex_registry"
  by (rule r_into_rtranclp) (rule registry_step.connect [OF _ ex_connect], simp add: new_registry_def)

lemma ex_registry_entry: "by_id ex_registry = [(''c1'', ex_live)]"
  by (simp add: ex_registry_def open_connection_def new_registry_def ex_profile_def truthy_def
      ex_live_def index_presence_def Let_def)

lemma connections_stay_exclusive_witness:
  "resolve_by_handle (Some 7) ex_registry = Inr (snapshot ex_live, 7)"
  using connections_stay_exclusive [OF ex_registry_reachable, of "''c1''" ex_live "''c1''" ex_live]
  by (simp add: ex_registry_entry) (simp add: ex_live_def)

lemma resolution_is_exact_witness:
  "\<exists>sn b r'. resolve_active ''p'' ex_registry = Inr ((sn, b), r') \<and> b = 7 \<and> sn = snapshot ex_live"
proof -
  have p: "strip_ascii ''p'' = ''p''" by (rule strip_examples)
  have l: "live_of_presence ex_registry ''p'' = {ex_live}"
    by (auto simp: live_of_presence_def ex_registry_entry ex_live_def)
  obtain sn b r' where "resolve_active ''p'' ex_registry = Inr ((sn, b), r')"
    "sn = snapshot ex_live" "lv_bot ex_live = Some b"
    using resolution_is_exact [OF ex_registry_reachable p [symmetric]] l
    by (auto split: sum.splits registry_error.splits)
  then show ?thesis by (simp add: ex_live_def)
qed

lemma generations_increase_witness:
  "sn_generation (snapshot ex_live) = 1"
  using generations_increase [OF rtranclp.rtrancl_refl _ ex_connect refl rtranclp.rtrancl_refl]
  by (simp add: new_registry_def)

end
