(* ===== verification/Lease_Heartbeat.thy ===== *)
theory Lease_Heartbeat
  imports Lease_Protocol
begin

text \<open>
  The renewal task of an activation: \<open>runtime/lease_heartbeat.py\<close>. \<open>lease_heartbeat\<close>
  is a state machine that sleeps, samples the clock, renews and backs off; its only exits
  are exceptions. \<open>supervise_lease\<close> turns the failure of that task into a cancellation of
  its parent and takes the cancellation back when the parent leaves.

  The machine is composed with the lease protocol of \<open>Lease_Protocol\<close>: \<open>expiry\<close> reads
  the store (\<open>lease_expiry\<close>), \<open>renew\<close> runs its reader and its writer session
  (\<open>renew\<close>), and every other lease operation may run between two steps. The clock of the
  task and the clock of the store are the same wall clock; the answer of the store reaches
  the task at any later moment.
\<close>

section \<open>The heartbeat\<close>

datatype hb_error = Lease_obsolete | Lease_expired | Renew_failed | Other_error

datatype hb_state =
    Asleep clock
  | Renewing clock rat clock
  | Backoff clock rat
  | Failed hb_error

text \<open>
  The first argument is \<open>deadline\<close>, the rat is the current \<open>delay\<close> and the last argument
  of \<open>Renewing\<close> is \<open>started\<close>.
\<close>

datatype answer = Renewed bool | Busy | Operational | Timed_out | Raised

fun deadline :: "hb_state \<Rightarrow> clock option" where
  "deadline (Asleep d) = Some d"
| "deadline (Renewing d delay started) = Some d"
| "deadline (Backoff d delay) = Some d"
| "deadline (Failed e) = None"

definition hb_start :: "clock option \<Rightarrow> hb_state" where
  "hb_start e = (case e of None \<Rightarrow> Failed Lease_obsolete | Some d \<Rightarrow> Asleep d)"

text \<open>How long the task sleeps before its next attempt, at the moment it goes to sleep.\<close>

fun nap :: "rat \<Rightarrow> clock \<Rightarrow> hb_state \<Rightarrow> rat" where
  "nap interval now (Asleep d) = min interval (max 0 (d - now))"
| "nap interval now (Backoff d delay) = min delay (d - now)"
| "nap interval now (Renewing d delay started) = 0"
| "nap interval now (Failed e) = 0"

text \<open>The head of the attempt loop: sample the clock, stop when nothing of the lease is left.\<close>

definition attempt :: "clock \<Rightarrow> rat \<Rightarrow> clock \<Rightarrow> hb_state" where
  "attempt d delay started =
     (if d - started \<le> 0 then Failed Lease_expired else Renewing d delay started)"

fun hb_begin :: "clock \<Rightarrow> hb_state \<Rightarrow> hb_state" where
  "hb_begin now (Asleep d) = attempt d (1/20) now"
| "hb_begin now (Backoff d delay) = attempt d (min (delay * 2) (1/2)) now"
| "hb_begin now h = h"

fun hb_answer :: "rat \<Rightarrow> answer \<Rightarrow> clock \<Rightarrow> hb_state \<Rightarrow> hb_state" where
  "hb_answer seconds a now (Renewing d delay started) =
    (case a of
      Renewed valid \<Rightarrow> if valid then Asleep (started + seconds) else Failed Lease_obsolete
    | Busy \<Rightarrow> if d - now \<le> 0 then Failed Lease_expired else Backoff d delay
    | Operational \<Rightarrow> Failed Renew_failed
    | Timed_out \<Rightarrow> Failed Lease_expired
    | Raised \<Rightarrow> Failed Other_error)"
| "hb_answer seconds a now h = h"

section \<open>Supervision of the parent task\<close>

text \<open>
  \<open>sv_cancels\<close> is \<open>owner.cancelling()\<close>: the cancellations of the parent that nobody took
  back. The exit is what leaves the \<open>async with\<close> block.
\<close>

record supervision =
  sv_active :: bool
  sv_interrupted :: bool
  sv_cancels :: nat
  sv_pulse :: hb_state

datatype 'e body = Body_done | Body_cancelled | Body_raised 'e

datatype 'e exit = Exit_done | Exit_cancelled | Exit_pulse hb_error | Exit_raised 'e

definition supervise :: "nat \<Rightarrow> hb_state \<Rightarrow> supervision" where
  "supervise cancels h = \<lparr>sv_active = True, sv_interrupted = False, sv_cancels = cancels, sv_pulse = h\<rparr>"

definition pulse_ended :: "hb_error \<Rightarrow> supervision \<Rightarrow> supervision" where
  "pulse_ended e sv =
     (let sv1 = sv\<lparr>sv_pulse := Failed e\<rparr>
      in if sv_active sv then sv1\<lparr>sv_interrupted := True, sv_cancels := sv_cancels sv + 1\<rparr> else sv1)"

definition uncancel :: "supervision \<Rightarrow> supervision" where
  "uncancel sv = sv\<lparr>sv_interrupted := False, sv_cancels := sv_cancels sv - 1\<rparr>"

definition leave_body :: "'e body \<Rightarrow> supervision \<Rightarrow> 'e exit \<times> supervision" where
  "leave_body b sv =
    (case b of
      Body_cancelled \<Rightarrow>
        (let sv1 = sv\<lparr>sv_active := False\<rparr>
         in if sv_interrupted sv
            then (let sv2 = uncancel sv1
                  in (case sv_pulse sv2 of
                       Failed e \<Rightarrow> if sv_cancels sv2 = 0 then Exit_pulse e else Exit_cancelled
                     | _ \<Rightarrow> Exit_cancelled, sv2))
            else (Exit_cancelled, sv1))
    | Body_done \<Rightarrow>
        (case sv_pulse sv of Failed e \<Rightarrow> Exit_pulse e | _ \<Rightarrow> Exit_done, sv\<lparr>sv_active := False\<rparr>)
    | Body_raised x \<Rightarrow> (Exit_raised x, sv))"

definition leave_supervision :: "'e body \<Rightarrow> supervision \<Rightarrow> 'e exit \<times> supervision" where
  "leave_supervision b sv =
    (case leave_body b sv of
      (x, sv1) \<Rightarrow>
        (let sv2 = sv1\<lparr>sv_active := False\<rparr>
         in (x, if sv_interrupted sv2 then uncancel sv2 else sv2)))"

text \<open>
  A task that ended leaves exactly the cancellations other parties asked for, and a failed
  renewal is what the block raises unless another party cancelled the parent as well or the
  body raised something of its own.
\<close>

lemma supervision_restores_cancellation:
  "sv_cancels (snd (leave_supervision b (pulse_ended e (supervise n h)))) = n"
  "sv_cancels (snd (leave_supervision b (supervise n h))) = n"
  by (auto simp: leave_supervision_def leave_body_def pulse_ended_def supervise_def uncancel_def
      Let_def split: body.splits hb_state.splits)

lemma supervision_surfaces_failure:
  "fst (leave_supervision b (pulse_ended e (supervise n h))) =
    (case b of Body_done \<Rightarrow> Exit_pulse e
     | Body_cancelled \<Rightarrow> if n = 0 then Exit_pulse e else Exit_cancelled
     | Body_raised x \<Rightarrow> Exit_raised x)"
  by (simp add: leave_supervision_def leave_body_def pulse_ended_def supervise_def uncancel_def
      Let_def split: body.splits)

section \<open>The heartbeat beside the lease protocol\<close>

text \<open>
  The other parties do not renew this lease: they may tick, acquire, renew and release other
  leases, release this one, or write anything the frame of the protocol allows. An attempt
  that times out or raises may still have committed its update. \<open>now\<close> is the time at which
  the answer reaches the task, any time from the commit on.
\<close>

inductive hb_step :: "work_lease \<Rightarrow> rat \<Rightarrow> lease_sys \<times> hb_state \<Rightarrow> lease_sys \<times> hb_state \<Rightarrow> bool"
  for l seconds where
  world: "lease_step s t \<Longrightarrow>
     \<forall>secs. t \<noteq> s\<lparr>store := snd (renew_commit (store s) (clk s) l secs)\<rparr> \<Longrightarrow>
     hb_step l seconds (s, h) (t, h)"
| wake: "hb_step l seconds (s, h) (s, hb_begin (clk s) h)"
| renewed: "renew seen t0 (store s) (clk s) l seconds = Inr (b, d') \<Longrightarrow> clk s \<le> now \<Longrightarrow>
     hb_step l seconds (s, Renewing d delay started)
       (s\<lparr>store := d'\<rparr>, hb_answer seconds (Renewed b) now (Renewing d delay started))"
| uncertain: "renew seen t0 (store s) (clk s) l seconds = Inr (b, d') \<Longrightarrow>
     a \<in> {Operational, Timed_out, Raised} \<Longrightarrow> clk s \<le> now \<Longrightarrow>
     hb_step l seconds (s, Renewing d delay started)
       (s\<lparr>store := d'\<rparr>, hb_answer seconds a now (Renewing d delay started))"
| failed: "a \<in> {Busy, Operational, Timed_out, Raised} \<Longrightarrow> clk s \<le> now \<Longrightarrow>
     hb_step l seconds (s, Renewing d delay started)
       (s, hb_answer seconds a now (Renewing d delay started))"

inductive hb_run :: "work_lease \<Rightarrow> rat \<Rightarrow> lease_sys \<times> hb_state \<Rightarrow> lease_sys \<times> hb_state \<Rightarrow> bool"
  for l seconds where
  hb_stop: "hb_run l seconds x x"
| hb_more: "hb_run l seconds x y \<Longrightarrow> hb_step l seconds y z \<Longrightarrow> hb_run l seconds x z"

section \<open>Rows of an owner expire no earlier than the deadline\<close>

definition lasts :: "('r \<Rightarrow> string option) \<Rightarrow> ('r \<Rightarrow> clock) \<Rightarrow> string \<Rightarrow> clock \<Rightarrow> 'r list \<Rightarrow> bool" where
  "lasts owner until h d rows \<longleftrightarrow> (\<forall>r\<in>set rows. owner r = Some h \<longrightarrow> d \<le> until r)"

lemma lastsD: "lasts owner until h d rows \<Longrightarrow> r \<in> set rows \<Longrightarrow> owner r = Some h \<Longrightarrow> d \<le> until r"
  by (simp add: lasts_def)

lemma lasts_update:
  assumes "lasts owner until h d rows"
    and "\<And>r. r \<in> set rows \<Longrightarrow> p r \<Longrightarrow> owner (f r) = Some h \<Longrightarrow>
      owner r = Some h \<and> until r \<le> until (f r) \<or> d \<le> until (f r)"
  shows "lasts owner until h d (update_where p f rows)"
  unfolding lasts_def set_update_where
proof (intro ballI impI)
  fix r' assume "r' \<in> (\<lambda>r. if p r then f r else r) ` set rows" and o: "owner r' = Some h"
  then obtain r where r: "r \<in> set rows" "r' = (if p r then f r else r)" by blast
  show "d \<le> until r'"
  proof (cases "p r")
    case True
    then show ?thesis using assms(2) [OF r(1) True] r o lastsD [OF assms(1) r(1)] by fastforce
  next
    case False
    then show ?thesis using r o lastsD [OF assms(1) r(1)] by simp
  qed
qed

lemma lasts_frame:
  assumes "lasts owner until h d rows"
    and "\<And>r'. r' \<in> set rows' \<Longrightarrow> owner r' = Some h \<Longrightarrow> \<exists>r\<in>set rows. owner r = Some h \<and> until r = until r'"
  shows "lasts owner until h d rows'"
  unfolding lasts_def
proof (intro ballI impI)
  fix r' assume "r' \<in> set rows'" "owner r' = Some h"
  from assms(2) [OF this] lastsD [OF assms(1)] show "d \<le> until r'" by fastforce
qed

definition lease_lasts :: "work_lease \<Rightarrow> clock \<Rightarrow> db \<Rightarrow> bool" where
  "lease_lasts l d b =
     (if worker_lease l then lasts ch_owner ch_lease_until (l_owner l) d (children b)
      else lasts sc_owner sc_lease_until (l_owner l) d (scopes b))"

lemma find_SomeD: "List.find P xs = Some x \<Longrightarrow> x \<in> set xs \<and> P x"
  by (auto simp: find_Some_iff)

lemma lease_expiryD:
  assumes "lease_expiry d now l = Some e"
  obtains (worker) c where "worker_lease l" "c \<in> set (children d)" "child_fence d l now c" "e = ch_lease_until c"
    | (scope) r where "\<not> worker_lease l" "r \<in> set (scopes d)" "scope_fence l now r" "e = sc_lease_until r"
  using assms by (auto simp: lease_expiry_def split: if_splits dest!: find_SomeD)

lemma lease_expiry_valid: "lease_expiry d now l = Some e \<Longrightarrow> lease_valid d now l \<and> now < e"
  by (erule lease_expiryD)
    (auto simp: lease_valid_def list_ex_iff child_fence_def, auto simp: scope_fence_def)

lemma owned_scope:
  assumes "lease_inv s" "l \<in> set (granted s)" "r \<in> set (scopes (store s))" "sc_owner r = Some (l_owner l)"
  shows "scope_matches l r"
proof -
  have "owners_known sc_owner scope_matches (granted s) (scopes (store s))"
    using assms(1) by (simp add: lease_inv_def)
  from owners_knownD [OF this assms(3,4)] owner_unique [OF assms(1,2)] show ?thesis by metis
qed

lemma owned_child:
  assumes "lease_inv s" "l \<in> set (granted s)" "c \<in> set (children (store s))" "ch_owner c = Some (l_owner l)"
  shows "child_matches l c"
proof -
  have "owners_known ch_owner child_matches (granted s) (children (store s))"
    using assms(1) by (simp add: lease_inv_def)
  from owners_knownD [OF this assms(3,4)] owner_unique [OF assms(1,2)] show ?thesis by metis
qed

lemma same_scope:
  assumes "lease_inv s" "r \<in> set (scopes (store s))" "r' \<in> set (scopes (store s))"
    and "sc_conversation r = sc_conversation r'"
  shows "r = r'"
  using assms unique_keyD [of sc_conversation "scopes (store s)" r r'] by (simp add: lease_inv_def)

lemma same_child:
  assumes "lease_inv s" "c \<in> set (children (store s))" "c' \<in> set (children (store s))"
    and "ch_work_id c = ch_work_id c'"
  shows "c = c'"
  using assms unique_keyD [of ch_work_id "children (store s)" c c'] by (simp add: lease_inv_def)

text \<open>A valid lease is the only row its owner holds.\<close>

lemma valid_owned_scope:
  assumes "lease_inv s" "l \<in> set (granted s)" "\<not> worker_lease l" "lease_valid (store s) (clk s) l"
    and "r \<in> set (scopes (store s))" "sc_owner r = Some (l_owner l)"
  shows "scope_fence l (clk s) r"
proof -
  obtain r1 where r1: "r1 \<in> set (scopes (store s))" "scope_fence l (clk s) r1"
    using valid_scopeD [OF assms(4,3)] by blast
  have "r = r1"
    using same_scope [OF assms(1,5) r1(1)] r1(2) owned_scope [OF assms(1,2,5,6)]
    by (simp add: scope_fence_def scope_matches_def)
  with r1 show ?thesis by simp
qed

lemma valid_owned_child:
  assumes "lease_inv s" "l \<in> set (granted s)" "worker_lease l" "lease_valid (store s) (clk s) l"
    and "c \<in> set (children (store s))" "ch_owner c = Some (l_owner l)"
  shows "child_fence (store s) l (clk s) c"
proof -
  obtain c1 where c1: "c1 \<in> set (children (store s))" "child_fence (store s) l (clk s) c1"
    using assms(3,4) by (auto simp: lease_valid_def list_ex_iff)
  have "c = c1"
    using same_child [OF assms(1,5) c1(1)] c1(2) owned_child [OF assms(1,2,5,6)]
    by (simp add: child_fence_def child_matches_def)
  with c1 show ?thesis by simp
qed

lemma expiry_lasts:
  assumes "lease_inv s" "l \<in> set (granted s)" "lease_expiry (store s) (clk s) l = Some e"
  shows "lease_lasts l e (store s)"
proof (cases "worker_lease l")
  case True
  obtain c where c: "c \<in> set (children (store s))" "child_fence (store s) l (clk s) c" "ch_lease_until c = e"
    using assms(3) True by (auto elim: lease_expiryD)
  have "lasts ch_owner ch_lease_until (l_owner l) e (children (store s))"
    unfolding lasts_def
  proof (intro ballI impI)
    fix r assume r: "r \<in> set (children (store s))" "ch_owner r = Some (l_owner l)"
    have "r = c" using same_child [OF assms(1) r(1) c(1)] c(2) owned_child [OF assms(1,2) r]
      by (simp add: child_fence_def child_matches_def)
    then show "e \<le> ch_lease_until r" using c by simp
  qed
  then show ?thesis using True by (simp add: lease_lasts_def)
next
  case False
  obtain c where c: "c \<in> set (scopes (store s))" "scope_fence l (clk s) c" "sc_lease_until c = e"
    using assms(3) False by (auto elim: lease_expiryD)
  have "lasts sc_owner sc_lease_until (l_owner l) e (scopes (store s))"
    unfolding lasts_def
  proof (intro ballI impI)
    fix r assume r: "r \<in> set (scopes (store s))" "sc_owner r = Some (l_owner l)"
    have "r = c" using same_scope [OF assms(1) r(1) c(1)] c(2) owned_scope [OF assms(1,2) r]
      by (simp add: scope_fence_def scope_matches_def)
    then show "e \<le> sc_lease_until r" using c by simp
  qed
  then show ?thesis using False by (simp add: lease_lasts_def)
qed

lemma lasts_expiry:
  assumes "lease_lasts l d b" "lease_expiry b now l = Some e"
  shows "d \<le> e"
  using assms(2)
proof (cases rule: lease_expiryD)
  case (worker c)
  then show ?thesis using assms(1) lastsD [of ch_owner ch_lease_until "l_owner l" d "children b" c]
    by (simp add: lease_lasts_def child_fence_def)
next
  case (scope r)
  then show ?thesis using assms(1) lastsD [of sc_owner sc_lease_until "l_owner l" d "scopes b" r]
    by (simp add: lease_lasts_def scope_fence_def)
qed

lemma lease_lasts_mono: "lease_lasts l d b \<Longrightarrow> d' \<le> d \<Longrightarrow> lease_lasts l d' b"
  by (fastforce simp: lease_lasts_def lasts_def)

section \<open>Renewals\<close>

lemma renew_result:
  assumes "renew seen t0 d now l seconds = Inr (b, d')"
  shows "(d' = d \<and> \<not> b) \<or> (d' = snd (renew_commit d now l seconds) \<and> b = lease_valid d now l)"
  using assms by (auto simp: renew_def renew_commit_def split: if_splits)

lemma renew_lasts:
  assumes "lease_inv s" "l \<in> set (granted s)" "lease_valid (store s) (clk s) l"
  shows "lease_lasts l (clk s + seconds) (snd (renew_commit (store s) (clk s) l seconds))"
proof (cases "worker_lease l")
  case True
  have "lasts ch_owner ch_lease_until (l_owner l) (clk s + seconds)
      (update_where (child_fence (store s) l (clk s)) (extend_child (clk s + seconds)) (children (store s)))"
    unfolding lasts_def set_update_where
  proof (intro ballI impI, elim imageE)
    fix c' c assume c: "c' = (if child_fence (store s) l (clk s) c then extend_child (clk s + seconds) c else c)"
      "c \<in> set (children (store s))" "ch_owner c' = Some (l_owner l)"
    then have "ch_owner c = Some (l_owner l)" by (simp split: if_splits)
    from valid_owned_child [OF assms(1,2) True assms(3) c(2) this]
    show "clk s + seconds \<le> ch_lease_until c'" by (simp add: c(1) extend_child_def)
  qed
  then show ?thesis using True by (simp add: lease_lasts_def renew_commit_def)
next
  case False
  have "lasts sc_owner sc_lease_until (l_owner l) (clk s + seconds)
      (update_where (scope_fence l (clk s)) (extend_scope (clk s + seconds)) (scopes (store s)))"
    unfolding lasts_def set_update_where
  proof (intro ballI impI, elim imageE)
    fix r' r assume r: "r' = (if scope_fence l (clk s) r then extend_scope (clk s + seconds) r else r)"
      "r \<in> set (scopes (store s))" "sc_owner r' = Some (l_owner l)"
    then have "sc_owner r = Some (l_owner l)" by (simp split: if_splits)
    from valid_owned_scope [OF assms(1,2) False assms(3) r(2) this]
    show "clk s + seconds \<le> sc_lease_until r'" by (simp add: r(1) extend_scope_def)
  qed
  then show ?thesis using False by (simp add: lease_lasts_def renew_commit_def)
qed

text \<open>What the other parties do to the rows of the owner.\<close>

lemma world_lasts:
  assumes "lease_step s t" "lease_inv s" "l \<in> set (granted s)" "lease_lasts l d (store s)"
    and "\<forall>secs. t \<noteq> s\<lparr>store := snd (renew_commit (store s) (clk s) l secs)\<rparr>"
  shows "lease_lasts l d (store t)"
  using assms
proof (induction rule: lease_step.induct)
  case (tick s t)
  then show ?case by simp
next
  case (acquire s h conv gen secs l' d')
  have h: "h \<noteq> l_owner l" using acquire by auto
  have u: "unique_key sc_conversation (scopes (store s))" using acquire by (simp add: lease_inv_def)
  show ?case using acquire(1) u
  proof (cases rule: acquire_commit_Some)
    case (fresh r)
    then show ?thesis using acquire h by (auto simp: lease_lasts_def lasts_def)
  next
    case (over p u)
    then show ?thesis using acquire h by (auto simp: lease_lasts_def intro!: lasts_update)
  qed
next
  case (worker s h wid l' d')
  have h: "h \<noteq> l_owner l" using worker by auto
  have u: "unique_key ch_work_id (children (store s))" using worker by (simp add: lease_inv_def)
  from acquire_worker_Some [OF worker(1) u worker(3)] show ?case
    using worker h by cases (auto simp: lease_lasts_def intro!: lasts_update)
next
  case (renew l' s secs b d')
  have ne: "l' \<noteq> l" using renew(3,7) by (metis snd_conv)
  then have o: "l_owner l' \<noteq> l_owner l" using owner_unique renew by blast
  have "d' = snd (renew_commit (store s) (clk s) l' secs)" using renew by simp
  then show ?case using renew o
    by (auto simp: lease_lasts_def renew_commit_def scope_fence_def child_fence_def intro!: lasts_update)
next
  case (release l' s)
  then show ?case
    by (auto simp: lease_lasts_def release_commit_def intro!: lasts_update)
next
  case (other s d')
  then show ?case
    by (fastforce simp: lease_lasts_def lease_frame_def intro: lasts_frame)
qed

section \<open>The invariant of the composed system\<close>

definition hb_inv :: "work_lease \<Rightarrow> rat \<Rightarrow> lease_sys \<times> hb_state \<Rightarrow> bool" where
  "hb_inv l seconds x \<longleftrightarrow> lease_inv (fst x) \<and> l \<in> set (granted (fst x)) \<and>
     (\<forall>d. deadline (snd x) = Some d \<longrightarrow> lease_lasts l d (store (fst x))) \<and>
     (\<forall>d delay started. snd x = Renewing d delay started \<longrightarrow> started < d \<and> started \<le> clk (fst x)) \<and>
     (\<forall>d delay started. snd x = Renewing d delay started \<or> snd x = Backoff d delay \<longrightarrow>
        1/20 \<le> delay \<and> delay \<le> 1/2)"

lemma hb_invI:
  assumes "lease_inv s" "l \<in> set (granted s)" "\<And>d. deadline h = Some d \<Longrightarrow> lease_lasts l d (store s)"
    and "\<And>d delay started. h = Renewing d delay started \<Longrightarrow> started < d \<and> started \<le> clk s"
    and "\<And>d delay started. h = Renewing d delay started \<or> h = Backoff d delay \<Longrightarrow> 1/20 \<le> delay \<and> delay \<le> 1/2"
  shows "hb_inv l seconds (s, h)"
  using assms unfolding hb_inv_def by (metis fst_conv snd_conv)

lemma hb_invD:
  assumes "hb_inv l seconds (s, h)"
  shows "lease_inv s" "l \<in> set (granted s)" "deadline h = Some d \<Longrightarrow> lease_lasts l d (store s)"
    and "h = Renewing d delay started \<Longrightarrow> started < d \<and> started \<le> clk s"
    and "h = Renewing d delay started \<or> h = Backoff d delay \<Longrightarrow> 1/20 \<le> delay \<and> delay \<le> 1/2"
  using assms unfolding hb_inv_def by auto

lemma lease_step_clock: "lease_step s t \<Longrightarrow> clk s \<le> clk t"
  by (induction rule: lease_step.induct) auto

text \<open>The store after the sessions of \<open>renew\<close> is reached by a step of the protocol.\<close>

lemma renew_inv:
  assumes "renew seen t0 (store s) (clk s) l seconds = Inr (b, d')" "lease_inv s" "l \<in> set (granted s)"
  shows "lease_inv (s\<lparr>store := d'\<rparr>)"
proof (cases "d' = store s")
  case True
  then show ?thesis using assms by simp
next
  case False
  then have v: "valid_duration seconds" and d': "renew_commit (store s) (clk s) l seconds = (b, d')"
    using assms(1) by (auto simp: renew_def split: if_splits)
  from lease_step.renew [OF assms(3) v d'] show ?thesis using lease_step_inv assms(2) by blast
qed

lemma hb_begin_inv:
  assumes "hb_inv l seconds (s, h)"
  shows "hb_inv l seconds (s, hb_begin (clk s) h)"
proof (cases h)
  case (Asleep d)
  then show ?thesis using hb_invD [OF assms]
    by (intro hb_invI) (auto simp: attempt_def split: if_splits)
next
  case (Backoff d delay)
  then show ?thesis using hb_invD [OF assms]
    by (intro hb_invI) (auto simp: attempt_def min_def split: if_splits)
qed (use assms in simp_all)

lemma hb_step_inv:
  assumes "hb_step l seconds x y" "hb_inv l seconds x"
  shows "hb_inv l seconds y"
  using assms
proof (induction rule: hb_step.induct)
  case (world s t h)
  note inv = hb_invD [OF world(3)]
  show ?case
  proof (rule hb_invI)
    show "lease_inv t" using lease_step_inv [OF world(1) inv(1)] .
    show "l \<in> set (granted t)" using lease_step_granted [OF world(1)] inv(2) by blast
    show "lease_lasts l d (store t)" if "deadline h = Some d" for d
      using world_lasts [OF world(1) inv(1,2) inv(3) world(2)] that by simp
    show "started < d \<and> started \<le> clk t" if "h = Renewing d delay started" for d delay started
      using inv(4) [OF that] lease_step_clock [OF world(1)] by simp
    show "1/20 \<le> delay \<and> delay \<le> 1/2" if "h = Renewing d delay started \<or> h = Backoff d delay"
      for d delay started using inv(5) [OF that] .
  qed
next
  case (wake s h)
  then show ?case by (rule hb_begin_inv)
next
  case (renewed seen t0 s b d' now d delay started)
  note inv = hb_invD [OF renewed(3)]
  have l: "lease_inv (s\<lparr>store := d'\<rparr>)" using renew_inv [OF renewed(1) inv(1,2)] .
  show ?case
  proof (cases b)
    case True
    then have v: "lease_valid (store s) (clk s) l" "d' = snd (renew_commit (store s) (clk s) l seconds)"
      using renew_result [OF renewed(1)] by auto
    have "started \<le> clk s" using inv(4) [OF refl] by simp
    then have "lease_lasts l (started + seconds) d'"
      using renew_lasts [OF inv(1,2) v(1), of seconds] v(2) lease_lasts_mono by fastforce
    then show ?thesis using True l inv by (intro hb_invI) simp_all
  next
    case False
    then show ?thesis using l inv by (intro hb_invI) simp_all
  qed
next
  case (uncertain seen t0 s b d' a now d delay started)
  note inv = hb_invD [OF uncertain(4)]
  have "lease_inv (s\<lparr>store := d'\<rparr>)" using renew_inv [OF uncertain(1) inv(1,2)] .
  then show ?case using uncertain(2) inv by (intro hb_invI) auto
next
  case (failed a s now d delay started)
  note inv = hb_invD [OF failed(3)]
  show ?case using failed(1) inv by (intro hb_invI) (auto split: if_splits)
qed

lemma hb_run_inv: "hb_run l seconds x y \<Longrightarrow> hb_inv l seconds x \<Longrightarrow> hb_inv l seconds y"
  by (induction rule: hb_run.induct) (auto intro: hb_step_inv)

section \<open>The deadline and the lease\<close>

lemma hb_start_inv:
  assumes "lease_inv s" "l \<in> set (granted s)"
  shows "hb_inv l seconds (s, hb_start (lease_expiry (store s) (clk s) l))"
  using assms expiry_lasts [OF assms]
  by (intro hb_invI) (auto simp: hb_start_def split: option.splits)

lemma unexpired_row_valid:
  assumes "lease_inv s" "l \<in> set (granted s)" "\<not> worker_lease l" "lease_lasts l d (store s)" "clk s < d"
    and "r \<in> set (scopes (store s))" "sc_owner r = Some (l_owner l)"
  shows "scope_fence l (clk s) r"
  using owned_scope [OF assms(1,2,6,7)] assms(3-7)
    lastsD [of sc_owner sc_lease_until "l_owner l" d "scopes (store s)" r]
  by (simp add: scope_fence_def scope_matches_def lease_lasts_def)

lemma unexpired_row_blocks:
  assumes "lease_inv s" "r \<in> set (scopes (store s))" "sc_lease_until r > clk s"
  shows "acquire_commit (store s) (clk s) h (sc_conversation r) gen secs = (None, store s)"
proof -
  have "unique_key sc_conversation (scopes (store s))" using assms(1) by (simp add: lease_inv_def)
  from lookup_by_unique [OF this assms(2)] show ?thesis
    using assms(3) by (simp add: acquire_commit_def)
qed

lemma nap_bound: "deadline h = Some d \<Longrightarrow> now + nap interval now h \<le> max now d"
  by (cases h) auto

text \<open>
  C37: A heartbeat never believes in more lease time than the store has confirmed. In every
  execution of the renewal task beside the lease protocol its deadline is at most the stored
  expiry of the lease; as long as that deadline is ahead and the lease was not revoked or
  released, the lease is valid and nobody can take the conversation over; and the task never
  sleeps past its deadline.
\<close>

theorem heartbeat_never_outlives_lease:
  assumes "lease_start s0" "lease_run s0 s1" "l \<in> set (granted s1)"
    and "hb_run l seconds (s1, hb_start (lease_expiry (store s1) (clk s1) l)) (s, h)"
    and "deadline h = Some d"
  shows "(case lease_expiry (store s) (clk s) l of None \<Rightarrow> True | Some e \<Rightarrow> d \<le> e) \<and>
    (clk s < d \<and> \<not> worker_lease l \<and> r \<in> set (scopes (store s)) \<and> sc_owner r = Some (l_owner l) \<longrightarrow>
       lease_valid (store s) (clk s) l \<and>
       acquire_commit (store s) (clk s) h' (l_conversation l) gen secs = (None, store s)) \<and>
    clk s + nap interval (clk s) h \<le> max (clk s) d"
proof (intro conjI impI, goal_cases)
  case 1
  have "hb_inv l seconds (s, h)"
    using hb_run_inv [OF assms(4) hb_start_inv [OF lease_run_reachable [OF assms(1,2)] assms(3)]] .
  from hb_invD(3) [OF this assms(5)] show ?case using lasts_expiry by (auto split: option.splits)
next
  case 2
  have inv: "hb_inv l seconds (s, h)"
    using hb_run_inv [OF assms(4) hb_start_inv [OF lease_run_reachable [OF assms(1,2)] assms(3)]] .
  from unexpired_row_valid [OF hb_invD(1,2) [OF inv] _ hb_invD(3) [OF inv assms(5)]] 2
  show ?case using valid_scopeI by blast
next
  case 3
  have inv: "hb_inv l seconds (s, h)"
    using hb_run_inv [OF assms(4) hb_start_inv [OF lease_run_reachable [OF assms(1,2)] assms(3)]] .
  from unexpired_row_valid [OF hb_invD(1,2) [OF inv] _ hb_invD(3) [OF inv assms(5)]] 3
  have f: "scope_fence l (clk s) r" by blast
  then show ?case using unexpired_row_blocks [OF hb_invD(1) [OF inv], of r] 3
    by (simp add: scope_fence_def)
next
  case 4
  show ?case by (rule nap_bound [OF assms(5)])
qed

text \<open>
  The lease of the demonstration store: acquired at 0 for 60 seconds, one heartbeat at 15
  with a renewal that commits at once, so the deadline moves to 75.
\<close>

definition demo_renewed :: lease_sys where
  "demo_renewed = \<lparr>clk = 15, store = demo_db\<lparr>scopes := [demo_row ''A'' 1 75]\<rparr>,
     granted = [demo_lease ''A'' 1]\<rparr>"

lemma demo_hb_run:
  "hb_run (demo_lease ''A'' 1) 60
     (demo_held, hb_start (lease_expiry (store demo_held) (clk demo_held) (demo_lease ''A'' 1)))
     (demo_renewed, Asleep 75)"
proof -
  let ?l = "demo_lease ''A'' 1" and ?s = "demo_held\<lparr>clk := 15\<rparr>"
  have st: "hb_start (lease_expiry (store demo_held) (clk demo_held) ?l) = Asleep 60"
    by (simp add: hb_start_def lease_expiry_def worker_lease_def truthy_str_def scope_fence_def demo_defs)
  have w: "hb_step ?l 60 (demo_held, Asleep 60) (?s, Asleep 60)"
    by (rule hb_step.world [OF lease_step.tick]) (auto simp: demo_defs)
  have b: "hb_step ?l 60 (?s, Asleep 60) (?s, Renewing 60 (1/20) 15)"
    using hb_step.wake [of ?l 60 ?s "Asleep 60"] by (simp add: attempt_def)
  have "renew (store ?s) 15 (store ?s) (clk ?s) ?l 60 = Inr (True, demo_db\<lparr>scopes := [demo_row ''A'' 1 75]\<rparr>)"
    by (simp add: renew_def renew_commit_def valid_duration_def lease_valid_def worker_lease_def
        truthy_str_def scope_fence_def extend_scope_def demo_defs)
  note step = hb_step.renewed [OF this, of 15 60 "1/20" 15]
  have "?s\<lparr>store := demo_db\<lparr>scopes := [demo_row ''A'' 1 75]\<rparr>\<rparr> = demo_renewed"
    by (simp add: demo_renewed_def demo_held_def)
  moreover have "clk ?s \<le> 15" by simp
  ultimately have r: "hb_step ?l 60 (?s, Renewing 60 (1/20) 15) (demo_renewed, Asleep 75)"
    using step by simp
  show ?thesis unfolding st
    using hb_run.hb_more [OF hb_run.hb_more [OF hb_run.hb_more [OF hb_run.hb_stop w] b] r] .
qed

theorem heartbeat_never_outlives_lease_witness:
  "acquire_commit (store demo_renewed) (clk demo_renewed) ''B'' ''c'' 0 60 = (None, store demo_renewed)"
proof -
  have g: "demo_lease ''A'' 1 \<in> set (granted demo_held)" by (simp add: demo_defs)
  from heartbeat_never_outlives_lease [OF demo_starts demo_run_held g demo_hb_run, of 75
      "demo_row ''A'' 1 75" "''B''" 0 60 15]
  show ?thesis by (simp add: demo_renewed_def demo_defs worker_lease_def truthy_str_def)
qed

end
