(* ===== verification/Event_Bus.thy ===== *)
theory Event_Bus
  imports Yuki_Prelude "HOL-Library.Product_Lexorder" "HOL-Library.Sublist"
begin

text \<open>
  The notification bus of the plugin host: \<open>plugin_host/event_bus.py\<close>. The dictionary of
  subscriptions keeps its insertion order; a subscription object has an identity of its own
  (\<open>sb_id\<close>, drawn from a counter), because \<open>_is_current\<close> compares with \<open>is\<close>. The queue
  holds the frozen (encoded) event together with the subscriptions matched at admission, and
  \<open>bs_current\<close> is the notification the consumer task has taken and not yet released.

  The coroutines are cut at their awaits: the consumer takes a notification and later ends
  it; a hook execution begins, its handler runs, and it ends. The encoder and decoder of
  events are parameters (they are the model methods of the SDK's event type). Log lines are
  not modelled; the counters they print are.
\<close>

section \<open>State\<close>

type_synonym bytes = string

record 'p envelope =
  en_name :: string
  en_body :: 'p

record subscription =
  sb_id :: nat
  sb_plugin :: string
  sb_hook :: string
  sb_event :: string
  sb_handler :: nat
  sb_priority :: int
  sb_timeout :: "rat option"

record queued =
  qn_event :: bytes
  qn_subs :: "subscription list"

datatype consumer = No_consumer | Consuming | Consumer_done

type_synonym hook_task = nat

record bus =
  bs_default :: rat
  bs_subs :: "((string \<times> string) \<times> subscription) list"
  bs_next :: nat
  bs_queue :: "queued list"
  bs_current :: "queued option"
  bs_capacity :: int
  bs_max_bytes :: int
  bs_pending_count :: int
  bs_pending_bytes :: int
  bs_accepting :: bool
  bs_consumer :: consumer
  bs_active :: "(string \<times> hook_task list) list"
  bs_dropped :: int
  bs_cancelled :: int
  bs_stale :: int

datatype bus_error = Invalid_limit | Invalid_timeout | Duplicate_hook

definition new_bus :: "rat \<Rightarrow> int \<Rightarrow> int \<Rightarrow> bus_error + bus" where
  "new_bus timeout capacity max_bytes =
     (if timeout \<le> 0 then Inl Invalid_timeout
      else if capacity \<le> 0 \<or> max_bytes \<le> 0 then Inl Invalid_limit
      else Inr \<lparr>bs_default = timeout, bs_subs = [], bs_next = 0, bs_queue = [], bs_current = None,
        bs_capacity = capacity, bs_max_bytes = max_bytes, bs_pending_count = 0,
        bs_pending_bytes = 0, bs_accepting = False, bs_consumer = No_consumer, bs_active = [],
        bs_dropped = 0, bs_cancelled = 0, bs_stale = 0\<rparr>)"

section \<open>Subscriptions\<close>

definition subscribe :: "string \<Rightarrow> string \<Rightarrow> string \<Rightarrow> nat \<Rightarrow> int \<Rightarrow> rat option \<Rightarrow> bus \<Rightarrow> bus_error + bus" where
  "subscribe plugin hook event handler priority timeout b =
     (let key = (plugin, hook)
      in if key \<in> fst ` set (bs_subs b) then Inl Duplicate_hook
         else if (case timeout of None \<Rightarrow> False | Some t \<Rightarrow> t \<le> 0) then Inl Invalid_timeout
         else Inr (b\<lparr>bs_subs := AList.update key
                \<lparr>sb_id = bs_next b, sb_plugin = plugin, sb_hook = hook, sb_event = event,
                 sb_handler = handler, sb_priority = priority, sb_timeout = timeout\<rparr> (bs_subs b),
              bs_next := bs_next b + 1\<rparr>))"

definition tasks_of :: "string \<Rightarrow> bus \<Rightarrow> hook_task list" where
  "tasks_of plugin b = (case map_of (bs_active b) plugin of None \<Rightarrow> [] | Some ts \<Rightarrow> ts)"

text \<open>The number of removed hooks, the tasks that are cancelled, and the bus.\<close>

definition unsubscribe_plugin :: "string \<Rightarrow> bus \<Rightarrow> nat \<times> hook_task list \<times> bus" where
  "unsubscribe_plugin plugin b =
     (length (filter (\<lambda>p. fst (fst p) = plugin) (bs_subs b)), tasks_of plugin b,
      b\<lparr>bs_subs := filter (\<lambda>p. fst (fst p) \<noteq> plugin) (bs_subs b)\<rparr>)"

definition configure_default_timeout :: "rat \<Rightarrow> bus \<Rightarrow> bus_error + bus" where
  "configure_default_timeout t b = (if t \<le> 0 then Inl Invalid_timeout else Inr (b\<lparr>bs_default := t\<rparr>))"

definition is_current_sub :: "subscription \<Rightarrow> bus \<Rightarrow> bool" where
  "is_current_sub s b =
     (case map_of (bs_subs b) (sb_plugin s, sb_hook s) of None \<Rightarrow> False | Some s' \<Rightarrow> sb_id s' = sb_id s)"

definition matching_subscriptions :: "string \<Rightarrow> bus \<Rightarrow> subscription list" where
  "matching_subscriptions name b =
     sort_key (\<lambda>s. (- sb_priority s, sb_plugin s, sb_hook s))
       (filter (\<lambda>s. sb_event s = name) (map snd (bs_subs b)))"

section \<open>Admission and the consumer\<close>

definition note_drop :: "bus \<Rightarrow> bus" where
  "note_drop b = b\<lparr>bs_dropped := bs_dropped b + 1\<rparr>"

definition release_queued :: "queued \<Rightarrow> bus \<Rightarrow> bus" where
  "release_queued q b = b\<lparr>bs_pending_count := bs_pending_count b - 1,
     bs_pending_bytes := bs_pending_bytes b - int (length (qn_event q))\<rparr>"

definition enqueue_notification :: "('p envelope \<Rightarrow> bytes) \<Rightarrow> 'p envelope \<Rightarrow> bus \<Rightarrow> bool \<times> bus" where
  "enqueue_notification encode ev b =
     (let subs = matching_subscriptions (en_name ev) b
      in if subs = [] then (True, b)
         else if \<not> bs_accepting b \<or> bs_consumer b \<noteq> Consuming then (False, note_drop b)
         else if bs_pending_count b \<ge> bs_capacity b then (False, note_drop b)
         else (let enc = encode ev
               in if bs_pending_bytes b + int (length enc) > bs_max_bytes b then (False, note_drop b)
                  else (True, b\<lparr>bs_queue := bs_queue b @ [\<lparr>qn_event = enc, qn_subs = subs\<rparr>],
                         bs_pending_count := bs_pending_count b + 1,
                         bs_pending_bytes := bs_pending_bytes b + int (length enc)\<rparr>)))"

definition start_bus :: "bus \<Rightarrow> bus" where
  "start_bus b =
     (case bs_consumer b of
        Consuming \<Rightarrow> b
      | _ \<Rightarrow> b\<lparr>bs_accepting := True, bs_consumer := Consuming\<rparr>)"

text \<open>
  The consumer takes the head of the queue. A notification whose subscriptions are all gone
  is dropped at once; otherwise its event is decoded and delivered. \<open>None\<close> in the result
  means that nothing is being delivered.
\<close>

definition consumer_take :: "(bytes \<Rightarrow> 'p envelope option) \<Rightarrow> bus \<Rightarrow> ('p envelope \<times> subscription list) option \<times> bus" where
  "consumer_take decode b =
     (case bs_queue b of
        [] \<Rightarrow> (None, b)
      | q # qs \<Rightarrow>
         (let b1 = b\<lparr>bs_queue := qs\<rparr>
          in if \<not> list_ex (\<lambda>s. is_current_sub s b1) (qn_subs q)
             then (None, release_queued q (note_drop
                    (b1\<lparr>bs_stale := bs_stale b1 + int (length (qn_subs q))\<rparr>)))
             else (case decode (qn_event q) of
                     None \<Rightarrow> (None, release_queued q (note_drop b1))
                   | Some ev \<Rightarrow> (Some (ev, qn_subs q), b1\<lparr>bs_current := Some q\<rparr>))))"

datatype delivery_end = Delivered | Delivery_cancelled | Delivery_error

text \<open>The end of a delivery; a cancelled consumer task is over.\<close>

definition consumer_end :: "delivery_end \<Rightarrow> bus \<Rightarrow> bus" where
  "consumer_end e b =
     (case bs_current b of
        None \<Rightarrow> (if e = Delivery_cancelled then b\<lparr>bs_consumer := Consumer_done\<rparr> else b)
      | Some q \<Rightarrow>
          (let b1 = (case e of
                 Delivered \<Rightarrow> b
               | Delivery_cancelled \<Rightarrow> (note_drop b)\<lparr>bs_consumer := Consumer_done\<rparr>
               | Delivery_error \<Rightarrow> note_drop b)
           in (release_queued q b1)\<lparr>bs_current := None\<rparr>))"

text \<open>
  \<open>close\<close> stops admission and cancels the consumer; when the cancellation is through (or
  two seconds later) it discards what is left in the queue.
\<close>

definition close_begin :: "bus \<Rightarrow> bus" where
  "close_begin b = b\<lparr>bs_accepting := False\<rparr>"

fun discard_all :: "queued list \<Rightarrow> bus \<Rightarrow> bus" where
  "discard_all [] b = b\<lparr>bs_queue := []\<rparr>"
| "discard_all (q # qs) b = discard_all qs (release_queued q (note_drop b))"

definition close_end :: "bus \<Rightarrow> bus" where
  "close_end b =
     discard_all (bs_queue b)
       (if bs_consumer b = Consumer_done then b\<lparr>bs_consumer := No_consumer\<rparr> else b)"

section \<open>Hook executions\<close>

datatype handler_end = Handler_done | Handler_cancelled | Handler_timeout | Handler_error string

datatype hook_start = Run_handler rat | Hook_gone

datatype hook_error = Hook_unsubscribed | Hook_cancelled | Hook_timeout | Hook_raised string

record hook_execution =
  he_plugin :: string
  he_hook :: string
  he_success :: bool
  he_duration :: rat
  he_error :: "hook_error option"

definition execute_begin :: "hook_task \<Rightarrow> subscription \<Rightarrow> bus \<Rightarrow> hook_start \<times> bus" where
  "execute_begin task s b =
     (let b1 = b\<lparr>bs_active := AList.update (sb_plugin s)
                   (List.insert task (tasks_of (sb_plugin s) b)) (bs_active b)\<rparr>
      in if \<not> is_current_sub s b then (Hook_gone, b1\<lparr>bs_stale := bs_stale b1 + 1\<rparr>)
         else (Run_handler (case sb_timeout s of None \<Rightarrow> bs_default b
                            | Some t \<Rightarrow> if t = 0 then bs_default b else t), b1))"

definition leave_active :: "hook_task \<Rightarrow> string \<Rightarrow> bus \<Rightarrow> bus" where
  "leave_active task plugin b =
     (let ts = remove1 task (tasks_of plugin b)
      in b\<lparr>bs_active := (if ts = [] then AList.delete plugin (bs_active b)
                       else AList.update plugin ts (bs_active b))\<rparr>)"

text \<open>The \<open>except\<close> clauses: what the end of the handler is recorded as.\<close>

definition handler_category :: "subscription \<Rightarrow> handler_end \<Rightarrow> bus \<Rightarrow> hook_error option \<times> bus" where
  "handler_category s e b =
     (case e of
        Handler_done \<Rightarrow> (None, b)
      | Handler_cancelled \<Rightarrow>
          (Some (if is_current_sub s b then Hook_cancelled else Hook_unsubscribed),
           b\<lparr>bs_cancelled := bs_cancelled b + 1\<rparr>)
      | Handler_timeout \<Rightarrow> (Some Hook_timeout, b)
      | Handler_error x \<Rightarrow> (Some (Hook_raised x), b))"

definition finish_hook :: "hook_task \<Rightarrow> subscription \<Rightarrow> hook_error option \<Rightarrow> rat \<Rightarrow> bus \<Rightarrow> hook_execution \<times> bus" where
  "finish_hook task s category duration b =
     (let b1 = leave_active task (sb_plugin s) b;
          stale = (category = None \<and> \<not> is_current_sub s b1);
          final = (if stale then Some Hook_unsubscribed else category)
      in (\<lparr>he_plugin = sb_plugin s, he_hook = sb_hook s, he_success = (final = None),
           he_duration = duration, he_error = final\<rparr>,
          if stale then b1\<lparr>bs_stale := bs_stale b1 + 1\<rparr> else b1))"

definition execute_end :: "hook_task \<Rightarrow> subscription \<Rightarrow> handler_end \<Rightarrow> rat \<Rightarrow> bus \<Rightarrow> hook_execution \<times> bus" where
  "execute_end task s e duration b =
     (case handler_category s e b of (category, b1) \<Rightarrow> finish_hook task s category duration b1)"

definition execute_gone :: "hook_task \<Rightarrow> subscription \<Rightarrow> rat \<Rightarrow> bus \<Rightarrow> hook_execution \<times> bus" where
  "execute_gone task s duration b = finish_hook task s (Some Hook_unsubscribed) duration b"

section \<open>Health\<close>

record bus_health =
  bh_running :: bool
  bh_pending :: int
  bh_pending_bytes :: int
  bh_capacity :: int
  bh_max_bytes :: int
  bh_dropped :: int
  bh_cancelled :: int
  bh_stale :: int

definition health :: "bus \<Rightarrow> bus_health" where
  "health b = \<lparr>bh_running = (bs_accepting b \<and> bs_consumer b = Consuming),
     bh_pending = bs_pending_count b, bh_pending_bytes = bs_pending_bytes b,
     bh_capacity = bs_capacity b, bh_max_bytes = bs_max_bytes b, bh_dropped = bs_dropped b,
     bh_cancelled = bs_cancelled b, bh_stale = bs_stale b\<rparr>"

section \<open>Executions of the bus\<close>

text \<open>
  \<open>bx_accepted\<close> and \<open>bx_taken\<close> record the encoded events that were admitted to the queue
  and those that left it (taken by the consumer or discarded), in that order; \<open>bx_delivered\<close>
  records the notifications whose delivery to the hooks began.
\<close>

record bus_exec =
  bx_bus :: bus
  bx_accepted :: "bytes list"
  bx_taken :: "bytes list"
  bx_delivered :: "(bytes \<times> subscription list) list"

definition pending :: "bus \<Rightarrow> queued list" where
  "pending b = (case bs_current b of None \<Rightarrow> [] | Some q \<Rightarrow> [q]) @ bs_queue b"

inductive bus_step :: "('p envelope \<Rightarrow> bytes) \<Rightarrow> (bytes \<Rightarrow> 'p envelope option) \<Rightarrow> bus_exec \<Rightarrow> bus_exec \<Rightarrow> bool"
  for encode decode where
  start: "bus_step encode decode x (x\<lparr>bx_bus := start_bus (bx_bus x)\<rparr>)"
| close_begin: "bus_step encode decode x (x\<lparr>bx_bus := close_begin (bx_bus x)\<rparr>)"
| close_end: "bus_step encode decode x (x\<lparr>bx_bus := close_end (bx_bus x),
     bx_taken := bx_taken x @ map qn_event (bs_queue (bx_bus x))\<rparr>)"
| enqueue: "enqueue_notification encode ev (bx_bus x) = (r, b) \<Longrightarrow>
     bus_step encode decode x (x\<lparr>bx_bus := b, bx_accepted := bx_accepted x @
       (if bs_queue b = bs_queue (bx_bus x) then [] else [encode ev])\<rparr>)"
| take: "bs_consumer (bx_bus x) = Consuming \<Longrightarrow> bs_current (bx_bus x) = None \<Longrightarrow>
     consumer_take decode (bx_bus x) = (d, b) \<Longrightarrow>
     bus_step encode decode x (x\<lparr>bx_bus := b, bx_taken := bx_taken x @ map qn_event (take 1 (bs_queue (bx_bus x))),
       bx_delivered := bx_delivered x @ (case (d, bs_current b) of
          (Some (ev, subs), Some q) \<Rightarrow> [(qn_event q, subs)] | _ \<Rightarrow> [])\<rparr>)"
| finish: "bs_consumer (bx_bus x) = Consuming \<Longrightarrow>
     bus_step encode decode x (x\<lparr>bx_bus := consumer_end e (bx_bus x)\<rparr>)"
| subscribe: "subscribe plugin hook event handler priority timeout (bx_bus x) = Inr b \<Longrightarrow>
     bus_step encode decode x (x\<lparr>bx_bus := b\<rparr>)"
| unsubscribe: "unsubscribe_plugin plugin (bx_bus x) = (n, ts, b) \<Longrightarrow>
     bus_step encode decode x (x\<lparr>bx_bus := b\<rparr>)"
| configure: "configure_default_timeout t (bx_bus x) = Inr b \<Longrightarrow>
     bus_step encode decode x (x\<lparr>bx_bus := b\<rparr>)"
| hook_begin: "execute_begin task s (bx_bus x) = (r, b) \<Longrightarrow>
     bus_step encode decode x (x\<lparr>bx_bus := b\<rparr>)"
| hook_end: "execute_end task s e duration (bx_bus x) = (r, b) \<Longrightarrow>
     bus_step encode decode x (x\<lparr>bx_bus := b\<rparr>)"
| hook_gone: "execute_gone task s duration (bx_bus x) = (r, b) \<Longrightarrow>
     bus_step encode decode x (x\<lparr>bx_bus := b\<rparr>)"

inductive bus_run :: "('p envelope \<Rightarrow> bytes) \<Rightarrow> (bytes \<Rightarrow> 'p envelope option) \<Rightarrow> bus_exec \<Rightarrow> bus_exec \<Rightarrow> bool"
  for encode decode where
  bus_stop: "bus_run encode decode x x"
| bus_more: "bus_run encode decode x y \<Longrightarrow> bus_step encode decode y z \<Longrightarrow> bus_run encode decode x z"

section \<open>The queue\<close>

text \<open>The queue part of the state, which subscriptions and hook executions leave alone.\<close>

definition same_queue :: "bus \<Rightarrow> bus \<Rightarrow> bool" where
  "same_queue b b' \<longleftrightarrow> bs_queue b' = bs_queue b \<and> bs_current b' = bs_current b \<and>
     bs_capacity b' = bs_capacity b \<and> bs_max_bytes b' = bs_max_bytes b \<and>
     bs_pending_count b' = bs_pending_count b \<and> bs_pending_bytes b' = bs_pending_bytes b \<and>
     bs_consumer b' = bs_consumer b"

definition weight :: "queued list \<Rightarrow> int" where
  "weight qs = sum_list (map (\<lambda>q. int (length (qn_event q))) qs)"

lemma weight_simps [simp]:
  "weight [] = 0" "weight (q # qs) = int (length (qn_event q)) + weight qs"
  "weight (qs @ rs) = weight qs + weight rs"
  by (simp_all add: weight_def)

lemma weight_nonneg: "0 \<le> weight qs"
  by (induction qs) simp_all

definition queue_ok :: "bus \<Rightarrow> bool" where
  "queue_ok b \<longleftrightarrow> bs_pending_count b = int (length (pending b)) \<and>
     bs_pending_bytes b = weight (pending b) \<and>
     bs_pending_count b \<le> bs_capacity b \<and> bs_pending_bytes b \<le> bs_max_bytes b"

definition exec_ok :: "bus_exec \<Rightarrow> bool" where
  "exec_ok x \<longleftrightarrow> queue_ok (bx_bus x) \<and>
     bx_accepted x = bx_taken x @ map qn_event (bs_queue (bx_bus x)) \<and>
     subseq (map fst (bx_delivered x)) (bx_taken x)"

lemma same_queue_ok: "same_queue b b' \<Longrightarrow> queue_ok b' = queue_ok b \<and> pending b' = pending b"
  by (simp add: same_queue_def queue_ok_def pending_def)

lemma queue_frame:
  "same_queue b (close_begin b)" "same_queue b (note_drop b)"
  "subscribe plugin hook event handler priority timeout b = Inr b1 \<Longrightarrow> same_queue b b1"
  "unsubscribe_plugin plugin b = (n, ts, b2) \<Longrightarrow> same_queue b b2"
  "configure_default_timeout t b = Inr b3 \<Longrightarrow> same_queue b b3"
  "execute_begin task s b = (r, b4) \<Longrightarrow> same_queue b b4"
  "execute_gone task s duration b = (r', b5) \<Longrightarrow> same_queue b b5"
  by (auto simp: same_queue_def close_begin_def note_drop_def subscribe_def unsubscribe_plugin_def
      configure_default_timeout_def execute_begin_def execute_gone_def finish_hook_def
      leave_active_def Let_def split: if_splits)

lemma execute_end_frame: "execute_end task s e duration b = (r, b') \<Longrightarrow> same_queue b b'"
  by (auto simp: same_queue_def execute_end_def handler_category_def finish_hook_def leave_active_def
      Let_def split: if_splits handler_end.splits)

lemma exec_same_queue:
  "exec_ok x \<Longrightarrow> same_queue (bx_bus x) b \<Longrightarrow> exec_ok (x\<lparr>bx_bus := b\<rparr>)"
  using same_queue_ok [of "bx_bus x" b] unfolding exec_ok_def by (simp add: same_queue_def)

lemma start_ok: "queue_ok (start_bus b) = queue_ok b \<and> bs_queue (start_bus b) = bs_queue b"
  by (simp add: start_bus_def queue_ok_def pending_def split: consumer.split)

lemma discard_all_effect:
  "bs_queue (discard_all qs b) = []"
  "bs_current (discard_all qs b) = bs_current b"
  "bs_capacity (discard_all qs b) = bs_capacity b"
  "bs_max_bytes (discard_all qs b) = bs_max_bytes b"
  "bs_pending_count (discard_all qs b) = bs_pending_count b - int (length qs)"
  "bs_pending_bytes (discard_all qs b) = bs_pending_bytes b - weight qs"
  "bs_dropped (discard_all qs b) = bs_dropped b + int (length qs)"
  by (induction qs arbitrary: b) (simp_all add: release_queued_def note_drop_def)

lemma enqueue_cases:
  assumes "enqueue_notification encode ev b = (r, b')"
  obtains (unheard) "r" "matching_subscriptions (en_name ev) b = []" "b' = b"
    | (refused) "\<not> r" "b' = note_drop b"
    | (admitted) "r" "bs_pending_count b < bs_capacity b"
        "bs_pending_bytes b + int (length (encode ev)) \<le> bs_max_bytes b"
        "b' = b\<lparr>bs_queue := bs_queue b @
            [\<lparr>qn_event = encode ev, qn_subs = matching_subscriptions (en_name ev) b\<rparr>],
          bs_pending_count := bs_pending_count b + 1,
          bs_pending_bytes := bs_pending_bytes b + int (length (encode ev))\<rparr>"
proof -
  let ?subs = "matching_subscriptions (en_name ev) b"
  let ?gate = "\<not> bs_accepting b \<or> bs_consumer b \<noteq> Consuming"
  consider "?subs = []" | "?subs \<noteq> []" "?gate \<or> bs_pending_count b \<ge> bs_capacity b \<or>
      bs_pending_bytes b + int (length (encode ev)) > bs_max_bytes b"
    | "?subs \<noteq> []" "\<not> ?gate" "bs_pending_count b < bs_capacity b"
      "bs_pending_bytes b + int (length (encode ev)) \<le> bs_max_bytes b" by linarith
  then show ?thesis
  proof cases
    case 1
    then have "r" "b' = b" using assms by (simp_all add: enqueue_notification_def)
    with 1 show ?thesis by (intro unheard)
  next
    case 2
    have "enqueue_notification encode ev b = (False, note_drop b)"
      using 2 by (auto simp: enqueue_notification_def Let_def)
    then have "\<not> r" "b' = note_drop b" using assms by simp_all
    then show ?thesis by (rule refused)
  next
    case 3
    then have "(r, b') = (True, b\<lparr>bs_queue := bs_queue b @ [\<lparr>qn_event = encode ev, qn_subs = ?subs\<rparr>],
        bs_pending_count := bs_pending_count b + 1,
        bs_pending_bytes := bs_pending_bytes b + int (length (encode ev))\<rparr>)"
      unfolding assms [symmetric] by (simp add: enqueue_notification_def Let_def)
    with 3 show ?thesis by (intro admitted) simp_all
  qed
qed

lemma enqueue_effect:
  assumes "enqueue_notification encode ev b = (r, b')" "queue_ok b"
  shows "same_queue b b' \<or>
    (r \<and> queue_ok b' \<and> (\<exists>q. qn_event q = encode ev \<and> bs_queue b' = bs_queue b @ [q]))"
  using assms(1)
proof (cases rule: enqueue_cases)
  case unheard
  then show ?thesis by (simp add: same_queue_def)
next
  case refused
  then show ?thesis using queue_frame(2) by blast
next
  case admitted
  then have "queue_ok b'" using assms(2) by (simp add: queue_ok_def pending_def split: option.splits)
  moreover have "\<exists>q. qn_event q = encode ev \<and> bs_queue b' = bs_queue b @ [q]"
    unfolding admitted(4)
    by (rule exI [of _ "\<lparr>qn_event = encode ev, qn_subs = matching_subscriptions (en_name ev) b\<rparr>"]) simp
  ultimately show ?thesis using admitted(1) by blast
qed

lemma take_effect:
  assumes "consumer_take decode b = (d, b')" "queue_ok b" "bs_current b = None"
  shows "queue_ok b' \<and> bs_queue b = take 1 (bs_queue b) @ bs_queue b' \<and>
    (\<forall>ev subs. d = Some (ev, subs) \<longrightarrow> (\<exists>q. bs_current b' = Some q \<and> take 1 (bs_queue b) = [q] \<and> subs = qn_subs q))"
  using assms weight_nonneg [of "bs_queue b"]
  by (auto simp: consumer_take_def queue_ok_def pending_def release_queued_def note_drop_def Let_def
      split: list.splits if_splits option.splits)

lemma finish_effect:
  assumes "queue_ok b"
  shows "queue_ok (consumer_end e b) \<and> bs_queue (consumer_end e b) = bs_queue b"
  using assms weight_nonneg [of "bs_queue b"]
  by (auto simp: consumer_end_def queue_ok_def pending_def release_queued_def note_drop_def Let_def
      split: option.splits delivery_end.splits)

lemma close_effect:
  assumes "queue_ok b"
  shows "queue_ok (close_end b) \<and> bs_queue (close_end b) = []"
  using assms weight_nonneg [of "bs_queue b"]
  by (auto simp: close_end_def queue_ok_def pending_def discard_all_effect split: option.splits)

lemma bus_step_ok:
  assumes "bus_step encode decode x y" "exec_ok x"
  shows "exec_ok y"
  using assms
proof (induction rule: bus_step.induct)
  case (start x)
  then show ?case using start_ok [of "bx_bus x"] by (simp add: exec_ok_def)
next
  case (close_end x)
  then show ?case using close_effect [of "bx_bus x"] by (simp add: exec_ok_def list_emb_prefix)
next
  case (enqueue ev x r b)
  from enqueue(2) have ok: "queue_ok (bx_bus x)" by (simp add: exec_ok_def)
  from enqueue_effect [OF enqueue(1) ok] show ?case
  proof (elim disjE conjE exE)
    assume q: "same_queue (bx_bus x) b"
    then show ?case using exec_same_queue [OF enqueue(2) q] by (simp add: same_queue_def)
  next
    fix q assume "queue_ok b" "qn_event q = encode ev" "bs_queue b = bs_queue (bx_bus x) @ [q]"
    then show ?case using enqueue(2) by (simp add: exec_ok_def)
  qed
next
  case (take x d b)
  have q: "queue_ok (bx_bus x)" using take by (simp add: exec_ok_def)
  note e = take_effect [OF take(3) q take(2)]
  have "subseq (map fst (bx_delivered x @ (case (d, bs_current b) of
      (Some (ev, subs), Some q) \<Rightarrow> [(qn_event q, subs)] | _ \<Rightarrow> [])))
      (bx_taken x @ map qn_event (take 1 (bs_queue (bx_bus x))))"
  proof -
    have s: "subseq (map fst (bx_delivered x)) (bx_taken x)" using take(4) by (simp add: exec_ok_def)
    show ?thesis
    proof (cases "\<exists>ev subs q. d = Some (ev, subs) \<and> bs_current b = Some q")
      case True
      then obtain ev subs q where d: "d = Some (ev, subs)" "bs_current b = Some q" by blast
      then have "take 1 (bs_queue (bx_bus x)) = [q]" using e by auto
      then show ?thesis using s d by (simp add: list_emb_append_mono)
    next
      case False
      then have "(case (d, bs_current b) of (Some (ev, subs), Some q) \<Rightarrow> [(qn_event q, subs)] | _ \<Rightarrow> []) = []"
        by (auto split: option.splits)
      then show ?thesis using s by (simp add: list_emb_prefix)
    qed
  qed
  moreover have "bx_accepted x = (bx_taken x @ map qn_event (take 1 (bs_queue (bx_bus x)))) @ map qn_event (bs_queue b)"
  proof -
    have "bs_queue (bx_bus x) = take 1 (bs_queue (bx_bus x)) @ bs_queue b" using e by blast
    then have "map qn_event (bs_queue (bx_bus x)) =
        map qn_event (take 1 (bs_queue (bx_bus x))) @ map qn_event (bs_queue b)"
      by (metis map_append)
    then show ?thesis using take(4) by (simp only: exec_ok_def append.assoc)
  qed
  ultimately show ?case using e by (simp add: exec_ok_def del: map_append)
next
  case (finish x e)
  then show ?case using finish_effect [of "bx_bus x" e] by (simp add: exec_ok_def)
next
  case (close_begin x)
  show ?case by (rule exec_same_queue [OF close_begin queue_frame(1)])
next
  case (subscribe plugin hook event handler priority timeout x b)
  show ?case by (rule exec_same_queue [OF subscribe(2) queue_frame(3) [OF subscribe(1)]])
next
  case (unsubscribe plugin x n ts b)
  show ?case by (rule exec_same_queue [OF unsubscribe(2) queue_frame(4) [OF unsubscribe(1)]])
next
  case (configure t x b)
  show ?case by (rule exec_same_queue [OF configure(2) queue_frame(5) [OF configure(1)]])
next
  case (hook_begin task s x r b)
  show ?case by (rule exec_same_queue [OF hook_begin(2) queue_frame(6) [OF hook_begin(1)]])
next
  case (hook_end task s e duration x r b)
  show ?case by (rule exec_same_queue [OF hook_end(2) execute_end_frame [OF hook_end(1)]])
next
  case (hook_gone task s duration x r b)
  show ?case by (rule exec_same_queue [OF hook_gone(2) queue_frame(7) [OF hook_gone(1)]])
qed

lemma bus_run_ok: "bus_run encode decode x y \<Longrightarrow> exec_ok x \<Longrightarrow> exec_ok y"
  by (induction rule: bus_run.induct) (auto intro: bus_step_ok)

lemma step_limits:
  "bus_step encode decode x y \<Longrightarrow> bs_capacity (bx_bus y) = bs_capacity (bx_bus x) \<and>
     bs_max_bytes (bx_bus y) = bs_max_bytes (bx_bus x)"
proof (induction rule: bus_step.induct)
  case (start x)
  then show ?case by (simp add: start_bus_def split: consumer.split)
next
  case (close_end x)
  then show ?case by (simp add: close_end_def discard_all_effect)
next
  case (enqueue ev x r b)
  from enqueue show ?case by (cases rule: enqueue_cases) (simp_all add: note_drop_def)
next
  case (take x d b)
  then show ?case
    by (auto simp: consumer_take_def release_queued_def note_drop_def Let_def
        split: list.splits if_splits option.splits)
next
  case (finish x e)
  then show ?case
    by (auto simp: consumer_end_def release_queued_def note_drop_def Let_def
        split: option.splits delivery_end.splits)
qed (auto dest!: queue_frame(3-7) execute_end_frame simp: same_queue_def close_begin_def)

lemma run_limits:
  "bus_run encode decode x y \<Longrightarrow> bs_capacity (bx_bus y) = bs_capacity (bx_bus x) \<and>
     bs_max_bytes (bx_bus y) = bs_max_bytes (bx_bus x)"
  by (induction rule: bus_run.induct) (auto dest: step_limits)

definition idle_exec :: "bus \<Rightarrow> bus_exec" where
  "idle_exec b = \<lparr>bx_bus = b, bx_accepted = [], bx_taken = [], bx_delivered = []\<rparr>"

lemma new_bus_ok:
  assumes "new_bus t cap max_bytes = Inr b"
  shows "exec_ok (idle_exec b) \<and> bs_capacity b = cap \<and> bs_max_bytes b = max_bytes"
  using assms by (auto simp: new_bus_def exec_ok_def queue_ok_def pending_def idle_exec_def split: if_splits)

section \<open>A hook that was unsubscribed stays unsubscribed\<close>

definition gone :: "subscription \<Rightarrow> bus \<Rightarrow> bool" where
  "gone s b \<longleftrightarrow> sb_id s < bs_next b \<and> (\<forall>p\<in>set (bs_subs b). sb_id (snd p) \<noteq> sb_id s)"

lemma gone_not_current: "gone s b \<Longrightarrow> \<not> is_current_sub s b"
  by (fastforce simp: gone_def is_current_sub_def split: option.splits dest: map_of_SomeD)

definition same_subs :: "bus \<Rightarrow> bus \<Rightarrow> bool" where
  "same_subs b b' \<longleftrightarrow> bs_subs b' = bs_subs b \<and> bs_next b' = bs_next b"

lemma subs_frame:
  "same_subs b (start_bus b)" "same_subs b (close_begin b)" "same_subs b (note_drop b)"
  "configure_default_timeout t b = Inr b1 \<Longrightarrow> same_subs b b1"
  "execute_begin task s b = (r, b2) \<Longrightarrow> same_subs b b2"
  "execute_gone task s duration b = (r', b3) \<Longrightarrow> same_subs b b3"
  "consumer_take decode b = (d, b4) \<Longrightarrow> same_subs b b4"
  "same_subs b (consumer_end e b)"
  by (auto simp: same_subs_def start_bus_def close_begin_def note_drop_def configure_default_timeout_def
      execute_begin_def execute_gone_def finish_hook_def leave_active_def consumer_take_def
      consumer_end_def release_queued_def Let_def
      split: if_splits consumer.splits list.splits option.splits delivery_end.splits)

lemma discard_subs: "same_subs b (discard_all qs b)"
  by (induction qs arbitrary: b) (auto simp: same_subs_def release_queued_def note_drop_def)

lemma close_end_subs: "same_subs b (close_end b)"
  using discard_subs [of "if bs_consumer b = Consumer_done then b\<lparr>bs_consumer := No_consumer\<rparr> else b" "bs_queue b"]
  by (simp add: close_end_def same_subs_def split: if_splits)

lemma execute_end_subs: "execute_end task s e duration b = (r, b') \<Longrightarrow> same_subs b b'"
  by (auto simp: same_subs_def execute_end_def handler_category_def finish_hook_def leave_active_def
      Let_def split: if_splits handler_end.splits)

lemma enqueue_subs: "enqueue_notification encode ev b = (r, b') \<Longrightarrow> same_subs b b'"
  by (erule enqueue_cases) (simp_all add: same_subs_def note_drop_def)

lemma gone_same: "gone s b \<Longrightarrow> same_subs b b' \<Longrightarrow> gone s b'"
  by (simp add: gone_def same_subs_def)

lemma update_no_key: "k \<notin> fst ` set al \<Longrightarrow> AList.update k v al = al @ [(k, v)]"
  by (induction al) auto

lemma subscribe_gone:
  assumes "subscribe plugin hook event handler priority timeout b = Inr b'" "gone s b"
  shows "gone s b'"
proof -
  have "(plugin, hook) \<notin> fst ` set (bs_subs b)" using assms(1)
    by (auto simp: subscribe_def Let_def split: if_splits)
  then have "bs_subs b' = bs_subs b @ [((plugin, hook), \<lparr>sb_id = bs_next b, sb_plugin = plugin,
      sb_hook = hook, sb_event = event, sb_handler = handler, sb_priority = priority, sb_timeout = timeout\<rparr>)]"
    "bs_next b' = bs_next b + 1"
    using assms(1) by (auto simp: subscribe_def Let_def update_no_key split: if_splits)
  then show ?thesis using assms(2) by (auto simp: gone_def)
qed

lemma unsubscribe_gone:
  "unsubscribe_plugin plugin b = (n, ts, b') \<Longrightarrow> gone s b \<Longrightarrow> gone s b'"
  by (auto simp: unsubscribe_plugin_def gone_def)

lemma bus_step_gone:
  assumes "bus_step encode decode x y" "gone s (bx_bus x)"
  shows "gone s (bx_bus y)"
  using assms
proof (induction rule: bus_step.induct)
  case (close_end x)
  then show ?case using gone_same [OF close_end close_end_subs] by simp
next
  case (enqueue ev x r b)
  then show ?case using gone_same [OF _ enqueue_subs] by (simp, blast?)
next
  case (subscribe plugin hook event handler priority timeout x b)
  then show ?case using subscribe_gone by (simp, blast?)
next
  case (unsubscribe plugin x n ts b)
  then show ?case using unsubscribe_gone by (simp, blast?)
next
  case (hook_end task s' e duration x r b)
  then show ?case using gone_same [OF _ execute_end_subs] by (simp, blast?)
next
  case (take x d b)
  then show ?case using gone_same [OF _ subs_frame(7)] by (simp, blast?)
qed (use gone_same subs_frame in \<open>simp, blast?\<close>)+

lemma bus_run_gone: "bus_run encode decode x y \<Longrightarrow> gone s (bx_bus x) \<Longrightarrow> gone s (bx_bus y)"
  by (induction rule: bus_run.induct) (auto intro: bus_step_gone)

text \<open>Every subscription in the dictionary was made through \<open>subscribe\<close>, under its own key.\<close>

definition subs_ok :: "bus \<Rightarrow> bool" where
  "subs_ok b \<longleftrightarrow> (\<forall>p\<in>set (bs_subs b). fst p = (sb_plugin (snd p), sb_hook (snd p)) \<and> sb_id (snd p) < bs_next b) \<and>
     distinct (map (\<lambda>p. sb_id (snd p)) (bs_subs b))"

lemma subs_ok_same: "subs_ok b \<Longrightarrow> same_subs b b' \<Longrightarrow> subs_ok b'"
  by (simp add: subs_ok_def same_subs_def)

lemma subscribe_subs_ok:
  assumes "subscribe plugin hook event handler priority timeout b = Inr b'" "subs_ok b"
  shows "subs_ok b'"
proof -
  obtain s where "bs_subs b' = bs_subs b @ [((sb_plugin s, sb_hook s), s)]"
    "bs_next b' = bs_next b + 1" "sb_id s = bs_next b"
    using assms(1) by (fastforce simp: subscribe_def Let_def update_no_key split: if_splits)
  with assms(2) show ?thesis by (fastforce simp: subs_ok_def)
qed

lemma unsubscribe_subs_ok:
  "unsubscribe_plugin plugin b = (n, ts, b') \<Longrightarrow> subs_ok b \<Longrightarrow> subs_ok b'"
  unfolding unsubscribe_plugin_def subs_ok_def by (clarsimp simp: distinct_map_filter)

lemma bus_step_subs_ok:
  assumes "bus_step encode decode x y" "subs_ok (bx_bus x)"
  shows "subs_ok (bx_bus y)"
  using assms
proof (induction rule: bus_step.induct)
  case (close_end x)
  then show ?case using subs_ok_same [OF close_end close_end_subs] by simp
next
  case (enqueue ev x r b)
  then show ?case using subs_ok_same [OF _ enqueue_subs] by (simp, blast?)
next
  case (subscribe plugin hook event handler priority timeout x b)
  then show ?case using subscribe_subs_ok by (simp, blast?)
next
  case (unsubscribe plugin x n ts b)
  then show ?case using unsubscribe_subs_ok by (simp, blast?)
next
  case (hook_end task s' e duration x r b)
  then show ?case using subs_ok_same [OF _ execute_end_subs] by (simp, blast?)
next
  case (take x d b)
  then show ?case using subs_ok_same [OF _ subs_frame(7)] by (simp, blast?)
qed (use subs_ok_same subs_frame in \<open>simp, blast?\<close>)+

lemma bus_run_subs_ok: "bus_run encode decode x y \<Longrightarrow> subs_ok (bx_bus x) \<Longrightarrow> subs_ok (bx_bus y)"
  by (induction rule: bus_run.induct) (auto intro: bus_step_subs_ok)

lemma new_bus_subs_ok: "new_bus t cap max_bytes = Inr b \<Longrightarrow> subs_ok b"
  by (auto simp: new_bus_def subs_ok_def split: if_splits)

lemma unsubscribed_gone:
  assumes "subs_ok b" "p \<in> set (bs_subs b)" "s = snd p" "unsubscribe_plugin (sb_plugin s) b = (n, ts, b')"
  shows "gone s b'"
proof -
  have "q = p" if "q \<in> set (bs_subs b)" "sb_id (snd q) = sb_id (snd p)" for q
    using assms(1,2) that by (auto simp: subs_ok_def distinct_map inj_on_def)
  note same = this
  have p: "fst (fst p) = sb_plugin s" "sb_id s < bs_next b" using assms(1-3) by (auto simp: subs_ok_def)
  have b': "bs_subs b' = filter (\<lambda>p. fst (fst p) \<noteq> sb_plugin s) (bs_subs b)" "bs_next b' = bs_next b"
    using assms(4) by (auto simp: unsubscribe_plugin_def)
  have "sb_id (snd q) \<noteq> sb_id s" if q: "q \<in> set (bs_subs b')" for q
  proof
    assume "sb_id (snd q) = sb_id s"
    then have "q = p" using q same b'(1) assms(3) by simp
    then show False using q b'(1) p(1) by simp
  qed
  then show ?thesis using p b' by (simp add: gone_def)
qed

lemma gone_hook_fails:
  assumes "gone s b"
  shows "\<not> he_success (fst (execute_end task s e duration b))" "fst (execute_begin task s b) = Hook_gone"
proof -
  have n: "\<not> is_current_sub s b'" if "same_subs b b'" for b'
    using gone_not_current [OF gone_same [OF assms that]] .
  obtain c b1 where c: "handler_category s e b = (c, b1)" by (cases "handler_category s e b")
  then have "same_subs b b1"
    by (auto simp: handler_category_def same_subs_def split: handler_end.splits)
  then have "same_subs b (leave_active task (sb_plugin s) b1)"
    by (simp add: same_subs_def leave_active_def Let_def)
  from n [OF this] show "\<not> he_success (fst (execute_end task s e duration b))"
    by (simp add: execute_end_def c finish_hook_def Let_def)
  show "fst (execute_begin task s b) = Hook_gone"
    using gone_not_current [OF assms] by (simp add: execute_begin_def)
qed

text \<open>
  A plugin that is unsubscribed while its hooks run gets no success from them, and none of
  its queued notifications starts one, also when the same hook is subscribed again.
\<close>

lemma unsubscribed_hook_never_succeeds:
  assumes "new_bus t cap max_bytes = Inr b0" "bus_run encode decode (idle_exec b0) x"
    and "p \<in> set (bs_subs (bx_bus x))" "s = snd p"
    and "unsubscribe_plugin (sb_plugin s) (bx_bus x) = (n, ts, b)"
    and "bus_run encode decode (x\<lparr>bx_bus := b\<rparr>) y"
  shows "\<not> he_success (fst (execute_end task s e duration (bx_bus y)))"
    and "fst (execute_begin task s (bx_bus y)) = Hook_gone"
proof -
  have "subs_ok (bx_bus x)"
    using bus_run_subs_ok [OF assms(2)] new_bus_subs_ok [OF assms(1)] by (simp add: idle_exec_def)
  then have "gone s (bx_bus (x\<lparr>bx_bus := b\<rparr>))" using unsubscribed_gone [OF _ assms(3-5)] by simp
  from bus_run_gone [OF assms(6) this]
  show "\<not> he_success (fst (execute_end task s e duration (bx_bus y)))"
    and "fst (execute_begin task s (bx_bus y)) = Hook_gone"
    by (rule gone_hook_fails)+
qed

section \<open>The notification queue\<close>

text \<open>
  C38: The notification queue stays within its limits and loses nothing silently. In every
  execution the two pending counters are the number and the total size of the notifications
  in the queue together with the one in delivery, neither exceeds its limit, the admitted
  events leave the queue in the order of their admission, and the events that reach the
  hooks are among them in that order.
\<close>

theorem notifications_bounded_and_ordered:
  assumes "new_bus t cap max_bytes = Inr b0" "bus_run encode decode (idle_exec b0) x"
  shows "bs_pending_count (bx_bus x) = int (length (pending (bx_bus x))) \<and>
    bs_pending_bytes (bx_bus x) = weight (pending (bx_bus x)) \<and>
    bs_pending_count (bx_bus x) \<le> cap \<and> bs_pending_bytes (bx_bus x) \<le> max_bytes \<and>
    bx_accepted x = bx_taken x @ map qn_event (bs_queue (bx_bus x)) \<and>
    subseq (map fst (bx_delivered x)) (bx_accepted x)"
proof -
  note new = new_bus_ok [OF assms(1)]
  have ok: "exec_ok x" using bus_run_ok [OF assms(2)] new by blast
  have "bs_capacity (bx_bus x) = cap \<and> bs_max_bytes (bx_bus x) = max_bytes"
    using run_limits [OF assms(2)] new by (simp add: idle_exec_def)
  with ok show ?thesis by (auto simp: exec_ok_def queue_ok_def list_emb_prefix)
qed

text \<open>
  A bus for one notification of at most ten bytes: the first event is admitted, the second
  is refused because the first is still pending, and the consumer takes the first.
\<close>

definition demo_bus :: bus where
  "demo_bus = \<lparr>bs_default = 3, bs_subs = [], bs_next = 0, bs_queue = [], bs_current = None,
     bs_capacity = 1, bs_max_bytes = 10, bs_pending_count = 0, bs_pending_bytes = 0,
     bs_accepting = False, bs_consumer = No_consumer, bs_active = [], bs_dropped = 0,
     bs_cancelled = 0, bs_stale = 0\<rparr>"

definition demo_hook :: subscription where
  "demo_hook = \<lparr>sb_id = 0, sb_plugin = ''p'', sb_hook = ''h'', sb_event = ''started'',
     sb_handler = 7, sb_priority = 0, sb_timeout = None\<rparr>"

definition demo_open :: bus where
  "demo_open = demo_bus\<lparr>bs_subs := [((''p'', ''h''), demo_hook)], bs_next := 1,
     bs_accepting := True, bs_consumer := Consuming\<rparr>"

definition demo_queue :: "queued list" where
  "demo_queue = [\<lparr>qn_event = ''abc'', qn_subs = [demo_hook]\<rparr>]"

definition demo_event :: "bytes envelope" where
  "demo_event = \<lparr>en_name = ''started'', en_body = ''abc''\<rparr>"

lemma demo_exec:
  "bus_run en_body decode (idle_exec demo_bus)
     \<lparr>bx_bus = demo_open\<lparr>bs_queue := demo_queue, bs_pending_count := 1, bs_pending_bytes := 3,
        bs_dropped := 1\<rparr>,
      bx_accepted = [''abc''], bx_taken = [], bx_delivered = []\<rparr>"
proof -
  let ?x = "\<lambda>b a. \<lparr>bx_bus = b, bx_accepted = a, bx_taken = [], bx_delivered = []\<rparr>"
  have s: "subscribe ''p'' ''h'' ''started'' 7 0 None (bx_bus (idle_exec demo_bus)) =
      Inr (demo_open\<lparr>bs_accepting := False, bs_consumer := No_consumer\<rparr>)"
    by (simp add: subscribe_def idle_exec_def demo_bus_def demo_open_def demo_hook_def)
  have 1: "bus_step en_body decode (idle_exec demo_bus)
      (?x (demo_open\<lparr>bs_accepting := False, bs_consumer := No_consumer\<rparr>) [])"
    using bus_step.subscribe [OF s, of en_body decode] by (simp add: idle_exec_def)
  have 2: "bus_step en_body decode (?x (demo_open\<lparr>bs_accepting := False, bs_consumer := No_consumer\<rparr>) [])
      (?x demo_open [])"
    using bus_step.start [of en_body decode "?x (demo_open\<lparr>bs_accepting := False, bs_consumer := No_consumer\<rparr>) []"]
    by (simp add: start_bus_def demo_open_def)
  let ?full = "demo_open\<lparr>bs_queue := demo_queue, bs_pending_count := 1, bs_pending_bytes := 3\<rparr>"
  have e: "enqueue_notification en_body demo_event demo_open = (True, ?full)"
    "enqueue_notification en_body demo_event ?full = (False, ?full\<lparr>bs_dropped := 1\<rparr>)"
    by (simp_all add: enqueue_notification_def matching_subscriptions_def note_drop_def Let_def
        demo_event_def demo_open_def demo_bus_def demo_queue_def demo_hook_def)
  have q: "bs_queue demo_open = []" "en_body demo_event = ''abc''" "demo_queue \<noteq> []"
    by (simp_all add: demo_open_def demo_bus_def demo_event_def demo_queue_def)
  have 3: "bus_step en_body decode (?x demo_open []) (?x ?full [''abc''])"
    using bus_step.enqueue [of en_body demo_event "?x demo_open []" True ?full decode] e(1) q by simp
  have 4: "bus_step en_body decode (?x ?full [''abc'']) (?x (?full\<lparr>bs_dropped := 1\<rparr>) [''abc''])"
    using bus_step.enqueue [of en_body demo_event "?x ?full [''abc'']" False "?full\<lparr>bs_dropped := 1\<rparr>" decode] e(2)
    by simp
  show ?thesis
    using bus_run.bus_more [OF bus_run.bus_more [OF bus_run.bus_more [OF bus_run.bus_more [OF
      bus_run.bus_stop 1] 2] 3] 4] .
qed

theorem notifications_bounded_and_ordered_witness:
  "weight demo_queue \<le> 10 \<and> bs_capacity demo_open = 1"
proof -
  have "new_bus 3 1 10 = Inr demo_bus" by (simp add: new_bus_def demo_bus_def)
  from notifications_bounded_and_ordered [OF this demo_exec]
  show ?thesis by (simp add: pending_def demo_open_def demo_bus_def)
qed

end
