(* ===== verification/Connector_Journal.thy ===== *)
theory Connector_Journal
  imports Json Results
begin

text \<open>
  The journal of the agent connector: \<open>packages/yuki-agent-connector\<close>, file \<open>journal.py\<close>.
  It keeps the original commands with one native receipt each, and the events the host has
  not acknowledged. A Python dictionary is an association list; the stored text is its
  canonical form (\<open>encode\<close>, sorted keys), so two commands are the same when their canonical
  forms are. \<open>{**a, **b}\<close> is \<open>AList.merge\<close>; the order in which it appends new keys is not
  observable after encoding. Operation and event ids are JSON strings.

  \<open>jn_last\<close> is the AUTOINCREMENT counter of the event table. A method that raises returns
  \<open>Inl\<close>: its transaction is rolled back. The hash of a file payload is a parameter
  (\<open>digest\<close>: the SHA-256 of the decoded base64 text, \<open>None\<close> when it does not decode).
\<close>

type_synonym dict = "(string \<times> json) list"

record operation_row =
  op_id :: string
  op_command :: dict
  op_response :: "dict option"
  op_observing :: bool
  op_receipt :: dict
  op_owner :: "string option"

record event_row =
  ev_sequence :: int
  ev_id :: string
  ev_event :: dict

record journal =
  jn_operations :: "operation_row list"
  jn_events :: "event_row list"
  jn_last :: int

datatype journal_error = Operation_reused | Not_recorded | Key_missing | Type_mismatch | Integrity_error

section \<open>Dictionaries\<close>

definition encode_dict :: "dict \<Rightarrow> dict" where
  "encode_dict d = sort_key fst (map (\<lambda>kv. (fst kv, encode_json (snd kv))) d)"

definition dmerge :: "dict \<Rightarrow> dict \<Rightarrow> dict" where
  "dmerge a b = AList.merge a b"

definition dput :: "string \<Rightarrow> json \<Rightarrow> dict \<Rightarrow> dict" where
  "dput k v d = AList.update k v d"

definition dpop :: "string \<Rightarrow> dict \<Rightarrow> dict" where
  "dpop k d = AList.delete k d"

text \<open>\<open>d.get(k) is not None\<close>.\<close>

definition given :: "string \<Rightarrow> dict \<Rightarrow> bool" where
  "given k d \<longleftrightarrow> (case map_of d k of None \<Rightarrow> False | Some JNull \<Rightarrow> False | _ \<Rightarrow> True)"

lemma map_of_dmerge [simp]: "map_of (dmerge a b) k = (case map_of b k of None \<Rightarrow> map_of a k | Some v \<Rightarrow> Some v)"
  by (simp add: dmerge_def merge_conv' map_add_def)

lemma map_of_dput [simp]: "map_of (dput k v d) k' = (if k = k' then Some v else map_of d k')"
  by (simp add: dput_def update_conv)

lemma map_of_dpop [simp]: "map_of (dpop k d) k' = (if k = k' then None else map_of d k')"
  by (simp add: dpop_def delete_conv)

lemma map_of_encode_dict [simp]: "map_of (encode_dict d) k = map_option encode_json (map_of d k)"
proof -
  have "map_of (map (\<lambda>kv. (fst kv, encode_json (snd kv))) d) k = map_option encode_json (map_of d k)"
    by (induction d) auto
  then show ?thesis by (simp add: encode_dict_def map_of_sort_key)
qed

section \<open>Receipts\<close>

definition terminal_names :: "string list" where
  "terminal_names = [''completed'', ''succeeded'', ''failed'', ''cancelled'', ''detached'']"

definition observed_actions :: "string list" where
  "observed_actions = [''watch'', ''prompt'', ''queue'', ''exec'']"

definition terminal_status :: "dict \<Rightarrow> bool" where
  "terminal_status d = (case map_of d ''status'' of Some (JStr s) \<Rightarrow> s \<in> set terminal_names | _ \<Rightarrow> False)"

definition is_true :: "string \<Rightarrow> dict \<Rightarrow> bool" where
  "is_true k d \<longleftrightarrow> map_of d k = Some (JBool True)"

definition fold_receipt :: "dict \<Rightarrow> dict \<Rightarrow> int \<Rightarrow> dict" where
  "fold_receipt previous facts sequence =
    (if terminal_status previous then dput ''state_sequence'' (JInt sequence) previous
     else
       (let r0 = dput ''state_sequence'' (JInt sequence) (dmerge previous facts);
            r1 = (if is_true ''admitted'' previous then dput ''admitted'' (JBool True) r0 else r0);
            r2 = (if terminal_status r1 then dput ''pending'' (JBool False) r1 else r1)
        in if truthy_opt (map_of facts ''status'') \<and> map_of facts ''status'' \<noteq> Some (JStr ''unknown'')
           then dpop ''last_confirmed'' (dpop ''error_type'' (dpop ''reason'' r2)) else r2))"

definition action_of :: "dict \<Rightarrow> journal_error + string" where
  "action_of c = (case map_of c ''action'' of None \<Rightarrow> Inl Key_missing | Some (JStr a) \<Rightarrow> Inr a
     | Some _ \<Rightarrow> Inr [])"

definition observed :: "dict \<Rightarrow> bool" where
  "observed c = (case map_of c ''action'' of Some (JStr a) \<Rightarrow> a \<in> set observed_actions | _ \<Rightarrow> False)"

definition original_command :: "(string \<Rightarrow> string option) \<Rightarrow> dict \<Rightarrow> journal_error + dict" where
  "original_command digest c =
    (case action_of c of
       Inl e \<Rightarrow> Inl e
     | Inr a \<Rightarrow>
        if map_of c ''resource'' = Some (JStr ''file'') \<and> a = ''write''
        then (case map_of c ''arguments'' of
                None \<Rightarrow> Inl Key_missing
              | Some (JObj args) \<Rightarrow>
                  (case map_of args ''data_base64'' of
                     None \<Rightarrow> Inr c
                   | Some (JStr data) \<Rightarrow>
                       (case digest data of
                          None \<Rightarrow> Inl Type_mismatch
                        | Some h \<Rightarrow> Inr (dput ''arguments''
                            (JObj (dput ''data_sha256'' (JStr h) (dpop ''data_base64'' args))) c))
                   | Some _ \<Rightarrow> Inl Type_mismatch)
              | Some _ \<Rightarrow> Inl Type_mismatch)
        else if a = ''watch''
        then Inr (dmerge [(''observation_scope'', JStr ''execution'')] c)
        else Inr c)"

definition copy_given :: "string list \<Rightarrow> dict \<Rightarrow> dict" where
  "copy_given ks d = [(k, the (map_of d k)). k \<leftarrow> ks, given k d]"

definition initial_receipt :: "dict \<Rightarrow> dict" where
  "initial_receipt c =
     [(''status'', JStr ''unknown''), (''reason'', JStr ''original_dispatch_not_confirmed''),
      (''state_sequence'', JInt 0)] @
     (if observed c then [(''pending'', JBool True)] else []) @
     copy_given [''session_id'', ''execution_id'', ''run_id''] c"

definition response_state :: "dict \<Rightarrow> journal_error + dict" where
  "response_state r =
    (case map_of r ''error'' of
       Some e \<Rightarrow> Inr [(''status'', JStr ''failed''), (''admitted'', JBool False), (''error'', e)]
     | None \<Rightarrow>
        (case map_of r ''result'' of None \<Rightarrow> Inr [] | Some (JObj d) \<Rightarrow> Inr d | Some _ \<Rightarrow> Inl Type_mismatch))"

text \<open>A payload that is not an object is an error here (no driver sends one).\<close>

definition sub_dict :: "string \<Rightarrow> dict \<Rightarrow> journal_error + dict" where
  "sub_dict k d = (case map_of d k of None \<Rightarrow> Inr [] | Some (JObj p) \<Rightarrow> Inr p | Some _ \<Rightarrow> Inl Type_mismatch)"

definition fact_keys :: "string list" where
  "fact_keys = [''status'', ''pending'', ''admitted'', ''reason'', ''error_type'', ''error'', ''last_confirmed'']"

definition event_facts :: "dict \<Rightarrow> journal_error + dict" where
  "event_facts ev =
    (let final = (map_of ev ''type'' = Some (JStr ''terminal_event''))
     in case sub_dict (if final then ''result'' else ''payload'') ev of
          Inl e \<Rightarrow> Inl e
        | Inr payload \<Rightarrow>
           (let f0 = [(k, the (map_of payload k)). k \<leftarrow> fact_keys, map_of payload k \<noteq> None];
                f1 = dmerge f0 (copy_given [''session_id'', ''execution_id''] ev)
            in case map_of ev ''kind'' of
                 None \<Rightarrow> Inl Key_missing
               | Some kind \<Rightarrow>
                   if kind = JStr ''completed''
                   then (let f2 = dput ''admitted'' (JBool True) (dput ''pending'' (JBool False) (dmerge f1 payload))
                         in Inr (if final then dput ''completion'' (JObj payload) f2 else f2))
                   else Inr f1))"

section \<open>Rows\<close>

definition find_operation :: "string \<Rightarrow> journal \<Rightarrow> operation_row option" where
  "find_operation key j = lookup_by op_id key (jn_operations j)"

definition update_operation :: "string \<Rightarrow> (operation_row \<Rightarrow> operation_row) \<Rightarrow> journal \<Rightarrow> journal" where
  "update_operation key f j = j\<lparr>jn_operations := update_where (\<lambda>r. op_id r = key) f (jn_operations j)\<rparr>"

definition operation :: "string \<Rightarrow> journal \<Rightarrow> dict" where
  "operation key j =
    (case find_operation key j of None \<Rightarrow> [(''status'', JStr ''not_found'')] | Some r \<Rightarrow> op_receipt r)"

definition original :: "string \<Rightarrow> journal \<Rightarrow> (dict \<times> string option) option" where
  "original key j = map_option (\<lambda>r. (op_command r, op_owner r)) (find_operation key j)"

definition observation :: "string \<Rightarrow> journal \<Rightarrow> (dict \<times> dict) option" where
  "observation key j =
    (case find_operation key j of
       None \<Rightarrow> None
     | Some r \<Rightarrow> if op_observing r then Some (op_command r, op_receipt r) else None)"

definition observations :: "json option \<Rightarrow> journal \<Rightarrow> (dict \<times> dict) list" where
  "observations instance_id j =
    [(op_command r, op_receipt r). r \<leftarrow> jn_operations j, op_observing r,
      (case instance_id of None \<Rightarrow> True
       | Some i \<Rightarrow> json_extract [''instance_id''] (JObj (op_command r)) = Some i)]"

definition next_event :: "int \<Rightarrow> journal \<Rightarrow> event_row option" where
  "next_event after j = List.find (\<lambda>e. ev_sequence e > after) (sort_key ev_sequence (jn_events j))"

definition ack :: "string \<Rightarrow> journal \<Rightarrow> journal" where
  "ack key j = j\<lparr>jn_events := filter (\<lambda>e. ev_id e \<noteq> key) (jn_events j)\<rparr>"

text \<open>
  \<open>_next_sequence\<close> reserves a number of the event order by inserting and deleting a row.
\<close>

definition next_sequence :: "string \<Rightarrow> journal \<Rightarrow> journal_error + (int \<times> journal)" where
  "next_sequence key j =
    (if ''response:'' @ key \<in> ev_id ` set (jn_events j) then Inl Integrity_error
     else Inr (jn_last j + 1, j\<lparr>jn_last := jn_last j + 1\<rparr>))"

section \<open>Commands and responses\<close>

definition new_operation :: "string \<Rightarrow> dict \<Rightarrow> string option \<Rightarrow> operation_row" where
  "new_operation key c owner = \<lparr>op_id = key, op_command = encode_dict c, op_response = None,
     op_observing = observed c, op_receipt = encode_dict (initial_receipt c), op_owner = owner\<rparr>"

definition begin_command :: "(string \<Rightarrow> string option) \<Rightarrow> dict \<Rightarrow> string option \<Rightarrow> journal \<Rightarrow>
    journal_error + (dict option \<times> journal)" where
  "begin_command digest command owner j =
    ebind (original_command digest command) (\<lambda>c.
      case map_of c ''id'' of
        Some (JStr key) \<Rightarrow>
          (case find_operation key j of
             Some r \<Rightarrow>
               if op_command r \<noteq> encode_dict c then Inl Operation_reused
               else Inr (Some [(''type'', JStr ''response''), (''id'', JStr key),
                      (''result'', JObj (operation key j))], j)
           | None \<Rightarrow> Inr (None, j\<lparr>jn_operations := jn_operations j @ [new_operation key c owner]\<rparr>))
      | None \<Rightarrow> Inl Key_missing
      | _ \<Rightarrow> Inl Type_mismatch)"

definition detach :: "string \<Rightarrow> int \<Rightarrow> journal \<Rightarrow> journal" where
  "detach key sequence j =
    (let state = dput ''detached'' (JBool True) (fold_receipt (operation key j)
           [(''status'', JStr ''detached''), (''pending'', JBool False), (''detached'', JBool True)] sequence)
     in update_operation key (\<lambda>r. r\<lparr>op_observing := False, op_receipt := encode_dict state\<rparr>) j)"

text \<open>\<open>command["arguments"]["operation_id"]\<close>, and the same through \<open>get\<close>.\<close>

definition detach_target :: "dict \<Rightarrow> journal_error + string" where
  "detach_target c =
    (case map_of c ''arguments'' of
       Some (JObj args) \<Rightarrow>
         (case map_of args ''operation_id'' of
            None \<Rightarrow> Inl Key_missing | Some (JStr k) \<Rightarrow> Inr k | Some _ \<Rightarrow> Inl Type_mismatch)
     | None \<Rightarrow> Inl Key_missing
     | Some _ \<Rightarrow> Inl Type_mismatch)"

definition cancel_target :: "dict \<Rightarrow> journal_error + string option" where
  "cancel_target c =
    ebind (sub_dict ''arguments'' c) (\<lambda>args.
      case map_of args ''operation_id'' of
        None \<Rightarrow> Inr None | Some JNull \<Rightarrow> Inr None | Some (JStr k) \<Rightarrow> Inr (Some k)
      | Some _ \<Rightarrow> Inl Type_mismatch)"

definition unconfirmed :: "dict \<Rightarrow> bool" where
  "unconfirmed state \<longleftrightarrow> \<not> truthy_opt (map_of state ''state_sequence'') \<or>
     map_of state ''reason'' = Some (JStr ''original_dispatch_not_confirmed'')"

definition session_scoped :: "dict \<Rightarrow> bool" where
  "session_scoped c \<longleftrightarrow> map_of c ''observation_scope'' = Some (JStr ''session'')"

definition responded :: "dict \<Rightarrow> dict \<Rightarrow> dict \<Rightarrow> int \<Rightarrow> dict" where
  "responded c state result sequence =
    (let s1 = (if unconfirmed state then fold_receipt state result sequence
               else dput ''state_sequence'' (JInt sequence) (dmerge result state))
     in if session_scoped c then dpop ''execution_id'' s1 else s1)"

definition receive :: "dict \<Rightarrow> operation_row \<Rightarrow> operation_row" where
  "receive state r = r\<lparr>op_receipt := encode_dict state,
     op_observing := observed (op_command r) \<and> \<not> terminal_status state\<rparr>"

definition complete :: "string \<Rightarrow> dict \<Rightarrow> journal \<Rightarrow> journal_error + journal" where
  "complete key response j =
    (case find_operation key j of
       None \<Rightarrow> Inl Type_mismatch
     | Some row \<Rightarrow>
        ebind (response_state response) (\<lambda>result.
        ebind (next_sequence key j) (\<lambda>(sequence, j1).
        ebind (action_of (op_command row)) (\<lambda>action.
          let state = responded (op_command row) (op_receipt row) result sequence;
              j2 = update_operation key
                (\<lambda>r. receive state (r\<lparr>op_response := Some (encode_dict response)\<rparr>)) j1
          in if action = ''detach'' \<and> is_true ''admitted'' result \<and> is_true ''detached'' result
             then ebind (detach_target (op_command row)) (\<lambda>target. Inr (detach target sequence j2))
             else if action = ''cancel'' \<and> map_of result ''pending'' = Some (JBool False) \<and>
                     terminal_status result
             then ebind (cancel_target (op_command row)) (\<lambda>target.
                    case target of
                      None \<Rightarrow> Inr j2
                    | Some k \<Rightarrow>
                        Inr (update_operation k (\<lambda>r. r\<lparr>op_observing := False,
                          op_receipt := encode_dict (fold_receipt (operation k j2) result sequence)\<rparr>) j2))
             else Inr j2))))"

definition annotate :: "string \<Rightarrow> dict \<Rightarrow> journal \<Rightarrow> journal_error + (dict \<times> journal)" where
  "annotate key facts j =
    (if map_of (operation key j) ''status'' = Some (JStr ''not_found'') then Inl Not_recorded
     else ebind (next_sequence key j) (\<lambda>(sequence, j1).
       let state = dput ''state_sequence'' (JInt sequence) (dmerge (operation key j) facts)
       in Inr (state, update_operation key (\<lambda>r. r\<lparr>op_receipt := encode_dict state\<rparr>) j1)))"

text \<open>
  The callback of a terminal's observer (\<open>finished\<close> in \<open>terminal.py\<close>): when the observer died of
  an exception (\<open>error\<close> is its class name) and the receipt has none of three final statuses, the
  receipt is annotated with the status \<open>unknown\<close>.
\<close>

definition native_results :: "string list" where
  "native_results = [''succeeded'', ''failed'', ''cancelled'']"

definition observation_lost :: "string \<Rightarrow> string \<Rightarrow> journal \<Rightarrow> journal_error + journal" where
  "observation_lost key error j =
    (if map_of (operation key j) ''status'' \<in> Some ` JStr ` set native_results then Inr j
     else ebind (annotate key [(''status'', JStr ''unknown''), (''pending'', JBool True),
            (''reason'', JStr ''terminal_observation_lost''), (''error_type'', JStr error)] j)
       (\<lambda>(state, j'). Inr j'))"

section \<open>Events\<close>

definition project_event :: "dict \<Rightarrow> int \<Rightarrow> journal \<Rightarrow> journal_error + (dict \<times> journal)" where
  "project_event ev sequence j =
    (let ev1 = dput ''sequence'' (JInt sequence) ev
     in case map_of ev ''operation_id'' of
          None \<Rightarrow> Inr (ev1, j)
        | Some JNull \<Rightarrow> Inr (ev1, j)
        | Some (JStr key) \<Rightarrow>
            (case find_operation key j of
               None \<Rightarrow> Inr (ev1, j)
             | Some row \<Rightarrow>
                 ebind (event_facts ev1) (\<lambda>facts.
                   let state = fold_receipt (op_receipt row)
                         (if session_scoped (op_command row) then dpop ''execution_id'' facts else facts) sequence
                   in Inr (dput ''operation_state'' (JObj state) ev1,
                           update_operation key (receive state) j)))
        | Some _ \<Rightarrow> Inl Type_mismatch)"

text \<open>
  Whether an event is ignored: the operation was detached, or the event belongs to an older
  snapshot of the receipt and does not end the operation.
\<close>

definition outdated :: "dict \<Rightarrow> journal \<Rightarrow> journal_error + bool" where
  "outdated ev j =
    (case map_of ev ''operation_id'' of
       Some (JStr key) \<Rightarrow>
         (let current = operation key j
          in if key = [] then Inr False
             else if truthy_opt (map_of current ''detached'') then Inr True
             else if \<not> given ''snapshot_sequence'' ev \<or>
                     map_of ev ''snapshot_sequence'' =
                       Some (case map_of current ''state_sequence'' of None \<Rightarrow> JInt 0 | Some v \<Rightarrow> v)
             then Inr False
             else (case map_of ev ''kind'' of
                     None \<Rightarrow> Inl Key_missing
                   | Some kind \<Rightarrow>
                       if kind = JStr ''completed''
                       then ebind (sub_dict ''payload'' ev) (\<lambda>p. Inr (\<not> terminal_status p))
                       else Inr True))
     | None \<Rightarrow> Inr False
     | Some v \<Rightarrow> if truthy v then Inl Type_mismatch else Inr False)"

text \<open>
  \<open>burn\<close> says whether SQLite uses up a number for an insertion that it then ignores; both
  are allowed.
\<close>

definition append_event :: "dict \<Rightarrow> bool \<Rightarrow> journal \<Rightarrow> journal_error + journal" where
  "append_event event burn j =
    ebind (outdated event j) (\<lambda>old.
      if old then Inr j
      else (let ev = dpop ''snapshot_sequence'' event
            in case map_of ev ''event_id'' of
                 Some (JStr i) \<Rightarrow>
                   if i \<in> ev_id ` set (jn_events j)
                   then Inr (if burn then j\<lparr>jn_last := jn_last j + 1\<rparr> else j)
                   else (let sequence = jn_last j + 1;
                             j1 = j\<lparr>jn_events := jn_events j @
                                  [\<lparr>ev_sequence = sequence, ev_id = i, ev_event = encode_dict ev\<rparr>],
                                jn_last := sequence\<rparr>
                         in ebind (project_event ev sequence j1) (\<lambda>(ev2, j2).
                              Inr (j2\<lparr>jn_events := update_where (\<lambda>e. ev_sequence e = sequence)
                                (\<lambda>e. e\<lparr>ev_event := encode_dict ev2\<rparr>) (jn_events j2)\<rparr>)))
               | None \<Rightarrow> Inl Key_missing
               | _ \<Rightarrow> Inl Type_mismatch))"

section \<open>Opening a journal\<close>

definition empty_journal :: journal where
  "empty_journal = \<lparr>jn_operations = [], jn_events = [], jn_last = 0\<rparr>"

text \<open>
  \<open>existing\<close> is the namespace the data directory already has and \<open>parse\<close> reads the older
  form, a JSON list of two. The result is the namespace that is stored.
\<close>

definition open_namespace :: "(string \<Rightarrow> json) \<Rightarrow> string option \<Rightarrow> string \<Rightarrow> string option" where
  "open_namespace parse existing namespace =
    (let owner = (case existing of
           None \<Rightarrow> JStr namespace
         | Some e \<Rightarrow>
             if e \<noteq> namespace \<and> take 1 e = ''[''
             then (case parse e of JArr [JStr a, b] \<Rightarrow> b | JArr [JText a, b] \<Rightarrow> b | _ \<Rightarrow> JStr e)
             else JStr e)
     in if owner = JStr namespace then Some namespace else None)"

record legacy_row =
  lg_id :: string
  lg_command :: dict
  lg_response :: "dict option"
  lg_observing :: bool
  lg_receipt :: "dict option"

definition upgrade_operation :: "(string \<Rightarrow> string option) \<Rightarrow> legacy_row \<Rightarrow> journal_error + operation_row" where
  "upgrade_operation digest g =
    ebind (original_command digest (lg_command g)) (\<lambda>c.
    ebind (case lg_response g of
             None \<Rightarrow> Inr (initial_receipt c)
           | Some r \<Rightarrow> ebind (response_state r) (\<lambda>result. Inr (fold_receipt (initial_receipt c) result 0))) (\<lambda>s1.
      let s2 = dput ''state_sequence'' (JInt 0) s1
      in ebind (case lg_receipt g of
                  None \<Rightarrow> Inr s2
                | Some ev \<Rightarrow> ebind (event_facts ev) (\<lambda>facts. Inr (fold_receipt s2 facts 0))) (\<lambda>s3.
           Inr \<lparr>op_id = lg_id g, op_command = encode_dict c, op_response = lg_response g,
             op_observing = (if observed c then \<not> terminal_status s3 else lg_observing g),
             op_receipt = encode_dict s3, op_owner = None\<rparr>)))"

definition acknowledged_detach :: "operation_row \<Rightarrow> bool" where
  "acknowledged_detach r \<longleftrightarrow>
     json_extract [''action''] (JObj (op_command r)) = Some (JStr ''detach'') \<and>
     (case op_response r of
        None \<Rightarrow> False
      | Some x \<Rightarrow> num_eq (json_extract [''result'', ''detached''] (JObj x)) 1 \<and>
                  num_eq (json_extract [''result'', ''admitted''] (JObj x)) 1)"

definition reproject :: "event_row \<Rightarrow> journal \<Rightarrow> journal_error + journal" where
  "reproject e j =
    ebind (project_event (ev_event e) (ev_sequence e) j) (\<lambda>(ev, j1).
      Inr (j1\<lparr>jn_events := update_where (\<lambda>x. ev_id x = ev_id e)
             (\<lambda>x. x\<lparr>ev_event := encode_dict ev\<rparr>) (jn_events j1)\<rparr>))"

definition upgrade_receipts :: "(string \<Rightarrow> string option) \<Rightarrow> legacy_row list \<Rightarrow> event_row list \<Rightarrow> int \<Rightarrow>
    journal_error + journal" where
  "upgrade_receipts digest rows events last_sequence =
    ebind (efold (\<lambda>g ops. ebind (upgrade_operation digest g) (\<lambda>r. Inr (ops @ [r]))) rows []) (\<lambda>ops.
    ebind (efold (\<lambda>r j. ebind (detach_target (op_command r)) (\<lambda>k. Inr (detach k 0 j)))
             (filter acknowledged_detach ops)
             \<lparr>jn_operations = ops, jn_events = events, jn_last = last_sequence\<rparr>) (\<lambda>j1.
    ebind (efold reproject (sort_key ev_sequence events) j1) (\<lambda>j2.
      efold (\<lambda>r j. ebind (next_sequence (op_id r) j) (\<lambda>(sequence, j'). Inr (detach (op_id r) sequence j')))
        (filter (\<lambda>r. num_eq (json_extract [''detached''] (JObj (op_receipt r))) 1) (jn_operations j2)) j2)))"

end
