(* ===== verification/Connector_Journal_Properties.thy ===== *)
theory Connector_Journal_Properties
  imports Connector_Journal
begin

text \<open>
  Properties of the connector's journal over whole executions: the store stays well typed,
  receipts move forward in the order of the event table, and a receipt of a native result is final.
\<close>

section \<open>Receipts\<close>

lemma terminal_statusD:
  "terminal_status d \<Longrightarrow> \<exists>s\<in>set terminal_names. map_of d ''status'' = Some (JStr s)"
  by (auto simp: terminal_status_def split: option.splits json.splits)

lemma terminal_status_cong: "map_of d ''status'' = map_of d' ''status'' \<Longrightarrow> terminal_status d = terminal_status d'"
  by (simp add: terminal_status_def)

lemma terminal_status_dput [simp]: "k \<noteq> ''status'' \<Longrightarrow> terminal_status (dput k v d) = terminal_status d"
  by (simp add: terminal_status_def)

lemma terminal_status_dpop [simp]: "k \<noteq> ''status'' \<Longrightarrow> terminal_status (dpop k d) = terminal_status d"
  by (simp add: terminal_status_def)

lemma terminal_status_encode [simp]: "terminal_status (encode_dict d) = terminal_status d"
  by (cases "map_of d ''status''"; cases "the (map_of d ''status'')") (simp_all add: terminal_status_def)

lemma terminal_status_merge:
  "terminal_status d \<Longrightarrow> map_of (encode_dict (dmerge a d)) ''status'' = map_of d ''status''"
  by (auto dest: terminal_statusD)

lemma encode_status:
  "terminal_status d \<Longrightarrow> map_of (encode_dict d) ''status'' = map_of d ''status''"
  by (auto dest: terminal_statusD)

text \<open>What folding facts into a receipt does to its number and its status.\<close>

lemma fold_receipt_sequence [simp]: "map_of (fold_receipt p f n) ''state_sequence'' = Some (JInt n)"
  by (simp add: fold_receipt_def Let_def)

lemma fold_receipt_final:
  "terminal_status p \<Longrightarrow> map_of (fold_receipt p f n) ''status'' = map_of p ''status''"
  by (simp add: fold_receipt_def)

lemma fold_receipt_status:
  "\<not> terminal_status p \<Longrightarrow> map_of (fold_receipt p f n) ''status'' = map_of (dmerge p f) ''status''"
  by (simp add: fold_receipt_def Let_def)

lemma fold_receipt_ends:
  assumes "terminal_status f"
  shows "terminal_status (fold_receipt p f n)"
proof (cases "terminal_status p")
  case True
  then show ?thesis using fold_receipt_final terminal_status_cong by blast
next
  case False
  have "map_of (dmerge p f) ''status'' = map_of f ''status''"
    using terminal_statusD [OF assms] by auto
  then show ?thesis using fold_receipt_status [OF False, of f n] assms terminal_status_cong by metis
qed

text \<open>An ended receipt is never pending, unless it already said so before it was folded.\<close>

lemma fold_receipt_not_pending:
  assumes "\<not> terminal_status p" "terminal_status f"
  shows "map_of (fold_receipt p f n) ''pending'' = Some (JBool False)"
proof -
  have "terminal_status (dmerge p f)"
    using terminal_statusD [OF assms(2)] by (auto simp: terminal_status_def)
  then show ?thesis using assms(1) by (simp add: fold_receipt_def Let_def)
qed

lemma responded_sequence [simp]: "map_of (responded c s r n) ''state_sequence'' = Some (JInt n)"
  by (simp add: responded_def Let_def)

lemma responded_final:
  assumes "terminal_status s"
  shows "map_of (responded c s r n) ''status'' = map_of s ''status''"
  using terminal_statusD [OF assms] fold_receipt_final [OF assms] by (auto simp: responded_def Let_def)

section \<open>Well-typed journals\<close>

definition stamped :: "int \<Rightarrow> dict \<Rightarrow> bool" where
  "stamped top_seq d \<longleftrightarrow> (\<exists>n. map_of d ''state_sequence'' = Some (JInt n) \<and> 0 \<le> n \<and> n \<le> top_seq)"

definition wf_operation :: "int \<Rightarrow> operation_row \<Rightarrow> bool" where
  "wf_operation top_seq r \<longleftrightarrow> stamped top_seq (op_receipt r) \<and>
     (op_observing r \<longrightarrow> observed (op_command r) \<and> \<not> terminal_status (op_receipt r))"

definition wf_journal :: "journal \<Rightarrow> bool" where
  "wf_journal j \<longleftrightarrow> unique_key op_id (jn_operations j) \<and> unique_key ev_id (jn_events j) \<and>
     sorted_wrt (<) (map ev_sequence (jn_events j)) \<and> 0 \<le> jn_last j \<and>
     (\<forall>e\<in>set (jn_events j). 0 < ev_sequence e \<and> ev_sequence e \<le> jn_last j) \<and>
     (\<forall>r\<in>set (jn_operations j). wf_operation (jn_last j) r)"

lemma wf_journalD:
  assumes "wf_journal j"
  shows "unique_key op_id (jn_operations j)" "unique_key ev_id (jn_events j)"
    and "sorted_wrt (<) (map ev_sequence (jn_events j))" "0 \<le> jn_last j"
    and "e \<in> set (jn_events j) \<Longrightarrow> 0 < ev_sequence e \<and> ev_sequence e \<le> jn_last j"
    and "r \<in> set (jn_operations j) \<Longrightarrow> wf_operation (jn_last j) r"
  using assms by (auto simp: wf_journal_def)

lemma wf_operation_mono: "wf_operation n r \<Longrightarrow> n \<le> m \<Longrightarrow> wf_operation m r"
  by (fastforce simp: wf_operation_def stamped_def)

lemma find_operationD: "find_operation k j = Some r \<Longrightarrow> r \<in> set (jn_operations j) \<and> op_id r = k"
  unfolding find_operation_def by (rule lookup_by_Some_set)

lemma operation_found [simp]: "find_operation k j = Some r \<Longrightarrow> operation k j = op_receipt r"
  by (simp add: operation_def)

section \<open>Receipts only move forward\<close>

definition row_le :: "operation_row \<Rightarrow> operation_row \<Rightarrow> bool" where
  "row_le r r' \<longleftrightarrow> op_command r' = op_command r \<and>
     (terminal_status (op_receipt r) \<longrightarrow> map_of (op_receipt r') ''status'' = map_of (op_receipt r) ''status'') \<and>
     (\<forall>n. map_of (op_receipt r) ''state_sequence'' = Some (JInt n) \<longrightarrow>
        (\<exists>m\<ge>n. map_of (op_receipt r') ''state_sequence'' = Some (JInt m)))"

definition journal_le :: "journal \<Rightarrow> journal \<Rightarrow> bool" where
  "journal_le j j' \<longleftrightarrow> (\<forall>k r. find_operation k j = Some r \<longrightarrow>
     (\<exists>r'. find_operation k j' = Some r' \<and> row_le r r'))"

lemma row_le_refl [simp]: "row_le r r"
  by (auto simp: row_le_def)

lemma row_le_trans: "row_le a b \<Longrightarrow> row_le b c \<Longrightarrow> row_le a c"
proof -
  assume ab: "row_le a b" and bc: "row_le b c"
  have "map_of (op_receipt c) ''status'' = map_of (op_receipt a) ''status''" if "terminal_status (op_receipt a)"
    using ab bc that terminal_status_cong [of "op_receipt b" "op_receipt a"] by (simp add: row_le_def)
  moreover have "\<exists>m\<ge>n. map_of (op_receipt c) ''state_sequence'' = Some (JInt m)"
    if n: "map_of (op_receipt a) ''state_sequence'' = Some (JInt n)" for n
  proof -
    from ab n obtain m where m: "n \<le> m" "map_of (op_receipt b) ''state_sequence'' = Some (JInt m)"
      unfolding row_le_def by blast
    with bc obtain k where "m \<le> k" "map_of (op_receipt c) ''state_sequence'' = Some (JInt k)"
      unfolding row_le_def by blast
    with m show ?thesis by (intro exI [of _ k]) simp
  qed
  ultimately show "row_le a c" using ab bc by (simp add: row_le_def)
qed

lemma journal_le_refl [simp]: "journal_le j j"
  by (auto simp: journal_le_def)

lemma journal_le_trans: "journal_le a b \<Longrightarrow> journal_le b c \<Longrightarrow> journal_le a c"
  unfolding journal_le_def
proof (intro allI impI)
  fix k r
  assume ab: "\<forall>k r. find_operation k a = Some r \<longrightarrow> (\<exists>r'. find_operation k b = Some r' \<and> row_le r r')"
    and bc: "\<forall>k r. find_operation k b = Some r \<longrightarrow> (\<exists>r'. find_operation k c = Some r' \<and> row_le r r')"
    and r: "find_operation k a = Some r"
  from ab r obtain r1 where r1: "find_operation k b = Some r1" "row_le r r1" by blast
  with bc obtain r2 where "find_operation k c = Some r2" "row_le r1 r2" by blast
  then show "\<exists>r'. find_operation k c = Some r' \<and> row_le r r'" using r1 row_le_trans by blast
qed

lemma find_update:
  assumes "\<And>r. op_id (f r) = op_id r"
  shows "find_operation k' (update_operation k f j) =
    (if k = k' then map_option f (find_operation k j) else find_operation k' j)"
proof (cases "find_operation k' j")
  case None
  then show ?thesis
    using lookup_by_update_where [of op_id f k' "\<lambda>r. op_id r = k" "jn_operations j"] assms
    by (auto simp: find_operation_def update_operation_def)
next
  case (Some r)
  then show ?thesis
    using lookup_by_update_where [of op_id f k' "\<lambda>r. op_id r = k" "jn_operations j"] assms
      find_operationD [OF Some]
    by (auto simp: find_operation_def update_operation_def)
qed

text \<open>
  The step all writers of a receipt share: a row receives a state that carries the last
  number handed out and keeps a terminal status.
\<close>

lemma update_good:
  assumes wf: "wf_journal j"
    and id: "\<And>r. op_id (f r) = op_id r"
    and ok: "\<And>r. find_operation k j = Some r \<Longrightarrow> op_command (f r) = op_command r \<and>
      map_of (op_receipt (f r)) ''state_sequence'' = Some (JInt (jn_last j)) \<and>
      (op_observing (f r) \<longrightarrow> observed (op_command r) \<and> \<not> terminal_status (op_receipt (f r))) \<and>
      (terminal_status (op_receipt r) \<longrightarrow> map_of (op_receipt (f r)) ''status'' = map_of (op_receipt r) ''status'')"
  shows "wf_journal (update_operation k f j) \<and> journal_le j (update_operation k f j)"
proof
  note D = wf_journalD [OF wf]
  have row: "find_operation k j = Some r" if "r \<in> set (jn_operations j)" "op_id r = k" for r
    using lookup_by_unique [OF D(1) that(1)] that(2) by (simp add: find_operation_def)
  have "wf_operation (jn_last j) (f r)" if "r \<in> set (jn_operations j)" "op_id r = k" for r
    using ok [OF row [OF that]] D(4) by (auto simp: wf_operation_def stamped_def)
  moreover have "unique_key op_id (update_where (\<lambda>r. op_id r = k) f (jn_operations j))"
    using unique_key_update_where [of op_id f] id D(1) by blast
  ultimately show "wf_journal (update_operation k f j)"
    using D by (auto simp: wf_journal_def update_operation_def set_update_where)
  have le: "row_le r (f r)" if "find_operation k j = Some r" for r
  proof -
    have "stamped (jn_last j) (op_receipt r)"
      using D(6) find_operationD [OF that] by (simp add: wf_operation_def)
    then show ?thesis using ok [OF that] by (auto simp: row_le_def stamped_def)
  qed
  show "journal_le j (update_operation k f j)"
    unfolding journal_le_def
  proof (intro allI impI)
    fix k' r assume r: "find_operation k' j = Some r"
    show "\<exists>r'. find_operation k' (update_operation k f j) = Some r' \<and> row_le r r'"
      using find_update [of f, OF id] r le by (cases "k = k'") simp_all
  qed
qed

lemma next_sequence_good:
  assumes "next_sequence k j = Inr (n, j')" "wf_journal j"
  shows "wf_journal j' \<and> journal_le j j' \<and> n = jn_last j' \<and> jn_operations j' = jn_operations j"
proof -
  have j': "j' = j\<lparr>jn_last := jn_last j + 1\<rparr>" "n = jn_last j + 1"
    using assms(1) by (auto simp: next_sequence_def split: if_splits)
  have "wf_journal j'"
    unfolding wf_journal_def j'(1)
    using wf_journalD [OF assms(2)] by (fastforce intro: wf_operation_mono)
  then show ?thesis by (simp add: j' journal_le_def find_operation_def)
qed

section \<open>Every operation keeps the journal well typed\<close>

definition good_step :: "journal \<Rightarrow> journal \<Rightarrow> bool" where
  "good_step j j' \<longleftrightarrow> wf_journal j' \<and> journal_le j j'"

lemma good_step_trans: "good_step a b \<Longrightarrow> good_step b c \<Longrightarrow> good_step a c"
  using journal_le_trans by (auto simp: good_step_def)

lemma detach_good:
  assumes "wf_journal j" "n = jn_last j"
  shows "good_step j (detach k n j)"
  unfolding good_step_def detach_def Let_def
proof (rule update_good [OF assms(1)], goal_cases)
  case (2 r)
  then show ?case
    using assms(2) fold_receipt_final [of "op_receipt r"] by (auto dest: terminal_statusD)
qed simp

lemma receive_good:
  assumes "wf_journal j" "find_operation k j = Some r0"
    and "map_of state ''state_sequence'' = Some (JInt (jn_last j))"
    and "terminal_status (op_receipt r0) \<Longrightarrow> map_of state ''status'' = map_of (op_receipt r0) ''status''"
    and "\<And>r. g r = r \<or> (\<exists>x. g r = r\<lparr>op_response := x\<rparr>)"
  shows "good_step j (update_operation k (\<lambda>r. receive state (g r)) j)"
proof -
  have g: "op_id (g r) = op_id r" "op_command (g r) = op_command r" for r
    using assms(5) [of r] by auto
  show ?thesis unfolding good_step_def
  proof (rule update_good [OF assms(1)], goal_cases)
    case (1 r)
    then show ?case by (simp add: receive_def g)
  next
    case (2 r)
    then have "r = r0" using assms(2) by simp
    then show ?case using assms(3,4)
      by (auto simp: receive_def g dest: terminal_statusD)
  qed
qed

lemma complete_good:
  assumes "complete k response j = Inr j'" "wf_journal j"
  shows "good_step j j'"
proof -
  obtain row where row: "find_operation k j = Some row"
    using assms(1) by (auto simp: complete_def split: option.splits)
  obtain result where res: "response_state response = Inr result"
    using assms(1) row by (auto simp: complete_def returns)
  obtain n j1 where n: "next_sequence k j = Inr (n, j1)"
    using assms(1) row res by (auto simp: complete_def returns)
  note g1 = next_sequence_good [OF n assms(2)]
  let ?state = "responded (op_command row) (op_receipt row) result n"
  let ?j2 = "update_operation k (\<lambda>r. receive ?state (r\<lparr>op_response := Some (encode_dict response)\<rparr>)) j1"
  have row1: "find_operation k j1 = Some row" using row g1 by (simp add: find_operation_def)
  have s2: "good_step j1 ?j2"
    by (rule receive_good [OF _ row1]) (use g1 responded_final in auto)
  have last: "jn_last ?j2 = n" using g1 by (simp add: update_operation_def)
  have c: "good_step ?j2 (update_operation q (\<lambda>r. r\<lparr>op_observing := False,
      op_receipt := encode_dict (fold_receipt (operation q ?j2) result n)\<rparr>) ?j2)" for q
    unfolding good_step_def
    by (rule update_good) (use s2 last fold_receipt_final in
        \<open>auto simp: good_step_def dest: terminal_statusD\<close>)
  have d: "good_step ?j2 (detach q n ?j2)" for q
    using detach_good [OF _ last [symmetric]] s2 by (simp add: good_step_def)
  have "good_step ?j2 j' \<or> j' = ?j2"
    using assms(1) row res n c d
    by (auto simp: complete_def returns Let_def split: if_splits option.splits)
  then show ?thesis using good_step_trans s2 g1 by (auto simp: good_step_def intro: journal_le_trans)
qed

text \<open>Facts about an execution are attached without a lifecycle of their own.\<close>

lemma annotate_good:
  assumes "annotate k facts j = Inr (state, j')" "wf_journal j" "map_of facts ''status'' = None"
  shows "good_step j j'"
proof -
  obtain n j1 where n: "next_sequence k j = Inr (n, j1)"
    using assms(1) by (auto simp: annotate_def returns split: if_splits)
  note g1 = next_sequence_good [OF n assms(2)]
  have j': "j' = update_operation k (\<lambda>r. r\<lparr>op_receipt := encode_dict
      (dput ''state_sequence'' (JInt n) (dmerge (operation k j) facts))\<rparr>) j1"
    using assms(1) n by (auto simp: annotate_def Let_def split: if_splits)
  have same: "find_operation k j1 = find_operation k j" using g1 by (simp add: find_operation_def)
  have "terminal_status (dmerge (op_receipt r) facts) = terminal_status (op_receipt r)" for r
    by (rule terminal_status_cong) (simp add: assms(3))
  moreover have "wf_operation (jn_last j1) r" if "find_operation k j = Some r" for r
    using wf_journalD(6) [of j1 r] g1 find_operationD [OF that] by auto
  ultimately have "good_step j1 j'"
    unfolding good_step_def j'
    by (intro update_good)
      (use g1 same assms(3) in \<open>auto simp: wf_operation_def dest: terminal_statusD\<close>)
  then show ?thesis using g1 journal_le_trans by (auto simp: good_step_def)
qed

lemma begin_cases:
  assumes "begin_command digest command owner j = Inr (answer, j')"
  obtains (known) "j' = j" "answer \<noteq> None"
    | (fresh) key c where "original_command digest command = Inr c" "map_of c ''id'' = Some (JStr key)"
        "find_operation key j = None" "answer = None"
        "j' = j\<lparr>jn_operations := jn_operations j @ [new_operation key c owner]\<rparr>"
proof -
  obtain c where c: "original_command digest command = Inr c"
    using assms by (auto simp: begin_command_def returns)
  have "\<exists>key. map_of c ''id'' = Some (JStr key)"
    using assms c by (cases "map_of c ''id''"; cases "the (map_of c ''id'')") (simp_all add: begin_command_def)
  then obtain key where key: "map_of c ''id'' = Some (JStr key)" ..
  show ?thesis
  proof (cases "find_operation key j")
    case None
    with assms c key have "answer = None"
      "j' = j\<lparr>jn_operations := jn_operations j @ [new_operation key c owner]\<rparr>"
      by (simp_all add: begin_command_def)
    with c key None show ?thesis by (rule fresh)
  next
    case (Some r)
    with assms c key have "j' = j" "answer \<noteq> None"
      by (auto simp: begin_command_def split: if_splits)
    then show ?thesis by (rule known)
  qed
qed

lemma begin_good:
  assumes "begin_command digest command owner j = Inr (answer, j')" "wf_journal j"
  shows "good_step j j'"
  using assms(1)
proof (cases rule: begin_cases)
  case known
  then show ?thesis using assms(2) by (simp add: good_step_def)
next
  case (fresh key c)
  note c = fresh(3) and j' = fresh(5)
  have st: "map_of (initial_receipt c) ''state_sequence'' = Some (JInt 0)"
    "map_of (initial_receipt c) ''status'' = Some (JStr ''unknown'')"
    by (simp_all add: initial_receipt_def)
  then have nt: "\<not> terminal_status (initial_receipt c)"
    by (simp add: terminal_status_def terminal_names_def)
  have oc: "observed (encode_dict c) = observed c"
    by (cases "map_of c ''action''"; cases "the (map_of c ''action'')") (simp_all add: observed_def)
  have "key \<notin> op_id ` set (jn_operations j)" using c by (simp add: find_operation_def lookup_by_None_iff)
  then have "unique_key op_id (jn_operations j @ [new_operation key c owner])"
    using unique_key_append [of op_id "jn_operations j" "new_operation key c owner"] wf_journalD(1) [OF assms(2)] by (simp add: new_operation_def)
  moreover have "wf_operation (jn_last j) (new_operation key c owner)"
    using st nt oc wf_journalD(4) [OF assms(2)]
    by (auto simp: wf_operation_def stamped_def new_operation_def)
  ultimately have "wf_journal j'"
    using assms(2) by (auto simp: wf_journal_def j')
  moreover have "journal_le j j'"
    unfolding journal_le_def j' by (auto simp: find_operation_def lookup_by_append)
  ultimately show ?thesis by (simp add: good_step_def)
qed

lemma ack_good:
  assumes "wf_journal j"
  shows "good_step j (ack key j)"
proof -
  have "sorted_wrt (<) (map ev_sequence (filter P xs))" if "sorted_wrt (<) (map ev_sequence xs)" for P xs
    using that by (induction xs) auto
  then show ?thesis using assms unique_key_filter [of ev_id]
    by (auto simp: good_step_def wf_journal_def ack_def journal_le_def find_operation_def)
qed

lemma project_cases:
  assumes "project_event ev n j = Inr (ev', j')"
  obtains (unrelated) "j' = j" "\<And>key. map_of ev ''operation_id'' = Some (JStr key) \<Longrightarrow> find_operation key j = None"
    | (folded) key row facts where "map_of ev ''operation_id'' = Some (JStr key)"
        "find_operation key j = Some row"
        "\<exists>f0. event_facts (dput ''sequence'' (JInt n) ev) = Inr f0 \<and>
           facts = (if session_scoped (op_command row) then dpop ''execution_id'' f0 else f0)"
        "j' = update_operation key (receive (fold_receipt (op_receipt row) facts n)) j"
proof (cases "\<exists>key row. map_of ev ''operation_id'' = Some (JStr key) \<and> find_operation key j = Some row")
  case True
  then obtain key row where k: "map_of ev ''operation_id'' = Some (JStr key)" "find_operation key j = Some row"
    by blast
  with assms obtain f0 where "event_facts (dput ''sequence'' (JInt n) ev) = Inr f0"
    "j' = update_operation key (receive (fold_receipt (op_receipt row)
       (if session_scoped (op_command row) then dpop ''execution_id'' f0 else f0) n)) j"
    by (auto simp: project_event_def Let_def returns)
  with k show ?thesis by (intro folded [of key row "if session_scoped (op_command row) then dpop ''execution_id'' f0 else f0"]) auto
next
  case False
  then have none: "map_of ev ''operation_id'' = Some (JStr key) \<Longrightarrow> find_operation key j = None" for key
    by (cases "find_operation key j") auto
  have "j' = j"
  proof (cases "map_of ev ''operation_id''")
    case None
    then show ?thesis using assms by (simp add: project_event_def Let_def)
  next
    case (Some v)
    then show ?thesis using assms none by (cases v) (simp_all add: project_event_def Let_def)
  qed
  then show ?thesis using none by (rule unrelated)
qed

lemma project_event_good:
  assumes "project_event ev (jn_last j) j = Inr (ev', j')" "wf_journal j"
  shows "good_step j j' \<and> jn_events j' = jn_events j \<and> jn_last j' = jn_last j"
proof -
  from assms(1) show ?thesis
  proof (cases rule: project_cases)
    case unrelated
    then show ?thesis using assms(2) by (simp add: good_step_def)
  next
    case (folded key row facts)
    have "good_step j j'" unfolding folded(4)
      using receive_good [OF assms(2) folded(2), of "fold_receipt (op_receipt row) facts (jn_last j)" "\<lambda>r. r"]
        fold_receipt_final by simp
    then show ?thesis by (simp add: folded(4) update_operation_def)
  qed
qed

lemma append_cases:
  assumes "append_event event burn j = Inr j'"
  obtains (ignored) "outdated event j = Inr True" "j' = j"
    | (duplicate) i where "outdated event j = Inr False" "map_of event ''event_id'' = Some (JStr i)"
        "i \<in> ev_id ` set (jn_events j)" "j' = (if burn then j\<lparr>jn_last := jn_last j + 1\<rparr> else j)"
    | (stored) i j1 ev2 j2 where "outdated event j = Inr False"
        "map_of event ''event_id'' = Some (JStr i)" "i \<notin> ev_id ` set (jn_events j)"
        "j1 = j\<lparr>jn_events := jn_events j @ [\<lparr>ev_sequence = jn_last j + 1, ev_id = i,
           ev_event = encode_dict (dpop ''snapshot_sequence'' event)\<rparr>], jn_last := jn_last j + 1\<rparr>"
        "project_event (dpop ''snapshot_sequence'' event) (jn_last j + 1) j1 = Inr (ev2, j2)"
        "j' = j2\<lparr>jn_events := update_where (\<lambda>e. ev_sequence e = jn_last j + 1)
           (\<lambda>e. e\<lparr>ev_event := encode_dict ev2\<rparr>) (jn_events j2)\<rparr>"
proof -
  obtain old where old: "outdated event j = Inr old"
    using assms by (auto simp: append_event_def returns)
  show ?thesis
  proof (cases old)
    case True
    then show ?thesis using assms old by (intro ignored) (simp_all add: append_event_def)
  next
    case False
    have "\<exists>i. map_of event ''event_id'' = Some (JStr i)"
      using assms old False by (cases "map_of event ''event_id''"; cases "the (map_of event ''event_id'')")
        (simp_all add: append_event_def Let_def)
    then obtain i where i: "map_of event ''event_id'' = Some (JStr i)" ..
    show ?thesis
    proof (cases "i \<in> ev_id ` set (jn_events j)")
      case True
      have "j' = (if burn then j\<lparr>jn_last := jn_last j + 1\<rparr> else j)"
        using assms old False i True by (simp add: append_event_def Let_def split: if_splits)
      with old False i True show ?thesis by (intro duplicate [of i]) simp_all
    next
      case new: False
      let ?j1 = "j\<lparr>jn_events := jn_events j @ [\<lparr>ev_sequence = jn_last j + 1, ev_id = i,
           ev_event = encode_dict (dpop ''snapshot_sequence'' event)\<rparr>], jn_last := jn_last j + 1\<rparr>"
      obtain ev2 j2 where p: "project_event (dpop ''snapshot_sequence'' event) (jn_last j + 1) ?j1 = Inr (ev2, j2)"
        and j': "j' = j2\<lparr>jn_events := update_where (\<lambda>e. ev_sequence e = jn_last j + 1)
           (\<lambda>e. e\<lparr>ev_event := encode_dict ev2\<rparr>) (jn_events j2)\<rparr>"
        using assms old False i new by (auto simp: append_event_def Let_def returns)
      show ?thesis by (rule stored [OF _ i new refl p j']) (use old False in simp)
    qed
  qed
qed

lemma append_good:
  assumes "append_event event burn j = Inr j'" "wf_journal j"
  shows "good_step j j'"
  using assms(1)
proof (cases rule: append_cases)
  case ignored
  then show ?thesis using assms(2) by (simp add: good_step_def)
next
  case (duplicate i)
  have "wf_journal (j\<lparr>jn_last := jn_last j + 1\<rparr>)"
    unfolding wf_journal_def using wf_journalD [OF assms(2)] by (fastforce intro: wf_operation_mono)
  then show ?thesis using assms(2) duplicate(4)
    by (simp add: good_step_def journal_le_def find_operation_def)
next
  case (stored i j1 ev2 j2)
  note D = wf_journalD [OF assms(2)]
  have "wf_journal j1"
    unfolding wf_journal_def stored(4)
    using D(1-4) D(5) D(6) stored(3)
    by (fastforce simp: sorted_wrt_append unique_key_def intro: wf_operation_mono)
  moreover have "jn_last j1 = jn_last j + 1" by (simp add: stored(4))
  ultimately have g: "good_step j1 j2 \<and> jn_events j2 = jn_events j1 \<and> jn_last j2 = jn_last j1"
    using project_event_good stored(5) by metis
  have "wf_journal j'"
  proof -
    have m: "map ev_sequence (jn_events j') = map ev_sequence (jn_events j2)"
      "map ev_id (jn_events j') = map ev_id (jn_events j2)"
      unfolding stored(6) by (simp_all add: map_update_where_same)
    have "ev_sequence ` set (jn_events j') = ev_sequence ` set (jn_events j2)"
      using m(1) by (metis set_map)
    then have "\<forall>e\<in>set (jn_events j'). 0 < ev_sequence e \<and> ev_sequence e \<le> jn_last j2"
      using wf_journalD(5) [of j2] g unfolding good_step_def by (metis (no_types, lifting) imageE imageI)
    moreover have "jn_operations j' = jn_operations j2" "jn_last j' = jn_last j2"
      by (simp_all add: stored(6))
    ultimately show ?thesis
      using g m wf_journalD [of j2] unfolding wf_journal_def good_step_def unique_key_def by metis
  qed
  moreover have "journal_le j j'"
  proof -
    have "find_operation k j = find_operation k j1" "find_operation k j' = find_operation k j2" for k
      by (simp_all add: stored(4,6) find_operation_def)
    then show ?thesis using g by (simp add: good_step_def journal_le_def)
  qed
  ultimately show ?thesis by (simp add: good_step_def)
qed

section \<open>A lost observer\<close>

text \<open>
  A receipt of a native result keeps its status for good. An observer that died overwrites any
  other one, also \<open>completed\<close> and \<open>detached\<close>, with \<open>unknown\<close>.
\<close>

definition settled_status :: "dict \<Rightarrow> bool" where
  "settled_status d \<longleftrightarrow> map_of d ''status'' \<in> Some ` JStr ` set native_results"

definition row_fwd :: "operation_row \<Rightarrow> operation_row \<Rightarrow> bool" where
  "row_fwd r r' \<longleftrightarrow> op_command r' = op_command r \<and>
     (settled_status (op_receipt r) \<longrightarrow> map_of (op_receipt r') ''status'' = map_of (op_receipt r) ''status'') \<and>
     (\<forall>n. map_of (op_receipt r) ''state_sequence'' = Some (JInt n) \<longrightarrow>
        (\<exists>m\<ge>n. map_of (op_receipt r') ''state_sequence'' = Some (JInt m)))"

definition journal_fwd :: "journal \<Rightarrow> journal \<Rightarrow> bool" where
  "journal_fwd j j' \<longleftrightarrow> (\<forall>k r. find_operation k j = Some r \<longrightarrow>
     (\<exists>r'. find_operation k j' = Some r' \<and> row_fwd r r'))"

lemma settled_terminal: "settled_status d \<Longrightarrow> terminal_status d"
  by (auto simp: settled_status_def terminal_status_def native_results_def terminal_names_def)

lemma row_le_fwd: "row_le r r' \<Longrightarrow> row_fwd r r'"
  using settled_terminal by (simp add: row_le_def row_fwd_def)

lemma row_fwd_trans: "row_fwd a b \<Longrightarrow> row_fwd b c \<Longrightarrow> row_fwd a c"
proof -
  assume ab: "row_fwd a b" and bc: "row_fwd b c"
  have "map_of (op_receipt c) ''status'' = map_of (op_receipt a) ''status''" if "settled_status (op_receipt a)"
    using ab bc that by (simp add: row_fwd_def settled_status_def)
  moreover have "\<exists>m\<ge>n. map_of (op_receipt c) ''state_sequence'' = Some (JInt m)"
    if n: "map_of (op_receipt a) ''state_sequence'' = Some (JInt n)" for n
  proof -
    from ab n obtain m where m: "n \<le> m" "map_of (op_receipt b) ''state_sequence'' = Some (JInt m)"
      unfolding row_fwd_def by blast
    with bc obtain k where "m \<le> k" "map_of (op_receipt c) ''state_sequence'' = Some (JInt k)"
      unfolding row_fwd_def by blast
    with m show ?thesis by (intro exI [of _ k]) simp
  qed
  ultimately show "row_fwd a c" using ab bc by (simp add: row_fwd_def)
qed

lemma journal_le_fwd: "journal_le j j' \<Longrightarrow> journal_fwd j j'"
  unfolding journal_le_def journal_fwd_def using row_le_fwd by blast

lemma journal_fwd_trans:
  assumes "journal_fwd a b" "journal_fwd b c"
  shows "journal_fwd a c"
  unfolding journal_fwd_def
proof (intro allI impI)
  fix k r assume "find_operation k a = Some r"
  with assms(1) obtain r1 where r1: "find_operation k b = Some r1" "row_fwd r r1"
    unfolding journal_fwd_def by blast
  with assms(2) obtain r2 where "find_operation k c = Some r2" "row_fwd r1 r2"
    unfolding journal_fwd_def by blast
  then show "\<exists>r'. find_operation k c = Some r' \<and> row_fwd r r'" using r1 row_fwd_trans by blast
qed

definition fwd_step :: "journal \<Rightarrow> journal \<Rightarrow> bool" where
  "fwd_step j j' \<longleftrightarrow> wf_journal j' \<and> journal_fwd j j'"

lemma good_fwd: "good_step j j' \<Longrightarrow> fwd_step j j'"
  using journal_le_fwd by (simp add: good_step_def fwd_step_def)

lemma fwd_step_trans: "fwd_step a b \<Longrightarrow> fwd_step b c \<Longrightarrow> fwd_step a c"
  using journal_fwd_trans by (auto simp: fwd_step_def)

lemma update_wf:
  assumes "wf_journal j" "\<And>r. op_id (f r) = op_id r"
    and "\<And>r. r \<in> set (jn_operations j) \<Longrightarrow> op_id r = k \<Longrightarrow> wf_operation (jn_last j) (f r)"
  shows "wf_journal (update_operation k f j) \<and> jn_last (update_operation k f j) = jn_last j \<and>
    jn_events (update_operation k f j) = jn_events j"
proof -
  note D = wf_journalD [OF assms(1)]
  have "unique_key op_id (update_where (\<lambda>r. op_id r = k) f (jn_operations j))"
    using unique_key_update_where [of op_id f] assms(2) D(1) by blast
  then show ?thesis
    using D assms(3) by (auto simp: wf_journal_def update_operation_def set_update_where)
qed

lemma observation_lost_fwd:
  assumes "observation_lost key error j = Inr j'" "wf_journal j"
  shows "fwd_step j j'"
proof (cases "settled_status (operation key j)")
  case True
  then have "j' = j" using assms(1) by (simp add: observation_lost_def settled_status_def)
  then show ?thesis using assms(2) by (simp add: fwd_step_def journal_le_fwd)
next
  case False
  let ?facts = "[(''status'', JStr ''unknown''), (''pending'', JBool True),
      (''reason'', JStr ''terminal_observation_lost''), (''error_type'', JStr error)]"
  obtain state where a: "annotate key ?facts j = Inr (state, j')"
    using assms(1) False unfolding observation_lost_def settled_status_def
    by (auto simp: returns split: if_splits)
  then obtain n j1 where n: "next_sequence key j = Inr (n, j1)"
    by (auto simp: annotate_def returns split: if_splits)
  note g1 = next_sequence_good [OF n assms(2)]
  let ?state = "dput ''state_sequence'' (JInt n) (dmerge (operation key j) ?facts)"
  let ?f = "\<lambda>r. r\<lparr>op_receipt := encode_dict ?state\<rparr>"
  have j': "j' = update_operation key ?f j1"
    using a n by (auto simp: annotate_def Let_def split: if_splits)
  have st: "map_of ?state ''status'' = Some (JStr ''unknown'')" by simp
  have nt: "\<not> terminal_status (encode_dict ?state)"
    by (simp add: terminal_status_def terminal_names_def)
  note D = wf_journalD [OF conjunct1 [OF g1]]
  have row: "wf_operation (jn_last j1) (?f r)" if "r \<in> set (jn_operations j1)" for r
    using D(6) [OF that] D(4) g1 nt by (auto simp: wf_operation_def stamped_def)
  have wf: "wf_journal j'"
    unfolding j' by (rule conjunct1 [OF update_wf]) (use g1 row in auto)
  have le: "row_fwd r (?f r)" if "find_operation key j1 = Some r" for r
  proof -
    have "find_operation key j = Some r" using that g1 by (simp add: find_operation_def)
    then have "\<not> settled_status (op_receipt r)" using False by simp
    moreover have "stamped (jn_last j1) (op_receipt r)"
      using D(6) find_operationD [OF that] by (simp add: wf_operation_def)
    ultimately show ?thesis using g1 by (auto simp: row_fwd_def stamped_def)
  qed
  have "journal_fwd j1 j'"
    unfolding journal_fwd_def
  proof (intro allI impI)
    fix k r assume r: "find_operation k j1 = Some r"
    have "row_fwd r r" by (rule row_le_fwd) simp
    then show "\<exists>r'. find_operation k j' = Some r' \<and> row_fwd r r'"
      unfolding j' using find_update [of ?f] r le by (cases "key = k") simp_all
  qed
  then have "journal_fwd j j'" using journal_fwd_trans [of j j1 j'] journal_le_fwd g1 by blast
  then show ?thesis using wf by (simp add: fwd_step_def)
qed

section \<open>Journals of an older connector\<close>

text \<open>
  An old data directory has the keys and the event order SQLite enforces, and it marks as
  observed only operations of an observing action.
\<close>

definition legacy_ok :: "(string \<Rightarrow> string option) \<Rightarrow> legacy_row list \<Rightarrow> event_row list \<Rightarrow> int \<Rightarrow> bool" where
  "legacy_ok digest rows events n \<longleftrightarrow> unique_key lg_id rows \<and> unique_key ev_id events \<and>
     sorted_wrt (<) (map ev_sequence events) \<and> 0 \<le> n \<and>
     (\<forall>e\<in>set events. 0 < ev_sequence e \<and> ev_sequence e \<le> n) \<and>
     (\<forall>g\<in>set rows. lg_observing g \<longrightarrow> observed (lg_command g))"

lemma observed_cong: "map_of c ''action'' = map_of c' ''action'' \<Longrightarrow> observed c = observed c'"
  by (simp add: observed_def)

lemma observed_encode [simp]: "observed (encode_dict c) = observed c"
  by (cases "map_of c ''action''"; cases "the (map_of c ''action'')") (simp_all add: observed_def)

lemma original_command_action:
  "original_command digest c = Inr c' \<Longrightarrow> map_of c' ''action'' = map_of c ''action''"
  by (auto simp: original_command_def split: sum.splits if_splits option.splits json.splits)

lemma upgrade_operation_ok:
  assumes "upgrade_operation digest g = Inr r" "0 \<le> n" "lg_observing g \<longrightarrow> observed (lg_command g)"
  shows "wf_operation n r \<and> op_id r = lg_id g"
proof -
  obtain c where c: "original_command digest (lg_command g) = Inr c"
    using assms(1) by (auto simp: upgrade_operation_def returns)
  define first where "first = (case lg_response g of None \<Rightarrow> Inr (initial_receipt c)
    | Some r \<Rightarrow> ebind (response_state r) (\<lambda>result. Inr (fold_receipt (initial_receipt c) result 0)))"
  obtain s1 where s1: "first = Inr s1"
    using assms(1) c unfolding upgrade_operation_def first_def by (auto simp: returns)
  define second where "second = (let s2 = dput ''state_sequence'' (JInt 0) s1 in case lg_receipt g of
      None \<Rightarrow> Inr s2
    | Some ev \<Rightarrow> ebind (event_facts ev) (\<lambda>facts. Inr (fold_receipt s2 facts 0)))"
  have u: "upgrade_operation digest g = ebind second (\<lambda>s3. Inr \<lparr>op_id = lg_id g, op_command = encode_dict c,
      op_response = lg_response g,
      op_observing = (if observed c then \<not> terminal_status s3 else lg_observing g),
      op_receipt = encode_dict s3, op_owner = None\<rparr>)"
    using s1 by (simp add: upgrade_operation_def c second_def first_def Let_def)
  then obtain s3 where s3: "second = Inr s3" using assms(1) by (cases second) simp_all
  have r: "r = \<lparr>op_id = lg_id g, op_command = encode_dict c, op_response = lg_response g,
      op_observing = (if observed c then \<not> terminal_status s3 else lg_observing g),
      op_receipt = encode_dict s3, op_owner = None\<rparr>"
    using assms(1) unfolding u s3 by simp
  have "map_of s3 ''state_sequence'' = Some (JInt 0)"
    using s3 by (auto simp: second_def Let_def returns split: option.splits)
  moreover have "observed c = observed (lg_command g)"
    using original_command_action [OF c] observed_cong by blast
  ultimately show ?thesis using assms(2,3) by (auto simp: r wf_operation_def stamped_def)
qed

lemma upgrade_operations_ok:
  assumes "efold (\<lambda>g ops. ebind (upgrade_operation digest g) (\<lambda>r. Inr (ops @ [r]))) rows ops0 = Inr ops"
    and "0 \<le> n" "\<forall>g\<in>set rows. lg_observing g \<longrightarrow> observed (lg_command g)"
    and "\<forall>r\<in>set ops0. wf_operation n r"
  shows "(\<forall>r\<in>set ops. wf_operation n r) \<and> map op_id ops = map op_id ops0 @ map lg_id rows"
  using assms
proof (induction rows arbitrary: ops0)
  case (Cons g rows)
  obtain r where r: "upgrade_operation digest g = Inr r"
    using Cons.prems(1) by (cases "upgrade_operation digest g") simp_all
  then have rest: "efold (\<lambda>g ops. ebind (upgrade_operation digest g) (\<lambda>r. Inr (ops @ [r]))) rows (ops0 @ [r]) = Inr ops"
    using Cons.prems(1) by simp
  have w: "wf_operation n r \<and> op_id r = lg_id g"
    by (rule upgrade_operation_ok [OF r Cons.prems(2)]) (use Cons.prems(3) in simp)
  have "(\<forall>r\<in>set ops. wf_operation n r) \<and> map op_id ops = map op_id (ops0 @ [r]) @ map lg_id rows"
    by (rule Cons.IH [OF rest Cons.prems(2)]) (use w Cons.prems(3,4) in simp_all)
  then show ?case using w by simp
qed simp

lemma detach_wf:
  assumes "wf_journal j" "0 \<le> n" "n \<le> jn_last j"
  shows "wf_journal (detach k n j) \<and> jn_last (detach k n j) = jn_last j"
  unfolding detach_def Let_def
  using update_wf [OF assms(1), of "\<lambda>r. r\<lparr>op_observing := False, op_receipt := encode_dict
      (dput ''detached'' (JBool True) (fold_receipt (operation k j) [(''status'', JStr ''detached''),
        (''pending'', JBool False), (''detached'', JBool True)] n))\<rparr>" k] assms(2,3)
  by (auto simp: wf_operation_def stamped_def)

lemma detaches_wf:
  assumes "efold (\<lambda>r j. ebind (detach_target (op_command r)) (\<lambda>k. Inr (detach k 0 j))) rs j = Inr j'"
    and "wf_journal j"
  shows "wf_journal j' \<and> jn_last j' = jn_last j"
  using assms
proof (induction rs arbitrary: j)
  case (Cons r rs)
  from Cons.prems(1) obtain k where
    rest: "efold (\<lambda>r j. ebind (detach_target (op_command r)) (\<lambda>k. Inr (detach k 0 j))) rs (detach k 0 j) = Inr j'"
    by (auto simp: returns)
  have "wf_journal (detach k 0 j) \<and> jn_last (detach k 0 j) = jn_last j"
    by (rule detach_wf) (use wf_journalD(4) Cons.prems(2) in auto)
  then show ?case using Cons.IH [OF rest] by simp
qed simp

lemma reproject_wf:
  assumes "reproject e j = Inr j'" "wf_journal j" "0 < ev_sequence e" "ev_sequence e \<le> jn_last j"
  shows "wf_journal j' \<and> jn_last j' = jn_last j"
proof -
  obtain ev j1 where p: "project_event (ev_event e) (ev_sequence e) j = Inr (ev, j1)"
    and j': "j' = j1\<lparr>jn_events := update_where (\<lambda>x. ev_id x = ev_id e)
        (\<lambda>x. x\<lparr>ev_event := encode_dict ev\<rparr>) (jn_events j1)\<rparr>"
    using assms(1) by (auto simp: reproject_def returns)
  have w: "wf_journal j1 \<and> jn_last j1 = jn_last j"
    using p
  proof (cases rule: project_cases)
    case (folded key row facts)
    have "wf_operation (jn_last j) (receive (fold_receipt (op_receipt row) facts (ev_sequence e)) r)" for r
      using assms(3,4) by (auto simp: wf_operation_def stamped_def receive_def)
    then show ?thesis
      unfolding folded(4) using update_wf [OF assms(2)] by (simp add: receive_def)
  qed (use assms(2) in simp)
  have "map ev_sequence (update_where (\<lambda>x. ev_id x = ev_id e) (\<lambda>x. x\<lparr>ev_event := encode_dict ev\<rparr>) xs) =
      map ev_sequence xs" for xs :: "event_row list"
    by (induction xs) simp_all
  moreover have "unique_key ev_id (update_where (\<lambda>x. ev_id x = ev_id e)
      (\<lambda>x. x\<lparr>ev_event := encode_dict ev\<rparr>) (jn_events j1))"
    by (subst unique_key_update_where) (use w in \<open>simp_all add: wf_journal_def\<close>)
  ultimately have "wf_journal j'"
    using wf_journalD [OF conjunct1 [OF w]] unfolding j' wf_journal_def
    by (auto simp: set_update_where)
  then show ?thesis using w j' by simp
qed

lemma reprojects_wf:
  assumes "efold reproject es j = Inr j'" "wf_journal j"
    and "\<forall>e\<in>set es. 0 < ev_sequence e \<and> ev_sequence e \<le> jn_last j"
  shows "wf_journal j'"
  using assms
proof (induction es arbitrary: j)
  case (Cons e es)
  from Cons.prems(1) obtain j1 where r: "reproject e j = Inr j1" "efold reproject es j1 = Inr j'"
    by (auto simp: returns)
  from reproject_wf [OF r(1) Cons.prems(2)] Cons.prems(3) have "wf_journal j1 \<and> jn_last j1 = jn_last j"
    by simp
  then show ?case using Cons.IH [OF r(2)] Cons.prems(3) by simp
qed simp

lemma redetach_wf:
  assumes "efold (\<lambda>r j. ebind (next_sequence (op_id r) j)
      (\<lambda>(sequence, j'). Inr (detach (op_id r) sequence j'))) rs j = Inr j'" "wf_journal j"
  shows "wf_journal j'"
  using assms
proof (induction rs arbitrary: j)
  case (Cons r rs)
  from Cons.prems(1) obtain n j1 where n: "next_sequence (op_id r) j = Inr (n, j1)"
    and rest: "efold (\<lambda>r j. ebind (next_sequence (op_id r) j)
      (\<lambda>(sequence, j'). Inr (detach (op_id r) sequence j'))) rs (detach (op_id r) n j1) = Inr j'"
    by (auto simp: returns)
  note g = next_sequence_good [OF n Cons.prems(2)]
  have "wf_journal (detach (op_id r) n j1)"
    using detach_good [of j1 n] g by (simp add: good_step_def)
  then show ?case by (rule Cons.IH [OF rest])
qed simp

lemma upgrade_wf:
  assumes "upgrade_receipts digest rows events n = Inr j" "legacy_ok digest rows events n"
  shows "wf_journal j"
proof -
  note L = assms(2) [unfolded legacy_ok_def]
  obtain ops where ops: "efold (\<lambda>g ops. ebind (upgrade_operation digest g) (\<lambda>r. Inr (ops @ [r]))) rows [] = Inr ops"
    using assms(1) unfolding upgrade_receipts_def by (auto simp: returns)
  let ?j0 = "\<lparr>jn_operations = ops, jn_events = events, jn_last = n\<rparr>"
  obtain j1 where j1: "efold (\<lambda>r j. ebind (detach_target (op_command r)) (\<lambda>k. Inr (detach k 0 j)))
      (filter acknowledged_detach ops) ?j0 = Inr j1"
    using assms(1) ops unfolding upgrade_receipts_def by (auto simp: returns)
  obtain j2 where j2: "efold reproject (sort_key ev_sequence events) j1 = Inr j2"
    and fin: "efold (\<lambda>r j. ebind (next_sequence (op_id r) j)
        (\<lambda>(sequence, j'). Inr (detach (op_id r) sequence j')))
        (filter (\<lambda>r. num_eq (json_extract [''detached''] (JObj (op_receipt r))) 1) (jn_operations j2)) j2 = Inr j"
    using assms(1) ops j1 unfolding upgrade_receipts_def by (auto simp: returns)
  have "(\<forall>r\<in>set ops. wf_operation n r) \<and> map op_id ops = map lg_id rows"
    using upgrade_operations_ok [OF ops, of n] L by simp
  then have "wf_journal ?j0" using L by (simp add: wf_journal_def unique_key_def)
  from detaches_wf [OF j1 this] have "wf_journal j1 \<and> jn_last j1 = n" by simp
  then have "wf_journal j2" using reprojects_wf [OF j2] L by simp
  then show ?thesis by (rule redetach_wf [OF fin])
qed

section \<open>Executions\<close>

text \<open>
  The calls of the connector. \<open>annotate\<close> is called with a status only by a lost observer; the
  other caller (\<open>files.py\<close>) attaches facts without one. \<open>native_step\<close> are the calls of a connector
  whose observers do not die.
\<close>

inductive native_step :: "(string \<Rightarrow> string option) \<Rightarrow> journal \<Rightarrow> journal \<Rightarrow> bool" for digest where
  begins: "begin_command digest command owner j = Inr (answer, j') \<Longrightarrow> native_step digest j j'"
| completes: "complete key response j = Inr j' \<Longrightarrow> native_step digest j j'"
| annotates: "annotate key facts j = Inr (state, j') \<Longrightarrow> map_of facts ''status'' = None \<Longrightarrow>
     native_step digest j j'"
| appends: "append_event event burn j = Inr j' \<Longrightarrow> native_step digest j j'"
| acks: "native_step digest j (ack key j)"

inductive journal_step :: "(string \<Rightarrow> string option) \<Rightarrow> journal \<Rightarrow> journal \<Rightarrow> bool" for digest where
  native: "native_step digest j j' \<Longrightarrow> journal_step digest j j'"
| observer_lost: "observation_lost key error j = Inr j' \<Longrightarrow> journal_step digest j j'"

inductive journal_run :: "(string \<Rightarrow> string option) \<Rightarrow> journal \<Rightarrow> journal \<Rightarrow> bool" for digest where
  journal_stop: "journal_run digest j j"
| journal_more: "journal_run digest j j' \<Longrightarrow> journal_step digest j' j'' \<Longrightarrow> journal_run digest j j''"

inductive native_run :: "(string \<Rightarrow> string option) \<Rightarrow> journal \<Rightarrow> journal \<Rightarrow> bool" for digest where
  native_stop: "native_run digest j j"
| native_more: "native_run digest j j' \<Longrightarrow> native_step digest j' j'' \<Longrightarrow> native_run digest j j''"

text \<open>A connector starts with an empty data directory or with the upgrade of an old one.\<close>

inductive journal_start :: "(string \<Rightarrow> string option) \<Rightarrow> journal \<Rightarrow> bool" for digest where
  fresh: "journal_start digest empty_journal"
| upgraded: "upgrade_receipts digest rows events n = Inr j \<Longrightarrow> legacy_ok digest rows events n \<Longrightarrow>
     journal_start digest j"

lemma native_step_good: "native_step digest j j' \<Longrightarrow> wf_journal j \<Longrightarrow> good_step j j'"
  by (induction rule: native_step.induct)
    (auto intro: begin_good complete_good annotate_good append_good ack_good)

lemma native_run_good: "native_run digest j j' \<Longrightarrow> wf_journal j \<Longrightarrow> good_step j j'"
proof (induction rule: native_run.induct)
  case (native_stop j)
  then show ?case by (simp add: good_step_def)
next
  case (native_more j j' j'')
  then show ?case using native_step_good good_step_trans by (metis good_step_def)
qed

lemma journal_step_fwd: "journal_step digest j j' \<Longrightarrow> wf_journal j \<Longrightarrow> fwd_step j j'"
  by (induction rule: journal_step.induct) (auto intro: good_fwd native_step_good observation_lost_fwd)

lemma journal_run_fwd: "journal_run digest j j' \<Longrightarrow> wf_journal j \<Longrightarrow> fwd_step j j'"
proof (induction rule: journal_run.induct)
  case (journal_stop j)
  then show ?case by (simp add: fwd_step_def journal_le_fwd)
next
  case (journal_more j j' j'')
  then show ?case using journal_step_fwd fwd_step_trans by (metis fwd_step_def)
qed

lemma empty_journal_wf: "wf_journal empty_journal"
  by (simp add: empty_journal_def wf_journal_def unique_key_def)

lemma journal_start_wf: "journal_start digest j \<Longrightarrow> wf_journal j"
  by (induction rule: journal_start.induct) (auto intro: empty_journal_wf upgrade_wf)

section \<open>Properties\<close>

text \<open>An operation whose status is terminal in a well-formed journal is not observed.\<close>

lemma terminal_unobserved:
  assumes "wf_journal j" "find_operation k j = Some r" "terminal_status (op_receipt r)"
  shows "observation k j = None"
proof -
  have "wf_operation (jn_last j) r"
    using wf_journalD(6) [OF assms(1)] find_operationD [OF assms(2)] by blast
  then show ?thesis using assms(2,3) by (auto simp: observation_def wf_operation_def)
qed

lemma terminal_stays:
  assumes "good_step j j'" "find_operation k j = Some r" "terminal_status (op_receipt r)"
  shows "map_of (operation k j') ''status'' = map_of (op_receipt r) ''status'' \<and> observation k j' = None"
proof -
  obtain r' where r': "find_operation k j' = Some r'" "row_le r r'"
    using assms(1,2) unfolding good_step_def journal_le_def by blast
  then have st: "map_of (op_receipt r') ''status'' = map_of (op_receipt r) ''status''"
    using assms(3) by (simp add: row_le_def)
  then have "terminal_status (op_receipt r')" using assms(3) terminal_status_cong by metis
  then show ?thesis
    using r'(1) st terminal_unobserved assms(1) by (simp add: good_step_def)
qed

lemma settled_stays:
  assumes "fwd_step j j'" "find_operation k j = Some r" "settled_status (op_receipt r)"
  shows "map_of (operation k j') ''status'' = map_of (op_receipt r) ''status'' \<and> observation k j' = None"
proof -
  obtain r' where r': "find_operation k j' = Some r'" "row_fwd r r'"
    using assms(1,2) unfolding fwd_step_def journal_fwd_def by blast
  then have st: "map_of (op_receipt r') ''status'' = map_of (op_receipt r) ''status''"
    using assms(3) by (simp add: row_fwd_def)
  then have "terminal_status (op_receipt r')"
    using assms(3) settled_terminal terminal_status_cong by metis
  then show ?thesis
    using r'(1) st terminal_unobserved assms(1) by (simp add: fwd_step_def)
qed

text \<open>
  C39: The journal stays well typed and its receipts only move forward. In every execution of
  the connector, from an empty or an upgraded data directory, the operation ids and the event
  ids are unique, the events are numbered in increasing order within the numbers handed out,
  and every receipt carries an integer number of that order; only operations of an observing
  action without a terminal receipt are observed. From any point of the execution on, an
  operation keeps its command, its number never decreases, and once it succeeded, failed or was
  cancelled it keeps that status and is not observed again. The statuses completed and detached
  are final as long as no observer of a terminal dies; one that does overwrites them with
  unknown.
\<close>

theorem journal_stays_typed:
  assumes "journal_start digest j0" "journal_run digest j0 j" "journal_run digest j j'"
  shows "distinct (map op_id (jn_operations j')) \<and> distinct (map ev_id (jn_events j')) \<and>
    sorted_wrt (<) (map ev_sequence (jn_events j')) \<and>
    (\<forall>e\<in>set (jn_events j'). 0 < ev_sequence e \<and> ev_sequence e \<le> jn_last j') \<and>
    (\<forall>r\<in>set (jn_operations j'). stamped (jn_last j') (op_receipt r) \<and>
       (op_observing r \<longrightarrow> observed (op_command r) \<and> \<not> terminal_status (op_receipt r))) \<and>
    (\<forall>k r. find_operation k j = Some r \<longrightarrow> (\<exists>r'. find_operation k j' = Some r' \<and> row_fwd r r') \<and>
       (settled_status (op_receipt r) \<or> terminal_status (op_receipt r) \<and> native_run digest j j' \<longrightarrow>
          map_of (operation k j') ''status'' = map_of (op_receipt r) ''status'' \<and> observation k j' = None))"
proof -
  have wj: "wf_journal j"
    using journal_run_fwd [OF assms(2) journal_start_wf [OF assms(1)]] by (simp add: fwd_step_def)
  from journal_run_fwd [OF assms(3) wj] have g: "fwd_step j j'" .
  then have w: "wf_journal j'" by (simp add: fwd_step_def)
  show ?thesis
  proof (intro conjI allI impI)
    fix k r assume r: "find_operation k j = Some r"
    then show "\<exists>r'. find_operation k j' = Some r' \<and> row_fwd r r'"
      using g by (simp add: fwd_step_def journal_fwd_def)
    assume "settled_status (op_receipt r) \<or> terminal_status (op_receipt r) \<and> native_run digest j j'"
    then have "map_of (operation k j') ''status'' = map_of (op_receipt r) ''status'' \<and> observation k j' = None"
      using settled_stays [OF g r] terminal_stays [OF native_run_good [OF _ wj] r] by blast
    then show "map_of (operation k j') ''status'' = map_of (op_receipt r) ''status''"
      "observation k j' = None" by simp_all
  qed (use wf_journalD [OF w] in \<open>auto simp: unique_key_def wf_operation_def\<close>)
qed

text \<open>
  C40: A command is dispatched at most once. After \<open>begin\<close> admitted a command, whatever the
  connector does next, the same command is answered with the receipt of the journal and not
  admitted again, and another command under the same id is refused.
\<close>

theorem command_dispatched_once:
  assumes "journal_run digest empty_journal j0" "begin_command digest c owner j0 = Inr (None, j1)"
    and "original_command digest c = Inr c1" "map_of c1 ''id'' = Some (JStr key)"
    and "journal_run digest j1 j"
    and "original_command digest c' = Inr c2" "map_of c2 ''id'' = Some (JStr key)"
  shows "begin_command digest c' owner' j =
    (if encode_dict c2 = encode_dict c1
     then Inr (Some [(''type'', JStr ''response''), (''id'', JStr key),
            (''result'', JObj (operation key j))], j)
     else Inl Operation_reused)"
proof -
  have w0: "wf_journal j0" using journal_run_fwd [OF assms(1) empty_journal_wf] by (simp add: fwd_step_def)
  have new: "find_operation key j1 = Some (new_operation key c1 owner)"
    using assms(2)
  proof (cases rule: begin_cases)
    case (fresh key' c')
    then show ?thesis using assms(3,4) by (simp add: find_operation_def lookup_by_append new_operation_def)
  qed simp
  have "wf_journal j1" using begin_good [OF assms(2) w0] by (simp add: good_step_def)
  from journal_run_fwd [OF assms(5) this] new
  obtain r where r: "find_operation key j = Some r" "row_fwd (new_operation key c1 owner) r"
    unfolding fwd_step_def journal_fwd_def by blast
  then have "op_command r = encode_dict c1" by (simp add: row_fwd_def new_operation_def)
  then show ?thesis using assms(6,7) r(1) by (auto simp: begin_command_def)
qed

section \<open>Witnesses\<close>

text \<open>A watch command that is admitted and then completed by an event of its driver.\<close>

definition demo_command :: dict where
  "demo_command = [(''id'', JStr ''k''), (''action'', JStr ''watch'')]"

definition demo_completion :: dict where
  "demo_completion = [(''event_id'', JStr ''e''), (''kind'', JStr ''completed''), (''operation_id'', JStr ''k''),
     (''payload'', JObj [(''status'', JStr ''succeeded'')])]"

definition demo_digest :: "string \<Rightarrow> string option" where
  "demo_digest s = None"

definition demo_admitted :: journal where
  "demo_admitted = (case begin_command demo_digest demo_command None empty_journal of
     Inr (_, j) \<Rightarrow> j | Inl _ \<Rightarrow> empty_journal)"

definition demo_completed :: journal where
  "demo_completed = (case append_event demo_completion False demo_admitted of
     Inr j \<Rightarrow> j | Inl _ \<Rightarrow> empty_journal)"

lemma demo_values:
  "begin_command demo_digest demo_command None empty_journal = Inr (None, demo_admitted)"
  "append_event demo_completion False demo_admitted = Inr demo_completed"
  "map_option (\<lambda>r. settled_status (op_receipt r)) (find_operation ''k'' demo_completed) = Some True"
  by code_simp+

lemma demo_runs:
  "journal_run demo_digest empty_journal demo_admitted"
  "journal_run demo_digest demo_admitted demo_completed"
  "journal_run demo_digest empty_journal demo_completed"
proof -
  note a = journal_step.native [OF native_step.begins [OF demo_values(1)]]
    and b = journal_step.native [OF native_step.appends [OF demo_values(2)]]
  show "journal_run demo_digest empty_journal demo_admitted"
    by (rule journal_run.journal_more [OF journal_run.journal_stop a])
  then show "journal_run demo_digest empty_journal demo_completed"
    using b by (rule journal_run.journal_more)
  show "journal_run demo_digest demo_admitted demo_completed"
    by (rule journal_run.journal_more [OF journal_run.journal_stop b])
qed

text \<open>
  The observer of a terminal dies after its operation was detached: the receipt says that the
  operation is unknown and pending.
\<close>

lemma lost_observer_overwrites_detached:
  "map (\<lambda>k. map_of (operation ''k'' (detach ''k'' 1 demo_admitted)) k) [''status'', ''pending''] =
     [Some (JStr ''detached''), Some (JBool False)]"
  "(case observation_lost ''k'' ''OSError'' (detach ''k'' 1 demo_admitted) of
      Inr j \<Rightarrow> map (\<lambda>k. map_of (operation ''k'' j) k) [''status'', ''pending''] | Inl _ \<Rightarrow> []) =
     [Some (JStr ''unknown''), Some (JBool True)]"
  by code_simp+

theorem journal_stays_typed_witness:
  "observation ''k'' demo_admitted \<noteq> None \<and> observation ''k'' demo_completed = None"
proof
  show "observation ''k'' demo_admitted \<noteq> None" by code_simp
  obtain r where r: "find_operation ''k'' demo_completed = Some r" "settled_status (op_receipt r)"
    using demo_values(3) by auto
  from journal_stays_typed [OF journal_start.fresh demo_runs(3) journal_run.journal_stop] r
  show "observation ''k'' demo_completed = None" by blast
qed

theorem command_dispatched_once_witness:
  "begin_command demo_digest demo_command (Some ''other'') demo_completed =
     Inr (Some [(''type'', JStr ''response''), (''id'', JStr ''k''),
            (''result'', JObj (operation ''k'' demo_completed))], demo_completed)"
proof -
  let ?c = "dmerge [(''observation_scope'', JStr ''execution'')] demo_command"
  have c: "original_command demo_digest demo_command = Inr ?c"
    by (simp add: original_command_def action_of_def demo_command_def)
  have i: "map_of ?c ''id'' = Some (JStr ''k'')" by (simp add: demo_command_def)
  from command_dispatched_once [OF journal_run.journal_stop demo_values(1) c i demo_runs(2) c i]
  show ?thesis by simp
qed

end
