(* ===== verification/Spec2Isabelle.thy ===== *)
theory Spec2Isabelle
  imports Invocation_Examples Subagent_Examples Erasure_Properties Work_Wait_Properties Tool_Batch Rate_Limit Turn_Coordinator Agent_Loop Text_Split Gateway_Registry Lease_Heartbeat Event_Bus Connector_Journal_Properties
begin

text \<open>
  Verification of the core of Yuki, a social agent that serves chat platforms.

  \<^bold>\<open>The program and its parts.\<close> A gateway connection delivers a message; the turn coordinator
  decides which running turn it supersedes; an activation takes the conversation's lease and
  runs the agent loop, whose tool calls become effects of a Work (the durable unit of work of a
  conversation, with an inbox, children, budgets and deliveries in SQLite); the reply is split
  and sent through the connection registry. A heartbeat keeps the lease alive. Plugins learn
  of what happens through the notification bus, and devices run external agents through a
  connector that keeps a journal of its own. Each theory models one of these parts:

  \<^item> \<^bold>\<open>Yuki_Prelude\<close>, \<^bold>\<open>Json\<close>, \<^bold>\<open>Results\<close>: tables as lists of rows, Python dictionaries and strings,
    JSON values and the SQLite functions over them, fallible results.
  \<^item> \<^bold>\<open>Work_Schema\<close>, \<^bold>\<open>Work_Lease\<close>, \<^bold>\<open>Lease_Protocol\<close>: the Work tables and the activation leases of
    \<open>runtime/work_repository.py\<close> and \<open>runtime/subagent_repository.py\<close>. \<open>db\<close> is the database, one
    list of rows per table; \<open>acquire\<close>, \<open>renew\<close>, \<open>release\<close>, \<open>acquire_worker\<close> and \<open>cancel_scope\<close>
    are the methods, split into the read phase and the writer transaction where the code uses
    two sessions. \<open>lease_step\<close> interleaves them with any other writer. The locale
    \<open>leased_table\<close> is the contract of the two lease tables and is interpreted on both.
  \<^item> \<^bold>\<open>Work_Tree\<close>, \<^bold>\<open>Work_Store\<close>, \<^bold>\<open>Work_Inputs\<close>, \<^bold>\<open>Work_Media\<close>, \<^bold>\<open>Work_Effects\<close>, \<^bold>\<open>Work_Receipts\<close>: admission,
    the state writer and its settlement, the tree queries and budgets, the inbox, media references,
    effects and deliveries, the outcomes recorded for effects and the boundaries of programs.
    \<^bold>\<open>Work_Maintenance\<close>: derived children, the context note, the receipts of finished executions and the
    repair of interrupted preparations.
    \<^bold>\<open>Work_Evolution\<close>, \<^bold>\<open>Work_Operations\<close>, \<^bold>\<open>Work_Receipt_Steps\<close>, \<^bold>\<open>Work_Protocol\<close> show that each of them keeps the
    store well formed and only moves rows forward; \<open>work_run\<close> is a run of these writers. \<^bold>\<open>Work_Properties\<close>,
    \<^bold>\<open>Work_Effects_Properties\<close> state properties over them and \<^bold>\<open>Work_Examples\<close> their witnesses.
  \<^item> \<^bold>\<open>Work_Erasure\<close>: the three writers that take rows back or erase them (\<open>recovered_inputs\<close> of
    \<open>runtime/work_journal.py\<close>, the archive of finished trees, the privacy purge with its foreign keys) and
    \<open>full_run\<close>, a run of every writer. \<^bold>\<open>Erasure_Properties\<close> says what is final over such runs and which
    event may erase it, how every writer treats the leases, and what a purge spares.
  \<^item> \<^bold>\<open>Invocation_Service\<close>: one tool call as a durable operation
    (\<open>services/invocation_service.py\<close>, \<open>capabilities/invocation.py\<close>); \<open>invoke_step\<close> is the
    coroutine between two awaits that touch the store and \<open>service_step\<close> interleaves any number of
    calls with every writer of the Work store. \<^bold>\<open>Invocation_Examples\<close> runs one of them.
    \<^bold>\<open>Tool_Batch\<close>: the batch of calls of one model response (\<open>capabilities/coordinator.py\<close>).
  \<^item> \<^bold>\<open>Subagents\<close>, \<^bold>\<open>Subagent_Archive\<close>: child executions and the management of a Work tree
    (\<open>runtime/subagent_repository.py\<close>, \<open>runtime/work_management.py\<close>): starting, mail, resumption,
    cancellation, the publication and repair of results, the archive. \<^bold>\<open>Subagent_Steps\<close> shows that they
    are steps of the Work store, \<^bold>\<open>Subagent_Properties\<close> and \<^bold>\<open>Archive_Properties\<close> state their properties,
    \<^bold>\<open>Subagent_Examples\<close> the witnesses.
  \<^item> \<^bold>\<open>Work_Waits\<close>, \<^bold>\<open>Work_Wait_Events\<close>: the wait service (\<open>runtime/work_wait.py\<close>). \<open>register_wait\<close> and
    \<open>cancel_wait\<close> are its methods, \<open>deliver\<close> the signal; events, replies and the periodic check are split
    into the read phase and the writer. \<^bold>\<open>Work_Wait_Steps\<close> shows that they are steps of the Work store,
    \<^bold>\<open>Work_Wait_Reads\<close> what the paged read phase of the check selects, and \<^bold>\<open>Work_Wait_Properties\<close> holds the properties and their witnesses.
  \<^item> \<^bold>\<open>Lease_Heartbeat\<close>: \<open>runtime/lease_heartbeat.py\<close>, composed with the lease protocol.
  \<^item> \<^bold>\<open>Turn_Coordinator\<close>: \<open>services/turn_coordinator.py\<close>, one state per conversation, the stages
    of the running tasks, interruption and reservations.
  \<^item> \<^bold>\<open>Agent_Loop\<close>: the provider-neutral loop over requests and tool batches. Its owners are
    parameters, as they are in the code; \<open>loop_from\<close> is a \<open>partial_function\<close>, because without
    a request budget the loop may run forever.
  \<^item> \<^bold>\<open>Transport_Split\<close>, \<^bold>\<open>Text_Split\<close>: splitting of outgoing messages and replies.
  \<^item> \<^bold>\<open>Rate_Limit\<close>: the sliding-window limiters. \<^bold>\<open>Gateway_Registry\<close>: the live connections.
  \<^item> \<^bold>\<open>Event_Bus\<close>: \<open>plugin_host/event_bus.py\<close>. \<^bold>\<open>Connector_Journal\<close>: the journal of the agent
    connector, with its properties in \<^bold>\<open>Connector_Journal_Properties\<close>.
  \<^bold>\<open>How the code is read.\<close> A transaction that raises is \<open>Inl\<close> of its error and no new store. An
  \<open>await\<close> is a cut: what other tasks may do there is a step of the component's step relation
  (\<open>lease_step\<close>, \<open>work_run\<close>, \<open>full_run\<close>, \<open>turn_run\<close>, \<open>hb_step\<close>, \<open>bus_step\<close>, \<open>registry_run\<close>,
  \<open>journal_step\<close>, \<open>service_step\<close>). Clock values are rationals and every operation takes the time it reads
  as an argument. Python integers are unbounded and are \<open>int\<close>; no part modelled here depends
  on a machine width.

  \<^bold>\<open>What the lemmas show.\<close> For every component: that its operations keep its invariant; what they
  do on every branch, errors included; and over whole executions the properties stated in its
  last section, each after a text block with its number. The properties over \<open>work_run\<close> hold as long as
  no archive or purge erases the rows they speak of. The loops that could run forever
  are shown to return (\<open>budgeted_loop_returns\<close>, \<open>transport_split_lossless\<close>, the splitters by
  their termination measures). Tree walks use the number of rows as fuel, which is enough
  because a path without repetition is no longer than the table.

  \<^bold>\<open>Not modelled.\<close> Code whose content is input and output or a third-party interface: platform
  adapters, provider clients, the sandbox, SQLAlchemy sessions and migrations, the web and
  admin surfaces. The memory pipelines and the social services are language-model prompts
  around SQL queries with little state of their own. Of the Work runtime the schedulers, the
  supervisor and the journal of model requests (but for the recovery of inputs) are not modelled; they drive or observe the operations above.
\<close>

end
